(* ===== verification/Prelude.thy ===== *)
theory Prelude
  imports Main "HOL-Library.Word"
begin

text \<open>
  Shared vocabulary of the development: machine integers, the results and polls of the
  source, the accessors of the byte-buffer crate as a parameter, a state-and-error
  composition for the code that threads \<open>&mut self\<close> through fallible calls, and the
  interface of a self-delimiting wire format that the frame, address and message codecs
  provide.
\<close>

unbundle bit_operations_syntax

section \<open>Types\<close>

type_synonym byte = "8 word"
type_synonym u16 = "16 word"
type_synonym u32 = "32 word"
type_synonym u64 = "64 word"

text \<open>
  \<open>Result<A, E>\<close> is the sum \<open>'e + 'a\<close>; the constructors keep the names of the source.
\<close>

abbreviation Err :: "'e \<Rightarrow> 'e + 'a" where
  "Err \<equiv> Inl"

abbreviation Ok :: "'a \<Rightarrow> 'e + 'a" where
  "Ok \<equiv> Inr"

text \<open>\<open>std::task::Poll\<close>.\<close>

datatype 'a poll = Ready 'a | Pending

text \<open>The kinds of \<open>std::io::Error\<close> the modelled code raises or matches on.\<close>

datatype io_error =
    InvalidData | InvalidInput | BrokenPipe | ConnectionReset | ConnectionRefused
  | ConnectionAborted | NotConnected | TimedOut | UnexpectedEof | WouldBlockIo
  | PermissionDenied | OtherIo

section \<open>Collections of facts\<close>

named_theorems wire_simps \<open>encoders and decoders of the wire formats\<close>
named_theorems keeps_intros \<open>compositional preservation rules\<close>

section \<open>Results\<close>

text \<open>The \<open>?\<close> operator and the adapters of \<open>Result\<close> and \<open>Option\<close>.\<close>

fun and_then :: "'e + 'a \<Rightarrow> ('a \<Rightarrow> 'e + 'b) \<Rightarrow> 'e + 'b" where
  "and_then (Inl e) f = Inl e"
| "and_then (Inr a) f = f a"

fun map_err :: "('e \<Rightarrow> 'f) \<Rightarrow> 'e + 'a \<Rightarrow> 'f + 'a" where
  "map_err f (Inl e) = Inl (f e)"
| "map_err f (Inr a) = Inr a"

fun ok_or :: "'e \<Rightarrow> 'a option \<Rightarrow> 'e + 'a" where
  "ok_or e None = Inl e"
| "ok_or e (Some a) = Inr a"

lemma and_then_eq_Inr: "and_then r f = Inr b \<longleftrightarrow> (\<exists>a. r = Inr a \<and> f a = Inr b)"
  by (cases r) auto

lemma and_then_eq_Inl: "and_then r f = Inl e \<longleftrightarrow> r = Inl e \<or> (\<exists>a. r = Inr a \<and> f a = Inl e)"
  by (cases r) auto

lemma ok_or_eq_Inr [simp]: "ok_or e x = Inr a \<longleftrightarrow> x = Some a"
  by (cases x) auto

lemma ok_or_eq_Inl [simp]: "ok_or e x = Inl e' \<longleftrightarrow> x = None \<and> e' = e"
  by (cases x) auto

lemma map_err_eq_Inr [simp]: "map_err f r = Inr a \<longleftrightarrow> r = Inr a"
  by (cases r) auto

section \<open>Stateful fallible code\<close>

text \<open>
  A function that threads a state and may fail: \<open>None\<close> when it panics or does not return.
  \<open>act_bind\<close> is sequencing with the \<open>?\<close> operator.
\<close>

type_synonym ('s, 'e, 'a) fallible = "'s \<Rightarrow> ('s \<times> ('e + 'a)) option"

definition act_bind :: "('s, 'e, 'a) fallible \<Rightarrow> ('a \<Rightarrow> ('s, 'e, 'b) fallible) \<Rightarrow> ('s, 'e, 'b) fallible" where
  "act_bind m f s =
     (case m s of
        None \<Rightarrow> None
      | Some (s', Inl e) \<Rightarrow> Some (s', Err e)
      | Some (s', Inr a) \<Rightarrow> f a s')"

definition act_return :: "'a \<Rightarrow> ('s, 'e, 'a) fallible" where
  "act_return a s = Some (s, Ok a)"

definition act_modify :: "('s \<Rightarrow> 's) \<Rightarrow> ('s, 'e, unit) fallible" where
  "act_modify f s = Some (f s, Ok ())"

lemma act_bind_eq_Some:
  "act_bind m f s = Some (s', r) \<longleftrightarrow>
     (\<exists>e. m s = Some (s', Err e) \<and> r = Err e) \<or> (\<exists>s1 a. m s = Some (s1, Ok a) \<and> f a s1 = Some (s', r))"
  by (auto simp: act_bind_def split: option.splits prod.splits sum.splits)

lemma act_simps [simp]:
  "act_return a s = Some (s, Ok a)"
  "act_modify g s = Some (g s, Ok ())"
  by (simp_all add: act_return_def act_modify_def)

text \<open>
  \<open>.await\<close> on a poll function: it is polled again, in the state the last poll left, until it is
  ready; \<open>None\<close> when it never is.
\<close>

partial_function (option) await :: "('s \<Rightarrow> 's \<times> 'a poll) \<Rightarrow> 's \<Rightarrow> ('s \<times> 'a) option" where
  "await p s = (case p s of (s', Ready a) \<Rightarrow> Some (s', a) | (s', Pending) \<Rightarrow> await p s')"

lemma await_keeps:
  assumes "await p s = Some (s', a)" "\<And>s s' r. p s = (s', r) \<Longrightarrow> f s' = f s"
  shows "f s' = f s"
proof -
  have "p' = p \<longrightarrow> f (fst x) = f s" if "await p' s = Some x" for p' x
  proof (rule await.raw_induct [where P = "\<lambda>p' s x. p' = p \<longrightarrow> f (fst x) = f s", OF _ that], goal_cases)
    case (1 rec p' s x)
    from 1(2) show ?case
      by (auto split: prod.splits poll.splits dest!: 1(1) assms(2))
  qed
  from this [OF assms(1)] show ?thesis by simp
qed

lemma await_returns:
  assumes "P s"
    and "\<And>s s' r. P s \<Longrightarrow> p s = (s', r) \<Longrightarrow>
      (\<exists>a. r = Ready a \<and> Q s' a) \<or> (r = Pending \<and> P s' \<and> (delay s' :: nat) < delay s)"
  shows "\<exists>s' a. await p s = Some (s', a) \<and> Q s' a"
  using assms(1)
proof (induction "delay s" arbitrary: s rule: less_induct)
  case less
  obtain s' r where p: "p s = (s', r)" by (cases "p s")
  from assms(2) [OF less.prems p] show ?case
  proof
    assume "\<exists>a. r = Ready a \<and> Q s' a"
    with p show ?thesis by (subst await.simps) auto
  next
    assume "r = Pending \<and> P s' \<and> delay s' < delay s"
    with less.hyps [of s'] p show ?thesis by (subst await.simps) auto
  qed
qed

section \<open>Lists\<close>

lemma take_drop_pieces:
  "take n bs @ take k (drop n bs) @ drop (k + n) bs = bs"
  by (metis append_take_drop_id drop_drop)

section \<open>Machine integers\<close>

text \<open>\<open>u32::checked_add\<close>.\<close>

definition checked_add :: "'w::len word \<Rightarrow> 'w word \<Rightarrow> 'w word option" where
  "checked_add a b = (if unat a + unat b < 2 ^ LENGTH('w) then Some (a + b) else None)"

lemma checked_add_Some:
  "checked_add a b = Some c \<Longrightarrow> unat c = unat a + unat b"
  by (auto simp: checked_add_def unat_word_ariths split: if_splits)

lemma checked_add_None:
  "checked_add (a :: 'w::len word) b = None \<longleftrightarrow> 2 ^ LENGTH('w) \<le> unat a + unat b"
  by (auto simp: checked_add_def)

lemma unat_sub_le: "b \<le> a \<Longrightarrow> unat (a - b) = unat a - unat (b :: 'w::len word)"
  by (simp add: unat_sub_if' word_le_nat_alt)

lemma unat_add_lt:
  "unat a + unat b < 2 ^ LENGTH('w) \<Longrightarrow> unat (a + b) = unat a + unat (b :: 'w::len word)"
  by (simp add: unat_word_ariths)

lemma unat_of_nat_lt:
  "n < 2 ^ LENGTH('w) \<Longrightarrow> unat (of_nat n :: 'w::len word) = n"
  by (simp add: unat_of_nat)

lemma unat_lt: "unat (w :: 'w::len word) < 2 ^ LENGTH('w)"
  by (rule unsigned_less)

section \<open>The byte-buffer accessors\<close>

text \<open>
  \<open>get_u16\<close>, \<open>get_u32\<close>, \<open>get_u64\<close> and their \<open>put\<close> counterparts of the crate \<open>bytes\<close> are a
  parameter of every definition that reads or writes integers. What the code relies on is that reading
  and writing are inverse on buffers of the right length; \<open>be_ops\<close> is the documented
  (network byte order) behaviour and the instance of every witness.
\<close>

record buf_ops =
  get_u16 :: "byte list \<Rightarrow> u16"
  get_u32 :: "byte list \<Rightarrow> u32"
  get_u64 :: "byte list \<Rightarrow> u64"
  put_u16 :: "u16 \<Rightarrow> byte list"
  put_u32 :: "u32 \<Rightarrow> byte list"
  put_u64 :: "u64 \<Rightarrow> byte list"

locale byte_order =
  fixes B :: buf_ops
  assumes put_u16_len [simp]: "length (put_u16 B x) = 2"
    and put_u32_len [simp]: "length (put_u32 B y) = 4"
    and put_u64_len [simp]: "length (put_u64 B z) = 8"
    and get_put_u16 [simp]: "get_u16 B (put_u16 B x) = x"
    and get_put_u32 [simp]: "get_u32 B (put_u32 B y) = y"
    and get_put_u64 [simp]: "get_u64 B (put_u64 B z) = z"
    and put_get_u16: "length bs = 2 \<Longrightarrow> put_u16 B (get_u16 B bs) = bs"
    and put_get_u32: "length bs = 4 \<Longrightarrow> put_u32 B (get_u32 B bs) = bs"
    and put_get_u64: "length bs = 8 \<Longrightarrow> put_u64 B (get_u64 B bs) = bs"

text \<open>Network byte order, by radix-256 digits.\<close>

fun be_value :: "nat \<Rightarrow> byte list \<Rightarrow> nat" where
  "be_value acc [] = acc"
| "be_value acc (b # bs) = be_value (256 * acc + unat b) bs"

fun be_digits :: "nat \<Rightarrow> nat \<Rightarrow> byte list" where
  "be_digits 0 v = []"
| "be_digits (Suc n) v = of_nat (v div 256 ^ n) # be_digits n (v mod 256 ^ n)"

definition be_ops :: buf_ops where
  "be_ops = \<lparr>get_u16 = (\<lambda>bs. of_nat (be_value 0 bs)), get_u32 = (\<lambda>bs. of_nat (be_value 0 bs)),
             get_u64 = (\<lambda>bs. of_nat (be_value 0 bs)), put_u16 = (\<lambda>w. be_digits 2 (unat w)),
             put_u32 = (\<lambda>w. be_digits 4 (unat w)), put_u64 = (\<lambda>w. be_digits 8 (unat w))\<rparr>"

lemma length_be_digits [simp]: "length (be_digits n v) = n"
  by (induction n arbitrary: v) auto

lemma be_value_acc: "be_value acc bs = acc * 256 ^ length bs + be_value 0 bs"
proof (induction bs arbitrary: acc)
  case (Cons b bs)
  have "be_value (256 * acc + unat b) bs = (256 * acc + unat b) * 256 ^ length bs + be_value 0 bs"
    by (rule Cons.IH)
  moreover have "be_value (unat b) bs = unat b * 256 ^ length bs + be_value 0 bs"
    by (rule Cons.IH)
  ultimately show ?case by (simp add: algebra_simps)
qed simp

lemma be_value_lt: "be_value 0 bs < 256 ^ length bs"
proof (induction bs)
  case (Cons b bs)
  have "unat b < 256" using unat_lt [of b] by simp
  then have "unat b * 256 ^ length bs + be_value 0 bs < (unat b + 1) * 256 ^ length bs"
    using Cons.IH by simp
  also have "\<dots> \<le> 256 * 256 ^ length bs"
    using \<open>unat b < 256\<close> by (intro mult_right_mono) auto
  finally show ?case by (simp add: be_value_acc [of "unat b"])
qed simp

lemma be_value_digits: "v < 256 ^ n \<Longrightarrow> be_value 0 (be_digits n v) = v"
proof (induction n arbitrary: v)
  case (Suc n)
  have d: "v div 256 ^ n < 256"
    using Suc.prems by (simp add: less_mult_imp_div_less)
  then have u: "unat (of_nat (v div 256 ^ n) :: byte) = v div 256 ^ n"
    by (simp add: unat_of_nat_lt)
  have "be_value 0 (be_digits n (v mod 256 ^ n)) = v mod 256 ^ n"
    by (rule Suc.IH) simp
  then show ?case
    using div_mult_mod_eq [of v "256 ^ n"]
    by (simp add: be_value_acc [of "v div 256 ^ n"] u)
qed simp

lemma be_digits_value: "be_digits (length bs) (be_value 0 bs) = bs"
proof (induction bs)
  case (Cons b bs)
  have v: "be_value 0 (b # bs) = unat b * 256 ^ length bs + be_value 0 bs"
    by (simp add: be_value_acc [of "unat b"])
  have "be_value 0 (b # bs) div 256 ^ length bs = unat b"
    and "be_value 0 (b # bs) mod 256 ^ length bs = be_value 0 bs"
    unfolding v using be_value_lt [of bs] by simp_all
  then show ?case by (simp del: be_value.simps add: Cons.IH)
qed simp

lemma be_digits_value_of:
  "length bs = n \<Longrightarrow> be_digits n (be_value 0 bs) = bs"
  using be_digits_value [of bs] by simp

interpretation be: byte_order be_ops
proof
  fix x :: u16 and y :: u32 and z :: u64 and bs :: "byte list"
  show "length (put_u16 be_ops x) = 2" "length (put_u32 be_ops y) = 4" "length (put_u64 be_ops z) = 8"
    by (simp_all add: be_ops_def)
  have "unat x < 256 ^ 2" using unat_lt [of x] by simp
  then show "get_u16 be_ops (put_u16 be_ops x) = x"
    by (simp add: be_ops_def be_value_digits)
  have "unat y < 256 ^ 4" using unat_lt [of y] by simp
  then show "get_u32 be_ops (put_u32 be_ops y) = y"
    by (simp add: be_ops_def be_value_digits)
  have "unat z < 256 ^ 8" using unat_lt [of z] by simp
  then show "get_u64 be_ops (put_u64 be_ops z) = z"
    by (simp add: be_ops_def be_value_digits)
  have lt: "be_value 0 bs < 256 ^ length bs" by (rule be_value_lt)
  show "put_u16 be_ops (get_u16 be_ops bs) = bs" if "length bs = 2"
    using lt that by (simp add: be_ops_def unat_of_nat_lt be_digits_value_of)
  show "put_u32 be_ops (get_u32 be_ops bs) = bs" if "length bs = 4"
    using lt that by (simp add: be_ops_def unat_of_nat_lt be_digits_value_of)
  show "put_u64 be_ops (get_u64 be_ops bs) = bs" if "length bs = 8"
    using lt that by (simp add: be_ops_def unat_of_nat_lt be_digits_value_of)
qed

section \<open>Self-delimiting wire formats\<close>

text \<open>
  The contract of a codec: decoding an encoding followed by anything returns the value and
  what follows it, and a successful decoding consumes input. Clients of a codec (a stream
  of frames, an address made of protocol segments) need only this.
\<close>

locale wire_codec =
  fixes enc :: "'a \<Rightarrow> byte list"
    and dec :: "byte list \<Rightarrow> ('a \<times> byte list) option"
    and ok :: "'a \<Rightarrow> bool"
  assumes dec_enc: "ok x \<Longrightarrow> dec (enc x @ rest) = Some (x, rest)"
    and dec_consumes: "dec bs = Some (x, rest) \<Longrightarrow> length rest < length bs"
begin

lemma enc_prefix_free:
  assumes "ok x" "ok y" "enc x @ r = enc y @ s"
  shows "x = y \<and> r = s"
proof -
  have "dec (enc x @ r) = Some (x, r)" by (rule dec_enc [OF assms(1)])
  moreover have "dec (enc x @ r) = Some (y, s)"
    unfolding assms(3) by (rule dec_enc [OF assms(2)])
  ultimately show ?thesis by simp
qed

lemma enc_nonempty:
  assumes "ok x"
  shows "enc x \<noteq> []"
  using dec_consumes [OF dec_enc [OF assms, of "[]"]] by auto

lemma concat_enc_inj:
  "list_all ok xs \<Longrightarrow> list_all ok ys \<Longrightarrow>
   concat (map enc xs) = concat (map enc ys) \<Longrightarrow> xs = ys"
proof (induction xs arbitrary: ys)
  case Nil
  then show ?case by (cases ys) (auto simp: enc_nonempty)
next
  case (Cons x xs)
  then show ?case
  proof (cases ys)
    case Nil
    with Cons.prems show ?thesis by (auto simp: enc_nonempty)
  next
    case (Cons y ys')
    with Cons.prems have "x = y \<and> concat (map enc xs) = concat (map enc ys')"
      by (intro enc_prefix_free) simp_all
    with Cons Cons.prems Cons.IH [of ys'] show ?thesis by simp
  qed
qed

end

text \<open>Decoding until the input is used up; \<open>None\<close> when a segment does not decode.\<close>

function dec_all :: "(byte list \<Rightarrow> ('a \<times> byte list) option) \<Rightarrow> byte list \<Rightarrow> 'a list option" where
  "dec_all dec bs =
     (if bs = [] then Some []
      else case dec bs of
             None \<Rightarrow> None
           | Some (x, rest) \<Rightarrow>
               if length rest < length bs then map_option ((#) x) (dec_all dec rest) else None)"
  by pat_completeness auto
termination
  by (relation "measure (\<lambda>(d, bs). length bs)") auto

declare dec_all.simps [simp del]

context wire_codec
begin

lemma dec_all_concat_enc:
  "list_all ok xs \<Longrightarrow> dec_all dec (concat (map enc xs)) = Some xs"
proof (induction xs)
  case Nil
  then show ?case by (simp add: dec_all.simps)
next
  case (Cons x xs)
  then have x: "ok x" and xs: "dec_all dec (concat (map enc xs)) = Some xs" by auto
  from x have "0 < length (enc x)" using enc_nonempty by auto
  with x xs show ?case
    by (subst dec_all.simps) (simp add: dec_enc)
qed

end

section \<open>Runs of operations\<close>

text \<open>
  The contract of a component that keeps an invariant: every admissible operation does.
  Then every sequence of them does.
\<close>

locale invariant_system =
  fixes step :: "'op \<Rightarrow> 's \<Rightarrow> 's"
    and adm :: "'op \<Rightarrow> bool"
    and inv :: "'s \<Rightarrow> bool"
  assumes step_inv: "adm op \<Longrightarrow> inv s \<Longrightarrow> inv (step op s)"
begin

lemma run_inv: "list_all adm ops \<Longrightarrow> inv s \<Longrightarrow> inv (fold step ops s)"
  by (induction ops arbitrary: s) (auto intro: step_inv)

end

end
