(* ===== verification/Yamux_Frame.thy ===== *)
theory Yamux_Frame
  imports Prelude
begin

text \<open>
  The yamux wire unit (\<open>yamux/src/frame.rs\<close>, \<open>config.rs\<close>, \<open>error.rs\<close>, \<open>lib.rs\<close>): headers,
  flags, frames and the incremental \<open>FrameCodec\<close>. The codec is shown to be a self-delimiting
  wire format in both directions, to be independent of how the byte stream is cut into
  reads, and to bound what it buffers.
\<close>

section \<open>Configuration and errors\<close>

definition PROTOCOL_VERSION :: byte where
  "PROTOCOL_VERSION = 0"

definition RESERVED_STREAM_ID :: u32 where
  "RESERVED_STREAM_ID = 0"

definition HEADER_SIZE :: nat where
  "HEADER_SIZE = 12"

definition INITIAL_STREAM_WINDOW :: u32 where
  "INITIAL_STREAM_WINDOW = 256 * 1024"

text \<open>Durations are counted in seconds.\<close>

record config =
  accept_backlog :: nat
  enable_keepalive :: bool
  keepalive_interval :: nat
  connection_write_timeout :: nat
  max_stream_count :: nat
  max_stream_window_size :: u32

definition default_config :: config where
  "default_config =
     \<lparr>accept_backlog = 256, enable_keepalive = True, keepalive_interval = 30,
      connection_write_timeout = 10, max_stream_count = 65535,
      max_stream_window_size = INITIAL_STREAM_WINDOW\<rparr>"

datatype yamux_error =
    InvalidVersion | InvalidMsgType | SessionShutdown | StreamsExhausted | DuplicateStream
  | RecvWindowExceeded | Timeout | StreamClosed | UnexpectedFlag | RemoteGoAway
  | ConnectionResetY | ConnectionWriteTimeout | KeepAliveTimeout | SubStreamRemoteClosing
  | WouldBlock

section \<open>Types, flags and go-away codes\<close>

datatype frame_type = Data | WindowUpdate | Ping | GoAway

fun type_value :: "frame_type \<Rightarrow> byte" where
  "type_value Data = 0"
| "type_value WindowUpdate = 1"
| "type_value Ping = 2"
| "type_value GoAway = 3"

definition type_try_from :: "byte \<Rightarrow> frame_type option" where
  "type_try_from v =
     (if v = 0 then Some Data
      else if v = 1 then Some WindowUpdate
      else if v = 2 then Some Ping
      else if v = 3 then Some GoAway
      else None)"

datatype flag = Syn | Ack | Fin | Rst

fun flag_value :: "flag \<Rightarrow> u16" where
  "flag_value Syn = 1"
| "flag_value Ack = 2"
| "flag_value Fin = 4"
| "flag_value Rst = 8"

type_synonym flags = u16

definition flags_from :: "flag \<Rightarrow> flags" where
  "flags_from f = flag_value f"

definition flags_default :: flags where
  "flags_default = 0"

definition flags_add :: "flags \<Rightarrow> flag \<Rightarrow> flags" where
  "flags_add fs f = fs OR flag_value f"

definition flags_remove :: "flags \<Rightarrow> flag \<Rightarrow> flags" where
  "flags_remove fs f = fs XOR flag_value f"

definition contains :: "flags \<Rightarrow> flag \<Rightarrow> bool" where
  "contains fs f \<longleftrightarrow> fs AND flag_value f = flag_value f"

datatype go_away_code = Normal | ProtocolError | InternalError

fun go_away_value :: "go_away_code \<Rightarrow> u32" where
  "go_away_value Normal = 0"
| "go_away_value ProtocolError = 1"
| "go_away_value InternalError = 2"

definition go_away_from :: "u32 \<Rightarrow> go_away_code" where
  "go_away_from v =
     (if v = 0 then Normal
      else if v = 1 then ProtocolError
      else if v = 2 then InternalError
      else ProtocolError)"

section \<open>Frames\<close>

record header =
  hd_version :: byte
  hd_ty :: frame_type
  hd_flags :: flags
  hd_stream_id :: u32
  hd_length :: u32

record frame =
  fr_header :: header
  fr_body :: "byte list option"

text \<open>\<open>Frame::ty\<close>, \<open>stream_id\<close>, \<open>flags\<close>, \<open>length\<close> and \<open>size\<close>.\<close>

definition fr_ty :: "frame \<Rightarrow> frame_type" where
  "fr_ty f = hd_ty (fr_header f)"

definition fr_stream_id :: "frame \<Rightarrow> u32" where
  "fr_stream_id f = hd_stream_id (fr_header f)"

definition fr_flags :: "frame \<Rightarrow> flags" where
  "fr_flags f = hd_flags (fr_header f)"

definition fr_length :: "frame \<Rightarrow> u32" where
  "fr_length f = hd_length (fr_header f)"

definition fr_size :: "frame \<Rightarrow> nat" where
  "fr_size f = (if fr_body f \<noteq> None then unat (hd_length (fr_header f)) + HEADER_SIZE
                else HEADER_SIZE)"

definition into_parts :: "frame \<Rightarrow> header \<times> byte list option" where
  "into_parts f = (fr_header f, fr_body f)"

definition new_data :: "flags \<Rightarrow> u32 \<Rightarrow> byte list \<Rightarrow> frame" where
  "new_data fs sid body =
     \<lparr>fr_header = \<lparr>hd_version = PROTOCOL_VERSION, hd_ty = Data, hd_flags = fs,
                   hd_stream_id = sid, hd_length = of_nat (length body)\<rparr>,
      fr_body = Some body\<rparr>"

definition new_window_update :: "flags \<Rightarrow> u32 \<Rightarrow> u32 \<Rightarrow> frame" where
  "new_window_update fs sid delta =
     \<lparr>fr_header = \<lparr>hd_version = PROTOCOL_VERSION, hd_ty = WindowUpdate, hd_flags = fs,
                   hd_stream_id = sid, hd_length = delta\<rparr>,
      fr_body = None\<rparr>"

definition new_ping :: "flags \<Rightarrow> u32 \<Rightarrow> frame" where
  "new_ping fs ping_id =
     \<lparr>fr_header = \<lparr>hd_version = PROTOCOL_VERSION, hd_ty = Ping, hd_flags = fs,
                   hd_stream_id = RESERVED_STREAM_ID, hd_length = ping_id\<rparr>,
      fr_body = None\<rparr>"

definition new_go_away :: "go_away_code \<Rightarrow> frame" where
  "new_go_away reason =
     \<lparr>fr_header = \<lparr>hd_version = PROTOCOL_VERSION, hd_ty = GoAway, hd_flags = flags_default,
                   hd_stream_id = RESERVED_STREAM_ID, hd_length = go_away_value reason\<rparr>,
      fr_body = None\<rparr>"

section \<open>The codec\<close>

record codec =
  unused_data_header :: "header option"
  max_frame_size :: u32

definition codec_default :: codec where
  "codec_default = \<lparr>unused_data_header = None, max_frame_size = INITIAL_STREAM_WINDOW\<rparr>"

definition with_max_frame_size :: "codec \<Rightarrow> u32 \<Rightarrow> codec" where
  "with_max_frame_size c sz = c\<lparr>max_frame_size := sz\<rparr>"

text \<open>
  The header branch of \<open>decode\<close>, on the twelve bytes split off the source buffer: the
  version check, the type check and the length check, in that order.
\<close>

definition decode_header :: "buf_ops \<Rightarrow> u32 \<Rightarrow> byte list \<Rightarrow> io_error + header" where
  "decode_header B maxf hb =
     (let version = hb ! 0 in
      if version \<noteq> PROTOCOL_VERSION then Err InvalidData
      else case type_try_from (hb ! 1) of
             None \<Rightarrow> Err InvalidData
           | Some ty \<Rightarrow>
               let fs = get_u16 B (take 2 (drop 2 hb));
                   sid = get_u32 B (take 4 (drop 4 hb));
                   len = get_u32 B (take 4 (drop 8 hb))
               in if ty = Data \<and> len > maxf then Err InvalidData
                  else Ok \<lparr>hd_version = version, hd_ty = ty, hd_flags = fs,
                           hd_stream_id = sid, hd_length = len\<rparr>)"

text \<open>The body branch of \<open>decode\<close>, once a header is known.\<close>

definition decode_body :: "codec \<Rightarrow> byte list \<Rightarrow> header \<Rightarrow> codec \<times> byte list \<times> (io_error + frame option)" where
  "decode_body c src h =
     (if hd_ty h = Data then
        if length src < unat (hd_length h)
        then (c\<lparr>unused_data_header := Some h\<rparr>, src, Ok None)
        else (c\<lparr>unused_data_header := None\<rparr>, drop (unat (hd_length h)) src,
              Ok (Some \<lparr>fr_header = h, fr_body = Some (take (unat (hd_length h)) src)\<rparr>))
      else (c\<lparr>unused_data_header := None\<rparr>, src, Ok (Some \<lparr>fr_header = h, fr_body = None\<rparr>)))"

text \<open>
  \<open>FrameCodec::decode\<close>: the codec and the source buffer are both \<open>&mut\<close>, so both are
  returned; on an error the header bytes are consumed, as in the source.
\<close>

definition decode :: "buf_ops \<Rightarrow> codec \<Rightarrow> byte list \<Rightarrow> codec \<times> byte list \<times> (io_error + frame option)" where
  "decode B c src =
     (if src = [] then (c, src, Ok None)
      else case unused_data_header c of
             Some h \<Rightarrow> decode_body c src h
           | None \<Rightarrow>
               if length src \<ge> HEADER_SIZE then
                 (case decode_header B (max_frame_size c) (take HEADER_SIZE src) of
                    Inl e \<Rightarrow> (c, drop HEADER_SIZE src, Err e)
                  | Inr h \<Rightarrow> decode_body c (drop HEADER_SIZE src) h)
               else (c, src, Ok None))"

text \<open>\<open>FrameCodec::encode\<close>: what is appended to the destination buffer.\<close>

definition encode_header :: "buf_ops \<Rightarrow> header \<Rightarrow> byte list" where
  "encode_header B h =
     [hd_version h, type_value (hd_ty h)] @ put_u16 B (hd_flags h)
       @ put_u32 B (hd_stream_id h) @ put_u32 B (hd_length h)"

definition encode :: "buf_ops \<Rightarrow> frame \<Rightarrow> byte list \<Rightarrow> byte list" where
  "encode B item dst =
     (case into_parts item of
        (h, body) \<Rightarrow>
          dst @ encode_header B h @ (case body of Some data \<Rightarrow> data | None \<Rightarrow> []))"

section \<open>Flags, types and codes\<close>

lemma flag_value_inj: "flag_value f = flag_value g \<longleftrightarrow> f = g"
  by (cases f; cases g) simp_all

lemma flag_values_disjoint: "f \<noteq> g \<Longrightarrow> flag_value f AND flag_value g = 0"
  by (cases f; cases g) simp_all

lemma flag_value_nonzero [simp]: "flag_value f \<noteq> 0"
  by (cases f) simp_all

lemma contains_add [simp]: "contains (flags_add fs f) g \<longleftrightarrow> f = g \<or> contains fs g"
proof (cases "f = g")
  case True
  then show ?thesis
    by (simp add: contains_def flags_add_def bit.conj_disj_distrib2 bit.disj_conj_distrib2)
next
  case False
  then have "(fs OR flag_value f) AND flag_value g = fs AND flag_value g"
    by (simp add: bit.conj_disj_distrib2 flag_values_disjoint)
  with False show ?thesis by (simp add: contains_def flags_add_def)
qed

lemma contains_default [simp]: "\<not> contains flags_default f"
  by (simp add: contains_def flags_default_def flag_value_nonzero [symmetric])

lemma contains_from [simp]: "contains (flags_from f) g \<longleftrightarrow> f = g"
  by (auto simp: contains_def flags_from_def)
    (metis flag_value_nonzero flag_values_disjoint)

text \<open>Each flag is one bit.\<close>

fun flag_bit :: "flag \<Rightarrow> nat" where
  "flag_bit Syn = 0"
| "flag_bit Ack = 1"
| "flag_bit Fin = 2"
| "flag_bit Rst = 3"

lemma flag_bit_inj: "flag_bit f = flag_bit g \<longleftrightarrow> f = g"
  by (cases f; cases g) simp_all

lemma flag_value_exp: "flag_value f = 2 ^ flag_bit f"
  by (cases f) simp_all

lemma bit_flag_value: "bit (flag_value f) n \<longleftrightarrow> n = flag_bit f"
proof -
  have "flag_bit f < 16" by (cases f) simp_all
  then show ?thesis unfolding flag_value_exp bit_exp_iff by auto
qed

lemma contains_bit: "contains fs f \<longleftrightarrow> bit fs (flag_bit f)"
proof
  assume "contains fs f"
  then have "bit (fs AND flag_value f) (flag_bit f)"
    by (simp add: contains_def bit_flag_value)
  then show "bit fs (flag_bit f)" by (simp add: bit_and_iff)
next
  assume "bit fs (flag_bit f)"
  then show "contains fs f" unfolding contains_def
    by (intro bit_word_eqI) (auto simp: bit_and_iff bit_flag_value)
qed

lemma type_try_from_value [simp]: "type_try_from (type_value t) = Some t"
  by (cases t) (simp_all add: type_try_from_def)

lemma type_value_try_from: "type_try_from v = Some t \<Longrightarrow> type_value t = v"
  by (auto simp: type_try_from_def split: if_splits)

lemma go_away_from_value [simp]: "go_away_from (go_away_value c) = c"
  by (cases c) (simp_all add: go_away_from_def)

section \<open>Round trips\<close>

text \<open>What the constructors build and the decoder accepts.\<close>

definition wf_frame :: "u32 \<Rightarrow> frame \<Rightarrow> bool" where
  "wf_frame maxf f \<longleftrightarrow>
     hd_version (fr_header f) = PROTOCOL_VERSION \<and>
     (case fr_body f of
        Some b \<Rightarrow> fr_ty f = Data \<and> unat (fr_length f) = length b \<and> fr_length f \<le> maxf
      | None \<Rightarrow> fr_ty f \<noteq> Data)"

definition fresh_codec :: "u32 \<Rightarrow> codec" where
  "fresh_codec maxf = with_max_frame_size codec_default maxf"

text \<open>The decoder as a one-frame parser.\<close>

definition frame_dec :: "buf_ops \<Rightarrow> u32 \<Rightarrow> byte list \<Rightarrow> (frame \<times> byte list) option" where
  "frame_dec B maxf bs =
     (case decode B (fresh_codec maxf) bs of
        (_, rest, Inr (Some f)) \<Rightarrow> Some (f, rest)
      | _ \<Rightarrow> None)"

lemmas fr_sel_defs = fr_ty_def fr_stream_id_def fr_flags_def fr_length_def

lemma wf_new_data:
  "length body < 2 ^ 32 \<Longrightarrow> of_nat (length body) \<le> maxf \<Longrightarrow> wf_frame maxf (new_data fs sid body)"
  by (simp add: wf_frame_def new_data_def fr_sel_defs unat_of_nat_lt)

lemma wf_new_control [simp]:
  "wf_frame maxf (new_window_update fs sid d)"
  "wf_frame maxf (new_ping fs pid)"
  "wf_frame maxf (new_go_away code)"
  by (simp_all add: wf_frame_def new_window_update_def new_ping_def new_go_away_def fr_sel_defs)

lemma fresh_codec_sels [simp]:
  "unused_data_header (fresh_codec m) = None" "max_frame_size (fresh_codec m) = m"
  by (simp_all add: fresh_codec_def with_max_frame_size_def codec_default_def)

context byte_order
begin

lemma length_encode_header [simp]: "length (encode_header B h) = HEADER_SIZE"
  by (simp add: encode_header_def HEADER_SIZE_def)

lemma decode_header_encode:
  assumes "hd_version h = PROTOCOL_VERSION" "hd_ty h = Data \<longrightarrow> hd_length h \<le> m"
  shows "decode_header B m (encode_header B h) = Ok h"
  using assms
  by (auto simp: decode_header_def encode_header_def numeral_eq_Suc not_less Let_def)

lemma encode_header_decode:
  assumes "length hb = HEADER_SIZE" "decode_header B m hb = Ok h"
  shows "encode_header B h = hb"
proof -
  from assms(1) have n: "length hb = 12" by (simp add: HEADER_SIZE_def)
  have split: "hb = [hb ! 0, hb ! 1] @ take 2 (drop 2 hb) @ take 4 (drop 4 hb) @ take 4 (drop 8 hb)"
    using n by (auto simp: numeral_eq_Suc length_Suc_conv)
  from assms(2) show ?thesis
    using n split
    by (auto simp: decode_header_def encode_header_def Let_def type_value_try_from
        put_get_u16 put_get_u32 split: if_splits option.splits)
qed

lemma decode_header_version:
  "decode_header B m hb = Ok h \<Longrightarrow> hd_version h = PROTOCOL_VERSION \<and> (hd_ty h = Data \<longrightarrow> hd_length h \<le> m)"
  by (auto simp: decode_header_def Let_def not_less split: if_splits option.splits)

lemma frame_dec_encode:
  assumes "wf_frame m f"
  shows "frame_dec B m (encode B f [] @ rest) = Some (f, rest)"
proof -
  have "decode_header B m (encode_header B (fr_header f)) = Ok (fr_header f)"
    using assms by (intro decode_header_encode) (auto simp: wf_frame_def fr_sel_defs split: option.splits)
  then show ?thesis
    using assms
    by (cases f)
      (auto simp: frame_dec_def decode_def decode_body_def encode_def into_parts_def wf_frame_def
        fr_sel_defs HEADER_SIZE_def encode_header_def split: option.splits)
qed

lemma frame_dec_inverse:
  assumes "frame_dec B m bs = Some (f, rest)"
  shows "encode B f [] @ rest = bs \<and> wf_frame m f"
proof -
  from assms obtain h where len: "HEADER_SIZE \<le> length bs"
    and h: "decode_header B m (take HEADER_SIZE bs) = Ok h"
    and body: "\<exists>c. decode_body (fresh_codec m) (drop HEADER_SIZE bs) h = (c, rest, Ok (Some f))"
    by (auto simp: frame_dec_def decode_def split: if_splits prod.splits sum.splits option.splits)
  have eh: "encode_header B h = take HEADER_SIZE bs"
    using h len by (intro encode_header_decode) auto
  with body decode_header_version [OF h] show ?thesis
    by (auto simp: decode_body_def encode_def into_parts_def wf_frame_def fr_sel_defs
        take_drop_pieces split: if_splits)
qed

lemma length_encode_ge: "HEADER_SIZE \<le> length (encode B f [])"
  by (simp add: encode_def into_parts_def)

end

sublocale byte_order \<subseteq> frames: wire_codec "\<lambda>f. encode B f []" "frame_dec B m" "wf_frame m" for m
proof
  show "frame_dec B m (encode B f [] @ rest) = Some (f, rest)" if "wf_frame m f" for f rest
    using that by (rule frame_dec_encode)
  show "length rest < length bs" if d: "frame_dec B m bs = Some (f, rest)" for bs f rest
  proof -
    have "length bs = length (encode B f []) + length rest"
      using frame_dec_inverse [OF d] by (metis length_append)
    then show ?thesis using length_encode_ge [of f] unfolding HEADER_SIZE_def by linarith
  qed
qed

section \<open>Incremental decoding\<close>

text \<open>
  \<open>drain\<close> calls the decoder until it asks for more input or fails, as a reader of the codec
  does after each read; \<open>feed\<close> does so after every chunk.
\<close>

function drain :: "buf_ops \<Rightarrow> codec \<Rightarrow> byte list \<Rightarrow> frame list \<times> codec \<times> byte list \<times> io_error option" where
  "drain B c src =
     (case decode B c src of
        (c', src', Inl e) \<Rightarrow> ([], c', src', Some e)
      | (c', src', Inr None) \<Rightarrow> ([], c', src', None)
      | (c', src', Inr (Some f)) \<Rightarrow>
          (case drain B c' src' of (fs, r) \<Rightarrow> (f # fs, r)))"
  by pat_completeness auto

lemma decode_body_shrinks:
  "decode_body c src h = (c', src', Ok (Some f)) \<Longrightarrow>
   length src' \<le> length src \<and> unused_data_header c' = None \<and> max_frame_size c' = max_frame_size c"
  by (auto simp: decode_body_def split: if_splits)

lemma decode_shrinks:
  assumes "decode B c src = (c', src', Ok (Some f))"
  shows "length src' + (if unused_data_header c' = None then 0 else 1)
       < length src + (if unused_data_header c = None then 0 else 1)"
proof (cases "unused_data_header c")
  case None
  with assms show ?thesis
    by (auto simp: decode_def HEADER_SIZE_def split: if_splits sum.splits dest!: decode_body_shrinks)
next
  case (Some h)
  with assms show ?thesis
    by (auto simp: decode_def split: if_splits dest!: decode_body_shrinks)
qed

termination drain
  by (relation "measure (\<lambda>(B, c, src). length src + (if unused_data_header c = None then 0 else 1))")
    (auto dest!: decode_shrinks [OF sym])

declare drain.simps [simp del]

fun feed :: "buf_ops \<Rightarrow> frame list \<times> codec \<times> byte list \<times> io_error option \<Rightarrow> byte list list \<Rightarrow>
             frame list \<times> codec \<times> byte list \<times> io_error option" where
  "feed B st [] = st"
| "feed B (fs, c, buf, Some e) (chunk # chunks) = feed B (fs, c, buf @ chunk, Some e) chunks"
| "feed B (fs, c, buf, None) (chunk # chunks) =
     (case drain B c (buf @ chunk) of (fs', r) \<Rightarrow> feed B (fs @ fs', r) chunks)"

text \<open>An incomplete frame changes nothing: the bytes seen so far are either still in the buffer
  or held as the pending header.\<close>

lemma decode_body_more:
  "decode_body c a h = (c', r, Ok (Some f)) \<Longrightarrow> decode_body c (a @ b) h = (c', r @ b, Ok (Some f))"
  by (auto simp: decode_body_def split: if_splits)

lemma decode_body_pending:
  "decode_body c a h = (c', r, Ok None) \<Longrightarrow>
   c' = c\<lparr>unused_data_header := Some h\<rparr> \<and> r = a \<and> hd_ty h = Data \<and> length a < unat (hd_length h)"
  by (auto simp: decode_body_def split: if_splits)

lemma decode_body_no_error: "decode_body c a h \<noteq> (c', r, Err e)"
  by (auto simp: decode_body_def)

lemma decode_body_codec:
  "decode_body (c\<lparr>unused_data_header := x\<rparr>) src h = decode_body c src h"
  by (simp add: decode_body_def)

lemma decode_more:
  assumes "decode B c a = (c', r, Ok (Some f))"
  shows "decode B c (a @ b) = (c', r @ b, Ok (Some f))"
  using assms
  by (auto simp: decode_def split: if_splits option.splits sum.splits dest!: decode_body_more [where b = b])

lemma decode_error_more:
  assumes "decode B c a = (c', r, Err e)"
  shows "decode B c (a @ b) = (c', r @ b, Err e)"
  using assms
  by (auto simp: decode_def decode_body_no_error split: if_splits option.splits sum.splits)

lemma decode_pending:
  assumes "decode B c a = (c', r, Ok None)"
  shows "decode B c (a @ b) = decode B c' (r @ b)"
proof (cases "unused_data_header c")
  case None
  show ?thesis
  proof (cases "a = [] \<or> length a < HEADER_SIZE")
    case True
    with assms None show ?thesis by (auto simp: decode_def split: if_splits)
  next
    case False
    with assms None obtain h
      where h: "decode_header B (max_frame_size c) (take HEADER_SIZE a) = Ok h"
        and b: "decode_body c (drop HEADER_SIZE a) h = (c', r, Ok None)"
      by (auto simp: decode_def split: if_splits sum.splits)
    from decode_body_pending [OF b] False None h show ?thesis
      by (auto simp: decode_def decode_body_codec) (auto simp: decode_body_def)
  qed
next
  case (Some h)
  with assms show ?thesis
    by (cases "a = []") (auto simp: decode_def decode_body_codec dest!: decode_body_pending)
qed

lemma drain_step:
  "decode B c src = (c', r, Err e) \<Longrightarrow> drain B c src = ([], c', r, Some e)"
  "decode B c src = (c', r, Ok None) \<Longrightarrow> drain B c src = ([], c', r, None)"
  "decode B c src = (c', r, Ok (Some f)) \<Longrightarrow>
   drain B c src = (case drain B c' r of (fs, q) \<Rightarrow> (f # fs, q))"
  by (subst drain.simps, simp)+

lemma decode_cases [case_names Error Wait Frame]:
  assumes "\<And>c' r e. decode B c src = (c', r, Err e) \<Longrightarrow> P"
    and "\<And>c' r. decode B c src = (c', r, Ok None) \<Longrightarrow> P"
    and "\<And>c' r f. decode B c src = (c', r, Ok (Some f)) \<Longrightarrow> P"
  shows P
proof -
  obtain c' r res where d: "decode B c src = (c', r, res)" by (cases "decode B c src") auto
  show P
  proof (cases res)
    case (Inr o')
    with d assms(2,3) show ?thesis by (cases o') auto
  qed (use d assms(1) in auto)
qed

lemma drain_induct [case_names Error Wait Frame]:
  assumes "\<And>c src c' r e. decode B c src = (c', r, Err e) \<Longrightarrow> P c src"
    and "\<And>c src c' r. decode B c src = (c', r, Ok None) \<Longrightarrow> P c src"
    and "\<And>c src c' r f. decode B c src = (c', r, Ok (Some f)) \<Longrightarrow> P c' r \<Longrightarrow> P c src"
  shows "P c src"
proof (induction "length src + (if unused_data_header c = None then 0 else 1)" arbitrary: c src
    rule: less_induct)
  case less
  show ?case
  proof (cases B c src rule: decode_cases)
    case (Frame c' r f)
    from less [OF decode_shrinks [OF Frame]] have "P c' r" .
    with Frame show ?thesis by (rule assms(3))
  qed (use assms in auto)
qed

lemma drain_append:
  "drain B c (a @ b) =
     (case drain B c a of
        (fs, c', r, Some e) \<Rightarrow> (fs, c', r @ b, Some e)
      | (fs, c', r, None) \<Rightarrow> (case drain B c' (r @ b) of (fs', q) \<Rightarrow> (fs @ fs', q)))"
proof (induction c a rule: drain_induct [where B = B])
  case (Error c src c' r e)
  then show ?case by (simp add: drain_step(1) decode_error_more)
next
  case (Wait c src c' r)
  have "drain B c (src @ b) = drain B c' (r @ b)"
    using decode_pending [OF Wait, of b] drain.simps [of B c "src @ b"] drain.simps [of B c' "r @ b"]
    by simp
  with Wait show ?case by (simp add: drain_step(2) split: prod.splits)
next
  case (Frame c src c' r f)
  from Frame.IH show ?case
    by (simp add: drain_step(3) [OF Frame.hyps] drain_step(3) [OF decode_more [OF Frame.hyps, of b]]
        split: prod.splits option.splits)
qed

lemma drain_settled:
  "drain B c a = (fs, c', r, None) \<Longrightarrow> drain B c' r = ([], c', r, None)"
proof (induction c a arbitrary: fs rule: drain_induct [where B = B])
  case (Wait c src c1 r1)
  then have "c' = c1" "r = r1" by (simp_all add: drain_step(2))
  moreover have "decode B c1 r1 = (c1, r1, Ok None)"
    using decode_pending [OF Wait.hyps, of "[]"] Wait.hyps by simp
  ultimately show ?case by (simp add: drain_step(2))
next
  case (Frame c src c1 r1 f)
  then show ?case by (auto simp: drain_step(3) split: prod.splits)
qed (simp add: drain_step(1))

lemma feed_error: "feed B (fs, c, buf, Some e) chunks = (fs, c, buf @ concat chunks, Some e)"
  by (induction chunks arbitrary: buf) auto

lemma feed_drain:
  assumes "drain B c buf = ([], c, buf, None)"
  shows "feed B (fs, c, buf, None) chunks =
           (case drain B c (buf @ concat chunks) of (fs', q) \<Rightarrow> (fs @ fs', q))"
  using assms
proof (induction chunks arbitrary: fs c buf)
  case (Cons x xs)
  obtain fs1 c1 r1 e1 where d: "drain B c (buf @ x) = (fs1, c1, r1, e1)"
    by (cases "drain B c (buf @ x)") auto
  show ?case
  proof (cases e1)
    case None
    from d None have "drain B c1 r1 = ([], c1, r1, None)" by (auto dest: drain_settled)
    from Cons.IH [OF this] d None show ?thesis
      by (simp add: drain_append [of B c "buf @ x" "concat xs", simplified] split: prod.splits)
  next
    case (Some e)
    with d show ?thesis
      by (simp add: feed_error drain_append [of B c "buf @ x" "concat xs", simplified])
  qed
qed simp

section \<open>What the decoder accepts and holds\<close>

text \<open>A pending header is always the header of an acceptable, non-empty data frame.\<close>

definition codec_inv :: "codec \<Rightarrow> bool" where
  "codec_inv c \<longleftrightarrow>
     (case unused_data_header c of
        None \<Rightarrow> True
      | Some h \<Rightarrow> hd_version h = PROTOCOL_VERSION \<and> hd_ty h = Data \<and> hd_length h \<le> max_frame_size c)"

lemma codec_inv_fresh [simp]: "codec_inv (fresh_codec m)"
  by (simp add: codec_inv_def)

lemma decode_body_inv:
  assumes "decode_body c src h = (c', r, res)"
    and "hd_version h = PROTOCOL_VERSION" "hd_ty h = Data \<longrightarrow> hd_length h \<le> max_frame_size c"
  shows "codec_inv c' \<and> max_frame_size c' = max_frame_size c
       \<and> (case res of Inr (Some f) \<Rightarrow> wf_frame (max_frame_size c) f | _ \<Rightarrow> True)
       \<and> (res = Ok None \<longrightarrow> length r < unat (max_frame_size c))"
  using assms
  by (auto simp: decode_body_def codec_inv_def wf_frame_def fr_sel_defs word_le_nat_alt split: if_splits)

lemma decode_header_sound:
  "decode_header B m hb = Ok h \<Longrightarrow>
   hd_version h = PROTOCOL_VERSION \<and> (hd_ty h = Data \<longrightarrow> hd_length h \<le> m)"
  by (auto simp: decode_header_def Let_def not_less split: if_splits option.splits)

lemma decode_inv:
  assumes "decode B c src = (c', r, res)" "codec_inv c"
  shows "codec_inv c' \<and> max_frame_size c' = max_frame_size c
       \<and> (case res of Inr (Some f) \<Rightarrow> wf_frame (max_frame_size c) f | _ \<Rightarrow> True)"
proof (cases "src = [] \<or> unused_data_header c = None \<and> length src < HEADER_SIZE")
  case True
  with assms show ?thesis by (auto simp: decode_def split: if_splits option.splits)
next
  case False
  then consider h where "unused_data_header c = Some h" "src \<noteq> []"
    | "unused_data_header c = None" "HEADER_SIZE \<le> length src" "src \<noteq> []" by fastforce
  then show ?thesis
  proof cases
    case 1
    with assms show ?thesis
      by (auto simp: decode_def codec_inv_def dest!: decode_body_inv)
  next
    case 2
    with assms show ?thesis
      by (auto simp: decode_def dest!: decode_body_inv decode_header_sound split: sum.splits)
  qed
qed

lemma decode_wait_bound:
  assumes "decode B c src = (c', r, Ok None)" "codec_inv c"
  shows "length r < max HEADER_SIZE (unat (max_frame_size c))"
  using assms
  by (auto simp: decode_def codec_inv_def HEADER_SIZE_def less_max_iff_disj
      dest!: decode_body_inv decode_header_sound split: if_splits option.splits sum.splits)

lemma drain_inv:
  "drain B c src = (fs, c', r, err) \<Longrightarrow> codec_inv c \<Longrightarrow>
   codec_inv c' \<and> max_frame_size c' = max_frame_size c
   \<and> list_all (wf_frame (max_frame_size c)) fs
   \<and> (err = None \<longrightarrow> length r < max HEADER_SIZE (unat (max_frame_size c)))"
proof (induction c src arbitrary: fs rule: drain_induct [where B = B])
  case (Error c src c1 r1 e)
  from decode_inv [OF Error.hyps] Error.prems show ?case by (auto simp: drain_step(1) [OF Error.hyps])
next
  case (Wait c src c1 r1)
  from decode_inv [OF Wait.hyps] decode_wait_bound [OF Wait.hyps] Wait.prems show ?case
    by (auto simp: drain_step(2) [OF Wait.hyps])
next
  case (Frame c src c1 r1 f)
  from decode_inv [OF Frame.hyps] Frame.prems Frame.IH show ?case
    by (fastforce simp: drain_step(3) [OF Frame.hyps] split: prod.splits)
qed

section \<open>Properties\<close>

text \<open>
  C15. The frame codec is exact: the decoder returns a frame and leaves \<open>rest\<close> if and only if
  the input is the encoding of that frame followed by \<open>rest\<close> and the frame is well formed
  (known version, a body exactly on data frames, its length in the header and within the
  limit). So encoding round trips, no two inputs decode alike, and nothing else is accepted.
\<close>

theorem frame_codec_exact:
  assumes "byte_order B"
  shows "frame_dec B m bs = Some (f, rest) \<longleftrightarrow> wf_frame m f \<and> bs = encode B f [] @ rest"
  using byte_order.frame_dec_encode [OF assms] byte_order.frame_dec_inverse [OF assms] by blast

theorem frame_codec_exact_witness:
  "byte_order be_ops \<and>
   frame_dec be_ops 262144 (encode be_ops (new_data 1 7 [10, 20]) [] @ [9]) = Some (new_data 1 7 [10, 20], [9])"
  using frame_codec_exact [OF be.byte_order_axioms, of 262144 _ "new_data 1 7 [10, 20]" "[9]"]
    be.byte_order_axioms
  by (simp add: wf_frame_def new_data_def fr_sel_defs)

text \<open>
  C16. Decoding does not depend on how the byte stream is cut: feeding any list of chunks to
  the codec, decoding as far as possible after each, gives the same frames, the same codec
  state, the same unread bytes and the same error as decoding the concatenation at once.
\<close>

theorem decode_chunking:
  "feed B ([], c, [], None) chunks = drain B c (concat chunks)"
  using feed_drain [of B c "[]" "[]" chunks] by (simp add: drain_step(2) decode_def)

text \<open>
  The decoder buffers a bounded amount and emits only well-formed frames: from a codec
  that holds no bad header, draining any input keeps that invariant and the size limit,
  every frame is well formed (so no body exceeds the limit), and when it waits for more
  input fewer bytes are held than the larger of the header size and the frame limit.
\<close>

theorem decoder_bounded:
  assumes "codec_inv c" "drain B c src = (fs, c', r, err)"
  shows "codec_inv c' \<and> max_frame_size c' = max_frame_size c
       \<and> list_all (wf_frame (max_frame_size c)) fs
       \<and> (err = None \<longrightarrow> length r < max HEADER_SIZE (unat (max_frame_size c)))"
  using drain_inv [OF assms(2,1)] .

theorem decoder_bounded_witness:
  "codec_inv (fresh_codec 100) \<and> drain be_ops (fresh_codec 100) [0, 2, 0] = ([], fresh_codec 100, [0, 2, 0], None)
   \<and> length [0, 2, 0 :: byte] < max HEADER_SIZE 100"
proof -
  have d: "drain be_ops (fresh_codec 100) [0, 2, 0] = ([], fresh_codec 100, [0, 2, 0], None)"
    by (rule drain_step(2)) (simp add: decode_def HEADER_SIZE_def)
  show ?thesis using decoder_bounded [OF codec_inv_fresh d] d by simp
qed

text \<open>
  A fresh header is rejected exactly when the version is not the protocol version, the
  type is unknown, or a data frame announces more than the limit, and always as invalid data.
\<close>

theorem decode_rejects:
  assumes "unused_data_header c = None" "HEADER_SIZE \<le> length src"
  shows "(\<exists>c' r. decode B c src = (c', r, Err e)) \<longleftrightarrow>
           e = InvalidData \<and>
           (src ! 0 \<noteq> PROTOCOL_VERSION \<or> src ! 1 > 3 \<or>
            src ! 1 = 0 \<and> get_u32 B (take 4 (drop 8 src)) > max_frame_size c)"
proof -
  have "src \<noteq> []" using assms(2) by (auto simp: HEADER_SIZE_def)
  have ty: "type_try_from v = None \<longleftrightarrow> v > 3" "type_try_from v = Some Data \<longleftrightarrow> v = 0" for v
    by (auto simp: type_try_from_def word_less_nat_alt) (unat_arith; fail)+
  have known: "\<not> v > 3" if "type_try_from v = Some t" for v t
    using that ty(1) [of v] by auto
  have zero: "type_try_from 0 = Some t \<longleftrightarrow> t = Data" for t
    by (auto simp: type_try_from_def)
  have len: "drop 8 (take 12 src) = take 4 (drop 8 src)"
    by (simp add: drop_take)
  show ?thesis
    using assms \<open>src \<noteq> []\<close>
    by (auto simp: decode_def decode_header_def Let_def len decode_body_no_error ty zero HEADER_SIZE_def
        dest: known split: option.splits if_splits sum.splits)
qed

theorem decode_rejects_witness:
  "unused_data_header (fresh_codec 5) = None \<and> HEADER_SIZE \<le> length (replicate 12 (1 :: byte)) \<and>
   (\<exists>c' r. decode be_ops (fresh_codec 5) (replicate 12 1) = (c', r, Err InvalidData))"
  using decode_rejects [of "fresh_codec 5" "replicate 12 1" be_ops InvalidData]
  by (simp add: HEADER_SIZE_def PROTOCOL_VERSION_def)

text \<open>
  Adding a flag is exact, but \<open>Flags::remove\<close> toggles: it clears a flag that is set and
  sets a flag that is not, leaving the others alone.
\<close>

theorem flags_add_remove:
  "contains (flags_add fs f) g = (f = g \<or> contains fs g)
   \<and> contains (flags_remove fs f) g = (if f = g then \<not> contains fs g else contains fs g)"
  using contains_bit [of "flags_remove fs f" g] contains_bit [of fs g]
  by (auto simp: flags_remove_def bit_xor_iff bit_flag_value flag_bit_inj)

end
