(* ===== verification/Yamux_Stream.thy ===== *)
theory Yamux_Stream
  imports Yamux_Frame
begin

text \<open>
  The yamux sub-stream (\<open>yamux/src/stream.rs\<close>): \<open>StreamHandle\<close> with its state machine, its
  two flow-control windows and its \<open>AsyncRead\<close>, \<open>AsyncWrite\<close> and \<open>Drop\<close> implementations.

  The channels to the session belong to the crate \<open>futures\<close>. What they answer is an argument
  of the operations: \<open>alive\<close> says whether \<open>unbounded_send\<close> succeeds (the session still holds
  the receiving end), and a list of \<open>rx\<close> answers is what \<open>frame_receiver\<close> returns, one per
  iteration of the receive loop, pending after the last. The events handed to the session are
  recorded in order in \<open>sh_events\<close>, the calls of \<open>Waker::wake\<close> are counted in \<open>sh_wakes\<close>.
\<close>

datatype stream_state =
    Init | SynSent | SynReceived | Established | LocalClosing | RemoteClosing | Closed | Reset

datatype stream_event = FrameEvent frame | ClosedEvent u32 | GoAwayEvent

datatype rx = RxTerminated | RxFrame frame | RxEnd | RxPending

record stream_handle =
  sh_id :: u32
  sh_state :: stream_state
  max_recv_window :: u32
  recv_window :: u32
  send_window :: u32
  read_buf :: "byte list"
  sh_events :: "stream_event list"
  writeable_wake :: bool
  sh_wakes :: nat

type_synonym 'a sh_result = "stream_handle \<times> (yamux_error + 'a)"

section \<open>Operations\<close>

text \<open>\<open>StreamHandle::new\<close>; \<open>None\<close> is the failed assertion.\<close>

definition stream_new :: "u32 \<Rightarrow> stream_state \<Rightarrow> u32 \<Rightarrow> stream_handle option" where
  "stream_new sid st max_window =
     (if st = Init \<or> st = SynReceived then
        Some \<lparr>sh_id = sid, sh_state = st, max_recv_window = max_window,
              recv_window = INITIAL_STREAM_WINDOW, send_window = INITIAL_STREAM_WINDOW,
              read_buf = [], sh_events = [], writeable_wake = False, sh_wakes = 0\<rparr>
      else None)"

definition unbound_send_event :: "bool \<Rightarrow> stream_handle \<Rightarrow> stream_event \<Rightarrow> unit sh_result" where
  "unbound_send_event alive h ev =
     (if alive then (h\<lparr>sh_events := sh_events h @ [ev]\<rparr>, Ok ()) else (h, Err SessionShutdown))"

definition unbound_send_frame :: "bool \<Rightarrow> stream_handle \<Rightarrow> frame \<Rightarrow> unit sh_result" where
  "unbound_send_frame alive h f = unbound_send_event alive h (FrameEvent f)"

definition get_flags :: "stream_handle \<Rightarrow> stream_handle \<times> flags" where
  "get_flags h =
     (case sh_state h of
        Init \<Rightarrow> (h\<lparr>sh_state := SynSent\<rparr>, flags_from Syn)
      | SynReceived \<Rightarrow> (h\<lparr>sh_state := Established\<rparr>, flags_from Ack)
      | _ \<Rightarrow> (h, flags_default))"

definition send_close :: "bool \<Rightarrow> stream_handle \<Rightarrow> unit sh_result" where
  "send_close alive h =
     (case get_flags h of
        (h1, fs) \<Rightarrow> unbound_send_frame alive h1 (new_window_update (flags_add fs Fin) (sh_id h1) 0))"

definition close :: "bool \<Rightarrow> stream_handle \<Rightarrow> unit sh_result" where
  "close alive h =
     (if sh_state h \<in> {SynSent, SynReceived, Established, Init} then
        send_close alive (h\<lparr>sh_state := LocalClosing\<rparr>)
      else if sh_state h = RemoteClosing then
        (case send_close alive (h\<lparr>sh_state := Closed\<rparr>) of
           (h1, Inl e) \<Rightarrow> (h1, Err e)
         | (h1, Inr _) \<Rightarrow> unbound_send_event alive h1 (ClosedEvent (sh_id h1)))
      else if sh_state h \<in> {Reset, Closed} then
        unbound_send_event alive (h\<lparr>sh_state := Closed\<rparr>) (ClosedEvent (sh_id h))
      else
        unbound_send_event alive (h\<lparr>sh_state := Closed\<rparr>) (ClosedEvent (sh_id h)))"

definition send_go_away :: "bool \<Rightarrow> stream_handle \<Rightarrow> stream_handle" where
  "send_go_away alive h = fst (unbound_send_event alive (h\<lparr>sh_state := LocalClosing\<rparr>) GoAwayEvent)"

definition sh_send_window_update :: "bool \<Rightarrow> stream_handle \<Rightarrow> unit sh_result" where
  "sh_send_window_update alive h =
     (let buf_len = of_nat (length (read_buf h));
          delta = max_recv_window h - buf_len - recv_window h
      in case get_flags h of
           (h1, fs) \<Rightarrow>
             if delta < max_recv_window h1 div 2 \<and> fs = 0 then (h1, Ok ())
             else unbound_send_event alive (h1\<lparr>recv_window := recv_window h1 + delta\<rparr>)
                    (FrameEvent (new_window_update fs (sh_id h1) delta)))"

definition send_data :: "bool \<Rightarrow> stream_handle \<Rightarrow> byte list \<Rightarrow> unit sh_result" where
  "send_data alive h data =
     (case get_flags h of (h1, fs) \<Rightarrow> unbound_send_frame alive h1 (new_data fs (sh_id h1) data))"

definition process_flags :: "stream_handle \<Rightarrow> flags \<Rightarrow> unit sh_result" where
  "process_flags h fs =
     (let h1 = (if contains fs Ack \<and> sh_state h = SynSent then h\<lparr>sh_state := SynReceived\<rparr> else h);
          r = (if contains fs Fin then
                 if sh_state h1 \<in> {Init, SynSent, SynReceived, Established}
                 then (h1\<lparr>sh_state := RemoteClosing\<rparr>, Ok ())
                 else if sh_state h1 = LocalClosing then (h1\<lparr>sh_state := Closed\<rparr>, Ok ())
                 else (h1, Err UnexpectedFlag)
               else (h1, Ok ()))
      in case r of
           (h2, Inl e) \<Rightarrow> (h2, Err e)
         | (h2, Inr _) \<Rightarrow>
             if contains fs Rst then (h2\<lparr>sh_state := Reset\<rparr>, Ok ()) else (h2, Ok ()))"

definition handle_window_update :: "stream_handle \<Rightarrow> frame \<Rightarrow> unit sh_result" where
  "handle_window_update h f =
     (case process_flags h (fr_flags f) of
        (h1, Inl e) \<Rightarrow> (h1, Err e)
      | (h1, Inr _) \<Rightarrow>
          (case checked_add (send_window h1) (fr_length f) of
             None \<Rightarrow> (h1, Err InvalidMsgType)
           | Some w \<Rightarrow>
               if writeable_wake h1
               then (h1\<lparr>send_window := w, writeable_wake := False, sh_wakes := Suc (sh_wakes h1)\<rparr>, Ok ())
               else (h1\<lparr>send_window := w\<rparr>, Ok ())))"

definition handle_data :: "stream_handle \<Rightarrow> frame \<Rightarrow> unit sh_result" where
  "handle_data h f =
     (case process_flags h (fr_flags f) of
        (h1, Inl e) \<Rightarrow> (h1, Err e)
      | (h1, Inr _) \<Rightarrow>
          if fr_length f > recv_window h1 then (h1, Err RecvWindowExceeded)
          else
            let h2 = (case snd (into_parts f) of Some data \<Rightarrow> h1\<lparr>read_buf := data\<rparr> | None \<Rightarrow> h1)
            in (h2\<lparr>recv_window := recv_window h2 - fr_length f\<rparr>, Ok ()))"

definition handle_frame :: "stream_handle \<Rightarrow> frame \<Rightarrow> unit sh_result" where
  "handle_frame h f =
     (case fr_ty f of
        WindowUpdate \<Rightarrow> handle_window_update h f
      | Data \<Rightarrow> handle_data h f
      | _ \<Rightarrow> (h, Err InvalidMsgType))"

fun recv_frames :: "stream_handle \<Rightarrow> rx list \<Rightarrow> stream_handle \<times> rx list \<times> (yamux_error + unit)" where
  "recv_frames h rs =
     (if sh_state h = RemoteClosing then (h, rs, Err SubStreamRemoteClosing)
      else if sh_state h = Reset \<or> sh_state h = Closed then (h, rs, Err SessionShutdown)
      else if read_buf h \<noteq> [] then (h, rs, Ok ())
      else case rs of
             [] \<Rightarrow> (h, [], Ok ())
           | RxTerminated # _ \<Rightarrow> (h\<lparr>sh_state := RemoteClosing\<rparr>, rs, Err SessionShutdown)
           | RxFrame f # rs' \<Rightarrow>
               (case handle_frame h f of
                  (h1, Inl e) \<Rightarrow> (h1, rs', Err e)
                | (h1, Inr _) \<Rightarrow> recv_frames h1 rs')
           | RxEnd # rs' \<Rightarrow> (h\<lparr>sh_state := RemoteClosing\<rparr>, rs', Err SessionShutdown)
           | RxPending # rs' \<Rightarrow> (h, rs', Ok ()))"

definition check_self_state :: "stream_handle \<Rightarrow> io_error + bool" where
  "check_self_state h =
     (if read_buf h = [] then
        (case sh_state h of
           RemoteClosing \<Rightarrow> Ok True
         | Closed \<Rightarrow> Ok True
         | Reset \<Rightarrow> Err ConnectionReset
         | _ \<Rightarrow> Ok False)
      else Ok False)"

text \<open>
  \<open>poll_read\<close>: the last component but one is what \<open>buf.put_slice\<close> appended to the caller's
  buffer, of which \<open>remaining\<close> bytes were free. The part after \<open>recv_frames\<close> is separate.
\<close>

definition poll_read_buffered :: "bool \<Rightarrow> stream_handle \<Rightarrow> nat \<Rightarrow>
    stream_handle \<times> byte list \<times> (io_error + unit) poll" where
  "poll_read_buffered alive h remaining =
     (case check_self_state h of
        Inl e \<Rightarrow> (h, [], Ready (Err e))
      | Inr eof \<Rightarrow>
          if eof then (h, [], Ready (Ok ()))
          else
            let n = min remaining (length (read_buf h)) in
            if n = 0 then (h, [], Pending)
            else
              let b = take n (read_buf h); h1 = h\<lparr>read_buf := drop n (read_buf h)\<rparr> in
              if sh_state h1 \<in> {RemoteClosing, Closed, Reset} then (h1, b, Ready (Ok ()))
              else case sh_send_window_update alive h1 of
                     (h2, Inl _) \<Rightarrow> (h2, b, Ready (Err BrokenPipe))
                   | (h2, Inr _) \<Rightarrow> (h2, b, Ready (Ok ())))"

definition poll_read :: "bool \<Rightarrow> stream_handle \<Rightarrow> rx list \<Rightarrow> nat \<Rightarrow>
    stream_handle \<times> rx list \<times> byte list \<times> (io_error + unit) poll" where
  "poll_read alive h rs remaining =
     (case check_self_state h of
        Inl e \<Rightarrow> (h, rs, [], Ready (Err e))
      | Inr eof \<Rightarrow>
          if eof then (h, rs, [], Ready (Ok ()))
          else case recv_frames h rs of
                 (h1, rs1, r) \<Rightarrow>
                   if r \<in> {Err UnexpectedFlag, Err RecvWindowExceeded, Err InvalidMsgType}
                   then (send_go_away alive h1, rs1, [], Ready (Err InvalidData))
                   else case poll_read_buffered alive h1 remaining of
                          (h2, out, p) \<Rightarrow> (h2, rs1, out, p))"

definition poll_write :: "bool \<Rightarrow> stream_handle \<Rightarrow> byte list \<Rightarrow>
    stream_handle \<times> (io_error + nat) poll" where
  "poll_write alive h buf =
     (if sh_state h = Reset then (h, Ready (Err BrokenPipe))
      else if sh_state h = LocalClosing \<or> sh_state h = Closed then (h, Ready (Err BrokenPipe))
      else if send_window h = 0 then (h\<lparr>writeable_wake := True\<rparr>, Pending)
      else
        let n = min (unat (send_window h)) (length buf) in
        case send_data alive h (take n buf) of
          (h1, Inr _) \<Rightarrow> (h1\<lparr>send_window := send_window h1 - of_nat n\<rparr>, Ready (Ok n))
        | (h1, Inl e) \<Rightarrow> (h1, if e = WouldBlock then Pending else Ready (Err BrokenPipe)))"

definition poll_shutdown :: "bool \<Rightarrow> stream_handle \<Rightarrow> stream_handle \<times> (io_error + unit) poll" where
  "poll_shutdown alive h =
     (case close alive h of
        (h1, Inl _) \<Rightarrow> (h1, Ready (Err BrokenPipe))
      | (h1, Inr _) \<Rightarrow> (h1, Ready (Ok ())))"

text \<open>\<open>Drop for StreamHandle\<close>; \<open>alive\<close> is \<open>!is_closed()\<close>.\<close>

definition drop_handle :: "bool \<Rightarrow> stream_handle \<Rightarrow> stream_handle" where
  "drop_handle alive h =
     (if alive \<and> sh_state h \<noteq> Closed then
        let h1 = (if sh_state h = LocalClosing \<or> sh_state h = Reset then h
                  else case get_flags h of
                         (h0, fs) \<Rightarrow>
                           fst (unbound_send_event alive h0
                                  (FrameEvent (new_window_update (flags_add fs Rst) (sh_id h0) 0))))
        in fst (unbound_send_event alive h1 (ClosedEvent (sh_id h1)))
      else h)"

declare recv_frames.simps [simp del]

section \<open>Frame conditions\<close>

text \<open>The flag handling moves the state and nothing else.\<close>

lemma get_flags_state: "get_flags h = (h', fs) \<Longrightarrow> \<exists>st. h' = h\<lparr>sh_state := st\<rparr>"
  by (cases "sh_state h") (auto simp: get_flags_def intro: exI [of _ "sh_state h"])

lemma process_flags_state: "process_flags h fs = (h', r) \<Longrightarrow> \<exists>st. h' = h\<lparr>sh_state := st\<rparr>"
  by (auto simp: process_flags_def Let_def split: if_splits intro: exI [of _ "sh_state h"])

lemma unbound_send_event_frame:
  "unbound_send_event alive h ev = (h', r) \<Longrightarrow>
   h' = h\<lparr>sh_events := sh_events h @ (if alive then [ev] else [])\<rparr>
   \<and> r = (if alive then Ok () else Err SessionShutdown)"
  by (auto simp: unbound_send_event_def)

section \<open>The receive window\<close>

text \<open>
  Everything buffered or still announced to the peer fits the maximal window, so the
  subtraction in \<open>send_window_update\<close> does not wrap.
\<close>

definition stream_inv :: "stream_handle \<Rightarrow> bool" where
  "stream_inv h \<longleftrightarrow> length (read_buf h) + unat (recv_window h) \<le> unat (max_recv_window h)"

fun rx_wf :: "u32 \<Rightarrow> rx \<Rightarrow> bool" where
  "rx_wf m (RxFrame f) = wf_frame m f"
| "rx_wf m _ = True"

definition window_delta :: "stream_handle \<Rightarrow> u32" where
  "window_delta h = max_recv_window h - of_nat (length (read_buf h)) - recv_window h"

lemma unat_window_delta:
  assumes "stream_inv h"
  shows "unat (window_delta h) =
           unat (max_recv_window h) - length (read_buf h) - unat (recv_window h)"
proof -
  have le: "length (read_buf h) \<le> unat (max_recv_window h)"
    using assms by (simp add: stream_inv_def)
  then have u: "unat (of_nat (length (read_buf h)) :: u32) = length (read_buf h)"
    using unat_lt [of "max_recv_window h"] by (intro unat_of_nat_lt) simp
  then have s: "unat (max_recv_window h - of_nat (length (read_buf h)))
             = unat (max_recv_window h) - length (read_buf h)"
    using le by (subst unat_sub_le) (simp_all add: word_le_nat_alt)
  show ?thesis
    unfolding window_delta_def using assms s
    by (subst unat_sub_le) (simp_all add: word_le_nat_alt stream_inv_def)
qed

lemma stream_inv_state [simp]: "stream_inv (h\<lparr>sh_state := st\<rparr>) = stream_inv h"
  by (simp add: stream_inv_def)

lemma stream_inv_irrelevant [simp]:
  "stream_inv (h\<lparr>sh_events := evs\<rparr>) = stream_inv h"
  "stream_inv (h\<lparr>send_window := w\<rparr>) = stream_inv h"
  "stream_inv (h\<lparr>writeable_wake := b\<rparr>) = stream_inv h"
  "stream_inv (h\<lparr>sh_wakes := k\<rparr>) = stream_inv h"
  by (simp_all add: stream_inv_def)

lemma stream_inv_grow:
  assumes "stream_inv h"
  shows "stream_inv (h\<lparr>recv_window := recv_window h + window_delta h\<rparr>)"
    and "unat (recv_window h + window_delta h) = unat (max_recv_window h) - length (read_buf h)"
proof -
  have "unat (recv_window h) + unat (window_delta h) < 2 ^ LENGTH(32)"
    using unat_window_delta [OF assms] assms unat_lt [of "max_recv_window h"]
    by (simp add: stream_inv_def)
  then show "unat (recv_window h + window_delta h) = unat (max_recv_window h) - length (read_buf h)"
    using assms by (subst unat_add_lt) (simp_all add: unat_window_delta stream_inv_def)
  then show "stream_inv (h\<lparr>recv_window := recv_window h + window_delta h\<rparr>)"
    using assms by (simp add: stream_inv_def)
qed

lemma sh_send_window_update_eq:
  "sh_send_window_update alive h =
     (case get_flags h of
        (h1, fs) \<Rightarrow>
          if window_delta h < max_recv_window h div 2 \<and> fs = 0 then (h1, Ok ())
          else unbound_send_event alive (h1\<lparr>recv_window := recv_window h + window_delta h\<rparr>)
                 (FrameEvent (new_window_update fs (sh_id h) (window_delta h))))"
  by (auto simp: sh_send_window_update_def window_delta_def Let_def dest!: get_flags_state split: prod.splits)

lemma sh_send_window_update_inv:
  "stream_inv h \<Longrightarrow> sh_send_window_update alive h = (h', r) \<Longrightarrow> stream_inv h'"
  using stream_inv_grow(1) [of h]
  by (fastforce simp: sh_send_window_update_eq stream_inv_def dest!: get_flags_state unbound_send_event_frame
      split: prod.splits if_splits)

lemma handle_frame_inv:
  assumes "stream_inv h" "wf_frame m f" "handle_frame h f = (h', r)"
  shows "stream_inv h'"
proof (cases "fr_ty f")
  case Data
  with assms(2) obtain b where b: "fr_body f = Some b" "unat (fr_length f) = length b"
    by (auto simp: wf_frame_def split: option.splits)
  with assms Data show ?thesis
    by (auto simp: handle_frame_def handle_data_def Let_def into_parts_def not_less stream_inv_def
        unat_sub_le word_le_nat_alt dest!: process_flags_state split: prod.splits sum.splits if_splits)
next
  case WindowUpdate
  with assms show ?thesis
    by (auto simp: handle_frame_def handle_window_update_def dest!: process_flags_state
        split: prod.splits sum.splits option.splits if_splits)
qed (use assms in \<open>auto simp: handle_frame_def\<close>)

text \<open>The receive loop by cases: it stops, idles, ends, fails on a frame, or handles one and
  goes on.\<close>

definition loopable :: "stream_handle \<Rightarrow> bool" where
  "loopable h \<longleftrightarrow> sh_state h \<notin> {RemoteClosing, Reset, Closed} \<and> read_buf h = []"

abbreviation protocol_errors :: "(yamux_error + unit) set" where
  "protocol_errors \<equiv> {Err UnexpectedFlag, Err RecvWindowExceeded, Err InvalidMsgType}"

lemma recv_frames_induct [consumes 1, case_names Stop Idle Ended Fail Step]:
  assumes run: "recv_frames h rs = (h', rs', r)"
    and stop: "\<And>h rs r. \<not> loopable h \<Longrightarrow> r \<notin> protocol_errors \<Longrightarrow> P h rs h rs r"
    and idle: "\<And>h rs rs'. loopable h \<Longrightarrow> rs = [] \<and> rs' = [] \<or> rs = RxPending # rs' \<Longrightarrow> P h rs h rs' (Ok ())"
    and ended: "\<And>h rs rs'. loopable h \<Longrightarrow> rs = RxEnd # rs' \<or> (\<exists>t. rs = RxTerminated # t \<and> rs' = rs) \<Longrightarrow>
                  P h rs (h\<lparr>sh_state := RemoteClosing\<rparr>) rs' (Err SessionShutdown)"
    and fail: "\<And>h f rs h1 e. loopable h \<Longrightarrow> handle_frame h f = (h1, Err e) \<Longrightarrow> P h (RxFrame f # rs) h1 rs (Err e)"
    and step: "\<And>h f rs h1 h' rs' r. loopable h \<Longrightarrow> handle_frame h f = (h1, Ok ()) \<Longrightarrow>
                  P h1 rs h' rs' r \<Longrightarrow> P h (RxFrame f # rs) h' rs' r"
  shows "P h rs h' rs' r"
  using run
proof (induction h rs rule: recv_frames.induct)
  case (1 h rs)
  show ?case
  proof (cases "loopable h")
    case False
    then have "h' = h" "rs' = rs" "r \<notin> protocol_errors"
      using "1.prems" by (auto simp: recv_frames.simps [of h rs] loopable_def split: if_splits)
    with False stop show ?thesis by simp
  next
    case True
    then have eq: "recv_frames h rs = (case rs of
             [] \<Rightarrow> (h, [], Ok ())
           | RxTerminated # _ \<Rightarrow> (h\<lparr>sh_state := RemoteClosing\<rparr>, rs, Err SessionShutdown)
           | RxFrame f # rs' \<Rightarrow>
               (case handle_frame h f of
                  (h1, Inl e) \<Rightarrow> (h1, rs', Err e)
                | (h1, Inr _) \<Rightarrow> recv_frames h1 rs')
           | RxEnd # rs' \<Rightarrow> (h\<lparr>sh_state := RemoteClosing\<rparr>, rs', Err SessionShutdown)
           | RxPending # rs' \<Rightarrow> (h, rs', Ok ()))"
      by (auto simp: recv_frames.simps [of h rs] loopable_def)
    have IH: "P h1 t h' rs' r"
      if "rs = RxFrame f # t" "handle_frame h f = (h1, Ok ())" "recv_frames h1 t = (h', rs', r)" for f t h1
      using "1.IH" [of "RxFrame f" t f h1 "Ok ()" "()"] that True by (auto simp: loopable_def)
    show ?thesis
    proof (cases rs)
      case Nil
      with eq "1.prems" True show ?thesis by (auto intro: idle)
    next
      case (Cons x t)
      with eq "1.prems" True IH show ?thesis
        by (cases x) (auto intro: idle ended fail step split: prod.splits sum.splits)
    qed
  qed
qed

lemma recv_frames_inv:
  assumes "recv_frames h rs = (h', rs', r)" "stream_inv h" "list_all (rx_wf m) rs"
  shows "stream_inv h' \<and> list_all (rx_wf m) rs'"
  using assms by (induction rule: recv_frames_induct) (auto dest: handle_frame_inv)

section \<open>Runs of a stream\<close>

text \<open>
  What a stream can be asked to do between its creation and its drop: reads (with the answers
  of the receiver), writes, shutdowns, and the window update the session sends for it.
\<close>

datatype stream_op =
    OpRead bool "rx list" nat
  | OpWrite bool "byte list"
  | OpShutdown bool
  | OpWindow bool

fun stream_step :: "stream_op \<Rightarrow> stream_handle \<Rightarrow> stream_handle" where
  "stream_step (OpRead alive rs n) h = fst (poll_read alive h rs n)"
| "stream_step (OpWrite alive buf) h = fst (poll_write alive h buf)"
| "stream_step (OpShutdown alive) h = fst (poll_shutdown alive h)"
| "stream_step (OpWindow alive) h = fst (sh_send_window_update alive h)"

fun op_wf :: "u32 \<Rightarrow> stream_op \<Rightarrow> bool" where
  "op_wf m (OpRead alive rs n) = list_all (rx_wf m) rs"
| "op_wf m _ = True"

lemma stream_inv_shrink:
  "stream_inv h \<Longrightarrow> stream_inv (h\<lparr>read_buf := drop n (read_buf h)\<rparr>)"
  by (simp add: stream_inv_def)

lemma poll_read_buffered_inv:
  assumes "stream_inv h" "poll_read_buffered alive h n = (h', out, p)"
  shows "stream_inv h'"
proof -
  have "stream_inv h2" if "sh_send_window_update alive (h\<lparr>read_buf := drop k (read_buf h)\<rparr>) = (h2, r)" for h2 r k
    using that assms(1) by (blast intro: sh_send_window_update_inv stream_inv_shrink)
  then show ?thesis
    using assms by (auto simp: poll_read_buffered_def Let_def intro: stream_inv_shrink
        split: sum.splits if_splits prod.splits)
qed

lemma poll_read_cases [consumes 1, case_names Early Refused Buffered]:
  assumes "poll_read alive h rs n = (h', rs', out, p)"
    and "h' = h \<Longrightarrow> rs' = rs \<Longrightarrow> out = [] \<Longrightarrow> read_buf h = [] \<Longrightarrow>
         p = Ready (if sh_state h = Reset then Err ConnectionReset else Ok ()) \<Longrightarrow>
         sh_state h \<in> {RemoteClosing, Closed, Reset} \<Longrightarrow> thesis"
    and "\<And>h1 r. recv_frames h rs = (h1, rs', r) \<Longrightarrow> r \<in> protocol_errors \<Longrightarrow> h' = send_go_away alive h1 \<Longrightarrow>
         out = [] \<Longrightarrow> p = Ready (Err InvalidData) \<Longrightarrow> thesis"
    and "\<And>h1 r. recv_frames h rs = (h1, rs', r) \<Longrightarrow> r \<notin> protocol_errors \<Longrightarrow>
         poll_read_buffered alive h1 n = (h', out, p) \<Longrightarrow> thesis"
  shows thesis
proof (cases "check_self_state h = Ok False")
  case True
  obtain h1 rs1 r where rf: "recv_frames h rs = (h1, rs1, r)" by (cases "recv_frames h rs") auto
  show ?thesis
  proof (cases "r \<in> protocol_errors")
    case True
    with \<open>check_self_state h = Ok False\<close> rf assms(1) show ?thesis
      by (intro assms(3) [of h1 r]) (auto simp: poll_read_def)
  next
    case False
    with True rf assms(1) show ?thesis
      by (intro assms(4) [of h1 r]) (auto simp: poll_read_def split: prod.splits)
  qed
next
  case False
  with assms(1) show ?thesis
    by (intro assms(2))
      (auto simp: poll_read_def check_self_state_def split: stream_state.splits if_splits)
qed

lemma send_go_away_inv: "stream_inv h \<Longrightarrow> stream_inv (send_go_away alive h)"
  by (simp add: send_go_away_def unbound_send_event_def)

lemma poll_read_inv:
  assumes "stream_inv h" "list_all (rx_wf m) rs" "poll_read alive h rs n = (h', rs', out, p)"
  shows "stream_inv h'"
  using assms(3)
proof (cases rule: poll_read_cases)
  case (Refused h1 r)
  with assms show ?thesis using recv_frames_inv send_go_away_inv by blast
next
  case (Buffered h1 r)
  with assms show ?thesis using recv_frames_inv poll_read_buffered_inv by blast
qed (use assms in simp)

text \<open>Writing and closing touch neither the receive side nor the identity of the stream.\<close>

definition same_recv :: "stream_handle \<Rightarrow> stream_handle \<Rightarrow> bool" where
  "same_recv h h' \<longleftrightarrow> sh_id h' = sh_id h \<and> read_buf h' = read_buf h \<and> recv_window h' = recv_window h
     \<and> max_recv_window h' = max_recv_window h \<and> send_window h' = send_window h"

lemma same_recv_inv: "same_recv h h' \<Longrightarrow> stream_inv h \<Longrightarrow> stream_inv h'"
  by (simp add: same_recv_def stream_inv_def)

lemma send_data_frame: "send_data alive h d = (h', r) \<Longrightarrow> same_recv h h'"
  by (auto simp: send_data_def unbound_send_frame_def same_recv_def
      dest!: get_flags_state unbound_send_event_frame split: prod.splits)

lemma close_frame: "close alive h = (h', r) \<Longrightarrow> same_recv h h'"
  by (auto simp: close_def send_close_def unbound_send_frame_def same_recv_def
      dest!: get_flags_state unbound_send_event_frame split: if_splits prod.splits sum.splits)

lemma stream_step_inv: "op_wf m op \<Longrightarrow> stream_inv h \<Longrightarrow> stream_inv (stream_step op h)"
proof (cases op)
  case (OpRead alive rs n)
  moreover assume "op_wf m op" "stream_inv h"
  ultimately show ?thesis
    by (cases "poll_read alive h rs n") (auto intro: poll_read_inv)
next
  case (OpWrite alive buf)
  moreover assume "stream_inv h"
  ultimately show ?thesis
    by (auto simp: poll_write_def Let_def dest!: send_data_frame intro: same_recv_inv
        split: prod.splits sum.splits)
next
  case (OpShutdown alive)
  moreover assume "stream_inv h"
  ultimately show ?thesis
    by (auto simp: poll_shutdown_def dest!: close_frame intro: same_recv_inv split: prod.splits sum.splits)
next
  case (OpWindow alive)
  moreover assume "stream_inv h"
  ultimately show ?thesis
    by (cases "sh_send_window_update alive h") (auto intro: sh_send_window_update_inv)
qed

interpretation window: invariant_system stream_step "op_wf m" stream_inv for m
  by unfold_locales (rule stream_step_inv)

section \<open>Delivery of data\<close>

fun payload :: "rx \<Rightarrow> byte list" where
  "payload (RxFrame f) = (if fr_ty f = Data then (case fr_body f of Some b \<Rightarrow> b | None \<Rightarrow> []) else [])"
| "payload _ = []"

lemma handle_frame_payload:
  assumes "handle_frame h f = (h', r)" "read_buf h = []"
  shows "r \<in> protocol_errors \<or> r = Ok () \<and> read_buf h' = payload (RxFrame f)"
  using assms
  by (auto simp: handle_frame_def handle_data_def handle_window_update_def into_parts_def Let_def
      process_flags_def split: frame_type.splits prod.splits sum.splits if_splits option.splits)

lemma recv_frames_payload:
  assumes "recv_frames h rs = (h', rs', r)" "r \<notin> protocol_errors"
  shows "read_buf h @ concat (map payload rs) = read_buf h' @ concat (map payload rs')"
  using assms
proof (induction rule: recv_frames_induct)
  case (Fail h f rs h1 e)
  then show ?case by (auto simp: loopable_def dest: handle_frame_payload)
next
  case (Step h f rs h1 h' rs' r)
  then show ?case using handle_frame_payload [OF Step.hyps(2)] by (auto simp: loopable_def)
qed auto

lemma sh_send_window_update_buf:
  "sh_send_window_update alive h = (h', r) \<Longrightarrow> read_buf h' = read_buf h"
  by (auto simp: sh_send_window_update_eq dest!: get_flags_state unbound_send_event_frame
      split: prod.splits if_splits)

lemma poll_read_buffered_payload:
  "poll_read_buffered alive h n = (h', out, p) \<Longrightarrow>
   read_buf h = out @ read_buf h' \<and> length out \<le> n"
  by (auto simp: poll_read_buffered_def Let_def dest!: sh_send_window_update_buf
      split: sum.splits if_splits prod.splits)

lemma check_self_state_cases:
  "check_self_state h = Ok True \<longleftrightarrow> read_buf h = [] \<and> sh_state h \<in> {RemoteClosing, Closed}"
  "check_self_state h = Err e \<longleftrightarrow> read_buf h = [] \<and> sh_state h = Reset \<and> e = ConnectionReset"
  by (cases "sh_state h"; auto simp: check_self_state_def)+

lemma poll_read_buffered_eof:
  assumes "poll_read_buffered alive h n = (h', [], Ready (Ok ()))"
  shows "h' = h \<and> read_buf h = [] \<and> sh_state h \<in> {RemoteClosing, Closed}"
proof (cases "check_self_state h")
  case (Inl e)
  with assms show ?thesis by (simp add: poll_read_buffered_def)
next
  case (Inr eof)
  with assms show ?thesis
    using check_self_state_cases(1) [of h]
    by (cases eof) (auto simp: poll_read_buffered_def Let_def min_def split: if_splits prod.splits sum.splits)
qed

section \<open>Opening and closing\<close>

fun is_data :: "stream_event \<Rightarrow> bool" where
  "is_data (FrameEvent f) = (fr_ty f = Data)"
| "is_data _ = False"

fun has_flag :: "flag \<Rightarrow> stream_event \<Rightarrow> bool" where
  "has_flag g (FrameEvent f) = contains (fr_flags f) g"
| "has_flag g _ = False"

definition flag_count :: "flag \<Rightarrow> stream_event list \<Rightarrow> nat" where
  "flag_count g evs = length (filter (has_flag g) evs)"

fun no_data_after_fin :: "stream_event list \<Rightarrow> bool" where
  "no_data_after_fin [] = True"
| "no_data_after_fin (e # es) =
     ((has_flag Fin e \<longrightarrow> \<not> list_ex is_data es) \<and> no_data_after_fin es)"

lemma flag_count_simps [simp]:
  "flag_count g [] = 0"
  "flag_count g (e # es) = (if has_flag g e then Suc (flag_count g es) else flag_count g es)"
  "flag_count g (evs @ es) = flag_count g evs + flag_count g es"
  by (simp_all add: flag_count_def)

lemma no_data_after_fin_append [simp]:
  "no_data_after_fin (evs @ es) \<longleftrightarrow>
     no_data_after_fin evs \<and> no_data_after_fin es \<and> (list_ex is_data es \<longrightarrow> flag_count Fin evs = 0)"
  by (induction evs) auto

lemma fr_sel_new [simp]:
  "fr_flags (new_window_update fs sid d) = fs" "fr_ty (new_window_update fs sid d) = WindowUpdate"
  "fr_length (new_window_update fs sid d) = d" "fr_stream_id (new_window_update fs sid d) = sid"
  "fr_flags (new_data fs sid b) = fs" "fr_ty (new_data fs sid b) = Data"
  "fr_stream_id (new_data fs sid b) = sid" "fr_body (new_data fs sid b) = Some b"
  by (simp_all add: fr_sel_defs new_window_update_def new_data_def)

text \<open>
  The invariant of the close protocol. A stream that is not locally closed has sent no FIN; one
  that was never announced has sent no SYN.
\<close>

definition close_inv :: "stream_handle \<Rightarrow> bool" where
  "close_inv h \<longleftrightarrow>
     no_data_after_fin (sh_events h) \<and> flag_count Fin (sh_events h) \<le> 1 \<and> flag_count Syn (sh_events h) \<le> 1
     \<and> (sh_state h \<notin> {LocalClosing, Closed, Reset} \<longrightarrow> flag_count Fin (sh_events h) = 0)
     \<and> (sh_state h = Init \<longrightarrow> flag_count Syn (sh_events h) = 0)"

fun rx_live :: "rx \<Rightarrow> bool" where
  "rx_live RxEnd = False"
| "rx_live RxTerminated = False"
| "rx_live _ = True"

fun op_live :: "stream_op \<Rightarrow> bool" where
  "op_live (OpRead alive rs n) = list_all rx_live rs"
| "op_live _ = True"

text \<open>A step of the state that the invariant survives as long as nothing is sent.\<close>

definition quiet_step :: "stream_handle \<Rightarrow> stream_handle \<Rightarrow> bool" where
  "quiet_step h h' \<longleftrightarrow> sh_events h' = sh_events h
     \<and> (sh_state h \<in> {LocalClosing, Closed, Reset} \<longrightarrow> sh_state h' \<in> {LocalClosing, Closed, Reset})
     \<and> (sh_state h' = Init \<longrightarrow> sh_state h = Init)"

lemma quiet_step_inv: "quiet_step h h' \<Longrightarrow> close_inv h \<Longrightarrow> close_inv h'"
  by (auto simp: quiet_step_def close_inv_def)

lemma process_flags_quiet: "process_flags h fs = (h', r) \<Longrightarrow> quiet_step h h'"
  by (auto simp: process_flags_def Let_def quiet_step_def split: if_splits)

lemma quiet_step_fields [simp]:
  "quiet_step h (h'\<lparr>read_buf := b\<rparr>) = quiet_step h h'"
  "quiet_step h (h'\<lparr>recv_window := w\<rparr>) = quiet_step h h'"
  "quiet_step h (h'\<lparr>send_window := w\<rparr>) = quiet_step h h'"
  "quiet_step h (h'\<lparr>writeable_wake := k\<rparr>) = quiet_step h h'"
  "quiet_step h (h'\<lparr>sh_wakes := j\<rparr>) = quiet_step h h'"
  by (simp_all add: quiet_step_def)

lemma handle_data_quiet: "handle_data h f = (h', r) \<Longrightarrow> quiet_step h h'"
  by (auto simp: handle_data_def Let_def dest!: process_flags_quiet
      split: prod.splits sum.splits if_splits option.splits)

lemma handle_window_update_quiet: "handle_window_update h f = (h', r) \<Longrightarrow> quiet_step h h'"
  by (auto simp: handle_window_update_def dest!: process_flags_quiet
      split: prod.splits sum.splits if_splits option.splits)

lemma handle_frame_quiet: "handle_frame h f = (h', r) \<Longrightarrow> quiet_step h h'"
  by (cases "fr_ty f")
    (auto simp: handle_frame_def intro: handle_data_quiet handle_window_update_quiet, auto simp: quiet_step_def)

lemma recv_frames_quiet:
  assumes "recv_frames h rs = (h', rs', r)" "list_all rx_live rs"
  shows "quiet_step h h'"
  using assms
proof (induction rule: recv_frames_induct)
  case (Step h f rs h1 h' rs' r)
  then show ?case using handle_frame_quiet [OF Step.hyps(2)] by (auto simp: quiet_step_def)
qed (auto simp: quiet_step_def dest: handle_frame_quiet)

lemma sh_send_window_update_close:
  "close_inv h \<Longrightarrow> sh_send_window_update alive h = (h', r) \<Longrightarrow> close_inv h'"
  by (cases "sh_state h")
    (auto simp: sh_send_window_update_eq get_flags_def close_inv_def unbound_send_event_def
      split: if_splits)

lemma send_data_close:
  "close_inv h \<Longrightarrow> sh_state h \<notin> {LocalClosing, Closed, Reset} \<Longrightarrow> send_data alive h d = (h', r) \<Longrightarrow> close_inv h'"
  by (cases "sh_state h")
    (auto simp: send_data_def unbound_send_frame_def get_flags_def close_inv_def unbound_send_event_def
      split: if_splits)

lemma close_close: "close_inv h \<Longrightarrow> close alive h = (h', r) \<Longrightarrow> close_inv h'"
  by (cases "sh_state h")
    (auto simp: close_def send_close_def unbound_send_frame_def get_flags_def close_inv_def
      unbound_send_event_def split: if_splits)

lemma close_inv_buf [simp]: "close_inv (h\<lparr>read_buf := b\<rparr>) = close_inv h"
  "close_inv (h\<lparr>send_window := w\<rparr>) = close_inv h"
  "close_inv (h\<lparr>writeable_wake := k\<rparr>) = close_inv h"
  by (simp_all add: close_inv_def)

lemma send_go_away_close: "close_inv h \<Longrightarrow> close_inv (send_go_away alive h)"
  by (auto simp: send_go_away_def unbound_send_event_def close_inv_def)

lemma poll_read_buffered_close:
  assumes "close_inv h" "poll_read_buffered alive h n = (h', out, p)"
  shows "close_inv h'"
proof -
  have "close_inv h2" if "sh_send_window_update alive (h\<lparr>read_buf := b\<rparr>) = (h2, r)" for h2 r b
    using that assms(1) sh_send_window_update_close [of "h\<lparr>read_buf := b\<rparr>" alive h2 r] by simp
  then show ?thesis
    using assms by (auto simp: poll_read_buffered_def Let_def split: sum.splits if_splits prod.splits)
qed

lemma poll_read_close:
  assumes "close_inv h" "list_all rx_live rs" "poll_read alive h rs n = (h', rs', out, p)"
  shows "close_inv h'"
  using assms(3)
proof (cases rule: poll_read_cases)
  case (Refused h1 r)
  with assms show ?thesis
    by (metis send_go_away_close quiet_step_inv recv_frames_quiet)
next
  case (Buffered h1 r)
  with assms show ?thesis
    by (metis poll_read_buffered_close quiet_step_inv recv_frames_quiet)
qed (use assms in simp)

lemma stream_step_close: "op_live op \<Longrightarrow> close_inv h \<Longrightarrow> close_inv (stream_step op h)"
proof (cases op)
  case (OpRead alive rs n)
  moreover assume "op_live op" "close_inv h"
  ultimately show ?thesis by (cases "poll_read alive h rs n") (auto intro: poll_read_close)
next
  case (OpWrite alive buf)
  moreover assume "close_inv h"
  ultimately show ?thesis
    by (auto simp: poll_write_def Let_def intro: send_data_close split: prod.splits sum.splits)
next
  case (OpShutdown alive)
  moreover assume "close_inv h"
  ultimately show ?thesis
    by (auto simp: poll_shutdown_def intro: close_close split: prod.splits sum.splits)
next
  case (OpWindow alive)
  moreover assume "close_inv h"
  ultimately show ?thesis
    by (cases "sh_send_window_update alive h") (auto intro: sh_send_window_update_close)
qed

interpretation closing: invariant_system stream_step op_live close_inv
  by unfold_locales (rule stream_step_close)

section \<open>The send window\<close>

fun data_size :: "stream_event \<Rightarrow> nat" where
  "data_size (FrameEvent f) = (if fr_ty f = Data then length (case fr_body f of Some b \<Rightarrow> b | None \<Rightarrow> []) else 0)"
| "data_size _ = 0"

fun rx_grant :: "rx \<Rightarrow> nat" where
  "rx_grant (RxFrame f) = (if fr_ty f = WindowUpdate then unat (fr_length f) else 0)"
| "rx_grant _ = 0"

fun op_grant :: "stream_op \<Rightarrow> nat" where
  "op_grant (OpRead alive rs n) = sum_list (map rx_grant rs)"
| "op_grant _ = 0"

text \<open>Data sent so far plus what may still be sent.\<close>

definition credit :: "stream_handle \<Rightarrow> nat" where
  "credit h = sum_list (map data_size (sh_events h)) + unat (send_window h)"

lemma process_flags_credit: "process_flags h fs = (h', r) \<Longrightarrow> credit h' = credit h"
  by (auto simp: credit_def dest!: process_flags_state)

lemma handle_frame_credit:
  assumes "handle_frame h f = (h', r)"
  shows "credit h' \<le> credit h + rx_grant (RxFrame f)"
proof (cases "fr_ty f")
  case WindowUpdate
  with assms show ?thesis
    by (auto simp: handle_frame_def handle_window_update_def credit_def
        dest!: process_flags_state checked_add_Some split: prod.splits sum.splits option.splits if_splits)
next
  case Data
  with assms show ?thesis
    by (auto simp: handle_frame_def handle_data_def Let_def credit_def
        dest!: process_flags_state split: prod.splits sum.splits option.splits if_splits)
qed (use assms in \<open>auto simp: handle_frame_def\<close>)

lemma recv_frames_credit:
  assumes "recv_frames h rs = (h', rs', r)"
  shows "credit h' \<le> credit h + sum_list (map rx_grant rs)"
  using assms
proof (induction rule: recv_frames_induct)
  case (Ended h rs rs')
  then show ?case by (simp add: credit_def)
next
  case (Fail h f rs h1 e)
  then show ?case using handle_frame_credit [of h f] by fastforce
next
  case (Step h f rs h1 h' rs' r)
  then show ?case using handle_frame_credit [of h f] by fastforce
qed auto

lemma sh_send_window_update_credit:
  "sh_send_window_update alive h = (h', r) \<Longrightarrow> credit h' = credit h"
  by (auto simp: sh_send_window_update_eq credit_def dest!: get_flags_state unbound_send_event_frame
      split: prod.splits if_splits)

lemma credit_buf [simp]: "credit (h\<lparr>read_buf := b\<rparr>) = credit h"
  by (simp add: credit_def)

lemma poll_read_buffered_credit:
  "poll_read_buffered alive h n = (h', out, p) \<Longrightarrow> credit h' = credit h"
  by (auto simp: poll_read_buffered_def Let_def
      dest!: sh_send_window_update_credit split: sum.splits if_splits prod.splits)

lemma poll_read_credit:
  assumes "poll_read alive h rs n = (h', rs', out, p)"
  shows "credit h' \<le> credit h + sum_list (map rx_grant rs)"
  using assms
proof (cases rule: poll_read_cases)
  case (Refused h1 r)
  then have "credit h' = credit h1"
    by (simp add: send_go_away_def unbound_send_event_def credit_def)
  with Refused show ?thesis using recv_frames_credit by fastforce
next
  case (Buffered h1 r)
  then show ?thesis using recv_frames_credit poll_read_buffered_credit by fastforce
qed simp

lemma send_data_events:
  "send_data alive h d = (h', r) \<Longrightarrow>
   sh_events h' = sh_events h @ (if alive then [FrameEvent (new_data (snd (get_flags h)) (sh_id h) d)] else [])
   \<and> send_window h' = send_window h \<and> r = (if alive then Ok () else Err SessionShutdown)"
  by (auto simp: send_data_def unbound_send_frame_def dest!: get_flags_state unbound_send_event_frame
      split: prod.splits)

lemma poll_write_credit: "credit (fst (poll_write alive h buf)) = credit h"
proof -
  define n where "n = min (unat (send_window h)) (length buf)"
  have "unat (of_nat n :: u32) = n" "n \<le> unat (send_window h)"
    using unat_lt [of "send_window h"] by (auto simp: n_def intro!: unat_of_nat_lt)
  then have "unat (send_window h - of_nat n) = unat (send_window h) - n"
    by (subst unat_sub_le) (simp_all add: word_le_nat_alt)
  with \<open>n \<le> unat (send_window h)\<close> show ?thesis
    unfolding poll_write_def n_def [symmetric] Let_def
    by (auto simp: credit_def n_def dest!: send_data_events split: prod.splits sum.splits if_splits)
qed

lemma close_events:
  "close alive h = (h', r) \<Longrightarrow> \<exists>evs. sh_events h' = sh_events h @ evs \<and> list_all (\<lambda>e. data_size e = 0) evs"
  by (auto simp: close_def send_close_def unbound_send_frame_def unbound_send_event_def
      dest!: get_flags_state split: if_splits prod.splits sum.splits)

lemma sum_data_size_0: "list_all (\<lambda>e. data_size e = 0) evs \<Longrightarrow> sum_list (map data_size evs) = 0"
  by (induction evs) auto

lemma stream_step_credit: "credit (stream_step op h) \<le> credit h + op_grant op"
proof (cases op)
  case (OpRead alive rs n)
  then show ?thesis by (cases "poll_read alive h rs n") (auto dest: poll_read_credit)
next
  case (OpShutdown alive)
  obtain h' r where c: "close alive h = (h', r)" by fastforce
  from close_events [OF c] close_frame [OF c] have "credit h' = credit h"
    by (auto simp: credit_def same_recv_def sum_data_size_0)
  with OpShutdown c show ?thesis by (auto simp: poll_shutdown_def split: sum.splits)
next
  case (OpWindow alive)
  then show ?thesis by (cases "sh_send_window_update alive h") (auto dest: sh_send_window_update_credit)
qed (simp add: poll_write_credit)

lemma run_credit: "credit (fold stream_step ops h) \<le> credit h + sum_list (map op_grant ops)"
proof (induction ops arbitrary: h)
  case (Cons op ops)
  from Cons.IH [of "stream_step op h"] stream_step_credit [of op h] show ?case by simp
qed simp

section \<open>Properties\<close>

text \<open>A stream as \<open>create_stream\<close> makes it, for the witnesses.\<close>

definition sample_stream :: stream_handle where
  "sample_stream =
     \<lparr>sh_id = 1, sh_state = Init, max_recv_window = INITIAL_STREAM_WINDOW,
      recv_window = INITIAL_STREAM_WINDOW, send_window = INITIAL_STREAM_WINDOW,
      read_buf = [], sh_events = [], writeable_wake = False, sh_wakes = 0\<rparr>"

lemma stream_new_inv:
  "stream_new sid st mw = Some h \<Longrightarrow> INITIAL_STREAM_WINDOW \<le> mw \<Longrightarrow> stream_inv h"
  by (auto simp: stream_new_def stream_inv_def word_le_nat_alt split: if_splits)

lemma stream_new_close: "stream_new sid st mw = Some h \<Longrightarrow> close_inv h"
  by (auto simp: stream_new_def close_inv_def split: if_splits)

text \<open>
  C2. Receive-side flow control is sound. Along every run of reads, writes, shutdowns and
  window updates of a stream made with a maximal window of at least the initial one, over
  well-formed frames, what is buffered plus what the peer may still send never exceeds the
  maximal window, and the 32-bit subtraction in \<open>send_window_update\<close> never wraps.
\<close>

theorem recv_window_safe:
  assumes "stream_new sid st mw = Some h0" "INITIAL_STREAM_WINDOW \<le> mw" "list_all (op_wf m) ops"
  shows "let h = fold stream_step ops h0 in
           length (read_buf h) + unat (recv_window h) \<le> unat (max_recv_window h) \<and>
           unat (max_recv_window h - of_nat (length (read_buf h)) - recv_window h) =
             unat (max_recv_window h) - length (read_buf h) - unat (recv_window h)"
proof -
  have "stream_inv (fold stream_step ops h0)"
    using window.run_inv [OF assms(3) stream_new_inv [OF assms(1,2)]] .
  then show ?thesis
    using unat_window_delta by (simp add: stream_inv_def window_delta_def Let_def)
qed

theorem recv_window_safe_witness:
  "stream_new 1 Init INITIAL_STREAM_WINDOW = Some sample_stream \<and>
   list_all (op_wf 262144) [OpWindow True, OpRead True [RxFrame (new_data 0 1 [7, 8])] 1] \<and>
   length (read_buf (fold stream_step [OpWindow True, OpRead True [RxFrame (new_data 0 1 [7, 8])] 1] sample_stream))
     \<le> unat INITIAL_STREAM_WINDOW"
proof -
  let ?ops = "[OpWindow True, OpRead True [RxFrame (new_data 0 1 [7, 8])] 1]"
  have n: "stream_new 1 Init INITIAL_STREAM_WINDOW = Some sample_stream"
    by (simp add: stream_new_def sample_stream_def)
  have w: "list_all (op_wf 262144) ?ops"
    by (simp add: wf_frame_def new_data_def fr_sel_defs)
  have m: "max_recv_window (fold stream_step ?ops sample_stream) = INITIAL_STREAM_WINDOW"
    by (simp add: sample_stream_def sh_send_window_update_def get_flags_def unbound_send_event_def Let_def
        poll_read_def check_self_state_def recv_frames.simps handle_frame_def new_data_def fr_sel_defs
        handle_data_def process_flags_def poll_read_buffered_def into_parts_def INITIAL_STREAM_WINDOW_def
        contains_def flags_from_def)
  from recv_window_safe [OF n _ w] n w m show ?thesis by (simp add: Let_def)
qed

text \<open>
  C12. Reading neither loses, duplicates nor reorders data. Unless the call reports a protocol
  violation, the bytes buffered before it followed by the bodies of the data frames waiting
  in the channel are exactly the bytes it returned, the bytes still buffered and the bodies
  still waiting; and it returns no more than the caller asked for.
\<close>

theorem read_delivers:
  assumes "poll_read alive h rs n = (h', rs', out, p)" "p \<noteq> Ready (Err InvalidData)"
  shows "read_buf h @ concat (map payload rs) = out @ read_buf h' @ concat (map payload rs')
       \<and> length out \<le> n"
  using assms(1)
proof (cases rule: poll_read_cases)
  case (Buffered h1 r)
  with recv_frames_payload poll_read_buffered_payload show ?thesis by fastforce
qed (use assms(2) in simp_all)

theorem read_delivers_witness:
  "\<exists>h' rs' out p. poll_read True sample_stream [RxFrame (new_data 0 1 [7, 8, 9])] 2 = (h', rs', out, p)
     \<and> p \<noteq> Ready (Err InvalidData) \<and> [7, 8, 9] = out @ read_buf h' @ concat (map payload rs')"
proof -
  obtain h' rs' out p where r: "poll_read True sample_stream [RxFrame (new_data 0 1 [7, 8, 9])] 2 = (h', rs', out, p)"
    using prod_cases4 by blast
  moreover from r have "p \<noteq> Ready (Err InvalidData)"
    by (auto simp: sample_stream_def sh_send_window_update_def get_flags_def unbound_send_event_def Let_def
        poll_read_def check_self_state_def recv_frames.simps handle_frame_def new_data_def fr_sel_defs
        handle_data_def process_flags_def poll_read_buffered_def into_parts_def INITIAL_STREAM_WINDOW_def
        contains_def flags_from_def)
  ultimately show ?thesis
    using read_delivers [OF r] by (auto simp: sample_stream_def)
qed

text \<open>
  An empty successful read means end of stream: nothing is buffered and the remote side
  has closed, so no byte that arrived is still owed to the reader.
\<close>

theorem read_eof:
  assumes "poll_read alive h rs n = (h', rs', [], Ready (Ok ()))"
  shows "read_buf h' = [] \<and> sh_state h' \<in> {RemoteClosing, Closed}"
  using assms
proof (cases rule: poll_read_cases)
  case Early
  then show ?thesis by (auto split: if_splits)
next
  case (Buffered h1 r)
  then show ?thesis using poll_read_buffered_eof by blast
qed simp

theorem read_eof_witness:
  "poll_read True (sample_stream\<lparr>sh_state := RemoteClosing\<rparr>) [] 5
     = (sample_stream\<lparr>sh_state := RemoteClosing\<rparr>, [], [], Ready (Ok ()))
   \<and> read_buf (sample_stream\<lparr>sh_state := RemoteClosing\<rparr>) = []"
proof -
  have r: "poll_read True (sample_stream\<lparr>sh_state := RemoteClosing\<rparr>) [] 5
     = (sample_stream\<lparr>sh_state := RemoteClosing\<rparr>, [], [], Ready (Ok ()))"
    by (simp add: poll_read_def check_self_state_def sample_stream_def)
  from read_eof [OF r] r show ?thesis by simp
qed

text \<open>
  C13. The open and close protocol: along every run of a new stream during which the session
  keeps the stream's frame channel open, SYN is sent at most once, FIN is sent at most once,
  and no data frame follows the FIN.
\<close>

theorem close_discipline:
  assumes "stream_new sid st mw = Some h0" "list_all op_live ops"
  shows "let evs = sh_events (fold stream_step ops h0) in
           flag_count Syn evs \<le> 1 \<and> flag_count Fin evs \<le> 1 \<and> no_data_after_fin evs"
  using closing.run_inv [OF assms(2) stream_new_close [OF assms(1)]]
  by (simp add: close_inv_def Let_def)

theorem close_discipline_witness:
  "stream_new 1 Init INITIAL_STREAM_WINDOW = Some sample_stream \<and>
   list_all op_live [OpWindow True, OpShutdown True, OpWrite True [1], OpShutdown True] \<and>
   flag_count Fin (sh_events (fold stream_step
     [OpWindow True, OpShutdown True, OpWrite True [1], OpShutdown True] sample_stream)) \<le> 1"
proof -
  have n: "stream_new 1 Init INITIAL_STREAM_WINDOW = Some sample_stream"
    by (simp add: stream_new_def sample_stream_def)
  have l: "list_all op_live [OpWindow True, OpShutdown True, OpWrite True [1], OpShutdown True]" by simp
  from close_discipline [OF n l] n l show ?thesis unfolding Let_def by blast
qed

text \<open>
  C14. Send-side flow control: along every run, the data bytes handed to the session plus the
  window that is left never exceed the initial window plus everything the peer granted by
  window updates. So the peer's receive window is never overrun.
\<close>

theorem send_within_grants:
  assumes "stream_new sid st mw = Some h0"
  shows "sum_list (map data_size (sh_events (fold stream_step ops h0)))
           + unat (send_window (fold stream_step ops h0))
         \<le> unat INITIAL_STREAM_WINDOW + sum_list (map op_grant ops)"
proof -
  have "credit h0 = unat INITIAL_STREAM_WINDOW"
    using assms by (auto simp: stream_new_def credit_def split: if_splits)
  with run_credit [of ops h0] show ?thesis by (simp add: credit_def)
qed

theorem send_within_grants_witness:
  "stream_new 1 Init INITIAL_STREAM_WINDOW = Some sample_stream \<and>
   sum_list (map data_size (sh_events (fold stream_step [OpWrite True [1, 2, 3]] sample_stream)))
     \<le> unat INITIAL_STREAM_WINDOW"
proof -
  have n: "stream_new 1 Init INITIAL_STREAM_WINDOW = Some sample_stream"
    by (simp add: stream_new_def sample_stream_def)
  from send_within_grants [OF n, of "[OpWrite True [1, 2, 3]]"] n show ?thesis
    by (simp del: fold.simps stream_step.simps)
qed

text \<open>
  A writer blocked on an exhausted window resumes: the blocked write registers its waker,
  the next window update wakes it exactly once, and the retried write then accepts as many
  bytes as the grant allows.
\<close>

theorem blocked_writer_resumes:
  assumes "send_window h = 0" "sh_state h \<in> {Init, SynSent, SynReceived, Established}" "0 < delta"
    and "poll_write True h buf = (h1, p1)"
    and "handle_frame h1 (new_window_update flags_default (sh_id h) delta) = (h2, r2)"
  shows "p1 = Pending \<and> r2 = Ok () \<and> sh_wakes h2 = Suc (sh_wakes h) \<and> \<not> writeable_wake h2 \<and>
         snd (poll_write True h2 buf) = Ready (Ok (min (unat delta) (length buf)))"
proof -
  have add: "checked_add 0 delta = Some delta"
    using unat_lt [of delta] by (simp add: checked_add_def)
  from assms(1,2,4) have h1: "h1 = h\<lparr>writeable_wake := True\<rparr>" "p1 = Pending"
    by (auto simp: poll_write_def)
  with assms(1,5) have h2: "h2 = h\<lparr>writeable_wake := False, send_window := delta, sh_wakes := Suc (sh_wakes h)\<rparr>"
    "r2 = Ok ()"
    by (auto simp: handle_frame_def handle_window_update_def process_flags_def add)
  obtain h3 where "send_data True h2 (take (min (unat delta) (length buf)) buf) = (h3, Ok ())"
    using send_data_events by (metis surj_pair)
  with assms(2,3) h2 have "snd (poll_write True h2 buf) = Ready (Ok (min (unat delta) (length buf)))"
    by (auto simp: poll_write_def Let_def)
  with h1 h2 show ?thesis by simp
qed

theorem blocked_writer_resumes_witness:
  "snd (poll_write True (sample_stream\<lparr>sh_state := Established, send_window := 3, writeable_wake := False, sh_wakes := 1\<rparr>)
     [1, 2, 3, 4]) = Ready (Ok (min 3 4))"
proof -
  let ?h = "sample_stream\<lparr>sh_state := Established, send_window := 0\<rparr>"
  have w: "poll_write True ?h [1, 2, 3, 4] = (?h\<lparr>writeable_wake := True\<rparr>, Pending)"
    by (simp add: poll_write_def)
  have f: "handle_frame (?h\<lparr>writeable_wake := True\<rparr>) (new_window_update flags_default (sh_id ?h) 3)
           = (sample_stream\<lparr>sh_state := Established, send_window := 3, writeable_wake := False, sh_wakes := 1\<rparr>, Ok ())"
    by (simp add: handle_frame_def handle_window_update_def process_flags_def checked_add_def sample_stream_def)
  from blocked_writer_resumes [OF _ _ _ w f] show ?thesis by simp
qed

text \<open>
  After a shutdown the write half is closed: in every state, shutting down a stream whose
  session is alive succeeds, and any later write fails with a broken pipe, changes nothing
  and emits nothing.
\<close>

theorem no_write_after_shutdown:
  assumes "poll_shutdown True h = (h1, p)"
  shows "p = Ready (Ok ()) \<and> poll_write alive h1 buf = (h1, Ready (Err BrokenPipe))"
  using assms
  by (cases "sh_state h")
    (auto simp: poll_shutdown_def close_def send_close_def unbound_send_frame_def unbound_send_event_def
      get_flags_def poll_write_def)

theorem no_write_after_shutdown_witness:
  "\<exists>h1 p. poll_shutdown True sample_stream = (h1, p) \<and> poll_write True h1 [1] = (h1, Ready (Err BrokenPipe))"
proof -
  obtain h1 p where s: "poll_shutdown True sample_stream = (h1, p)" by fastforce
  from no_write_after_shutdown [OF s, of True "[1]"] s show ?thesis by blast
qed

text \<open>
  Dropping a stream always releases it in the session: unless the stream is already
  closed, the last event is its closed notice, preceded by a reset frame for the peer exactly
  when the local side had neither sent FIN nor been reset.
\<close>

theorem drop_releases:
  "sh_events (drop_handle True h) = sh_events h @
     (if sh_state h = Closed then []
      else if sh_state h \<in> {LocalClosing, Reset} then [ClosedEvent (sh_id h)]
      else [FrameEvent (new_window_update (flags_add (snd (get_flags h)) Rst) (sh_id h) 0), ClosedEvent (sh_id h)])"
  by (cases "sh_state h") (auto simp: drop_handle_def get_flags_def unbound_send_event_def Let_def)

text \<open>
  The branch of \<open>poll_read\<close> commented as unreachable is reached: a data frame that carries
  FIN leaves the stream remotely closed with the data buffered, and the same call then
  returns that data in the closed state (without a window update).
\<close>

theorem closed_read_branch_reached:
  "\<exists>h'. poll_read True (sample_stream\<lparr>sh_state := Established\<rparr>) [RxFrame (new_data (flags_from Fin) 1 [7])] 1
        = (h', [], [7], Ready (Ok ())) \<and> sh_state h' = RemoteClosing \<and> sh_events h' = []"
  by (simp add: sample_stream_def poll_read_def check_self_state_def recv_frames.simps handle_frame_def
      new_data_def fr_sel_defs handle_data_def process_flags_def poll_read_buffered_def into_parts_def
      INITIAL_STREAM_WINDOW_def contains_def flags_from_def Let_def)

text \<open>
  A read into a full (zero capacity) buffer is pending even when data is buffered, and
  does not look at the frame channel, so nothing is registered that could wake the reader.
\<close>

theorem zero_read_pends:
  assumes "read_buf h \<noteq> []" "sh_state h \<notin> {RemoteClosing, Reset, Closed}"
  shows "poll_read alive h rs 0 = (h, rs, [], Pending)"
  using assms by (auto simp: poll_read_def check_self_state_def recv_frames.simps poll_read_buffered_def)

theorem zero_read_pends_witness:
  "poll_read True (sample_stream\<lparr>read_buf := [5]\<rparr>) [RxPending] 0 = (sample_stream\<lparr>read_buf := [5]\<rparr>, [RxPending], [], Pending)"
  by (rule zero_read_pends) (simp_all add: sample_stream_def)

end
