(* ===== verification/Yamux_Session.thy ===== *)
theory Yamux_Session
  imports Yamux_Stream
begin

text \<open>
  The yamux session (\<open>yamux/src/session.rs\<close>, \<open>control.rs\<close>): stream ids, pings, go-away,
  the two frame queues, distribution of incoming frames to the streams and the poll loop.

  Everything that belongs to other crates (the framed sink and stream, the frame channels to
  the streams, the event and command channels, the timer and the clock) is one opaque world
  \<open>'w\<close> with operations \<open>session_ops\<close>, a parameter of every definition; \<open>'c\<close> is the sending end
  of a frame channel. An action returns \<open>None\<close> when the call does not return (a failed
  assertion, \<open>unreachable!()\<close>, or a loop that never ends), otherwise the new session and a
  result.
\<close>

datatype session_type = Client | Server

datatype command = OpenStream | Shutdown

datatype try_send = Sent | Full frame | Disconnected

record ('w, 'c) session_ops =
  sink_poll_ready :: "'w \<Rightarrow> 'w \<times> (io_error + unit) poll"
  sink_start_send :: "'w \<Rightarrow> frame \<Rightarrow> 'w \<times> (io_error + unit)"
  sink_poll_flush :: "'w \<Rightarrow> 'w \<times> (io_error + unit) poll"
  framed_poll_next :: "'w \<Rightarrow> 'w \<times> (io_error + frame) option poll"
  chan_new :: "'w \<Rightarrow> 'w \<times> 'c"
  chan_poll_ready :: "'w \<Rightarrow> 'c \<Rightarrow> 'w \<times> (unit + unit) poll"
  chan_try_send :: "'w \<Rightarrow> 'c \<Rightarrow> frame \<Rightarrow> 'w \<times> try_send"
  event_send :: "'w \<Rightarrow> stream_event \<Rightarrow> 'w"
  event_poll_next :: "'w \<Rightarrow> 'w \<times> stream_event option poll"
  command_poll_next :: "'w \<Rightarrow> 'w \<times> command option poll"
  reply_open :: "'w \<Rightarrow> yamux_error + stream_handle \<Rightarrow> 'w"
  reply_shutdown :: "'w \<Rightarrow> 'w"
  interval_new :: "'w \<Rightarrow> nat \<Rightarrow> 'w"
  interval_poll_next :: "'w \<Rightarrow> 'w \<times> unit option poll"
  instant_now :: "'w \<Rightarrow> nat"

record ('w, 'c) session =
  world :: 'w
  eof :: bool
  remote_go_away :: bool
  local_go_away :: bool
  next_stream_id :: u32
  ses_ty :: session_type
  ses_config :: config
  pings :: "(u32 \<times> nat) list"
  ping_id :: u32
  streams :: "(u32 \<times> 'c) list"
  pending_streams :: "stream_handle list"
  write_pending_frames :: "frame list"
  read_pending_frames :: "frame list"
  keepalive :: bool

type_synonym ('s, 'a) action = "('s, io_error, 'a) fallible"

text \<open>Hash and tree maps as association lists with distinct keys.\<close>

definition map_remove :: "'k \<Rightarrow> ('k \<times> 'v) list \<Rightarrow> ('k \<times> 'v) list" where
  "map_remove k m = filter (\<lambda>(k', _). k' \<noteq> k) m"

definition map_insert :: "'k \<Rightarrow> 'v \<Rightarrow> ('k \<times> 'v) list \<Rightarrow> ('k \<times> 'v) list" where
  "map_insert k v m = (k, v) # map_remove k m"

definition split_off :: "'k::linorder \<Rightarrow> ('k \<times> 'v) list \<Rightarrow> ('k \<times> 'v) list" where
  "split_off k m = filter (\<lambda>(k', _). k \<le> k') m"

section \<open>Construction\<close>

definition TIMEOUT :: nat where
  "TIMEOUT = 30"

definition session_new :: "('w, 'c) session_ops \<Rightarrow> 'w \<Rightarrow> config \<Rightarrow> session_type \<Rightarrow> ('w, 'c) session option" where
  "session_new Ops w cfg ty =
     (if max_stream_window_size cfg \<ge> INITIAL_STREAM_WINDOW then
        Some \<lparr>world = (if enable_keepalive cfg then interval_new Ops w (keepalive_interval cfg) else w),
              eof = False, remote_go_away = False, local_go_away = False,
              next_stream_id = (case ty of Client \<Rightarrow> 1 | Server \<Rightarrow> 2),
              ses_ty = ty, ses_config = cfg, pings = [], ping_id = 0, streams = [],
              pending_streams = [], write_pending_frames = [], read_pending_frames = [],
              keepalive = enable_keepalive cfg\<rparr>
      else None)"

section \<open>Writing\<close>

definition is_dead :: "('w, 'c) session \<Rightarrow> bool" where
  "is_dead s \<longleftrightarrow> remote_go_away s \<and> local_go_away s \<or> eof s"

text \<open>\<open>poll_complete\<close>: \<open>True\<close> when the flush is still pending.\<close>

definition poll_complete :: "('w, 'c) session_ops \<Rightarrow> ('w, 'c) session \<Rightarrow> ('w, 'c) session \<times> (io_error + bool)" where
  "poll_complete Ops s =
     (case sink_poll_flush Ops (world s) of
        (w, Pending) \<Rightarrow> (s\<lparr>world := w\<rparr>, Ok True)
      | (w, Ready (Inl e)) \<Rightarrow> (s\<lparr>world := w\<rparr>, Err e)
      | (w, Ready (Inr _)) \<Rightarrow> (s\<lparr>world := w\<rparr>, Ok False))"

definition finish_send :: "('w, 'c) session_ops \<Rightarrow> ('w, 'c) session \<Rightarrow> ('w, 'c) session \<times> (io_error + bool)" where
  "finish_send Ops s =
     (case poll_complete Ops s of
        (s', Inl e) \<Rightarrow> (s', Err e)
      | (s', Inr _) \<Rightarrow> (s', Ok False))"

text \<open>
  \<open>send_all\<close>: a popped frame is dropped when the session is dead or the sink fails, put back
  when the sink is not ready. The loop is left to run, so it may not return.
\<close>

partial_function (option) send_all :: "('w, 'c) session_ops \<Rightarrow> ('w, 'c) session \<Rightarrow> (('w, 'c) session \<times> (io_error + bool)) option" where
  "send_all Ops s =
     (case write_pending_frames s of
        [] \<Rightarrow> Some (finish_send Ops s)
      | f # fs \<Rightarrow>
          if is_dead s then Some (finish_send Ops (s\<lparr>write_pending_frames := fs\<rparr>))
          else
            (case sink_poll_ready Ops (world s) of
               (w, Ready (Inl e)) \<Rightarrow> Some (s\<lparr>world := w, write_pending_frames := fs\<rparr>, Err e)
             | (w, Ready (Inr _)) \<Rightarrow>
                 (case sink_start_send Ops w f of
                    (w', Inl e) \<Rightarrow> Some (s\<lparr>world := w', write_pending_frames := fs\<rparr>, Err e)
                  | (w', Inr _) \<Rightarrow> send_all Ops (s\<lparr>world := w', write_pending_frames := fs\<rparr>))
             | (w, Pending) \<Rightarrow>
                 (case poll_complete Ops (s\<lparr>world := w\<rparr>) of
                    (s', Inl e) \<Rightarrow> Some (s', Err e)
                  | (s', Inr pending) \<Rightarrow> if pending then Some (s', Ok True) else send_all Ops s')))"

definition send_frame :: "('w, 'c) session_ops \<Rightarrow> frame \<Rightarrow> (('w, 'c) session, unit) action" where
  "send_frame Ops f =
     act_bind (act_modify (\<lambda>s. s\<lparr>write_pending_frames := write_pending_frames s @ [f]\<rparr>)) (\<lambda>_.
     act_bind (send_all Ops) (\<lambda>_. act_return ()))"

definition send_ping :: "('w, 'c) session_ops \<Rightarrow> u32 option \<Rightarrow> (('w, 'c) session, u32) action" where
  "send_ping Ops pid s =
     (case pid of
        Some p \<Rightarrow> act_bind (send_frame Ops (new_ping (flags_from Ack) p)) (\<lambda>_. act_return p) s
      | None \<Rightarrow>
          let p = ping_id s + 1 in
          act_bind (send_frame Ops (new_ping (flags_from Syn) p)) (\<lambda>_. act_return p) (s\<lparr>ping_id := p\<rparr>))"

definition send_go_away_with_code :: "('w, 'c) session_ops \<Rightarrow> go_away_code \<Rightarrow> (('w, 'c) session, unit) action" where
  "send_go_away_with_code Ops code =
     act_bind (act_modify (\<lambda>s. s\<lparr>write_pending_frames := []\<rparr>)) (\<lambda>_.
     act_bind (send_frame Ops (new_go_away code)) (\<lambda>_.
     act_modify (\<lambda>s. s\<lparr>local_go_away := True,
                       world := fst (interval_poll_next Ops
                                  (interval_new Ops (world s) (connection_write_timeout (ses_config s)))),
                       keepalive := True\<rparr>)))"

definition send_go_away :: "('w, 'c) session_ops \<Rightarrow> (('w, 'c) session, unit) action" where
  "send_go_away Ops = send_go_away_with_code Ops Normal"

definition shutdown :: "('w, 'c) session_ops \<Rightarrow> (('w, 'c) session, unit) action" where
  "shutdown Ops s =
     (if is_dead s then Some (s, Ok ())
      else send_go_away Ops (s\<lparr>write_pending_frames := []\<rparr>))"

definition keep_alive :: "('w, 'c) session_ops \<Rightarrow> nat \<Rightarrow> (('w, 'c) session, unit) action" where
  "keep_alive Ops ping_at s =
     (if list_ex (\<lambda>(_, time). instant_now Ops (world s) - time > TIMEOUT) (pings s)
      then Some (s, Err TimedOut)
      else act_bind (send_ping Ops None) (\<lambda>p.
           act_modify (\<lambda>s. s\<lparr>pings := map_insert p ping_at (pings s)\<rparr>)) s)"

section \<open>Streams\<close>

text \<open>
  \<open>create_stream\<close>. The session owns the event receiver, so the window update of the new handle
  reaches the event channel.
\<close>

definition register_stream :: "('w, 'c) session_ops \<Rightarrow> u32 \<Rightarrow> stream_state \<Rightarrow> ('w, 'c) session \<Rightarrow>
    (('w, 'c) session \<times> (yamux_error + stream_handle)) option" where
  "register_stream Ops sid st s =
     (case chan_new Ops (world s) of
        (w, c) \<Rightarrow>
          if map_of (streams s) sid \<noteq> None then Some (s\<lparr>world := w\<rparr>, Err DuplicateStream)
          else case stream_new sid st (max_stream_window_size (ses_config s)) of
                 None \<Rightarrow> None
               | Some h \<Rightarrow>
                   let h' = fst (sh_send_window_update True h) in
                   Some (s\<lparr>streams := (sid, c) # streams s,
                           world := foldl (event_send Ops) w (sh_events h')\<rparr>, Ok h'))"

definition create_stream :: "('w, 'c) session_ops \<Rightarrow> u32 option \<Rightarrow> ('w, 'c) session \<Rightarrow>
    (('w, 'c) session \<times> (yamux_error + stream_handle)) option" where
  "create_stream Ops sid s =
     (case sid of
        Some i \<Rightarrow> register_stream Ops i SynReceived s
      | None \<Rightarrow>
          (case checked_add (next_stream_id s) 2 of
             None \<Rightarrow> Some (s, Err StreamsExhausted)
           | Some n \<Rightarrow> register_stream Ops (next_stream_id s) Init (s\<lparr>next_stream_id := n\<rparr>)))"

definition open_stream :: "('w, 'c) session_ops \<Rightarrow> ('w, 'c) session \<Rightarrow>
    (('w, 'c) session \<times> (yamux_error + stream_handle)) option" where
  "open_stream Ops s =
     (if is_dead s then Some (s, Err SessionShutdown)
      else if remote_go_away s then Some (s, Err RemoteGoAway)
      else create_stream Ops None s)"

section \<open>Distribution of incoming frames\<close>

text \<open>
  Handing one frame to its stream: into the channel, or back into the queue with the stream
  blocked, or the stream is forgotten because its receiver is gone.
\<close>

definition deliver :: "('w, 'c) session_ops \<Rightarrow> u32 set \<Rightarrow> frame \<Rightarrow> ('w, 'c) session \<Rightarrow> ('w, 'c) session \<times> u32 set" where
  "deliver Ops blocked f s =
     (let sid = fr_stream_id f in
      case map_of (streams s) sid of
        None \<Rightarrow> (s, blocked)
      | Some c \<Rightarrow>
          (case chan_poll_ready Ops (world s) c of
             (w, Ready (Inr _)) \<Rightarrow>
               (case chan_try_send Ops w c f of
                  (w', Sent) \<Rightarrow> (s\<lparr>world := w'\<rparr>, blocked)
                | (w', Full g) \<Rightarrow>
                    (s\<lparr>world := w', read_pending_frames := read_pending_frames s @ [g]\<rparr>, insert sid blocked)
                | (w', Disconnected) \<Rightarrow>
                    (s\<lparr>world := w', streams := map_remove sid (streams s)\<rparr>, blocked))
           | (w, Pending) \<Rightarrow>
               (s\<lparr>world := w, read_pending_frames := read_pending_frames s @ [f]\<rparr>, insert sid blocked)
           | (w, Ready (Inl _)) \<Rightarrow>
               (s\<lparr>world := w, streams := map_remove sid (streams s)\<rparr>, blocked)))"

text \<open>
  A SYN: refused with a reset after a local go-away (which ends the distribution: \<open>False\<close>),
  accepted within the limits, refused with ACK and RST beyond them; a SYN for a known stream
  is a protocol error, which ends the distribution too.
\<close>

definition accept_syn :: "('w, 'c) session_ops \<Rightarrow> u32 \<Rightarrow> (('w, 'c) session, bool) action" where
  "accept_syn Ops sid s =
     (if local_go_away s then
        act_bind (send_frame Ops (new_window_update (flags_from Rst) sid 0)) (\<lambda>_. act_return False) s
      else if length (streams s) < max_stream_count (ses_config s)
              \<and> length (pending_streams s) < accept_backlog (ses_config s) then
        (case create_stream Ops (Some sid) s of
           None \<Rightarrow> None
         | Some (s', Inr h) \<Rightarrow> Some (s'\<lparr>pending_streams := pending_streams s' @ [h]\<rparr>, Ok True)
         | Some (s', Inl _) \<Rightarrow>
             act_bind (send_go_away_with_code Ops ProtocolError) (\<lambda>_. act_return False) s')
      else
        Some (s\<lparr>write_pending_frames := write_pending_frames s @
                  [new_window_update (flags_add (flags_from Ack) Rst) sid 0]\<rparr>, Ok True))"

fun distribute_loop :: "('w, 'c) session_ops \<Rightarrow> u32 set \<Rightarrow> frame list \<Rightarrow> (('w, 'c) session, unit) action" where
  "distribute_loop Ops blocked [] s = Some (s, Ok ())"
| "distribute_loop Ops blocked (f # fs) s =
     (if fr_stream_id f \<in> blocked then
        distribute_loop Ops blocked fs (s\<lparr>read_pending_frames := read_pending_frames s @ [f]\<rparr>)
      else if contains (fr_flags f) Syn then
        (case accept_syn Ops (fr_stream_id f) s of
           None \<Rightarrow> None
         | Some (s1, Inl e) \<Rightarrow> Some (s1, Err e)
         | Some (s1, Inr go_on) \<Rightarrow>
             if go_on then
               (case deliver Ops blocked f s1 of (s2, blocked') \<Rightarrow> distribute_loop Ops blocked' fs s2)
             else Some (s1, Ok ()))
      else
        (case deliver Ops blocked f s of (s2, blocked') \<Rightarrow> distribute_loop Ops blocked' fs s2))"

definition distribute_to_substream :: "('w, 'c) session_ops \<Rightarrow> (('w, 'c) session, unit) action" where
  "distribute_to_substream Ops s =
     distribute_loop Ops {} (read_pending_frames s) (s\<lparr>read_pending_frames := []\<rparr>)"

definition flush :: "('w, 'c) session_ops \<Rightarrow> (('w, 'c) session, unit) action" where
  "flush Ops s =
     (if read_pending_frames s \<noteq> [] \<or> write_pending_frames s \<noteq> []
      then act_bind (send_all Ops) (\<lambda>_. distribute_to_substream Ops) s
      else Some (s, Ok ()))"

section \<open>Incoming frames, events and commands\<close>

definition handle_stream_message :: "('w, 'c) session_ops \<Rightarrow> frame \<Rightarrow> (('w, 'c) session, unit) action" where
  "handle_stream_message Ops f s =
     distribute_to_substream Ops (s\<lparr>read_pending_frames := read_pending_frames s @ [f]\<rparr>)"

definition handle_ping :: "('w, 'c) session_ops \<Rightarrow> frame \<Rightarrow> (('w, 'c) session, unit) action" where
  "handle_ping Ops f s =
     (if contains (fr_flags f) Syn then act_bind (send_ping Ops (Some (fr_length f))) (\<lambda>_. act_return ()) s
      else if contains (fr_flags f) Ack then
        Some (s\<lparr>pings := split_off (fr_length f) (map_remove (fr_length f) (pings s))\<rparr>, Ok ())
      else Some (s, Ok ()))"

definition close_by_remote :: "('w, 'c) session_ops \<Rightarrow> (('w, 'c) session, unit) action" where
  "close_by_remote Ops s =
     (let s1 = s\<lparr>remote_go_away := True, write_pending_frames := []\<rparr> in
      if \<not> local_go_away s1 then send_go_away Ops s1 else Some (s1, Ok ()))"

definition handle_go_away :: "('w, 'c) session_ops \<Rightarrow> frame \<Rightarrow> (('w, 'c) session, unit) action" where
  "handle_go_away Ops f s =
     (case go_away_from (fr_length f) of
        Normal \<Rightarrow> close_by_remote Ops s
      | ProtocolError \<Rightarrow> close_by_remote Ops s
      | InternalError \<Rightarrow> close_by_remote Ops s)"

definition session_handle_frame :: "('w, 'c) session_ops \<Rightarrow> frame \<Rightarrow> (('w, 'c) session, unit) action" where
  "session_handle_frame Ops f =
     (case fr_ty f of
        Data \<Rightarrow> handle_stream_message Ops f
      | WindowUpdate \<Rightarrow> handle_stream_message Ops f
      | Ping \<Rightarrow> handle_ping Ops f
      | GoAway \<Rightarrow> handle_go_away Ops f)"

text \<open>\<open>recv_frames\<close>, \<open>recv_events\<close> and \<open>control_poll\<close>; the result is what they poll.\<close>

definition session_recv_frames :: "('w, 'c) session_ops \<Rightarrow> (('w, 'c) session, unit option poll) action" where
  "session_recv_frames Ops s =
     (case framed_poll_next Ops (world s) of
        (w, Ready (Some (Inr f))) \<Rightarrow>
          act_bind (session_handle_frame Ops f) (\<lambda>_. act_return (Ready (Some ()))) (s\<lparr>world := w\<rparr>)
      | (w, Ready None) \<Rightarrow> Some (s\<lparr>world := w, eof := True\<rparr>, Ok (Ready None))
      | (w, Pending) \<Rightarrow> Some (s\<lparr>world := w\<rparr>, Ok Pending)
      | (w, Ready (Some (Inl e))) \<Rightarrow> Some (s\<lparr>world := w\<rparr>, Err e))"

definition handle_event :: "('w, 'c) session_ops \<Rightarrow> stream_event \<Rightarrow> (('w, 'c) session, unit) action" where
  "handle_event Ops ev =
     (case ev of
        FrameEvent f \<Rightarrow> send_frame Ops f
      | ClosedEvent sid \<Rightarrow> act_modify (\<lambda>s. s\<lparr>streams := map_remove sid (streams s)\<rparr>)
      | GoAwayEvent \<Rightarrow> send_go_away_with_code Ops ProtocolError)"

definition recv_events :: "('w, 'c) session_ops \<Rightarrow> (('w, 'c) session, unit option poll) action" where
  "recv_events Ops s =
     (case event_poll_next Ops (world s) of
        (w, Ready (Some ev)) \<Rightarrow>
          act_bind (handle_event Ops ev) (\<lambda>_. act_return (Ready (Some ()))) (s\<lparr>world := w\<rparr>)
      | (w, Ready None) \<Rightarrow> None
      | (w, Pending) \<Rightarrow> Some (s\<lparr>world := w\<rparr>, Ok Pending))"

definition control_poll :: "('w, 'c) session_ops \<Rightarrow> (('w, 'c) session, unit option poll) action" where
  "control_poll Ops s =
     (case command_poll_next Ops (world s) of
        (w, Ready (Some OpenStream)) \<Rightarrow>
          (case open_stream Ops (s\<lparr>world := w\<rparr>) of
             None \<Rightarrow> None
           | Some (s', r) \<Rightarrow> Some (s'\<lparr>world := reply_open Ops (world s') r\<rparr>, Ok (Ready (Some ()))))
      | (w, Ready (Some Shutdown)) \<Rightarrow>
          act_bind (shutdown Ops) (\<lambda>_.
          act_bind (act_modify (\<lambda>s. s\<lparr>world := reply_shutdown Ops (world s)\<rparr>)) (\<lambda>_.
          act_return (Ready (Some ())))) (s\<lparr>world := w\<rparr>)
      | (w, Ready None) \<Rightarrow> None
      | (w, Pending) \<Rightarrow> Some (s\<lparr>world := w\<rparr>, Ok Pending))"

section \<open>The poll loop\<close>

text \<open>
  One round of the \<open>for _ in 0..16\<close> loop after the liveness check. The result says whether a
  stream is handed out (\<open>Inl\<close>) or whether all three sources were pending (\<open>Inr\<close>).
\<close>

definition poll_round :: "('w, 'c) session_ops \<Rightarrow> (('w, 'c) session, stream_handle + bool) action" where
  "poll_round Ops =
     act_bind (flush Ops) (\<lambda>_.
     act_bind (\<lambda>s. Some (poll_complete Ops s)) (\<lambda>_ s.
       case pending_streams s of
         h # hs \<Rightarrow> Some (s\<lparr>pending_streams := hs\<rparr>, Ok (Inl h))
       | [] \<Rightarrow>
           act_bind (control_poll Ops) (\<lambda>p1.
           act_bind (session_recv_frames Ops) (\<lambda>p2.
           act_bind (recv_events Ops) (\<lambda>p3.
           act_return (Inr (p1 = Pending \<and> p2 = Pending \<and> p3 = Pending))))) s))"

text \<open>The last component of the result is \<open>need_wake\<close>: the task wakes itself when it yields.\<close>

fun poll_loop :: "('w, 'c) session_ops \<Rightarrow> nat \<Rightarrow> bool \<Rightarrow> ('w, 'c) session \<Rightarrow>
    (('w, 'c) session \<times> (io_error + stream_handle) option poll \<times> bool) option" where
  "poll_loop Ops 0 need_wake s = Some (s, Pending, need_wake)"
| "poll_loop Ops (Suc n) need_wake s =
     (if is_dead s then Some (s, Ready None, False)
      else case poll_round Ops s of
             None \<Rightarrow> None
           | Some (s', Inl e) \<Rightarrow> Some (s', Ready (Some (Err e)), False)
           | Some (s', Inr (Inl h)) \<Rightarrow> Some (s', Ready (Some (Ok h)), False)
           | Some (s', Inr (Inr pending)) \<Rightarrow>
               if pending then Some (s', Pending, False) else poll_loop Ops n True s')"

definition poll_keepalive :: "('w, 'c) session_ops \<Rightarrow> (('w, 'c) session, unit) action" where
  "poll_keepalive Ops s =
     (if keepalive s then
        (case interval_poll_next Ops (world s) of
           (w, Ready (Some _)) \<Rightarrow>
             if local_go_away s then Some (s\<lparr>world := w, remote_go_away := True\<rparr>, Ok ())
             else keep_alive Ops (instant_now Ops w) (s\<lparr>world := w\<rparr>)
         | (w, _) \<Rightarrow> Some (s\<lparr>world := w\<rparr>, Ok ()))
      else Some (s, Ok ()))"

definition session_poll_next :: "('w, 'c) session_ops \<Rightarrow> ('w, 'c) session \<Rightarrow>
    (('w, 'c) session \<times> (io_error + stream_handle) option poll \<times> bool) option" where
  "session_poll_next Ops s =
     (if is_dead s then Some (s, Ready None, False)
      else case poll_keepalive Ops s of
             None \<Rightarrow> None
           | Some (s', Inl e) \<Rightarrow> Some (s', Ready (Some (Err e)), False)
           | Some (s', Inr _) \<Rightarrow> poll_loop Ops 16 False s')"

section \<open>Composing actions\<close>

text \<open>Partial correctness of an action for an invariant, and its composition.\<close>

definition keeps :: "('s \<Rightarrow> bool) \<Rightarrow> ('s \<Rightarrow> ('s \<times> 'r) option) \<Rightarrow> bool" where
  "keeps P m \<longleftrightarrow> (\<forall>s s' r. P s \<longrightarrow> m s = Some (s', r) \<longrightarrow> P s')"

lemma keepsI: "(\<And>s s' r. P s \<Longrightarrow> m s = Some (s', r) \<Longrightarrow> P s') \<Longrightarrow> keeps P m"
  by (simp add: keeps_def)

lemma keepsD: "keeps P m \<Longrightarrow> m s = Some (s', r) \<Longrightarrow> P s \<Longrightarrow> P s'"
  by (simp add: keeps_def)

lemma keeps_bind [keeps_intros]:
  "keeps P m \<Longrightarrow> (\<And>a. keeps P (f a)) \<Longrightarrow> keeps P (act_bind m f)"
  unfolding keeps_def act_bind_eq_Some by blast

lemma keeps_return [keeps_intros]: "keeps P (act_return a)"
  by (simp add: keeps_def)

lemma keeps_modify [keeps_intros]: "(\<And>s. P s \<Longrightarrow> P (g s)) \<Longrightarrow> keeps P (act_modify g)"
  by (simp add: keeps_def)

section \<open>The write queue\<close>

lemma poll_complete_world:
  "poll_complete Ops s = (s', r) \<Longrightarrow> s' = s\<lparr>world := fst (sink_poll_flush Ops (world s))\<rparr>"
  by (auto simp: poll_complete_def split: prod.splits poll.splits sum.splits)

lemma finish_send_world:
  "finish_send Ops s = (s', r) \<Longrightarrow> s' = s\<lparr>world := fst (sink_poll_flush Ops (world s))\<rparr>"
  using poll_complete_world [of Ops s "fst (poll_complete Ops s)" "snd (poll_complete Ops s)"]
  by (cases "poll_complete Ops s"; cases "snd (poll_complete Ops s)") (simp_all add: finish_send_def)

text \<open>\<open>send_all\<close> touches the sink and the write queue only.\<close>

definition same_rest :: "('w, 'c) session \<Rightarrow> ('w, 'c) session \<Rightarrow> bool" where
  "same_rest s s' \<longleftrightarrow> s' = s\<lparr>world := world s', write_pending_frames := write_pending_frames s'\<rparr>"

lemma same_rest_refl [simp]: "same_rest s s"
  by (simp add: same_rest_def)

lemma same_rest_upd [simp]:
  "same_rest s (s'\<lparr>world := w\<rparr>) = same_rest s s'"
  "same_rest s (s'\<lparr>write_pending_frames := fs\<rparr>) = same_rest s s'"
  "same_rest (s\<lparr>world := w\<rparr>) s' = same_rest s s'"
  "same_rest (s\<lparr>write_pending_frames := fs\<rparr>) s' = same_rest s s'"
  by (cases s; cases s'; simp add: same_rest_def)+

lemma same_rest_sel:
  "same_rest s s' \<Longrightarrow> eof s' = eof s \<and> remote_go_away s' = remote_go_away s \<and> local_go_away s' = local_go_away s
     \<and> next_stream_id s' = next_stream_id s \<and> ses_ty s' = ses_ty s \<and> ses_config s' = ses_config s
     \<and> pings s' = pings s \<and> ping_id s' = ping_id s \<and> streams s' = streams s
     \<and> pending_streams s' = pending_streams s \<and> read_pending_frames s' = read_pending_frames s
     \<and> keepalive s' = keepalive s"
  by (cases s; cases s') (simp add: same_rest_def)

lemma poll_complete_rest: "poll_complete Ops s = (s', r) \<Longrightarrow> same_rest s s'"
  by (drule poll_complete_world) simp

lemma finish_send_rest: "finish_send Ops s = (s', r) \<Longrightarrow> same_rest s s'"
  by (drule finish_send_world) simp

lemma same_rest_trans: "same_rest s s1 \<Longrightarrow> same_rest s1 s2 \<Longrightarrow> same_rest s s2"
  by (cases s; cases s1; cases s2) (simp add: same_rest_def)

lemma send_all_induct [consumes 1, case_names Empty Dead Fail Sent Stuck Flushed]:
  assumes run: "send_all Ops s = Some (s', r)"
    and empty: "\<And>s s' r. write_pending_frames s = [] \<Longrightarrow> finish_send Ops s = (s', r) \<Longrightarrow> P s s' r"
    and dead: "\<And>s f fs s' r. write_pending_frames s = f # fs \<Longrightarrow> is_dead s \<Longrightarrow>
        finish_send Ops (s\<lparr>write_pending_frames := fs\<rparr>) = (s', r) \<Longrightarrow> P s s' r"
    and fail: "\<And>s f fs w e. write_pending_frames s = f # fs \<Longrightarrow> \<not> is_dead s \<Longrightarrow>
        sink_poll_ready Ops (world s) = (w, Ready (Err e)) \<or>
          (\<exists>w0. sink_poll_ready Ops (world s) = (w0, Ready (Ok ())) \<and> sink_start_send Ops w0 f = (w, Err e)) \<Longrightarrow>
        P s (s\<lparr>world := w, write_pending_frames := fs\<rparr>) (Err e)"
    and sent: "\<And>s f fs w w' s' r. write_pending_frames s = f # fs \<Longrightarrow> \<not> is_dead s \<Longrightarrow>
        sink_poll_ready Ops (world s) = (w, Ready (Ok ())) \<Longrightarrow> sink_start_send Ops w f = (w', Ok ()) \<Longrightarrow>
        P (s\<lparr>world := w', write_pending_frames := fs\<rparr>) s' r \<Longrightarrow> P s s' r"
    and stuck: "\<And>s f fs w s' r. write_pending_frames s = f # fs \<Longrightarrow> \<not> is_dead s \<Longrightarrow>
        sink_poll_ready Ops (world s) = (w, Pending) \<Longrightarrow> poll_complete Ops (s\<lparr>world := w\<rparr>) = (s', r) \<Longrightarrow>
        r \<noteq> Ok False \<Longrightarrow> P s s' r"
    and flushed: "\<And>s f fs w s1 s' r. write_pending_frames s = f # fs \<Longrightarrow> \<not> is_dead s \<Longrightarrow>
        sink_poll_ready Ops (world s) = (w, Pending) \<Longrightarrow> poll_complete Ops (s\<lparr>world := w\<rparr>) = (s1, Ok False) \<Longrightarrow>
        P s1 s' r \<Longrightarrow> P s s' r"
  shows "P s s' r"
proof -
  have "Ops' = Ops \<longrightarrow> P s (fst x) (snd x)" if "send_all Ops' s = Some x" for Ops' x
  proof (rule send_all.raw_induct [where P = "\<lambda>Ops' s x. Ops' = Ops \<longrightarrow> P s (fst x) (snd x)", OF _ that], intro impI)
    fix send Ops' s x
    assume IH: "\<And>Ops' s x. send Ops' s = Some x \<Longrightarrow> Ops' = Ops \<longrightarrow> P s (fst x) (snd x)"
      and step: "(case write_pending_frames s of [] \<Rightarrow> Some (finish_send Ops' s)
        | f # fs \<Rightarrow>
          if is_dead s then Some (finish_send Ops' (s\<lparr>write_pending_frames := fs\<rparr>))
          else
            (case sink_poll_ready Ops' (world s) of
               (w, Ready (Inl e)) \<Rightarrow> Some (s\<lparr>world := w, write_pending_frames := fs\<rparr>, Err e)
             | (w, Ready (Inr _)) \<Rightarrow>
                 (case sink_start_send Ops' w f of
                    (w', Inl e) \<Rightarrow> Some (s\<lparr>world := w', write_pending_frames := fs\<rparr>, Err e)
                  | (w', Inr _) \<Rightarrow> send Ops' (s\<lparr>world := w', write_pending_frames := fs\<rparr>))
             | (w, Pending) \<Rightarrow>
                 (case poll_complete Ops' (s\<lparr>world := w\<rparr>) of
                    (s', Inl e) \<Rightarrow> Some (s', Err e)
                  | (s', Inr pending) \<Rightarrow> if pending then Some (s', Ok True) else send Ops' s'))) = Some x"
      and ops: "Ops' = Ops"
    have IH': "P s1 (fst x) (snd x)" if "send Ops s1 = Some x" for s1
      using IH [OF that] by simp
    show "P s (fst x) (snd x)"
    proof (cases "write_pending_frames s")
      case Nil
      with step ops show ?thesis by (auto intro: empty)
    next
      case wp: (Cons f fs)
      show ?thesis
      proof (cases "is_dead s")
        case True
        with step ops wp show ?thesis by (auto intro: dead)
      next
        case alive: False
        obtain w p where rdy: "sink_poll_ready Ops (world s) = (w, p)" by fastforce
        show ?thesis
        proof (cases p)
          case Pending
          obtain s1 r1 where pc: "poll_complete Ops (s\<lparr>world := w\<rparr>) = (s1, r1)" by fastforce
          show ?thesis
          proof (cases "r1 = Ok False")
            case True
            with step ops wp alive rdy Pending pc have "send Ops s1 = Some x" by simp
            from flushed [OF wp alive rdy [unfolded Pending] pc [unfolded True] IH' [OF this]] show ?thesis .
          next
            case False
            with step ops wp alive rdy Pending pc have "x = (s1, r1)"
              by (cases r1) (auto split: if_splits)
            with stuck [OF wp alive rdy [unfolded Pending] pc False] show ?thesis by simp
          qed
        next
          case (Ready r0)
          obtain w2 r2 where ss: "sink_start_send Ops w f = (w2, r2)" by fastforce
          show ?thesis
          proof (cases "r0 = Ok () \<and> r2 = Ok ()")
            case True
            with step ops wp alive rdy Ready ss
            have "send Ops (s\<lparr>world := w2, write_pending_frames := fs\<rparr>) = Some x" by simp
            from sent [OF wp alive _ _ IH' [OF this]] True rdy Ready ss show ?thesis by simp
          next
            case False
            with step ops wp alive rdy Ready ss fail [OF wp alive] show ?thesis
              by (cases r0; cases r2) auto
          qed
        qed
      qed
    qed
  qed
  from this [OF run] show ?thesis by simp
qed

lemma send_all_rest: "send_all Ops s = Some (s', r) \<Longrightarrow> same_rest s s'"
proof (induction rule: send_all_induct)
  case (Sent s f fs w w' s' r)
  then show ?case by simp
next
  case (Flushed s f fs w s1 s' r)
  have "same_rest s s1" using poll_complete_rest [OF Flushed.hyps(4)] by simp
  then show ?case using Flushed.IH by (rule same_rest_trans)
next
  case (Dead s f fs s' r)
  then show ?case using finish_send_rest [OF Dead(3)] by simp
next
  case (Stuck s f fs w s' r)
  then show ?case using poll_complete_rest [OF Stuck(4)] by simp
qed (auto dest: finish_send_rest)

section \<open>Ordered writing\<close>

text \<open>
  What the session relies on of the framed sink, with \<open>written\<close> the frames accepted so far: only
  \<open>start_send\<close> adds to it, and a completed flush leaves room for a frame.
\<close>

definition sink_laws :: "('w, 'c) session_ops \<Rightarrow> ('w \<Rightarrow> frame list) \<Rightarrow> bool" where
  "sink_laws Ops written \<longleftrightarrow>
     (\<forall>w w' r. sink_poll_ready Ops w = (w', r) \<longrightarrow> written w' = written w) \<and>
     (\<forall>w w' r. sink_poll_flush Ops w = (w', r) \<longrightarrow> written w' = written w) \<and>
     (\<forall>w w' f. sink_start_send Ops w f = (w', Ok ()) \<longrightarrow> written w' = written w @ [f]) \<and>
     (\<forall>w w' f e. sink_start_send Ops w f = (w', Err e) \<longrightarrow> written w' = written w) \<and>
     (\<forall>w w'. sink_poll_flush Ops w = (w', Ready (Ok ())) \<longrightarrow> snd (sink_poll_ready Ops w') \<noteq> Pending)"

lemma sink_lawsD:
  assumes "sink_laws Ops written"
  shows "sink_poll_ready Ops w = (w', p) \<Longrightarrow> written w' = written w"
    and "sink_poll_flush Ops w = (w', p) \<Longrightarrow> written w' = written w"
    and "sink_start_send Ops w f = (w', Ok ()) \<Longrightarrow> written w' = written w @ [f]"
    and "sink_start_send Ops w f = (w', Err e) \<Longrightarrow> written w' = written w"
    and "sink_poll_flush Ops w = (w', Ready (Ok ())) \<Longrightarrow> snd (sink_poll_ready Ops w') \<noteq> Pending"
  using assms unfolding sink_laws_def by metis+

lemma poll_complete_written:
  assumes "sink_laws Ops written" "poll_complete Ops s = (s', r)"
  shows "written (world s') = written (world s)"
  using sink_lawsD(2) [OF assms(1) surjective_pairing] poll_complete_world [OF assms(2)] by simp

lemma finish_send_written:
  assumes "sink_laws Ops written" "finish_send Ops s = (s', r)"
  shows "written (world s') = written (world s) \<and> write_pending_frames s' = write_pending_frames s"
  using sink_lawsD(2) [OF assms(1) surjective_pairing] finish_send_world [OF assms(2)] by simp

lemma poll_complete_ready:
  assumes "sink_laws Ops written" "poll_complete Ops s = (s', Ok False)"
  shows "snd (sink_poll_ready Ops (world s')) \<noteq> Pending"
proof -
  obtain w where "sink_poll_flush Ops (world s) = (w, Ready (Ok ()))" "s' = s\<lparr>world := w\<rparr>"
    using assms(2) by (auto simp: poll_complete_def split: prod.splits poll.splits sum.splits)
  then show ?thesis using sink_lawsD(5) [OF assms(1)] by simp
qed

text \<open>Frames leave the queue in order: \<open>k\<close> of them are written, the rest stay.\<close>

lemma send_all_written:
  assumes "send_all Ops s = Some (s', r)" "sink_laws Ops written" "\<not> is_dead s"
  shows "\<exists>k. written (world s') = written (world s) @ take k (write_pending_frames s)
           \<and> (r = Ok True \<longrightarrow> write_pending_frames s' = drop k (write_pending_frames s))
           \<and> (r = Ok False \<longrightarrow> write_pending_frames s' = [] \<and> length (write_pending_frames s) \<le> k)"
  using assms
proof (induction rule: send_all_induct)
  case (Empty s s' r)
  from finish_send_written [OF Empty.prems(1) Empty(2)] Empty(1) show ?case by simp
next
  case (Fail s f fs w e)
  have "written w = written (world s)"
    using Fail(3) sink_lawsD(1,4) [OF Fail.prems(1)] by metis
  then show ?case by (intro exI [of _ 0]) simp
next
  case (Sent s f fs w w' s' r)
  have "written w' = written (world s) @ [f]"
    using sink_lawsD(1) [OF Sent.prems(1) Sent.hyps(3)] sink_lawsD(3) [OF Sent.prems(1) Sent.hyps(4)] by simp
  moreover from Sent.prems(2) have "\<not> is_dead (s\<lparr>world := w', write_pending_frames := fs\<rparr>)"
    by (simp add: is_dead_def)
  then obtain k where "written (world s') = written w' @ take k fs"
    "r = Ok True \<longrightarrow> write_pending_frames s' = drop k fs"
    "r = Ok False \<longrightarrow> write_pending_frames s' = [] \<and> length fs \<le> k"
    using Sent.IH [OF Sent.prems(1)] by auto
  ultimately show ?case using Sent.hyps(1) by (intro exI [of _ "Suc k"]) auto
next
  case (Stuck s f fs w s' r)
  have "written (world s') = written (world s)"
    using poll_complete_written [OF Stuck.prems(1) Stuck(4)] sink_lawsD(1) [OF Stuck.prems(1) Stuck(3)] by simp
  moreover have "write_pending_frames s' = write_pending_frames s"
    using poll_complete_world [OF Stuck(4)] by simp
  ultimately show ?case using Stuck(5) by (intro exI [of _ 0]) auto
next
  case (Flushed s f fs w s1 s' r)
  have "written (world s1) = written (world s)"
    using poll_complete_written [OF Flushed.prems(1) Flushed.hyps(4)]
      sink_lawsD(1) [OF Flushed.prems(1) Flushed.hyps(3)] by simp
  moreover have "write_pending_frames s1 = write_pending_frames s" "is_dead s1 = is_dead s"
    using poll_complete_world [OF Flushed.hyps(4)] by (simp_all add: is_dead_def)
  ultimately show ?case using Flushed.IH [OF Flushed.prems(1)] Flushed.prems(2) by auto
qed simp

text \<open>The loop ends: a queue of \<open>n\<close> frames is worked off in at most two rounds per frame.\<close>

lemma send_all_total:
  assumes "sink_laws Ops written"
  shows "\<exists>s' r. send_all Ops s = Some (s', r)"
proof (induction "write_pending_frames s" arbitrary: s)
  case Nil
  then show ?case by (cases "finish_send Ops s") (simp add: send_all.simps)
next
  case (Cons f fs)
  note wp = Cons(2) [symmetric]
  have sent: "\<exists>s' r. send_all Ops s0 = Some (s', r)"
    if q: "write_pending_frames s0 = f # fs" and ready: "snd (sink_poll_ready Ops (world s0)) \<noteq> Pending" for s0
  proof -
    obtain w r0 where rdy: "sink_poll_ready Ops (world s0) = (w, Ready r0)"
      using ready by (cases "sink_poll_ready Ops (world s0)"; cases "snd (sink_poll_ready Ops (world s0))") auto
    obtain w2 r2 where ss: "sink_start_send Ops w f = (w2, r2)" by fastforce
    have "\<exists>s' r. send_all Ops (s0\<lparr>world := w2, write_pending_frames := fs\<rparr>) = Some (s', r)"
      by (rule Cons(1)) simp
    then show ?thesis
      using q rdy ss
      by (subst send_all.simps)
        (cases "finish_send Ops (s0\<lparr>write_pending_frames := fs\<rparr>)"; cases r0; cases r2; auto)
  qed
  show ?case
  proof (cases "snd (sink_poll_ready Ops (world s)) = Pending")
    case False
    then show ?thesis using sent wp by simp
  next
    case True
    then obtain w where rdy: "sink_poll_ready Ops (world s) = (w, Pending)"
      by (cases "sink_poll_ready Ops (world s)") auto
    obtain s1 r1 where pc: "poll_complete Ops (s\<lparr>world := w\<rparr>) = (s1, r1)" by fastforce
    have "\<exists>s' r. send_all Ops s1 = Some (s', r)" if "r1 = Ok False"
      using that pc poll_complete_ready [OF assms, of "s\<lparr>world := w\<rparr>" s1] poll_complete_world [OF pc] wp
      by (intro sent) simp_all
    then show ?thesis
      using wp rdy pc
      by (subst send_all.simps)
        (cases "finish_send Ops (s\<lparr>write_pending_frames := fs\<rparr>)"; cases r1; auto)
  qed
qed

section \<open>The session invariant\<close>

text \<open>
  Stream ids are registered once, own ids keep the parity of the session type, the accept queue
  respects the backlog, and every stream waiting in it has a sound receive window.
\<close>

definition session_inv :: "config \<Rightarrow> session_type \<Rightarrow> nat \<Rightarrow> ('w, 'c) session \<Rightarrow> bool" where
  "session_inv cfg ty lo s \<longleftrightarrow>
     ses_config s = cfg \<and> ses_ty s = ty \<and>
     distinct (map fst (streams s)) \<and>
     odd (unat (next_stream_id s)) = (ses_ty s = Client) \<and> lo \<le> unat (next_stream_id s) \<and>
     length (pending_streams s) \<le> accept_backlog (ses_config s) \<and>
     INITIAL_STREAM_WINDOW \<le> max_stream_window_size (ses_config s) \<and>
     list_all stream_inv (pending_streams s)"

lemma session_inv_rest: "same_rest s s' \<Longrightarrow> session_inv cfg ty lo s' = session_inv cfg ty lo s"
  by (drule same_rest_sel) (simp add: session_inv_def)

lemma session_inv_fields [simp]:
  "session_inv cfg ty lo (s\<lparr>world := w\<rparr>) = session_inv cfg ty lo s"
  "session_inv cfg ty lo (s\<lparr>write_pending_frames := fs\<rparr>) = session_inv cfg ty lo s"
  "session_inv cfg ty lo (s\<lparr>read_pending_frames := fs\<rparr>) = session_inv cfg ty lo s"
  "session_inv cfg ty lo (s\<lparr>ping_id := p\<rparr>) = session_inv cfg ty lo s"
  "session_inv cfg ty lo (s\<lparr>pings := ps\<rparr>) = session_inv cfg ty lo s"
  "session_inv cfg ty lo (s\<lparr>eof := b\<rparr>) = session_inv cfg ty lo s"
  "session_inv cfg ty lo (s\<lparr>remote_go_away := b\<rparr>) = session_inv cfg ty lo s"
  "session_inv cfg ty lo (s\<lparr>local_go_away := b\<rparr>) = session_inv cfg ty lo s"
  "session_inv cfg ty lo (s\<lparr>keepalive := b\<rparr>) = session_inv cfg ty lo s"
  by (simp_all add: session_inv_def)

lemma distinct_map_remove: "distinct (map fst m) \<Longrightarrow> distinct (map fst (map_remove k m))"
  by (induction m) (auto simp: map_remove_def)

lemma session_inv_remove: "session_inv cfg ty lo s \<Longrightarrow> session_inv cfg ty lo (s\<lparr>streams := map_remove k (streams s)\<rparr>)"
  by (auto simp: session_inv_def distinct_map_remove)

lemma send_all_keeps [keeps_intros]: "keeps (session_inv cfg ty lo) (send_all Ops)"
  using session_inv_rest send_all_rest by (blast intro: keepsI)

lemma send_frame_keeps [keeps_intros]: "keeps (session_inv cfg ty lo) (send_frame Ops f)"
  unfolding send_frame_def by (intro keeps_intros) simp

lemma send_ping_keeps [keeps_intros]: "keeps (session_inv cfg ty lo) (send_ping Ops p)"
proof (rule keepsI)
  fix s s' r
  assume "session_inv cfg ty lo s" "send_ping Ops p s = Some (s', r)"
  moreover have "keeps (session_inv cfg ty lo) (act_bind (send_frame Ops f) (\<lambda>_. act_return q))" for f and q :: u32
    by (intro keeps_intros)
  note K = keepsD [OF this]
  ultimately show "session_inv cfg ty lo s'"
    by (cases p) (auto simp: send_ping_def Let_def dest!: K)
qed

lemma send_go_away_with_code_keeps [keeps_intros]: "keeps (session_inv cfg ty lo) (send_go_away_with_code Ops c)"
  unfolding send_go_away_with_code_def by (intro keeps_intros) simp_all

lemma send_go_away_keeps [keeps_intros]: "keeps (session_inv cfg ty lo) (send_go_away Ops)"
  unfolding send_go_away_def by (rule send_go_away_with_code_keeps)

lemma shutdown_keeps [keeps_intros]: "keeps (session_inv cfg ty lo) (shutdown Ops)"
  by (rule keepsI) (auto simp: shutdown_def split: if_splits elim!: keepsD [OF send_go_away_keeps])

lemma keep_alive_keeps [keeps_intros]: "keeps (session_inv cfg ty lo) (keep_alive Ops t)"
proof (rule keepsI)
  fix s s' r
  assume "session_inv cfg ty lo s" "keep_alive Ops t s = Some (s', r)"
  moreover have "keeps (session_inv cfg ty lo) (act_bind (send_ping Ops None) (\<lambda>p.
           act_modify (\<lambda>s. s\<lparr>pings := map_insert p t (pings s)\<rparr>)))"
    by (intro keeps_intros) simp
  note K = keepsD [OF this]
  ultimately show "session_inv cfg ty lo s'"
    by (auto simp: keep_alive_def dest: K split: if_splits)
qed

lemma stream_new_max: "stream_new sid st mw = Some h \<Longrightarrow> max_recv_window h = mw"
  by (auto simp: stream_new_def split: if_splits)

lemma register_stream_inv:
  assumes "register_stream Ops sid st s = Some (s', r)" "session_inv cfg ty lo s"
  shows "session_inv cfg ty lo s' \<and> pending_streams s' = pending_streams s \<and> ses_config s' = ses_config s
       \<and> (case r of Inr h \<Rightarrow> stream_inv h \<and> sh_id h = sid | Inl _ \<Rightarrow> True)"
proof -
  have new: "stream_inv (fst (sh_send_window_update True h)) \<and> sh_id (fst (sh_send_window_update True h)) = sid"
    if n: "stream_new sid st (max_stream_window_size (ses_config s)) = Some h" for h
  proof -
    have "stream_inv h" using n assms(2) by (auto simp: session_inv_def intro: stream_new_inv)
    then have "stream_inv (fst (sh_send_window_update True h))"
      by (cases "sh_send_window_update True h") (auto intro: sh_send_window_update_inv)
    moreover have "sh_id (fst (sh_send_window_update True h)) = sh_id h"
      by (auto simp: sh_send_window_update_eq unbound_send_event_def dest!: get_flags_state split: prod.splits)
    moreover have "sh_id h = sid" using n by (auto simp: stream_new_def split: if_splits)
    ultimately show ?thesis by simp
  qed
  have "session_inv cfg ty lo (s\<lparr>streams := (sid, c) # streams s\<rparr>)" if "map_of (streams s) sid = None" for c
    using that assms(2) by (auto simp: session_inv_def map_of_eq_None_iff)
  with assms new show ?thesis
    by (auto simp: register_stream_def Let_def split: prod.splits if_splits option.splits)
qed

lemma checked_add_2:
  "checked_add n 2 = Some m \<Longrightarrow> unat (m :: u32) = unat n + 2"
  by (drule checked_add_Some) simp

lemma create_stream_inv:
  assumes "create_stream Ops sid s = Some (s', r)" "session_inv cfg ty lo s"
  shows "session_inv cfg ty lo s' \<and> pending_streams s' = pending_streams s \<and> ses_config s' = ses_config s
       \<and> (case r of Inr h \<Rightarrow> stream_inv h \<and> sh_id h = (case sid of Some i \<Rightarrow> i | None \<Rightarrow> next_stream_id s) | Inl _ \<Rightarrow> True)"
proof (cases sid)
  case None
  show ?thesis
  proof (cases "checked_add (next_stream_id s) 2")
    case (Some n)
    with assms(2) have "session_inv cfg ty lo (s\<lparr>next_stream_id := n\<rparr>)"
      by (auto simp: session_inv_def checked_add_2)
    with assms None Some show ?thesis
      by (auto simp: create_stream_def dest!: register_stream_inv split: sum.splits)
  qed (use assms None in \<open>auto simp: create_stream_def\<close>)
next
  case (Some i)
  with assms show ?thesis by (auto simp: create_stream_def dest!: register_stream_inv split: sum.splits)
qed

lemma open_stream_keeps [keeps_intros]: "keeps (session_inv cfg ty lo) (open_stream Ops)"
  by (rule keepsI) (auto simp: open_stream_def dest: create_stream_inv split: if_splits)

lemma deliver_inv:
  "deliver Ops blocked f s = (s', blocked') \<Longrightarrow> session_inv cfg ty lo s \<Longrightarrow> session_inv cfg ty lo s'"
  by (auto simp: deliver_def Let_def session_inv_def distinct_map_remove
      split: option.splits prod.splits poll.splits sum.splits try_send.splits)

lemma accept_syn_keeps [keeps_intros]: "keeps (session_inv cfg ty lo) (accept_syn Ops sid)"
proof (rule keepsI)
  fix s s' r
  assume inv: "session_inv cfg ty lo s" and run: "accept_syn Ops sid s = Some (s', r)"
  have K1: "keeps (session_inv cfg ty lo) (act_bind (send_frame Ops f) (\<lambda>_. act_return False))" for f
    by (intro keeps_intros)
  have K2: "keeps (session_inv cfg ty lo) (act_bind (send_go_away_with_code Ops c) (\<lambda>_. act_return False))" for c
    by (intro keeps_intros)
  consider (refuse) "local_go_away s"
    | (accept) "\<not> local_go_away s" "length (streams s) < max_stream_count (ses_config s)"
        "length (pending_streams s) < accept_backlog (ses_config s)"
    | (full) "\<not> local_go_away s" "\<not> (length (streams s) < max_stream_count (ses_config s)
        \<and> length (pending_streams s) < accept_backlog (ses_config s))" by blast
  then show "session_inv cfg ty lo s'"
  proof cases
    case refuse
    with run inv show ?thesis by (simp add: accept_syn_def keepsD [OF K1])
  next
    case accept
    then obtain s1 r1 where c: "create_stream Ops (Some sid) s = Some (s1, r1)"
      using run by (auto simp: accept_syn_def split: option.splits)
    from create_stream_inv [OF c inv] have i: "session_inv cfg ty lo s1" "pending_streams s1 = pending_streams s"
      "ses_config s1 = ses_config s" by auto
    show ?thesis
    proof (cases r1)
      case (Inl e)
      with run accept c i show ?thesis by (simp add: accept_syn_def keepsD [OF K2])
    next
      case (Inr h)
      with create_stream_inv [OF c inv] have "stream_inv h" by simp
      with run accept c i Inr show ?thesis by (auto simp: accept_syn_def session_inv_def)
    qed
  next
    case full
    with run inv show ?thesis by (auto simp: accept_syn_def)
  qed
qed

lemma distribute_loop_keeps [keeps_intros]: "keeps (session_inv cfg ty lo) (distribute_loop Ops blocked fs)"
proof (rule keepsI)
  fix s s' r
  assume "session_inv cfg ty lo s" "distribute_loop Ops blocked fs s = Some (s', r)"
  then show "session_inv cfg ty lo s'"
  proof (induction fs arbitrary: blocked s)
    case (Cons f fs)
    note run = Cons.prems(2) and inv = Cons.prems(1)
    have go: "session_inv cfg ty lo s'" if "session_inv cfg ty lo s1"
      "(case deliver Ops blocked f s1 of (s2, b) \<Rightarrow> distribute_loop Ops b fs s2) = Some (s', r)" for s1
    proof -
      obtain s2 b where d: "deliver Ops blocked f s1 = (s2, b)" by fastforce
      from Cons.IH [OF deliver_inv [OF d that(1)], of b] that(2) d show ?thesis by simp
    qed
    show ?case
    proof (cases "fr_stream_id f \<in> blocked \<or> \<not> contains (fr_flags f) Syn")
      case True
      with run inv go [OF inv] Cons.IH [of "s\<lparr>read_pending_frames := read_pending_frames s @ [f]\<rparr>" blocked]
      show ?thesis by (auto split: if_splits)
    next
      case False
      then obtain s1 r1 where a: "accept_syn Ops (fr_stream_id f) s = Some (s1, r1)"
        using run by (auto split: option.splits)
      from keepsD [OF accept_syn_keeps a inv] have "session_inv cfg ty lo s1" .
      with run False a go [of s1] show ?thesis by (cases r1) (auto split: if_splits)
    qed
  qed simp
qed

lemma distribute_keeps [keeps_intros]: "keeps (session_inv cfg ty lo) (distribute_to_substream Ops)"
  by (rule keepsI) (auto simp: distribute_to_substream_def dest: keepsD [OF distribute_loop_keeps])

lemma flush_keeps [keeps_intros]: "keeps (session_inv cfg ty lo) (flush Ops)"
proof (rule keepsI)
  fix s s' r
  assume "session_inv cfg ty lo s" "flush Ops s = Some (s', r)"
  moreover have "keeps (session_inv cfg ty lo) (act_bind (send_all Ops) (\<lambda>_. distribute_to_substream Ops))"
    by (intro keeps_intros)
  note K = keepsD [OF this]
  ultimately show "session_inv cfg ty lo s'" by (auto simp: flush_def dest: K split: if_splits)
qed

lemma handle_stream_message_keeps [keeps_intros]: "keeps (session_inv cfg ty lo) (handle_stream_message Ops f)"
  by (rule keepsI) (auto simp: handle_stream_message_def dest: keepsD [OF distribute_keeps])

lemma handle_ping_keeps [keeps_intros]: "keeps (session_inv cfg ty lo) (handle_ping Ops f)"
proof (rule keepsI)
  fix s s' r
  assume "session_inv cfg ty lo s" "handle_ping Ops f s = Some (s', r)"
  moreover have "keeps (session_inv cfg ty lo) (act_bind (send_ping Ops (Some (fr_length f))) (\<lambda>_. act_return ()))"
    by (intro keeps_intros)
  note K = keepsD [OF this]
  ultimately show "session_inv cfg ty lo s'" by (auto simp: handle_ping_def dest: K split: if_splits)
qed

lemma close_by_remote_keeps: "keeps (session_inv cfg ty lo) (close_by_remote Ops)"
  by (rule keepsI) (auto simp: close_by_remote_def Let_def dest!: keepsD [OF send_go_away_keeps] split: if_splits)

lemma handle_go_away_keeps [keeps_intros]: "keeps (session_inv cfg ty lo) (handle_go_away Ops f)"
  by (rule keepsI)
    (auto simp: handle_go_away_def dest: keepsD [OF close_by_remote_keeps] split: go_away_code.splits)

lemma session_handle_frame_keeps [keeps_intros]: "keeps (session_inv cfg ty lo) (session_handle_frame Ops f)"
  by (cases "fr_ty f") (auto simp: session_handle_frame_def intro: keeps_intros)

lemma handle_event_keeps [keeps_intros]: "keeps (session_inv cfg ty lo) (handle_event Ops ev)"
  by (cases ev) (auto simp: handle_event_def intro: keeps_intros session_inv_remove)

lemma session_recv_frames_keeps [keeps_intros]: "keeps (session_inv cfg ty lo) (session_recv_frames Ops)"
proof (rule keepsI)
  fix s s' r
  assume "session_inv cfg ty lo s" "session_recv_frames Ops s = Some (s', r)"
  moreover have "keeps (session_inv cfg ty lo) (act_bind (session_handle_frame Ops f) (\<lambda>_. act_return (Ready (Some ()))))" for f
    by (intro keeps_intros)
  note K = keepsD [OF this]
  ultimately show "session_inv cfg ty lo s'"
    by (auto simp: session_recv_frames_def dest!: K split: prod.splits poll.splits option.splits sum.splits)
qed

lemma recv_events_keeps [keeps_intros]: "keeps (session_inv cfg ty lo) (recv_events Ops)"
proof (rule keepsI)
  fix s s' r
  assume "session_inv cfg ty lo s" "recv_events Ops s = Some (s', r)"
  moreover have "keeps (session_inv cfg ty lo) (act_bind (handle_event Ops ev) (\<lambda>_. act_return (Ready (Some ()))))" for ev
    by (intro keeps_intros)
  note K = keepsD [OF this]
  ultimately show "session_inv cfg ty lo s'"
    by (auto simp: recv_events_def dest!: K split: prod.splits poll.splits option.splits)
qed

lemma control_poll_keeps [keeps_intros]: "keeps (session_inv cfg ty lo) (control_poll Ops)"
proof (rule keepsI)
  fix s s' r
  assume "session_inv cfg ty lo s" "control_poll Ops s = Some (s', r)"
  moreover have "keeps (session_inv cfg ty lo) (act_bind (shutdown Ops) (\<lambda>_.
          act_bind (act_modify (\<lambda>s. s\<lparr>world := reply_shutdown Ops (world s)\<rparr>)) (\<lambda>_.
          act_return (Ready (Some ())))))"
    by (intro keeps_intros) simp
  note K = keepsD [OF this]
  ultimately show "session_inv cfg ty lo s'"
    by (auto simp: control_poll_def dest!: K keepsD [OF open_stream_keeps]
        split: prod.splits poll.splits option.splits command.splits)
qed

lemma poll_complete_keeps [keeps_intros]: "keeps (session_inv cfg ty lo) (\<lambda>s. Some (poll_complete Ops s))"
  using session_inv_rest poll_complete_rest by (fastforce intro: keepsI)

lemma poll_round_keeps [keeps_intros]: "keeps (session_inv cfg ty lo) (poll_round Ops)"
proof -
  have "keeps (session_inv cfg ty lo) (act_bind (control_poll Ops) (\<lambda>p1.
           act_bind (session_recv_frames Ops) (\<lambda>p2.
           act_bind (recv_events Ops) (\<lambda>p3.
           act_return (Inr (p1 = Pending \<and> p2 = Pending \<and> p3 = Pending) :: stream_handle + bool)))))"
    by (intro keeps_intros)
  note K = keepsD [OF this]
  have "keeps (session_inv cfg ty lo) (\<lambda>s.
       case pending_streams s of
         h # hs \<Rightarrow> Some (s\<lparr>pending_streams := hs\<rparr>, Ok (Inl h))
       | [] \<Rightarrow>
           act_bind (control_poll Ops) (\<lambda>p1.
           act_bind (session_recv_frames Ops) (\<lambda>p2.
           act_bind (recv_events Ops) (\<lambda>p3.
           act_return (Inr (p1 = Pending \<and> p2 = Pending \<and> p3 = Pending))))) s)"
    by (rule keepsI) (auto simp: session_inv_def split: list.splits dest: K [unfolded session_inv_def])
  then show ?thesis unfolding poll_round_def by (intro keeps_intros)
qed

lemma poll_loop_keeps: "poll_loop Ops n wake s = Some (s', p, wake') \<Longrightarrow> session_inv cfg ty lo s \<Longrightarrow> session_inv cfg ty lo s'"
proof (induction n arbitrary: s wake)
  case (Suc n)
  show ?case
  proof (cases "is_dead s")
    case False
    with Suc.prems obtain s1 r1 where pr: "poll_round Ops s = Some (s1, r1)"
      by (cases "poll_round Ops s") auto
    from keepsD [OF poll_round_keeps pr Suc.prems(2)] have "session_inv cfg ty lo s1" .
    with Suc.prems(1) False pr Suc.IH [of True s1] show ?thesis
      by (auto split: sum.splits if_splits)
  qed (use Suc.prems in simp)
qed simp

lemma poll_keepalive_keeps: "keeps (session_inv cfg ty lo) (poll_keepalive Ops)"
  by (rule keepsI)
    (auto simp: poll_keepalive_def dest!: keepsD [OF keep_alive_keeps]
      split: if_splits prod.splits poll.splits option.splits)

lemma session_poll_next_inv:
  "session_poll_next Ops s = Some (s', p, wake) \<Longrightarrow> session_inv cfg ty lo s \<Longrightarrow> session_inv cfg ty lo s'"
proof (cases "is_dead s")
  case False
  assume run: "session_poll_next Ops s = Some (s', p, wake)" and inv: "session_inv cfg ty lo s"
  with False obtain s1 r1 where pk: "poll_keepalive Ops s = Some (s1, r1)"
    by (cases "poll_keepalive Ops s") (auto simp: session_poll_next_def)
  from keepsD [OF poll_keepalive_keeps pk inv] have "session_inv cfg ty lo s1" .
  with run False pk poll_loop_keeps [of Ops 16 False s1 s' p wake] show ?thesis
    by (cases r1) (auto simp: session_poll_next_def simp del: poll_loop.simps)
qed (simp add: session_poll_next_def)

section \<open>Reachable sessions\<close>

text \<open>
  A session is polled, asked to open streams, shut down or sent away by its owner, and its world
  (network, streams, other tasks, time) moves on its own in between.
\<close>

inductive session_step :: "('w, 'c) session_ops \<Rightarrow> ('w, 'c) session \<Rightarrow> ('w, 'c) session \<Rightarrow> bool"
  for Ops where
  step_poll: "session_poll_next Ops s = Some (s', p, wake) \<Longrightarrow> session_step Ops s s'"
| step_open: "open_stream Ops s = Some (s', r) \<Longrightarrow> session_step Ops s s'"
| step_shutdown: "shutdown Ops s = Some (s', q) \<Longrightarrow> session_step Ops s s'"
| step_go_away: "send_go_away Ops s = Some (s', q) \<Longrightarrow> session_step Ops s s'"
| step_world: "session_step Ops s (s\<lparr>world := w\<rparr>)"

inductive session_reach :: "('w, 'c) session_ops \<Rightarrow> config \<Rightarrow> session_type \<Rightarrow> ('w, 'c) session \<Rightarrow> bool"
  for Ops cfg ty where
  reach_new: "session_new Ops w cfg ty = Some s \<Longrightarrow> session_reach Ops cfg ty s"
| reach_step: "session_reach Ops cfg ty s \<Longrightarrow> session_step Ops s s' \<Longrightarrow> session_reach Ops cfg ty s'"

lemma session_step_inv: "session_step Ops s s' \<Longrightarrow> session_inv cfg ty lo s \<Longrightarrow> session_inv cfg ty lo s'"
  by (induction rule: session_step.induct)
    (simp_all add: session_poll_next_inv keepsD [OF open_stream_keeps] keepsD [OF shutdown_keeps]
      keepsD [OF send_go_away_keeps])

lemma session_new_inv: "session_new Ops w cfg ty = Some s \<Longrightarrow> session_inv cfg ty 0 s"
  by (auto simp: session_new_def session_inv_def split: if_splits session_type.splits)

lemma session_reach_inv: "session_reach Ops cfg ty s \<Longrightarrow> session_inv cfg ty 0 s"
  by (induction rule: session_reach.induct) (erule session_new_inv, erule (1) session_step_inv)

section \<open>Ordered delivery\<close>

text \<open>
  What the session relies on of the frame channels, with \<open>sent w c\<close> the frames the channel \<open>c\<close> has
  accepted: a successful \<open>try_send\<close> appends to its own channel, a full channel hands the frame
  back, and nothing else changes what was accepted.
\<close>

definition chan_laws :: "('w, 'c) session_ops \<Rightarrow> ('w \<Rightarrow> 'c \<Rightarrow> frame list) \<Rightarrow> bool" where
  "chan_laws Ops sent \<longleftrightarrow>
     (\<forall>w c w' p. chan_poll_ready Ops w c = (w', p) \<longrightarrow> sent w' = sent w) \<and>
     (\<forall>w c f w'. chan_try_send Ops w c f = (w', Sent) \<longrightarrow> sent w' = (sent w)(c := sent w c @ [f])) \<and>
     (\<forall>w c f w' g. chan_try_send Ops w c f = (w', Full g) \<longrightarrow> g = f \<and> sent w' = sent w) \<and>
     (\<forall>w c f w'. chan_try_send Ops w c f = (w', Disconnected) \<longrightarrow> sent w' = sent w)"

lemma chan_lawsD:
  assumes "chan_laws Ops sent"
  shows "chan_poll_ready Ops w c = (w', p) \<Longrightarrow> sent w' = sent w"
    and "chan_try_send Ops w c f = (w', Sent) \<Longrightarrow> sent w' = (sent w)(c := sent w c @ [f])"
    and "chan_try_send Ops w c f = (w', Full g) \<Longrightarrow> g = f \<and> sent w' = sent w"
    and "chan_try_send Ops w c f = (w', Disconnected) \<Longrightarrow> sent w' = sent w"
proof -
  note L = assms [unfolded chan_laws_def]
  show "chan_poll_ready Ops w c = (w', p) \<Longrightarrow> sent w' = sent w"
    using L [THEN conjunct1] by blast
  show "chan_try_send Ops w c f = (w', Sent) \<Longrightarrow> sent w' = (sent w)(c := sent w c @ [f])"
    using L [THEN conjunct2, THEN conjunct1] by blast
  show "chan_try_send Ops w c f = (w', Full g) \<Longrightarrow> g = f \<and> sent w' = sent w"
    using L [THEN conjunct2, THEN conjunct2, THEN conjunct1] by blast
  show "chan_try_send Ops w c f = (w', Disconnected) \<Longrightarrow> sent w' = sent w"
    using L [THEN conjunct2, THEN conjunct2, THEN conjunct2] by blast
qed

definition frames_for :: "u32 \<Rightarrow> frame list \<Rightarrow> frame list" where
  "frames_for sid fs = filter (\<lambda>f. fr_stream_id f = sid) fs"

lemma frames_for_simps [simp]:
  "frames_for sid [] = []"
  "frames_for sid (f # fs) = (if fr_stream_id f = sid then f # frames_for sid fs else frames_for sid fs)"
  "frames_for sid (fs @ gs) = frames_for sid fs @ frames_for sid gs"
  by (simp_all add: frames_for_def)

text \<open>The state of the loop for one registered stream: what waits is blocked.\<close>

definition queued_blocked :: "u32 set \<Rightarrow> ('w, 'c) session \<Rightarrow> bool" where
  "queued_blocked blocked s \<longleftrightarrow> (\<forall>f \<in> set (read_pending_frames s). fr_stream_id f \<in> blocked)"

definition own_channel :: "u32 \<Rightarrow> 'c \<Rightarrow> ('w, 'c) session \<Rightarrow> bool" where
  "own_channel sid c s \<longleftrightarrow> map_of (streams s) sid = Some c \<and> (\<forall>i. i \<noteq> sid \<longrightarrow> map_of (streams s) i \<noteq> Some c)"

lemma map_of_map_remove: "map_of (map_remove k m) i = (if i = k then None else map_of m i)"
  by (induction m) (auto simp: map_remove_def)

lemma frames_for_unblocked:
  "queued_blocked blocked s \<Longrightarrow> sid \<notin> blocked \<Longrightarrow> frames_for sid (read_pending_frames s) = []"
  by (auto simp: queued_blocked_def frames_for_def filter_empty_conv)

lemma deliver_order:
  assumes laws: "chan_laws Ops sent" and d: "deliver Ops blocked f s = (s', blocked')"
    and nb: "fr_stream_id f \<notin> blocked" and q: "queued_blocked blocked s"
    and own: "own_channel sid c s" and still: "map_of (streams s') sid = Some c"
  shows "sent (world s') c @ frames_for sid (read_pending_frames s')
           = sent (world s) c @ frames_for sid (read_pending_frames s) @ frames_for sid [f]
       \<and> queued_blocked blocked' s' \<and> own_channel sid c s'"
proof (cases "map_of (streams s) (fr_stream_id f)")
  case None
  then have "fr_stream_id f \<noteq> sid" using own by (auto simp: own_channel_def)
  with None d q own show ?thesis by (auto simp: deliver_def)
next
  case (Some c')
  have same: "c' = c \<longleftrightarrow> fr_stream_id f = sid"
    using Some own by (auto simp: own_channel_def)
  obtain w p where rdy: "chan_poll_ready Ops (world s) c' = (w, p)" by fastforce
  have w: "sent w = sent (world s)" using chan_lawsD(1) [OF laws rdy] .
  obtain w2 t where ts: "chan_try_send Ops w c' f = (w2, t)" by fastforce
  have none: "frames_for sid (read_pending_frames s) = []" if "fr_stream_id f = sid"
    using frames_for_unblocked [OF q] nb that by simp
  have removed: "fr_stream_id f \<noteq> sid \<and> own_channel sid c s'"
    if "streams s' = map_remove (fr_stream_id f) (streams s)"
    using that still own by (auto simp: own_channel_def map_of_map_remove split: if_splits)
  show ?thesis
  proof (cases p)
    case Pending
    with Some rdy d w q own show ?thesis
      by (auto simp: deliver_def Let_def queued_blocked_def own_channel_def)
  next
    case (Ready r)
    show ?thesis
    proof (cases r)
      case (Inl u)
      with Some rdy d Ready w q removed show ?thesis by (auto simp: deliver_def Let_def queued_blocked_def)
    next
      case (Inr u)
      with Some rdy d Ready ts have s': "(s', blocked') =
          (case t of Sent \<Rightarrow> (s\<lparr>world := w2\<rparr>, blocked)
           | Full g \<Rightarrow> (s\<lparr>world := w2, read_pending_frames := read_pending_frames s @ [g]\<rparr>, insert (fr_stream_id f) blocked)
           | Disconnected \<Rightarrow> (s\<lparr>world := w2, streams := map_remove (fr_stream_id f) (streams s)\<rparr>, blocked))"
        by (cases t) (simp_all add: deliver_def Let_def)
      show ?thesis
      proof (cases t)
        case Sent
        with s' chan_lawsD(2) [OF laws ts [unfolded Sent]] w same none q own show ?thesis
          by (auto simp: queued_blocked_def own_channel_def)
      next
        case (Full g)
        with s' chan_lawsD(3) [OF laws ts [unfolded Full]] w q own show ?thesis
          by (auto simp: queued_blocked_def own_channel_def)
      next
        case Disconnected
        with s' chan_lawsD(4) [OF laws ts [unfolded Disconnected]] w q removed show ?thesis
          by (auto simp: queued_blocked_def)
      qed
    qed
  qed
qed

lemma distribute_loop_order:
  assumes laws: "chan_laws Ops sent" and nosyn: "list_all (\<lambda>f. \<not> contains (fr_flags f) Syn) fs"
    and q: "queued_blocked blocked s"
  shows "\<exists>s'. distribute_loop Ops blocked fs s = Some (s', Ok ()) \<and>
           (own_channel sid c s \<longrightarrow> map_of (streams s') sid = Some c \<longrightarrow>
              sent (world s') c @ frames_for sid (read_pending_frames s')
                = sent (world s) c @ frames_for sid (read_pending_frames s @ fs))
           \<and> (\<forall>i. map_of (streams s') i \<noteq> None \<longrightarrow> map_of (streams s') i = map_of (streams s) i)"
  using nosyn q
proof (induction fs arbitrary: blocked s)
  case Nil
  then show ?case by simp
next
  case (Cons f fs)
  show ?case
  proof (cases "fr_stream_id f \<in> blocked")
    case True
    let ?s = "s\<lparr>read_pending_frames := read_pending_frames s @ [f]\<rparr>"
    have "queued_blocked blocked ?s" using True Cons.prems(2) by (auto simp: queued_blocked_def)
    with Cons.IH [of blocked ?s] Cons.prems(1) True show ?thesis
      by (auto simp: own_channel_def)
  next
    case False
    obtain s1 b1 where d: "deliver Ops blocked f s = (s1, b1)" by fastforce
    have full: "chan_try_send Ops w c' f = (w', Full g) \<Longrightarrow> g = f" for w c' w' g
      using chan_lawsD(3) [OF laws] by blast
    have q1: "queued_blocked b1 s1"
      using d Cons.prems(2)
      by (auto simp: deliver_def Let_def queued_blocked_def dest: full
          split: option.splits prod.splits poll.splits sum.splits try_send.splits)
    have m1: "map_of (streams s1) i \<noteq> None \<Longrightarrow> map_of (streams s1) i = map_of (streams s) i" for i
      using d by (auto simp: deliver_def Let_def map_of_map_remove
          split: option.splits prod.splits poll.splits sum.splits try_send.splits if_splits)
    from Cons.IH [of b1 s1] Cons.prems(1) q1 obtain s' where
      run: "distribute_loop Ops b1 fs s1 = Some (s', Ok ())"
      and ord: "own_channel sid c s1 \<longrightarrow> map_of (streams s') sid = Some c \<longrightarrow>
              sent (world s') c @ frames_for sid (read_pending_frames s')
                = sent (world s1) c @ frames_for sid (read_pending_frames s1 @ fs)"
      and m: "\<forall>i. map_of (streams s') i \<noteq> None \<longrightarrow> map_of (streams s') i = map_of (streams s1) i"
      by auto
    have eq: "distribute_loop Ops blocked (f # fs) s = Some (s', Ok ())"
      using False Cons.prems(1) d run by simp
    have "sent (world s') c @ frames_for sid (read_pending_frames s')
                = sent (world s) c @ frames_for sid (read_pending_frames s @ f # fs)"
      if own: "own_channel sid c s" and still: "map_of (streams s') sid = Some c"
    proof -
      from m still have "map_of (streams s1) sid = Some c" by (metis option.distinct(1))
      from deliver_order [OF laws d False Cons.prems(2) own this] ord still show ?thesis by simp
    qed
    moreover have "\<forall>i. map_of (streams s') i \<noteq> None \<longrightarrow> map_of (streams s') i = map_of (streams s) i"
      using m m1 by metis
    ultimately show ?thesis using eq by blast
  qed
qed

lemma open_stream_Ok:
  assumes "open_stream Ops s = Some (s', Ok h)" "session_inv cfg ty lo s"
  shows "sh_id h = next_stream_id s \<and> unat (next_stream_id s') = unat (next_stream_id s) + 2
       \<and> map_of (streams s) (sh_id h) = None \<and> map_of (streams s') (sh_id h) \<noteq> None"
proof -
  have cs: "create_stream Ops None s = Some (s', Ok h)"
    using assms(1) by (simp add: open_stream_def split: if_splits)
  from create_stream_inv [OF cs assms(2)] have id: "sh_id h = next_stream_id s" by simp
  obtain n where n: "checked_add (next_stream_id s) 2 = Some n"
      and reg: "register_stream Ops (next_stream_id s) Init (s\<lparr>next_stream_id := n\<rparr>) = Some (s', Ok h)"
    using cs by (auto simp: create_stream_def split: option.splits)
  from reg have "next_stream_id s' = n \<and> map_of (streams s) (next_stream_id s) = None
      \<and> map_of (streams s') (next_stream_id s) \<noteq> None"
    by (auto simp: register_stream_def Let_def split: prod.splits if_splits option.splits)
  with id checked_add_2 [OF n] show ?thesis by simp
qed

lemma session_steps_inv:
  "(session_step Ops)\<^sup>*\<^sup>* s s' \<Longrightarrow> session_inv cfg ty lo s \<Longrightarrow> session_inv cfg ty lo s'"
  by (induction rule: rtranclp_induct) (auto intro: session_step_inv)

section \<open>Go-away\<close>

text \<open>The timer of the go-away timeout does not write to the sink.\<close>

definition timer_laws :: "('w, 'c) session_ops \<Rightarrow> ('w \<Rightarrow> frame list) \<Rightarrow> bool" where
  "timer_laws Ops written \<longleftrightarrow>
     (\<forall>w n. written (interval_new Ops w n) = written w) \<and>
     (\<forall>w. written (fst (interval_poll_next Ops w)) = written w)"

lemma send_go_away_with_code_result:
  assumes "send_go_away_with_code Ops code s = Some (s', Ok ())"
  shows "local_go_away s' \<and> remote_go_away s' = remote_go_away s \<and> eof s' = eof s \<and> streams s' = streams s
       \<and> (sink_laws Ops written \<longrightarrow> timer_laws Ops written \<longrightarrow> \<not> is_dead s \<longrightarrow>
            written (world s') @ write_pending_frames s' = written (world s) @ [new_go_away code])"
proof -
  let ?s = "s\<lparr>write_pending_frames := [new_go_away code]\<rparr>"
  obtain s1 p where run: "send_all Ops ?s = Some (s1, Ok p)"
    and s': "s' = s1\<lparr>local_go_away := True,
                 world := fst (interval_poll_next Ops
                            (interval_new Ops (world s1) (connection_write_timeout (ses_config s1)))),
                 keepalive := True\<rparr>"
    using assms by (auto simp: send_go_away_with_code_def send_frame_def act_bind_eq_Some)
  have "same_rest s s1" using send_all_rest [OF run] by simp
  moreover have "written (world s1) @ write_pending_frames s1 = written (world s) @ [new_go_away code]"
    if L: "sink_laws Ops written" and "\<not> is_dead s"
  proof -
    have "\<not> is_dead ?s" using that by (simp add: is_dead_def)
    from send_all_written [OF run L this] obtain k where k:
      "written (world s1) = written (world s) @ take k [new_go_away code]"
      "p \<longrightarrow> write_pending_frames s1 = drop k [new_go_away code]"
      "\<not> p \<longrightarrow> write_pending_frames s1 = [] \<and> 1 \<le> k" by auto
    then show ?thesis by (cases p; cases k) auto
  qed
  ultimately show ?thesis using same_rest_sel [of s s1] by (simp add: s' timer_laws_def)
qed

section \<open>Waking up\<close>

text \<open>The three sources were polled last, one after the other, and all of them are pending.\<close>

definition all_pending :: "('w, 'c) session_ops \<Rightarrow> 'w \<Rightarrow> bool" where
  "all_pending Ops w \<longleftrightarrow>
     (\<exists>w0 w1 w2. command_poll_next Ops w0 = (w1, Pending) \<and> framed_poll_next Ops w1 = (w2, Pending)
        \<and> event_poll_next Ops w2 = (w, Pending))"

lemma control_poll_Pending:
  "control_poll Ops s = Some (s', Ok Pending) \<Longrightarrow>
     \<exists>w. command_poll_next Ops (world s) = (w, Pending) \<and> s' = s\<lparr>world := w\<rparr>"
  by (auto simp: control_poll_def act_bind_eq_Some split: prod.splits poll.splits option.splits command.splits)

lemma session_recv_frames_Pending:
  "session_recv_frames Ops s = Some (s', Ok Pending) \<Longrightarrow>
     \<exists>w. framed_poll_next Ops (world s) = (w, Pending) \<and> s' = s\<lparr>world := w\<rparr>"
  by (auto simp: session_recv_frames_def act_bind_eq_Some split: prod.splits poll.splits option.splits sum.splits)

lemma recv_events_Pending:
  "recv_events Ops s = Some (s', Ok Pending) \<Longrightarrow>
     \<exists>w. event_poll_next Ops (world s) = (w, Pending) \<and> s' = s\<lparr>world := w\<rparr>"
  by (auto simp: recv_events_def act_bind_eq_Some split: prod.splits poll.splits option.splits)

lemma poll_round_Pending:
  assumes "poll_round Ops s = Some (s', Ok (Inr True))"
  shows "all_pending Ops (world s') \<and> pending_streams s' = []"
proof -
  from assms obtain s1 where
    "(case pending_streams s1 of
         h # hs \<Rightarrow> Some (s1\<lparr>pending_streams := hs\<rparr>, Ok (Inl h))
       | [] \<Rightarrow>
           act_bind (control_poll Ops) (\<lambda>p1.
           act_bind (session_recv_frames Ops) (\<lambda>p2.
           act_bind (recv_events Ops) (\<lambda>p3.
           act_return (Inr (p1 = Pending \<and> p2 = Pending \<and> p3 = Pending))))) s1) = Some (s', Ok (Inr True))"
    unfolding poll_round_def act_bind_eq_Some [of "flush Ops"]
      act_bind_eq_Some [of "\<lambda>s. Some (poll_complete Ops s)"] by blast
  then obtain s2 s3 where "pending_streams s1 = []"
    "control_poll Ops s1 = Some (s2, Ok Pending)" "session_recv_frames Ops s2 = Some (s3, Ok Pending)"
    "recv_events Ops s3 = Some (s', Ok Pending)"
    by (cases "pending_streams s1") (auto simp: act_bind_eq_Some)
  then show ?thesis
    by (force simp: all_pending_def dest!: control_poll_Pending session_recv_frames_Pending recv_events_Pending)
qed

lemma poll_loop_Pending:
  "poll_loop Ops n wake s = Some (s', Pending, False) \<Longrightarrow> 0 < n \<or> wake \<Longrightarrow>
     all_pending Ops (world s') \<and> pending_streams s' = []"
proof (induction n arbitrary: wake s)
  case (Suc n)
  show ?case
  proof (cases "poll_round Ops s = Some (s', Ok (Inr True))")
    case True
    then show ?thesis by (rule poll_round_Pending)
  next
    case False
    with Suc.prems have "\<exists>s1. poll_loop Ops n True s1 = Some (s', Pending, False)"
      by (auto split: if_splits option.splits sum.splits)
    with Suc.IH [of True] show ?thesis by blast
  qed
qed simp

section \<open>Properties\<close>

text \<open>
  A world for the witnesses: a sink that records what is written, channels that record what they
  accept, no traffic and no timers.
\<close>

type_synonym sample_world = "frame list \<times> (nat \<Rightarrow> frame list)"

definition sample_ops :: "(sample_world, nat) session_ops" where
  "sample_ops =
     \<lparr>sink_poll_ready = (\<lambda>w. (w, Ready (Ok ()))),
      sink_start_send = (\<lambda>w f. ((fst w @ [f], snd w), Ok ())),
      sink_poll_flush = (\<lambda>w. (w, Ready (Ok ()))),
      framed_poll_next = (\<lambda>w. (w, Pending)),
      chan_new = (\<lambda>w. (w, 0)),
      chan_poll_ready = (\<lambda>w c. (w, Ready (Ok ()))),
      chan_try_send = (\<lambda>w c f. ((fst w, (snd w)(c := snd w c @ [f])), Sent)),
      event_send = (\<lambda>w e. w),
      event_poll_next = (\<lambda>w. (w, Pending)),
      command_poll_next = (\<lambda>w. (w, Pending)),
      reply_open = (\<lambda>w r. w),
      reply_shutdown = (\<lambda>w. w),
      interval_new = (\<lambda>w n. w),
      interval_poll_next = (\<lambda>w. (w, Ready (Some ()))),
      instant_now = (\<lambda>w. 0)\<rparr>"

definition sample_session :: "(sample_world, nat) session" where
  "sample_session =
     \<lparr>world = ([], \<lambda>_. []), eof = False, remote_go_away = False, local_go_away = False,
      next_stream_id = 1, ses_ty = Client, ses_config = default_config, pings = [], ping_id = 0,
      streams = [], pending_streams = [], write_pending_frames = [], read_pending_frames = [],
      keepalive = True\<rparr>"

lemma sample_sink_laws: "sink_laws sample_ops fst"
  by (simp add: sink_laws_def sample_ops_def)

lemma sample_chan_laws: "chan_laws sample_ops snd"
  by (simp add: chan_laws_def sample_ops_def)

lemma sample_timer_laws: "timer_laws sample_ops fst"
  by (simp add: timer_laws_def sample_ops_def)

lemma sample_send_one:
  assumes "write_pending_frames s = [f]" "\<not> is_dead s"
  shows "send_all sample_ops s =
    Some (s\<lparr>world := (fst (world s) @ [f], snd (world s)), write_pending_frames := []\<rparr>, Ok False)"
  by (subst send_all.simps, simp add: assms sample_ops_def, subst send_all.simps)
    (simp add: finish_send_def poll_complete_def)

lemma sample_session_new:
  "session_new sample_ops ([], \<lambda>_. []) default_config Client = Some sample_session"
  by (simp add: session_new_def sample_session_def default_config_def sample_ops_def)

text \<open>
  Writing is in order and ends. Over any sink that keeps what it accepts and takes a frame
  after a completed flush, \<open>send_all\<close> on a live session returns; the frames it hands to the sink
  are a prefix of the queue in queue order, the rest stays queued when it reports a pending
  sink, and nothing is left when it reports completion.
\<close>

theorem send_all_in_order:
  assumes "sink_laws Ops written" "\<not> is_dead s"
  shows "\<exists>s' r k. send_all Ops s = Some (s', r)
           \<and> written (world s') = written (world s) @ take k (write_pending_frames s)
           \<and> (r = Ok True \<longrightarrow> write_pending_frames s' = drop k (write_pending_frames s))
           \<and> (r = Ok False \<longrightarrow> write_pending_frames s' = [] \<and> length (write_pending_frames s) \<le> k)"
proof -
  obtain s' r where run: "send_all Ops s = Some (s', r)" using send_all_total [OF assms(1)] by blast
  with send_all_written [OF run assms] show ?thesis by blast
qed

theorem send_all_in_order_witness:
  "sink_laws sample_ops fst \<and> \<not> is_dead (sample_session\<lparr>write_pending_frames := [new_ping 1 5]\<rparr>) \<and>
   (\<exists>s' r. send_all sample_ops (sample_session\<lparr>write_pending_frames := [new_ping 1 5]\<rparr>) = Some (s', r))"
proof -
  have "\<not> is_dead (sample_session\<lparr>write_pending_frames := [new_ping 1 5]\<rparr>)"
    by (simp add: is_dead_def sample_session_def)
  with send_all_in_order [OF sample_sink_laws this] sample_sink_laws show ?thesis by blast
qed

text \<open>
  C33. Session invariant. In every session reachable by polling, opening streams, shutting down
  and any behaviour of the network and the streams: stream ids are registered once, locally
  opened ids are odd for a client and even for a server, the accept queue never exceeds the
  configured backlog, and every stream waiting in it satisfies the receive-window invariant.
\<close>

theorem session_invariant:
  assumes "session_reach Ops cfg ty s"
  shows "distinct (map fst (streams s)) \<and> odd (unat (next_stream_id s)) = (ty = Client) \<and>
         length (pending_streams s) \<le> accept_backlog cfg \<and> list_all stream_inv (pending_streams s)"
  using session_reach_inv [OF assms] by (auto simp: session_inv_def)

theorem session_invariant_witness:
  "session_reach sample_ops default_config Client sample_session \<and> odd (unat (next_stream_id sample_session))"
proof -
  have r: "session_reach sample_ops default_config Client sample_session"
    by (rule reach_new [OF sample_session_new])
  with session_invariant [OF r] show ?thesis by simp
qed

text \<open>
  Frames reach each stream in order. Over channels that keep what they accept and hand back
  what they cannot take, distributing a queue without SYN frames always succeeds, and for
  every stream that is still registered, the frames its channel accepted followed by those
  still queued for it are the ones it had accepted before followed by those that were queued,
  in the same order: a full channel delays only its own stream and reorders nothing.
\<close>

theorem distribute_in_order:
  assumes "chan_laws Ops sent" "list_all (\<lambda>f. \<not> contains (fr_flags f) Syn) (read_pending_frames s)"
    and "own_channel sid c s"
  shows "\<exists>s'. distribute_to_substream Ops s = Some (s', Ok ()) \<and>
           (map_of (streams s') sid = Some c \<longrightarrow>
              sent (world s') c @ frames_for sid (read_pending_frames s')
                = sent (world s) c @ frames_for sid (read_pending_frames s))"
proof -
  have "queued_blocked {} (s\<lparr>read_pending_frames := []\<rparr>)" by (simp add: queued_blocked_def)
  moreover have "own_channel sid c (s\<lparr>read_pending_frames := []\<rparr>)"
    using assms(3) by (simp add: own_channel_def)
  ultimately show ?thesis
    using distribute_loop_order [OF assms(1,2), of "{}" "s\<lparr>read_pending_frames := []\<rparr>" sid c]
    by (auto simp: distribute_to_substream_def)
qed

theorem distribute_in_order_witness:
  "\<exists>s'. distribute_to_substream sample_ops
           (sample_session\<lparr>streams := [(1, 4)], read_pending_frames := [new_data 0 1 [7], new_data 0 1 [8]]\<rparr>)
         = Some (s', Ok ())"
proof -
  have "list_all (\<lambda>f. \<not> contains (fr_flags f) Syn) [new_data 0 1 [7], new_data 0 1 [8]]"
    by (simp add: contains_def)
  moreover have "own_channel 1 4
      (sample_session\<lparr>streams := [(1, 4)], read_pending_frames := [new_data 0 1 [7], new_data 0 1 [8]]\<rparr>)"
    by (simp add: own_channel_def)
  ultimately show ?thesis
    using distribute_in_order [OF sample_chan_laws, of
        "sample_session\<lparr>streams := [(1, 4)], read_pending_frames := [new_data 0 1 [7], new_data 0 1 [8]]\<rparr>" 1 4]
    by auto
qed

text \<open>
  Stream ids are never reused. A stream that the session opens gets the id counter's value,
  which is not registered; and whatever happens in between (polling, closing streams, further
  opens, network activity), a stream opened later in the same session has a larger id.
\<close>

theorem stream_ids_fresh:
  assumes "session_reach Ops cfg ty s" "open_stream Ops s = Some (s1, Ok h)"
    and "(session_step Ops)\<^sup>*\<^sup>* s1 s2" "open_stream Ops s2 = Some (s3, Ok h')"
  shows "map_of (streams s) (sh_id h) = None \<and> map_of (streams s1) (sh_id h) \<noteq> None
       \<and> odd (unat (sh_id h)) = (ty = Client) \<and> unat (sh_id h) < unat (sh_id h')"
proof -
  note I = session_reach_inv [OF assms(1)]
  note O = open_stream_Ok [OF assms(2) I]
  have "session_inv cfg ty 0 s1" using keepsD [OF open_stream_keeps assms(2) I] .
  then have "session_inv cfg ty (unat (next_stream_id s1)) s1" by (auto simp: session_inv_def)
  from session_steps_inv [OF assms(3) this] have I2: "session_inv cfg ty (unat (next_stream_id s1)) s2" .
  with open_stream_Ok [OF assms(4) I2] O I show ?thesis by (auto simp: session_inv_def)
qed

definition sample_open :: "(sample_world, nat) session \<times> stream_handle" where
  "sample_open = (case open_stream sample_ops sample_session of
     Some (s, Inr h) \<Rightarrow> (s, h) | _ \<Rightarrow> (sample_session, sample_stream))"

lemma open_stream_sample:
  "open_stream sample_ops sample_session = Some (fst sample_open, Ok (snd sample_open))"
  "\<exists>s' h'. open_stream sample_ops (fst sample_open) = Some (s', Ok h')"
  by (simp_all add: sample_open_def open_stream_def is_dead_def sample_session_def create_stream_def
      register_stream_def checked_add_def sample_ops_def stream_new_def default_config_def Let_def)

theorem stream_ids_fresh_witness:
  "\<exists>s' h'. open_stream sample_ops (fst sample_open) = Some (s', Ok h') \<and>
     odd (unat (sh_id (snd sample_open))) \<and> unat (sh_id (snd sample_open)) < unat (sh_id h')"
proof -
  obtain s' h' where o2: "open_stream sample_ops (fst sample_open) = Some (s', Ok h')"
    using open_stream_sample(2) by blast
  from stream_ids_fresh [OF reach_new [OF sample_session_new] open_stream_sample(1) rtranclp.rtrancl_refl o2] o2
  show ?thesis by simp
qed

text \<open>
  Go-away exchange. Handling a GoAway frame without an I/O error leaves a dead session, whose
  next poll ends the stream of incoming substreams; if no go-away had been sent before, the
  pending writes are discarded and exactly one normal GoAway is written or waits to be
  written; otherwise nothing more is.
\<close>

theorem go_away_exchange:
  assumes "fr_ty f = GoAway" "session_handle_frame Ops f s = Some (s', Ok ())"
  shows "is_dead s' \<and> session_poll_next Ops s' = Some (s', Ready None, False)
       \<and> (local_go_away s \<longrightarrow> write_pending_frames s' = [] \<and> world s' = world s)
       \<and> (sink_laws Ops written \<longrightarrow> timer_laws Ops written \<longrightarrow> \<not> local_go_away s \<longrightarrow> \<not> eof s \<longrightarrow>
            written (world s') @ write_pending_frames s' = written (world s) @ [new_go_away Normal])"
proof -
  have run: "close_by_remote Ops s = Some (s', Ok ())"
    using assms by (auto simp: session_handle_frame_def handle_go_away_def split: go_away_code.splits)
  have "is_dead s' \<and> (local_go_away s \<longrightarrow> write_pending_frames s' = [] \<and> world s' = world s)
       \<and> (sink_laws Ops written \<longrightarrow> timer_laws Ops written \<longrightarrow> \<not> local_go_away s \<longrightarrow> \<not> eof s \<longrightarrow>
            written (world s') @ write_pending_frames s' = written (world s) @ [new_go_away Normal])"
  proof (cases "local_go_away s")
    case True
    with run show ?thesis by (auto simp: close_by_remote_def Let_def is_dead_def)
  next
    case False
    with run have "send_go_away_with_code Ops Normal (s\<lparr>remote_go_away := True, write_pending_frames := []\<rparr>) = Some (s', Ok ())"
      by (simp add: close_by_remote_def Let_def send_go_away_def)
    from send_go_away_with_code_result [OF this, of written] False show ?thesis by (simp add: is_dead_def)
  qed
  then show ?thesis by (simp add: session_poll_next_def)
qed

theorem go_away_exchange_witness:
  "\<exists>s'. session_handle_frame sample_ops (new_go_away Normal) sample_session = Some (s', Ok ())
      \<and> is_dead s' \<and> fst (world s') @ write_pending_frames s' = [new_go_away Normal]"
proof -
  have ty: "fr_ty (new_go_away Normal) = GoAway" by (simp add: new_go_away_def fr_ty_def)
  obtain s' where s': "session_handle_frame sample_ops (new_go_away Normal) sample_session = Some (s', Ok ())"
    by (simp add: session_handle_frame_def handle_go_away_def go_away_from_def new_go_away_def fr_sel_defs close_by_remote_def
        send_go_away_def send_go_away_with_code_def send_frame_def act_bind_def sample_send_one sample_session_def
        is_dead_def)
  from go_away_exchange [OF ty s', of fst] s' sample_sink_laws sample_timer_laws show ?thesis
    by (auto simp: sample_session_def)
qed

text \<open>
  No lost wake-up. When polling the session is pending and the task has not asked to be
  polled again, its last actions were to poll the command channel, the connection and the
  event channel, all three pending (each has registered the task to be woken), and no
  accepted stream is waiting to be handed out.
\<close>

theorem pending_poll_registered:
  assumes "session_poll_next Ops s = Some (s', Pending, False)"
  shows "all_pending Ops (world s') \<and> pending_streams s' = []"
proof -
  obtain s1 where "poll_loop Ops 16 False s1 = Some (s', Pending, False)"
    using assms by (auto simp: session_poll_next_def split: if_splits option.splits sum.splits)
  from poll_loop_Pending [OF this] show ?thesis by simp
qed

lemma sample_poll:
  "\<exists>s'. session_poll_next sample_ops (sample_session\<lparr>keepalive := False\<rparr>) = Some (s', Pending, False)"
  by (simp add: session_poll_next_def poll_keepalive_def is_dead_def sample_session_def numeral_eq_Suc poll_round_def flush_def act_bind_def poll_complete_def control_poll_def
      session_recv_frames_def recv_events_def sample_ops_def)

theorem pending_poll_registered_witness:
  "\<exists>s'. session_poll_next sample_ops (sample_session\<lparr>keepalive := False\<rparr>) = Some (s', Pending, False)
      \<and> all_pending sample_ops (world s')"
proof -
  obtain s' where s': "session_poll_next sample_ops (sample_session\<lparr>keepalive := False\<rparr>) = Some (s', Pending, False)"
    using sample_poll by blast
  from pending_poll_registered [OF s'] s' show ?thesis by blast
qed

text \<open>
  Keepalive. When the timer of a live session ticks: after a local go-away the session ends,
  although the peer has not answered; otherwise a ping unanswered for more than 30 seconds
  ends it with a timeout error, whatever else is ready.
\<close>

theorem keepalive_ends_session:
  assumes "\<not> is_dead s" "keepalive s" "interval_poll_next Ops (world s) = (w, Ready (Some ()))"
  shows "(local_go_away s \<longrightarrow> (\<exists>s'. session_poll_next Ops s = Some (s', Ready None, False) \<and> is_dead s'))
       \<and> (\<not> local_go_away s \<and> (\<exists>(p, t) \<in> set (pings s). TIMEOUT < instant_now Ops w - t) \<longrightarrow>
            session_poll_next Ops s = Some (s\<lparr>world := w\<rparr>, Ready (Some (Err TimedOut)), False))"
  using assms
  by (auto simp: session_poll_next_def poll_keepalive_def numeral_eq_Suc is_dead_def
      keep_alive_def list_ex_iff)

theorem keepalive_ends_session_witness:
  "session_poll_next (sample_ops\<lparr>instant_now := \<lambda>_. 31\<rparr>) (sample_session\<lparr>pings := [(1, 0)]\<rparr>)
     = Some (sample_session\<lparr>pings := [(1, 0)]\<rparr>, Ready (Some (Err TimedOut)), False)"
proof -
  let ?s = "sample_session\<lparr>pings := [(1, 0)]\<rparr>"
  have "\<not> is_dead ?s" "keepalive ?s" "\<not> local_go_away ?s"
    by (simp_all add: is_dead_def sample_session_def)
  moreover have "interval_poll_next (sample_ops\<lparr>instant_now := \<lambda>_. 31\<rparr>) (world ?s) = (world ?s, Ready (Some ()))"
    by (simp add: sample_ops_def)
  ultimately show ?thesis
    using keepalive_ends_session [of ?s "sample_ops\<lparr>instant_now := \<lambda>_. 31\<rparr>" "world ?s"] by (simp add: TIMEOUT_def)
qed

text \<open>
  A SYN after a local go-away ends the distribution: the frames queued behind it, of any
  stream, are neither delivered nor kept (the result does not depend on them).
\<close>

theorem refused_syn_drops_queue:
  assumes "local_go_away s" "contains (fr_flags f) Syn" "read_pending_frames s = f # fs"
  shows "distribute_to_substream Ops s = distribute_to_substream Ops (s\<lparr>read_pending_frames := [f]\<rparr>)"
  using assms
  by (auto simp: distribute_to_substream_def accept_syn_def act_bind_eq_Some split: option.splits sum.splits)

theorem refused_syn_drops_queue_witness:
  "distribute_to_substream sample_ops (sample_session\<lparr>local_go_away := True, streams := [(3, 0)],
       read_pending_frames := [new_window_update (flags_from Syn) 2 0, new_data 0 3 [7]]\<rparr>)
   = distribute_to_substream sample_ops (sample_session\<lparr>local_go_away := True, streams := [(3, 0)],
       read_pending_frames := [new_window_update (flags_from Syn) 2 0]\<rparr>)"
  using refused_syn_drops_queue [of "sample_session\<lparr>local_go_away := True, streams := [(3, 0)],
       read_pending_frames := [new_window_update (flags_from Syn) 2 0, new_data 0 3 [7]]\<rparr>"
       "new_window_update (flags_from Syn) 2 0"]
  by (simp add: contains_def new_window_update_def fr_sel_defs flags_from_def)

end
