(* ===== verification/Std_Text.thy ===== *)
theory Std_Text
  imports Prelude
begin

text \<open>
  The parts of the Rust standard library that turn text into values and back, as far as the
  address code uses them: UTF-8 validation, \<open>str::split\<close>, unsigned integers, and the
  textual forms of IPv4 and IPv6 addresses (\<open>core::net::parser\<close> and the \<open>Display\<close>
  implementations). A \<open>str\<close> is the list of its bytes.
\<close>

type_synonym str = "byte list"

definition lit :: "string \<Rightarrow> str" where
  "lit s = map of_char s"

section \<open>UTF-8\<close>

definition in_range :: "byte \<Rightarrow> byte \<Rightarrow> byte \<Rightarrow> bool" where
  "in_range lo hi b \<longleftrightarrow> lo \<le> b \<and> b \<le> hi"

definition utf8_second :: "byte \<Rightarrow> byte \<Rightarrow> bool" where
  "utf8_second a b =
     (if a = 0xE0 then in_range 0xA0 0xBF b
      else if a = 0xED then in_range 0x80 0x9F b
      else if a = 0xF0 then in_range 0x90 0xBF b
      else if a = 0xF4 then in_range 0x80 0x8F b
      else in_range 0x80 0xBF b)"

fun utf8_valid :: "byte list \<Rightarrow> bool" where
  "utf8_valid [] = True"
| "utf8_valid (a # bs) =
     (if a < 0x80 then utf8_valid bs
      else if in_range 0xC2 0xDF a then
        (case bs of b # cs \<Rightarrow> utf8_second a b \<and> utf8_valid cs | [] \<Rightarrow> False)
      else if in_range 0xE0 0xEF a then
        (case bs of b # c # cs \<Rightarrow> utf8_second a b \<and> in_range 0x80 0xBF c \<and> utf8_valid cs | _ \<Rightarrow> False)
      else if in_range 0xF0 0xF4 a then
        (case bs of
           b # c # d # cs \<Rightarrow>
             utf8_second a b \<and> in_range 0x80 0xBF c \<and> in_range 0x80 0xBF d \<and> utf8_valid cs
         | _ \<Rightarrow> False)
      else False)"

definition string_from_utf8 :: "byte list \<Rightarrow> str option" where
  "string_from_utf8 bs = (if utf8_valid bs then Some bs else None)"

section \<open>Little-endian bytes\<close>

text \<open>\<open>to_le_bytes\<close> and reading an \<open>n\<close>-byte integer at a pointer; the read needs \<open>n\<close> bytes there.\<close>

definition to_le_bytes :: "nat \<Rightarrow> 'w::len word \<Rightarrow> byte list" where
  "to_le_bytes n x = rev (be_digits n (unat x))"

definition read_le :: "nat \<Rightarrow> byte list \<Rightarrow> 'w::len word option" where
  "read_le n bs = (if length bs < n then None else Some (of_nat (be_value 0 (rev (take n bs)))))"

lemma length_to_le_bytes [simp]: "length (to_le_bytes n x) = n"
  by (simp add: to_le_bytes_def)

lemma read_to_le_bytes:
  "2 ^ LENGTH('w) \<le> (256 :: nat) ^ n \<Longrightarrow> read_le n (to_le_bytes n (x :: 'w::len word)) = Some x"
  using order_less_le_trans [OF unat_lt [of x]] by (simp add: read_le_def to_le_bytes_def be_value_digits)

section \<open>Splitting\<close>

fun split_on :: "byte \<Rightarrow> str \<Rightarrow> str list" where
  "split_on c [] = [[]]"
| "split_on c (b # bs) =
     (if b = c then [] # split_on c bs
      else case split_on c bs of
             p # ps \<Rightarrow> (b # p) # ps
           | [] \<Rightarrow> [[b]])"

section \<open>Numbers\<close>

definition digit :: "nat \<Rightarrow> byte" where
  "digit d = (if d < 10 then of_nat (48 + d) else of_nat (87 + d))"

text \<open>\<open>char::to_digit\<close>.\<close>

definition digit_val :: "nat \<Rightarrow> byte \<Rightarrow> nat option" where
  "digit_val r b =
     (let n = unat b;
          d = (if 48 \<le> n \<and> n \<le> 57 then n - 48
               else if 97 \<le> n \<and> n \<le> 122 then n - 87
               else if 65 \<le> n \<and> n \<le> 90 then n - 55
               else r)
      in if d < r then Some d else None)"

text \<open>The digits of a number, most significant first, as the formatter prints them.\<close>

fun digs :: "nat \<Rightarrow> nat \<Rightarrow> nat list" where
  "digs r n = (if r < 2 \<or> n < r then [n] else digs r (n div r) @ [n mod r])"

declare digs.simps [simp del]

definition show_radix :: "nat \<Rightarrow> nat \<Rightarrow> str" where
  "show_radix r n = map digit (digs r n)"

text \<open>
  Reading digits with the checked arithmetic of a type of \<open>bnd\<close> values and at most
  \<open>mx\<close> digits.
\<close>

fun read_digits :: "nat \<Rightarrow> nat \<Rightarrow> nat option \<Rightarrow> nat \<Rightarrow> nat \<Rightarrow> str \<Rightarrow> (nat \<times> nat \<times> str) option" where
  "read_digits r bnd mx acc k [] = Some (acc, k, [])"
| "read_digits r bnd mx acc k (b # bs) =
     (case digit_val r b of
        None \<Rightarrow> Some (acc, k, b # bs)
      | Some d \<Rightarrow>
          if bnd \<le> acc * r + d \<or> (case mx of Some m \<Rightarrow> m < Suc k | None \<Rightarrow> False) then None
          else read_digits r bnd mx (acc * r + d) (Suc k) bs)"

text \<open>\<open>Parser::read_number\<close>.\<close>

definition read_number :: "nat \<Rightarrow> nat \<Rightarrow> nat option \<Rightarrow> bool \<Rightarrow> str \<Rightarrow> (nat \<times> str) option" where
  "read_number r bnd mx zero_prefix s =
     (case read_digits r bnd mx 0 0 s of
        None \<Rightarrow> None
      | Some (v, k, rest) \<Rightarrow>
          if k = 0 \<or> \<not> zero_prefix \<and> hd s = 48 \<and> 1 < k then None else Some (v, rest))"

text \<open>\<open>str::parse\<close> for an unsigned integer type of \<open>bnd\<close> values.\<close>

definition parse_uint :: "nat \<Rightarrow> str \<Rightarrow> nat option" where
  "parse_uint bnd s =
     (case read_digits 10 bnd None 0 0 (case s of b # c # cs \<Rightarrow> if b = 43 then c # cs else s | _ \<Rightarrow> s) of
        Some (v, Suc k, []) \<Rightarrow> Some v
      | _ \<Rightarrow> None)"

section \<open>Addresses\<close>

datatype ipv4 = Ipv4 byte byte byte byte
datatype ipv6 = Ipv6 u16 u16 u16 u16 u16 u16 u16 u16

fun octets :: "ipv4 \<Rightarrow> byte list" where
  "octets (Ipv4 a b c d) = [a, b, c, d]"

fun segments :: "ipv6 \<Rightarrow> u16 list" where
  "segments (Ipv6 a b c d e f g h) = [a, b, c, d, e, f, g, h]"

fun ipv6_of :: "u16 list \<Rightarrow> ipv6 option" where
  "ipv6_of [a, b, c, d, e, f, g, h] = Some (Ipv6 a b c d e f g h)"
| "ipv6_of _ = None"

definition read_char :: "byte \<Rightarrow> str \<Rightarrow> str option" where
  "read_char c s = (case s of b # bs \<Rightarrow> if b = c then Some bs else None | [] \<Rightarrow> None)"

text \<open>\<open>Parser::read_separator\<close>.\<close>

definition read_separator :: "byte \<Rightarrow> nat \<Rightarrow> (str \<Rightarrow> ('a \<times> str) option) \<Rightarrow> str \<Rightarrow> ('a \<times> str) option" where
  "read_separator c i p s = (if i = 0 then p s else Option.bind (read_char c s) p)"

definition read_octet :: "str \<Rightarrow> (nat \<times> str) option" where
  "read_octet = read_number 10 256 (Some 3) False"

definition read_ipv4 :: "str \<Rightarrow> (ipv4 \<times> str) option" where
  "read_ipv4 s =
     Option.bind (read_octet s) (\<lambda>(a, s).
     Option.bind (read_separator 46 1 read_octet s) (\<lambda>(b, s).
     Option.bind (read_separator 46 2 read_octet s) (\<lambda>(c, s).
     Option.bind (read_separator 46 3 read_octet s) (\<lambda>(d, s).
     Some (Ipv4 (of_nat a) (of_nat b) (of_nat c) (of_nat d), s)))))"

definition parse_ipv4 :: "str \<Rightarrow> ipv4 option" where
  "parse_ipv4 s =
     (if 15 < length s then None
      else case read_ipv4 s of Some (a, []) \<Rightarrow> Some a | _ \<Rightarrow> None)"

definition read_group :: "str \<Rightarrow> (nat \<times> str) option" where
  "read_group = read_number 16 65536 (Some 4) True"

definition u16_of_bytes :: "byte \<Rightarrow> byte \<Rightarrow> u16" where
  "u16_of_bytes a b = of_nat (unat a * 256 + unat b)"

text \<open>\<open>read_groups\<close>, with the number of free slots; the groups read, and whether an IPv4 tail ended it.\<close>

fun read_groups :: "nat \<Rightarrow> nat \<Rightarrow> str \<Rightarrow> u16 list \<times> bool \<times> str" where
  "read_groups 0 i s = ([], False, s)"
| "read_groups (Suc n) i s =
     (case (if 0 < n then read_separator 58 i read_ipv4 s else None) of
        Some (Ipv4 a b c d, r) \<Rightarrow> ([u16_of_bytes a b, u16_of_bytes c d], True, r)
      | None \<Rightarrow>
          (case read_separator 58 i read_group s of
             None \<Rightarrow> ([], False, s)
           | Some (g, r) \<Rightarrow>
               (case read_groups n (Suc i) r of (gs, v4, r') \<Rightarrow> (of_nat g # gs, v4, r'))))"

definition read_ipv6 :: "str \<Rightarrow> (ipv6 \<times> str) option" where
  "read_ipv6 s =
     (case read_groups 8 0 s of
        (front, v4, r) \<Rightarrow>
          if length front = 8 then map_option (\<lambda>a. (a, r)) (ipv6_of front)
          else if v4 then None
          else
            Option.bind (read_char 58 r) (\<lambda>r.
            Option.bind (read_char 58 r) (\<lambda>r.
              case read_groups (8 - (length front + 1)) 0 r of
                (back, _, r') \<Rightarrow>
                  map_option (\<lambda>a. (a, r')) (ipv6_of (front @ replicate (8 - length front - length back) 0 @ back)))))"

definition parse_ipv6 :: "str \<Rightarrow> ipv6 option" where
  "parse_ipv6 s = (case read_ipv6 s of Some (a, []) \<Rightarrow> Some a | _ \<Rightarrow> None)"

fun join :: "byte \<Rightarrow> str list \<Rightarrow> str" where
  "join c [] = []"
| "join c [p] = p"
| "join c (p # ps) = p @ c # join c ps"

definition show_ipv4 :: "ipv4 \<Rightarrow> str" where
  "show_ipv4 a = join 46 (map (\<lambda>b. show_radix 10 (unat b)) (octets a))"

text \<open>The longest run of zero segments, the first of them: start and length.\<close>

fun zero_span :: "nat \<Rightarrow> nat \<times> nat \<Rightarrow> nat \<times> nat \<Rightarrow> u16 list \<Rightarrow> nat \<times> nat" where
  "zero_span i longest current [] = longest"
| "zero_span i longest current (x # xs) =
     (if x = 0 then
        let current' = (if snd current = 0 then i else fst current, Suc (snd current)) in
        zero_span (Suc i) (if snd longest < snd current' then current' else longest) current' xs
      else zero_span (Suc i) longest (0, 0) xs)"

definition show_groups :: "u16 list \<Rightarrow> str" where
  "show_groups gs = join 58 (map (\<lambda>g. show_radix 16 (unat g)) gs)"

definition to_ipv4_mapped :: "ipv6 \<Rightarrow> ipv4 option" where
  "to_ipv4_mapped a =
     (case a of Ipv6 a b c d e f g h \<Rightarrow>
        if a = 0 \<and> b = 0 \<and> c = 0 \<and> d = 0 \<and> e = 0 \<and> f = 0xFFFF
        then Some (Ipv4 (of_nat (unat g div 256)) (of_nat (unat g mod 256))
                        (of_nat (unat h div 256)) (of_nat (unat h mod 256)))
        else None)"

definition show_ipv6 :: "ipv6 \<Rightarrow> str" where
  "show_ipv6 a =
     (case to_ipv4_mapped a of
        Some v4 \<Rightarrow> lit ''::ffff:'' @ show_ipv4 v4
      | None \<Rightarrow>
          (case zero_span 0 (0, 0) (0, 0) (segments a) of
             (start, len) \<Rightarrow>
               if 1 < len
               then show_groups (take start (segments a)) @ lit ''::'' @ show_groups (drop (start + len) (segments a))
               else show_groups (segments a)))"

section \<open>Reading what was printed\<close>

lemma unat_digit: "d < 16 \<Longrightarrow> unat (digit d) = (if d < 10 then 48 + d else 87 + d)"
  unfolding digit_def by (simp del: of_nat_add add: unat_of_nat)

lemma digit_val_digit: "d < r \<Longrightarrow> r \<le> 16 \<Longrightarrow> digit_val r (digit d) = Some d"
  by (auto simp: digit_val_def Let_def unat_digit)

definition digs_val :: "nat \<Rightarrow> nat \<Rightarrow> nat list \<Rightarrow> nat" where
  "digs_val r acc ds = foldl (\<lambda>a d. a * r + d) acc ds"

lemma digs_val_simps [simp]:
  "digs_val r acc [] = acc"
  "digs_val r acc (d # ds) = digs_val r (acc * r + d) ds"
  "digs_val r acc (ds @ [e]) = digs_val r acc ds * r + e"
  by (simp_all add: digs_val_def)

lemma digs_val_ge: "1 \<le> r \<Longrightarrow> acc \<le> digs_val r acc ds"
proof (induction ds arbitrary: acc)
  case (Cons d ds)
  have "acc \<le> acc * r + d" using Cons.prems by (simp add: trans_le_add1)
  also have "\<dots> \<le> digs_val r (acc * r + d) ds" using Cons by blast
  finally show ?case by simp
qed simp

lemma digs_lt: "2 \<le> r \<Longrightarrow> list_all (\<lambda>d. d < r) (digs r n)"
  by (induction r n rule: digs.induct) (subst digs.simps, simp)

lemma digs_val_digs: "2 \<le> r \<Longrightarrow> digs_val r 0 (digs r n) = n"
  by (induction r n rule: digs.induct) (subst digs.simps, simp)

lemma digs_ne [simp]: "digs r n \<noteq> []"
  by (subst digs.simps) simp

lemma digs_length: "2 \<le> r \<Longrightarrow> n < r ^ m \<Longrightarrow> 0 < m \<Longrightarrow> length (digs r n) \<le> m"
proof (induction r n arbitrary: m rule: digs.induct)
  case (1 r n)
  show ?case
  proof (cases "n < r")
    case True
    with 1 show ?thesis by (subst digs.simps) simp
  next
    case False
    then obtain k where m: "m = Suc k" "0 < k" using 1 by (cases m; cases "m - 1") auto
    have "n div r < r ^ k" using 1 m by (simp add: less_mult_imp_div_less mult.commute)
    with 1 False m show ?thesis by (subst digs.simps) simp
  qed
qed

lemma hd_digs: "2 \<le> r \<Longrightarrow> hd (digs r n) = 0 \<longleftrightarrow> n = 0"
proof (induction r n rule: digs.induct)
  case (1 r n)
  have "n div r \<noteq> 0" if "\<not> n < r" using that 1 by (simp add: div_greater_zero_iff)
  with 1 show ?case by (subst digs.simps) (auto simp: hd_append)
qed

lemma digs_length_1: "2 \<le> r \<Longrightarrow> length (digs r n) \<le> 1 \<longleftrightarrow> n < r"
  by (subst digs.simps) simp

text \<open>What may follow a printed number.\<close>

definition ends :: "nat \<Rightarrow> str \<Rightarrow> bool" where
  "ends r s \<longleftrightarrow> (case s of [] \<Rightarrow> True | b # _ \<Rightarrow> digit_val r b = None)"

lemma ends_Nil [simp]: "ends r []"
  by (simp add: ends_def)

lemma ends_sep [simp]: "ends 16 (58 # s)" "ends 10 (46 # s)" "ends 10 (58 # s)"
  by (simp_all add: ends_def digit_val_def Let_def)

lemma read_digits_map:
  assumes "list_all (\<lambda>d. d < r) ds" "2 \<le> r" "r \<le> 16" "ends r rest" "digs_val r acc ds < bnd"
    and "case mx of Some m \<Rightarrow> k + length ds \<le> m | None \<Rightarrow> True"
  shows "read_digits r bnd mx acc k (map digit ds @ rest) = Some (digs_val r acc ds, k + length ds, rest)"
  using assms
proof (induction ds arbitrary: acc k)
  case Nil
  then show ?case by (cases rest) (auto simp: ends_def)
next
  case (Cons d ds)
  have "acc * r + d < bnd"
    using digs_val_ge [of r "acc * r + d" ds] Cons.prems by simp
  with Cons show ?case by (cases mx) (simp_all add: digit_val_digit)
qed

lemma read_digits_show:
  assumes "2 \<le> r" "r \<le> 16" "ends r rest" "n < bnd" "case mx of Some m \<Rightarrow> 0 < m \<and> n < r ^ m | None \<Rightarrow> True"
  shows "read_digits r bnd mx 0 0 (show_radix r n @ rest) = Some (n, length (digs r n), rest)"
proof -
  have "case mx of Some m \<Rightarrow> 0 + length (digs r n) \<le> m | None \<Rightarrow> True"
    using assms(1,5) digs_length [of r n] by (cases mx) auto
  from read_digits_map [OF digs_lt [OF assms(1)] assms(1-3) _ this, of 0 bnd] assms(1,4)
  show ?thesis by (simp add: show_radix_def digs_val_digs)
qed

lemma hd_show: "2 \<le> r \<Longrightarrow> r \<le> 16 \<Longrightarrow> hd (show_radix r n @ rest) = 48 \<Longrightarrow> n = 0"
proof -
  assume r: "2 \<le> r" "r \<le> 16" and h: "hd (show_radix r n @ rest) = 48"
  have lt: "hd (digs r n) < r" using digs_lt [OF r(1), of n] by (cases "digs r n") auto
  have "hd (show_radix r n @ rest) = digit (hd (digs r n))"
    by (simp add: show_radix_def hd_append hd_map)
  moreover have "digit_val r (48 :: byte) = Some 0"
    using r by (simp add: digit_val_def)
  ultimately have "hd (digs r n) = 0"
    using digit_val_digit [OF lt r(2)] h by simp
  then show "n = 0" using hd_digs [OF r(1)] by blast
qed

lemma read_number_show:
  assumes "2 \<le> r" "r \<le> 16" "ends r rest" "n < bnd" "case mx of Some m \<Rightarrow> 0 < m \<and> n < r ^ m | None \<Rightarrow> True"
  shows "read_number r bnd mx zp (show_radix r n @ rest) = Some (n, rest)"
proof -
  have "length (digs r n) \<le> 1" if "hd (show_radix r n @ rest) = 48"
    using hd_show [OF assms(1,2) that] digs_length_1 [OF assms(1), of n] assms(1) by simp
  then show ?thesis
    using read_digits_show [OF assms] by (auto simp: read_number_def)
qed

lemma parse_uint_show:
  assumes "n < bnd"
  shows "parse_uint bnd (show_radix 10 n) = Some n"
proof -
  have rd: "read_digits 10 bnd None 0 0 (show_radix 10 n) = Some (n, length (digs 10 n), [])"
    using read_digits_show [of 10 "[]" n bnd None] assms by simp
  obtain k where k: "length (digs 10 n) = Suc k" by (cases "digs 10 n") auto
  have "hd (show_radix 10 n) \<noteq> 43"
  proof
    assume h: "hd (show_radix 10 n) = 43"
    have lt: "hd (digs 10 n) < 10" using digs_lt [of 10 n] by (cases "digs 10 n") auto
    have "hd (show_radix 10 n) = digit (hd (digs 10 n))" by (simp add: show_radix_def hd_map)
    with digit_val_digit [of _ 10, OF lt] h show False by (simp add: digit_val_def)
  qed
  then have "(case show_radix 10 n of b # c # cs \<Rightarrow> if b = 43 then c # cs else show_radix 10 n | _ \<Rightarrow> show_radix 10 n)
      = show_radix 10 n"
    by (auto split: list.splits)
  with rd k show ?thesis by (simp add: parse_uint_def)
qed

section \<open>IPv4\<close>

lemma read_octet_show: "ends 10 rest \<Longrightarrow> read_octet (show_radix 10 (unat (b :: byte)) @ rest) = Some (unat b, rest)"
  using unat_lt [of b] read_number_show [of 10 rest "unat b" 256 "Some 3"]
  by (simp add: read_octet_def)

lemma read_ipv4_show: "ends 10 rest \<Longrightarrow> read_ipv4 (show_ipv4 a @ rest) = Some (a, rest)"
  by (cases a) (simp add: show_ipv4_def read_ipv4_def read_octet_show read_separator_def read_char_def)

lemma length_show_byte: "length (show_radix 10 (unat (b :: byte))) \<le> 3"
  using unat_lt [of b] digs_length [of 10 "unat b" 3] by (simp add: show_radix_def)

theorem parse_show_ipv4: "parse_ipv4 (show_ipv4 a) = Some a"
proof -
  obtain b c d e where a: "a = Ipv4 b c d e" by (cases a)
  have "length (show_ipv4 a) \<le> 15"
    using length_show_byte [of b] length_show_byte [of c] length_show_byte [of d] length_show_byte [of e]
    by (simp add: a show_ipv4_def)
  then show ?thesis using read_ipv4_show [of "[]" a] by (simp add: parse_ipv4_def)
qed

section \<open>IPv6\<close>

lemma read_digits_suffix: "read_digits r bnd mx acc k s = Some (v, k', rest) \<Longrightarrow> set rest \<subseteq> set s"
  by (induction r bnd mx acc k s rule: read_digits.induct) (auto split: option.splits if_splits)

lemma read_ipv4_dot:
  assumes "read_ipv4 s = Some x"
  shows "46 \<in> set s"
proof -
  obtain v s1 y where 1: "read_octet s = Some (v, s1)" and 2: "read_separator 46 1 read_octet s1 = Some y"
    using assms by (auto simp: read_ipv4_def bind_eq_Some_conv)
  from 1 have "set s1 \<subseteq> set s"
    by (auto simp: read_octet_def read_number_def split: option.splits if_splits
        dest: read_digits_suffix [THEN subsetD])
  moreover from 2 have "46 \<in> set s1"
    by (auto simp: read_separator_def read_char_def bind_eq_Some_conv split: list.splits if_splits)
  ultimately show ?thesis by blast
qed

lemma digit_ge: "d < 16 \<Longrightarrow> 48 \<le> unat (digit d)"
  by (simp add: unat_digit)

lemma digit_ne: "d < 16 \<Longrightarrow> digit d \<noteq> 46 \<and> digit d \<noteq> 47"
  using digit_ge [of d] by auto

lemma show_radix_chars: "2 \<le> r \<Longrightarrow> r \<le> 16 \<Longrightarrow> b \<in> set (show_radix r n) \<Longrightarrow> b \<noteq> 46 \<and> b \<noteq> 47"
  using digs_lt [of r n] digit_ne by (auto simp: show_radix_def list_all_iff)

lemma show_radix_ne [simp]: "show_radix r n \<noteq> []"
  by (simp add: show_radix_def)

lemma set_join: "set (join c ps) \<subseteq> insert c (\<Union>p \<in> set ps. set p)"
  by (induction c ps rule: join.induct) auto

lemma show_groups_chars: "b \<in> set (show_groups gs) \<Longrightarrow> b \<noteq> 46 \<and> b \<noteq> 47"
proof -
  assume "b \<in> set (show_groups gs)"
  then have "b \<in> insert 58 (\<Union>g \<in> set gs. set (show_radix 16 (unat g)))"
    using set_join [of 58 "map (\<lambda>g. show_radix 16 (unat g)) gs"] by (auto simp: show_groups_def)
  then show ?thesis using show_radix_chars [of 16 b] by auto
qed

lemma show_groups_Cons:
  "show_groups (g # gs) = show_radix 16 (unat g) @ (if gs = [] then [] else 58 # show_groups gs)"
  by (cases gs) (simp_all add: show_groups_def)

lemma show_groups_Nil [simp]: "show_groups [] = []"
  by (simp add: show_groups_def)

lemma read_group_show: "ends 16 rest \<Longrightarrow> read_group (show_radix 16 (unat (g :: u16)) @ rest) = Some (unat g, rest)"
  using unat_lt [of g] read_number_show [of 16 rest "unat g" 65536 "Some 4" True]
  by (simp add: read_group_def)

lemma read_group_stop: "read_group [] = None" "read_group (58 # s) = None"
  by (simp_all add: read_group_def read_number_def digit_val_def)

lemma read_ipv4_sep_dot: "46 \<notin> set s \<Longrightarrow> read_separator 58 i read_ipv4 s = None"
  using read_ipv4_dot [of s] read_ipv4_dot [of "tl s"]
  by (cases s; cases "read_ipv4 s"; cases "read_ipv4 (tl s)") (auto simp: read_separator_def read_char_def)

definition stops :: "str \<Rightarrow> bool" where
  "stops s \<longleftrightarrow> s = [] \<or> (\<exists>r. s = 58 # 58 # r)"

lemma read_group_sep_stop: "stops s \<Longrightarrow> read_separator 58 i read_group s = None"
  by (auto simp: stops_def read_separator_def read_char_def read_group_stop)

lemma stops_ends: "stops s \<Longrightarrow> ends 16 s"
  by (auto simp: stops_def)

lemma read_groups_show:
  assumes "length gs \<le> n" "stops rest" "46 \<notin> set rest"
  shows "read_groups n i ((if i = 0 \<or> gs = [] then [] else [58]) @ show_groups gs @ rest) = (gs, False, rest)"
  using assms
proof (induction gs arbitrary: n i)
  case Nil
  then show ?case
    by (cases n) (simp_all add: read_ipv4_sep_dot read_group_sep_stop)
next
  case (Cons g gs)
  then obtain m where n: "n = Suc m" "length gs \<le> m" by (cases n) auto
  let ?s = "(if i = 0 \<or> g # gs = [] then [] else [58]) @ show_groups (g # gs) @ rest"
  let ?t = "(if gs = [] then [] else [58]) @ show_groups gs @ rest"
  have "46 \<notin> set ?s" using Cons.prems(3) show_groups_chars by auto
  then have v4: "read_separator 58 i read_ipv4 ?s = None" by (rule read_ipv4_sep_dot)
  have "ends 16 ?t" using stops_ends [OF Cons.prems(2)] by simp
  then have "read_group (show_radix 16 (unat g) @ ?t) = Some (unat g, ?t)" by (rule read_group_show)
  then have "read_separator 58 i read_group ?s = Some (unat g, ?t)"
    by (auto simp: read_separator_def read_char_def show_groups_Cons)
  with v4 Cons.IH [OF n(2) Cons.prems(2,3), of "Suc i"] show ?case
    by (cases "0 < m") (simp_all add: n(1) del: append.append_Cons)
qed

lemma read_groups_show0:
  "length gs \<le> n \<Longrightarrow> stops rest \<Longrightarrow> 46 \<notin> set rest \<Longrightarrow> read_groups n 0 (show_groups gs @ rest) = (gs, False, rest)"
  using read_groups_show [of gs n rest 0] by simp

text \<open>The compressed segments are zero.\<close>

definition zeros_at :: "u16 list \<Rightarrow> nat \<times> nat \<Rightarrow> bool" where
  "zeros_at L sp \<longleftrightarrow> fst sp + snd sp \<le> length L \<and> take (snd sp) (drop (fst sp) L) = replicate (snd sp) 0"

lemma zero_span_zeros:
  assumes "xs = drop i L" "i \<le> length L" "zeros_at L longest" "zeros_at L current"
    and "snd current = 0 \<or> fst current + snd current = i"
  shows "zeros_at L (zero_span i longest current xs)"
  using assms
proof (induction xs arbitrary: i longest current)
  case (Cons x xs)
  have i: "i < length L" and x: "L ! i = x" and xs: "xs = drop (Suc i) L"
  proof -
    show "i < length L" using Cons.prems(1) by (metis drop_all leI list.distinct(1))
    then show "L ! i = x" "xs = drop (Suc i) L"
      using Cons.prems(1) Cons_nth_drop_Suc [of i L] by (metis list.inject)+
  qed
  define cur where "cur = (if snd current = 0 then i else fst current, Suc (snd current))"
  have cur: "zeros_at L cur \<and> fst cur + snd cur = Suc i" if "x = 0"
    using that x i Cons.prems(4,5)
    by (auto simp: cur_def zeros_at_def take_Suc_conv_app_nth replicate_append_same [symmetric] hd_drop_conv_nth)
  show ?case
  proof (cases "x = 0")
    case True
    let ?l = "if snd longest < snd cur then cur else longest"
    have "zero_span i longest current (x # xs) = zero_span (Suc i) ?l cur xs"
      using True by (simp add: cur_def Let_def)
    with cur [OF True] Cons.prems(3) Cons.IH [OF xs, of ?l cur] i show ?thesis by simp
  next
    case False
    have "zeros_at L (0, 0)" by (simp add: zeros_at_def)
    with False Cons.IH [OF xs, of longest "(0, 0)"] Cons.prems(3) i show ?thesis by simp
  qed
qed simp

lemma length_segments [simp]: "length (segments a) = 8"
  by (cases a) simp

lemma ipv6_of_segments [simp]: "ipv6_of (segments a) = Some a"
  by (cases a) simp

lemma show_ipv6_plain:
  assumes "to_ipv4_mapped a = None" "zero_span 0 (0, 0) (0, 0) (segments a) = (start, len)"
  shows "parse_ipv6 (show_ipv6 a) = Some a"
proof (cases "1 < len")
  case True
  let ?f = "take start (segments a)" and ?b = "drop (start + len) (segments a)"
  have z: "zeros_at (segments a) (start, len)"
    using zero_span_zeros [of "segments a" 0 "segments a" "(0, 0)" "(0, 0)"] assms(2) by (simp add: zeros_at_def)
  then have le: "start + len \<le> 8" and "segments a = ?f @ replicate len 0 @ ?b"
    by (auto simp: zeros_at_def) (metis add.commute append_take_drop_id drop_drop)
  then have seg: "ipv6_of (?f @ replicate len 0 @ ?b) = Some a" by (metis ipv6_of_segments)
  have s: "show_ipv6 a = show_groups ?f @ 58 # 58 # show_groups ?b"
    using assms True by (simp add: show_ipv6_def lit_def)
  have "46 \<notin> set (show_groups ?b)" using show_groups_chars by blast
  then have 1: "read_groups 8 0 (show_ipv6 a) = (?f, False, 58 # 58 # show_groups ?b)"
    unfolding s by (intro read_groups_show0) (auto simp: stops_def)
  have 2: "read_groups (8 - (length ?f + 1)) 0 (show_groups ?b) = (?b, False, [])"
    using read_groups_show0 [of ?b "8 - (length ?f + 1)" "[]"] le True by (simp add: stops_def)
  have "8 - length ?f - length ?b = len" using le by simp
  with 1 2 seg le True show ?thesis
    by (simp add: parse_ipv6_def read_ipv6_def read_char_def)
next
  case False
  then have "show_ipv6 a = show_groups (segments a)" using assms by (simp add: show_ipv6_def)
  with read_groups_show0 [of "segments a" 8 "[]"] show ?thesis
    by (simp add: parse_ipv6_def read_ipv6_def stops_def)
qed

lemma u16_of_bytes_split [simp]:
  "u16_of_bytes (of_nat (unat g div 256)) (of_nat (unat g mod 256)) = g"
proof -
  have "unat g div 256 < 256" using unat_lt [of g] by simp
  then show ?thesis by (simp add: u16_of_bytes_def unat_of_nat_lt)
qed

lemma read_groups_mapped:
  "read_groups 7 0 (lit ''ffff:'' @ show_ipv4 v) =
     (case v of Ipv4 a b c d \<Rightarrow> ([0xFFFF, u16_of_bytes a b, u16_of_bytes c d], True, []))"
proof -
  have s: "lit ''ffff:'' @ show_ipv4 v = show_radix 16 (unat (0xFFFF :: u16)) @ 58 # show_ipv4 v"
    by (simp add: lit_def show_radix_def digs.simps digit_def)
  have v4: "read_separator 58 0 read_ipv4 (lit ''ffff:'' @ show_ipv4 v) = None"
    by (simp add: read_separator_def read_ipv4_def read_octet_def read_number_def lit_def digit_val_def)
  have g: "read_separator 58 0 read_group (lit ''ffff:'' @ show_ipv4 v) = Some (0xFFFF, 58 # show_ipv4 v)"
    unfolding s read_separator_def using read_group_show [of "58 # show_ipv4 v" "0xFFFF"] by simp
  have t: "read_separator 58 1 read_ipv4 (58 # show_ipv4 v) = Some (v, [])"
    using read_ipv4_show [of "[]" v] by (simp add: read_separator_def read_char_def)
  have "read_groups 6 1 (58 # show_ipv4 v) =
      (case v of Ipv4 a b c d \<Rightarrow> ([u16_of_bytes a b, u16_of_bytes c d], True, []))"
    using t read_groups.simps(2) [of 5 1 "58 # show_ipv4 v"] by (simp split: ipv4.splits)
  with v4 g read_groups.simps(2) [of 6 0 "lit ''ffff:'' @ show_ipv4 v"] show ?thesis
    by (simp split: ipv4.splits)
qed

theorem parse_show_ipv6: "parse_ipv6 (show_ipv6 a) = Some a"
proof (cases "to_ipv4_mapped a")
  case None
  obtain start len where "zero_span 0 (0, 0) (0, 0) (segments a) = (start, len)" by fastforce
  with None show ?thesis by (rule show_ipv6_plain)
next
  case (Some v)
  obtain g h where a: "a = Ipv6 0 0 0 0 0 0xFFFF g h"
    and v: "v = Ipv4 (of_nat (unat g div 256)) (of_nat (unat g mod 256))
                     (of_nat (unat h div 256)) (of_nat (unat h mod 256))"
    using Some by (auto simp: to_ipv4_mapped_def split: ipv6.splits if_splits)
  have s: "show_ipv6 a = 58 # 58 # lit ''ffff:'' @ show_ipv4 v"
    using Some by (simp add: show_ipv6_def lit_def)
  have "read_groups 8 0 (58 # r) = ([], False, 58 # r)" for r
    using read_groups.simps(2) [of 7 0 "58 # r"]
    by (simp add: read_separator_def read_group_stop read_ipv4_def read_octet_def read_number_def digit_val_def)
  moreover have "replicate 5 (0 :: u16) = [0, 0, 0, 0, 0]" by (simp add: eval_nat_numeral)
  ultimately show ?thesis using read_groups_mapped [of v]
    unfolding s parse_ipv6_def by (simp add: v read_ipv6_def read_char_def a)
qed

lemma show_ipv4_chars: "47 \<notin> set (show_ipv4 a)"
proof
  assume "47 \<in> set (show_ipv4 a)"
  then have "(47 :: byte) \<in> insert 46 (\<Union>b \<in> set (octets a). set (show_radix 10 (unat b)))"
    using set_join [of 46 "map (\<lambda>b. show_radix 10 (unat b)) (octets a)"] by (auto simp: show_ipv4_def)
  then show False using show_radix_chars [of 10 47] by auto
qed

lemma show_ipv6_chars: "47 \<notin> set (show_ipv6 a)"
  using show_ipv4_chars show_groups_chars
  by (auto simp: show_ipv6_def lit_def split: option.splits prod.splits if_splits)

section \<open>Splitting what was joined\<close>

lemma split_on_ne [simp]: "split_on c s \<noteq> []"
  by (induction s) (auto split: list.splits)

lemma split_on_no: "c \<notin> set p \<Longrightarrow> split_on c p = [p]"
  by (induction p) auto

lemma split_on_app: "c \<notin> set p \<Longrightarrow> split_on c (p @ c # s) = p # split_on c s"
  by (induction p) auto

lemma split_on_joined:
  "c \<notin> set p \<Longrightarrow> list_all (\<lambda>q. c \<notin> set q) qs \<Longrightarrow> split_on c (p @ concat (map ((#) c) qs)) = p # qs"
proof (induction qs arbitrary: p)
  case Nil
  then show ?case by (simp add: split_on_no)
next
  case (Cons q qs)
  then show ?case using split_on_app [of c p "q @ concat (map ((#) c) qs)"] by simp
qed

lemma split_on_length: "q \<in> set (split_on c s) \<Longrightarrow> length q \<le> length s"
proof (induction s arbitrary: q)
  case (Cons b s)
  obtain p ps where sp: "split_on c s = p # ps" using split_on_ne by (meson neq_Nil_conv)
  then have "length p \<le> length s" "\<And>x. x \<in> set ps \<Longrightarrow> length x \<le> length s" using Cons.IH by auto
  with sp Cons.prems show ?case by (auto split: if_splits intro: le_SucI)
qed simp

text \<open>A slash is never inside a multi-byte sequence, so the pieces of a \<open>str\<close> are \<open>str\<close>s.\<close>

lemma continuation_ne_slash: "in_range 0x80 h b \<Longrightarrow> b \<noteq> 47" "utf8_second a b \<Longrightarrow> b \<noteq> 47"
  by (auto simp: in_range_def utf8_second_def word_le_nat_alt split: if_splits)

lemma utf8_split: "utf8_valid s \<Longrightarrow> list_all utf8_valid (split_on 47 s)"
proof (induction s rule: utf8_valid.induct)
  case (2 a bs)
  have split: "\<exists>p ps. split_on 47 s = p # ps" for s :: str using split_on_ne by (meson neq_Nil_conv)
  consider "a < 0x80" | b cs where "in_range 0xC2 0xDF a" "bs = b # cs" "\<not> a < 0x80"
    | b c cs where "\<not> in_range 0xC2 0xDF a" "in_range 0xE0 0xEF a" "bs = b # c # cs" "\<not> a < 0x80"
    | b c d cs where "\<not> in_range 0xC2 0xDF a" "\<not> in_range 0xE0 0xEF a" "in_range 0xF0 0xF4 a"
        "bs = b # c # d # cs" "\<not> a < 0x80"
    using "2.prems" by (auto split: if_splits list.splits)
  then show ?case
  proof cases
    case 1
    with 2 split [of bs] show ?thesis by auto
  next
    case (2 b cs)
    have "a \<noteq> 47" using 2 by (auto simp: in_range_def word_le_nat_alt word_less_nat_alt)
    moreover have "b \<noteq> 47" using 2 \<open>utf8_valid (a # bs)\<close> continuation_ne_slash by auto
    ultimately show ?thesis using 2 "2.IH"(2) \<open>utf8_valid (a # bs)\<close> split [of cs] by auto
  next
    case (3 b c cs)
    have "a \<noteq> 47" using 3 by (auto simp: in_range_def word_le_nat_alt word_less_nat_alt)
    moreover have "b \<noteq> 47" "c \<noteq> 47" using 3 \<open>utf8_valid (a # bs)\<close> continuation_ne_slash by auto
    ultimately show ?thesis using 3 "2.IH"(3) \<open>utf8_valid (a # bs)\<close> split [of cs] by auto
  next
    case (4 b c d cs)
    have "a \<noteq> 47" using 4 by (auto simp: in_range_def word_le_nat_alt word_less_nat_alt)
    moreover have "b \<noteq> 47" "c \<noteq> 47" "d \<noteq> 47" using 4 \<open>utf8_valid (a # bs)\<close> continuation_ne_slash by auto
    ultimately show ?thesis using 4 "2.IH"(4) \<open>utf8_valid (a # bs)\<close> split [of cs] by auto
  qed
qed simp

end
