(* ===== verification/Molecule.thy ===== *)
theory Molecule
  imports Prelude
begin

text \<open>
  The readers and builders that \<open>moleculec\<close> generates (\<open>*_mol.rs\<close>). The generated code is the
  same for every type of a kind, so each kind (byte vector, fixed array, option, union, table,
  dynamic vector) is one definition here, parameterised by what the generator inserts (field
  count, item readers), and the message theories instantiate it per generated type. Two
  generator versions occur; they check table headers in a different order.

  What the generated code calls in the crate \<open>molecule\<close> is the parameter \<open>P\<close>: \<open>pack_number\<close>,
  \<open>unpack_number\<close> and the provided method \<open>from_compatible_slice\<close> of its trait \<open>Reader\<close>, which runs a
  reader's verifier. Slicing out of range panics, so a verifier returns \<open>None\<close> when it panics,
  otherwise its \<open>Result\<close>.
\<close>

datatype mol_error =
    HeaderIsBroken nat nat | TotalSizeNotMatch nat nat | OffsetsNotMatch
  | FieldCountNotMatch nat nat | UnknownItem nat u32

type_synonym vresult = "(mol_error + unit) option"
type_synonym verifier = "byte list \<Rightarrow> bool \<Rightarrow> vresult"

record mol_ops =
  pack_number :: "u32 \<Rightarrow> byte list"
  unpack_number :: "byte list \<Rightarrow> u32 option"
  from_compatible_slice :: "verifier \<Rightarrow> byte list \<Rightarrow> vresult"

definition NUMBER_SIZE :: nat where
  "NUMBER_SIZE = 4"

definition sub_slice :: "byte list \<Rightarrow> nat \<Rightarrow> nat \<Rightarrow> byte list option" where
  "sub_slice bs i j = (if i \<le> j \<and> j \<le> length bs then Some (take (j - i) (drop i bs)) else None)"

text \<open>\<open>unpack_number(&bs[i..]) as usize\<close>.\<close>

definition number_at :: "mol_ops \<Rightarrow> byte list \<Rightarrow> nat \<Rightarrow> nat option" where
  "number_at P bs i =
     Option.bind (sub_slice bs i (length bs)) (\<lambda>s. map_option unat (unpack_number P s))"

fun vthen :: "vresult \<Rightarrow> vresult \<Rightarrow> vresult" where
  "vthen None k = None"
| "vthen (Some (Inl e)) k = Some (Inl e)"
| "vthen (Some (Inr _)) k = k"

section \<open>Byte vectors and arrays\<close>

definition fixvec_verify :: "mol_ops \<Rightarrow> verifier" where
  "fixvec_verify P sl compatible =
     (let slice_len = length sl in
      if slice_len < NUMBER_SIZE then Some (Err (HeaderIsBroken NUMBER_SIZE slice_len))
      else Option.bind (number_at P sl 0) (\<lambda>item_count.
        if item_count = 0 then
          if slice_len \<noteq> NUMBER_SIZE then Some (Err (TotalSizeNotMatch NUMBER_SIZE slice_len)) else Some (Ok ())
        else let total_size = NUMBER_SIZE + 1 * item_count in
          if slice_len \<noteq> total_size then Some (Err (TotalSizeNotMatch total_size slice_len)) else Some (Ok ())))"

definition fixvec_raw_data :: "byte list \<Rightarrow> byte list option" where
  "fixvec_raw_data sl = sub_slice sl NUMBER_SIZE (length sl)"

definition fixvec_build :: "mol_ops \<Rightarrow> byte list \<Rightarrow> byte list" where
  "fixvec_build P bs = pack_number P (of_nat (length bs)) @ bs"

definition array_verify :: "nat \<Rightarrow> verifier" where
  "array_verify total_size sl compatible =
     (if length sl \<noteq> total_size then Some (Err (TotalSizeNotMatch total_size (length sl))) else Some (Ok ()))"

section \<open>Options and unions\<close>

definition opt_verify :: "verifier \<Rightarrow> verifier" where
  "opt_verify v sl compatible = (if sl \<noteq> [] then v sl compatible else Some (Ok ()))"

definition opt_to_opt :: "byte list \<Rightarrow> byte list option" where
  "opt_to_opt sl = (if sl = [] then None else Some sl)"

definition opt_build :: "byte list option \<Rightarrow> byte list" where
  "opt_build v = (case v of Some inner \<Rightarrow> inner | None \<Rightarrow> [])"

text \<open>A union lists the verifiers of its items by id.\<close>

definition union_verify :: "mol_ops \<Rightarrow> verifier list \<Rightarrow> verifier" where
  "union_verify P vs sl compatible =
     (let slice_len = length sl in
      if slice_len < NUMBER_SIZE then Some (Err (HeaderIsBroken NUMBER_SIZE slice_len))
      else
        Option.bind (number_at P sl 0) (\<lambda>item_id.
        Option.bind (sub_slice sl NUMBER_SIZE slice_len) (\<lambda>inner_slice.
          if item_id < length vs then (vs ! item_id) inner_slice compatible
          else Some (Err (UnknownItem (length vs) (of_nat item_id))))))"

text \<open>\<open>item_id\<close> and the inner slice of \<open>to_enum\<close>.\<close>

definition union_to_enum :: "mol_ops \<Rightarrow> byte list \<Rightarrow> (nat \<times> byte list) option" where
  "union_to_enum P sl =
     Option.bind (sub_slice sl NUMBER_SIZE (length sl)) (\<lambda>inner.
     map_option (\<lambda>item_id. (item_id, inner)) (number_at P sl 0))"

definition union_build :: "mol_ops \<Rightarrow> u32 \<Rightarrow> byte list \<Rightarrow> byte list" where
  "union_build P item_id inner = pack_number P item_id @ inner"

section \<open>Tables and dynamic vectors\<close>

text \<open>The first \<open>n\<close> offsets after the total size.\<close>

fun read_numbers :: "mol_ops \<Rightarrow> nat \<Rightarrow> byte list \<Rightarrow> nat list option" where
  "read_numbers P 0 bs = Some []"
| "read_numbers P (Suc n) bs =
     Option.bind (unpack_number P (take NUMBER_SIZE bs)) (\<lambda>x.
     map_option ((#) (unat x)) (read_numbers P n (drop NUMBER_SIZE bs)))"

definition decreasing_window :: "nat list \<Rightarrow> bool" where
  "decreasing_window offsets \<longleftrightarrow> list_ex (\<lambda>(a, b). b < a) (zip offsets (tl offsets))"

text \<open>Verifying consecutive windows of the offsets, one verifier per window.\<close>

fun verify_windows :: "verifier list \<Rightarrow> byte list \<Rightarrow> bool \<Rightarrow> nat list \<Rightarrow> vresult" where
  "verify_windows [] sl compatible offsets = Some (Ok ())"
| "verify_windows (v # vs) sl compatible (a # b # offsets) =
     vthen (Option.bind (sub_slice sl a b) (\<lambda>s. v s compatible)) (verify_windows vs sl compatible (b # offsets))"
| "verify_windows (v # vs) sl compatible _ = None"

definition verify_offsets :: "mol_ops \<Rightarrow> nat \<Rightarrow> nat \<Rightarrow> byte list \<Rightarrow> (nat list \<Rightarrow> vresult) \<Rightarrow> vresult" where
  "verify_offsets P n total_size sl k =
     Option.bind (sub_slice sl NUMBER_SIZE (length sl)) (\<lambda>body.
     Option.bind (read_numbers P n body) (\<lambda>offs.
       let offsets = offs @ [total_size] in
       if decreasing_window offsets then Some (Err OffsetsNotMatch) else k offsets))"

definition field_count_check :: "nat \<Rightarrow> bool \<Rightarrow> nat \<Rightarrow> vresult" where
  "field_count_check n compatible field_count =
     (if field_count < n then Some (Err (FieldCountNotMatch n field_count))
      else if \<not> compatible \<and> field_count > n then Some (Err (FieldCountNotMatch n field_count))
      else Some (Ok ()))"

text \<open>The table verifier of the newer generator (\<open>handshake_mol.rs\<close>, \<open>protocol_select_mol.rs\<close>).\<close>

definition table_verify :: "mol_ops \<Rightarrow> verifier list \<Rightarrow> verifier" where
  "table_verify P vs sl compatible =
     (let slice_len = length sl; n = length vs in
      if slice_len < NUMBER_SIZE then Some (Err (HeaderIsBroken NUMBER_SIZE slice_len))
      else Option.bind (number_at P sl 0) (\<lambda>total_size.
        if slice_len \<noteq> total_size then Some (Err (TotalSizeNotMatch total_size slice_len))
        else if slice_len = NUMBER_SIZE \<and> n = 0 then Some (Ok ())
        else if slice_len < NUMBER_SIZE * 2 then Some (Err (HeaderIsBroken (NUMBER_SIZE * 2) slice_len))
        else Option.bind (number_at P sl NUMBER_SIZE) (\<lambda>offset_first.
          if offset_first mod NUMBER_SIZE \<noteq> 0 \<or> offset_first < NUMBER_SIZE * 2 then Some (Err OffsetsNotMatch)
          else if slice_len < offset_first then Some (Err (HeaderIsBroken offset_first slice_len))
          else
            let field_count = offset_first div NUMBER_SIZE - 1 in
            vthen (field_count_check n compatible field_count)
              (verify_offsets P field_count total_size sl (verify_windows vs sl compatible)))))"

text \<open>The table verifier of the older generator (\<open>protocol_mol.rs\<close> of the three protocols).\<close>

definition table_verify_old :: "mol_ops \<Rightarrow> verifier list \<Rightarrow> verifier" where
  "table_verify_old P vs sl compatible =
     (let slice_len = length sl; n = length vs in
      if slice_len < NUMBER_SIZE then Some (Err (HeaderIsBroken NUMBER_SIZE slice_len))
      else Option.bind (number_at P sl 0) (\<lambda>total_size.
        if slice_len \<noteq> total_size then Some (Err (TotalSizeNotMatch total_size slice_len))
        else if slice_len = NUMBER_SIZE \<and> n = 0 then Some (Ok ())
        else if slice_len < NUMBER_SIZE * 2 then Some (Err (HeaderIsBroken (NUMBER_SIZE * 2) slice_len))
        else Option.bind (number_at P sl NUMBER_SIZE) (\<lambda>offset_first.
          if offset_first mod 4 \<noteq> 0 \<or> offset_first < NUMBER_SIZE * 2 then Some (Err OffsetsNotMatch)
          else
            let field_count = offset_first div 4 - 1 in
            vthen (field_count_check n compatible field_count)
              (let header_size = NUMBER_SIZE * (field_count + 1) in
               if slice_len < header_size then Some (Err (HeaderIsBroken header_size slice_len))
               else verify_offsets P field_count total_size sl (verify_windows vs sl compatible)))))"

text \<open>Dynamic vectors: the header checks of both versions agree, also in their errors.\<close>

definition dynvec_verify :: "mol_ops \<Rightarrow> verifier \<Rightarrow> verifier" where
  "dynvec_verify P v sl compatible =
     (let slice_len = length sl in
      if slice_len < NUMBER_SIZE then Some (Err (HeaderIsBroken NUMBER_SIZE slice_len))
      else Option.bind (number_at P sl 0) (\<lambda>total_size.
        if slice_len \<noteq> total_size then Some (Err (TotalSizeNotMatch total_size slice_len))
        else if slice_len = NUMBER_SIZE then Some (Ok ())
        else if slice_len < NUMBER_SIZE * 2 then Some (Err (TotalSizeNotMatch (NUMBER_SIZE * 2) slice_len))
        else Option.bind (number_at P sl NUMBER_SIZE) (\<lambda>offset_first.
          if offset_first mod 4 \<noteq> 0 \<or> offset_first < NUMBER_SIZE * 2 then Some (Err OffsetsNotMatch)
          else
            let item_count = offset_first div 4 - 1; header_size = NUMBER_SIZE * (item_count + 1) in
            if slice_len < header_size then Some (Err (HeaderIsBroken header_size slice_len))
            else verify_offsets P item_count total_size sl
                   (\<lambda>offsets. verify_windows (replicate (length offsets - 1) v) sl compatible offsets))))"

text \<open>The accessor of field \<open>i\<close> of a table with \<open>n\<close> fs.\<close>

definition field_count :: "mol_ops \<Rightarrow> byte list \<Rightarrow> nat option" where
  "field_count P sl =
     Option.bind (number_at P sl 0) (\<lambda>total_size.
       if total_size = NUMBER_SIZE then Some 0
       else map_option (\<lambda>x. x div 4 - 1) (number_at P sl NUMBER_SIZE))"

definition table_field :: "mol_ops \<Rightarrow> nat \<Rightarrow> nat \<Rightarrow> byte list \<Rightarrow> byte list option" where
  "table_field P n i sl =
     Option.bind (number_at P sl (NUMBER_SIZE * (i + 1))) (\<lambda>start.
       if i + 1 < n then
         Option.bind (number_at P sl (NUMBER_SIZE * (i + 2))) (\<lambda>fin. sub_slice sl start fin)
       else Option.bind (field_count P sl) (\<lambda>fc.
         if fc \<noteq> n then Option.bind (number_at P sl (NUMBER_SIZE * (i + 2))) (\<lambda>fin. sub_slice sl start fin)
         else sub_slice sl start (length sl)))"

text \<open>\<open>len\<close>, \<open>get_unchecked\<close> and the iterator of a dynamic vector.\<close>

definition dynvec_get :: "mol_ops \<Rightarrow> nat \<Rightarrow> byte list \<Rightarrow> byte list option" where
  "dynvec_get P idx sl =
     Option.bind (number_at P sl (NUMBER_SIZE * (1 + idx))) (\<lambda>start.
     Option.bind (field_count P sl) (\<lambda>len.
       if idx = len - 1 then sub_slice sl start (length sl)
       else Option.bind (number_at P sl (NUMBER_SIZE * (1 + idx) + NUMBER_SIZE)) (\<lambda>fin. sub_slice sl start fin)))"

fun dynvec_from :: "mol_ops \<Rightarrow> nat \<Rightarrow> nat \<Rightarrow> byte list \<Rightarrow> byte list list option" where
  "dynvec_from P idx 0 sl = Some []"
| "dynvec_from P idx (Suc n) sl =
     Option.bind (dynvec_get P idx sl) (\<lambda>x. map_option ((#) x) (dynvec_from P (Suc idx) n sl))"

definition dynvec_iter :: "mol_ops \<Rightarrow> byte list \<Rightarrow> byte list list option" where
  "dynvec_iter P sl = Option.bind (field_count P sl) (\<lambda>len. dynvec_from P 0 len sl)"

text \<open>Builders. The offsets run from the header size on; the last one is the total size.\<close>

fun running :: "nat \<Rightarrow> byte list list \<Rightarrow> nat list" where
  "running k [] = [k]"
| "running k (f # fs) = k # running (k + length f) fs"

definition table_build :: "mol_ops \<Rightarrow> byte list list \<Rightarrow> byte list" where
  "table_build P fs =
     (let offsets = running (NUMBER_SIZE * (length fs + 1)) fs in
      pack_number P (of_nat (last offsets)) @ concat (map (\<lambda>off. pack_number P (of_nat off)) (butlast offsets))
        @ concat fs)"

definition dynvec_build :: "mol_ops \<Rightarrow> byte list list \<Rightarrow> byte list" where
  "dynvec_build P items =
     (if items = [] then pack_number P (of_nat NUMBER_SIZE) else table_build P items)"

section \<open>Decoding\<close>

text \<open>
  \<open>let reader = R::from_compatible_slice(data).ok()?; ...\<close>: outside, \<open>None\<close> is a panic; inside, it is
  the \<open>None\<close> that the decoder returns. Loops that push \<open>f(x)?\<close> for every item are \<open>decode_each\<close>.
\<close>

definition decode_with :: "mol_ops \<Rightarrow> verifier \<Rightarrow> (byte list \<Rightarrow> 'a option option) \<Rightarrow> byte list \<Rightarrow> 'a option option" where
  "decode_with P v k data =
     Option.bind (from_compatible_slice P v data) (\<lambda>r. case r of Inl _ \<Rightarrow> Some None | Inr _ \<Rightarrow> k data)"

fun try_some :: "'a option option \<Rightarrow> ('a \<Rightarrow> 'b option option) \<Rightarrow> 'b option option" where
  "try_some None k = None"
| "try_some (Some None) k = Some None"
| "try_some (Some (Some x)) k = k x"

fun decode_each :: "('a \<Rightarrow> 'b option option) \<Rightarrow> 'a list \<Rightarrow> 'b list option option" where
  "decode_each f [] = Some (Some [])"
| "decode_each f (x # xs) =
     try_some (f x) (\<lambda>y. try_some (decode_each f xs) (\<lambda>ys. Some (Some (y # ys))))"

section \<open>The crate\<close>

text \<open>
  What the generated code relies on: a number takes four bytes, reading a written number gives it
  back, reading looks at the first four bytes only, and \<open>from_compatible_slice\<close> verifies in the
  mode that allows additional fields.
\<close>

locale mol_numbers =
  fixes P :: mol_ops
  assumes pack_len [simp]: "length (pack_number P x) = 4"
    and unpack_pack [simp]: "unpack_number P (pack_number P x @ r) = Some x"
    and unpack_total: "4 \<le> length bs \<Longrightarrow> unpack_number P bs \<noteq> None"
    and unpack_take: "4 \<le> length bs \<Longrightarrow> unpack_number P (take 4 bs) = unpack_number P bs"
    and from_compatible: "from_compatible_slice P v sl = v sl True"

definition le_ops :: mol_ops where
  "le_ops =
     \<lparr>pack_number = (\<lambda>x. rev (be_digits 4 (unat x))),
      unpack_number = (\<lambda>bs. if length bs < 4 then None else Some (of_nat (be_value 0 (rev (take 4 bs))))),
      from_compatible_slice = (\<lambda>v sl. v sl True)\<rparr>"

interpretation le: mol_numbers le_ops
proof
  fix x :: u32 and r bs :: "byte list"
  have "unat x < 256 ^ 4" using unat_lt [of x] by simp
  then show "unpack_number le_ops (pack_number le_ops x @ r) = Some x"
    by (simp add: le_ops_def be_value_digits)
qed (auto simp: le_ops_def)

section \<open>Verifiers that never panic\<close>

definition safe :: "verifier \<Rightarrow> bool" where
  "safe v \<longleftrightarrow> (\<forall>sl c. v sl c \<noteq> None)"

named_theorems safe_intros \<open>verifiers that never panic\<close>

lemma safeD: "safe v \<Longrightarrow> v sl c \<noteq> None"
  by (simp add: safe_def)

lemma vthen_eq_Some_Ok: "vthen m k = Some (Ok ()) \<longleftrightarrow> m = Some (Ok ()) \<and> k = Some (Ok ())"
  by (cases "(m, k)" rule: vthen.cases) auto

lemma vthen_eq_None: "vthen m k = None \<longleftrightarrow> m = None \<or> m = Some (Ok ()) \<and> k = None"
  by (cases "(m, k)" rule: vthen.cases) auto

lemma sub_slice_some [simp]: "i \<le> j \<Longrightarrow> j \<le> length bs \<Longrightarrow> sub_slice bs i j = Some (take (j - i) (drop i bs))"
  by (simp add: sub_slice_def)

lemma try_some_eq_None: "try_some m k = None \<longleftrightarrow> m = None \<or> (\<exists>x. m = Some (Some x) \<and> k x = None)"
  by (cases "(m, k)" rule: try_some.cases) auto

lemma decode_each_total: "list_all (\<lambda>x. f x \<noteq> None) xs \<Longrightarrow> decode_each f xs \<noteq> None"
  by (induction xs) (auto simp: try_some_eq_None)

lemma decode_each_map: "(\<And>x. x \<in> set xs \<Longrightarrow> f (g x) = Some (Some x)) \<Longrightarrow> decode_each f (map g xs) = Some (Some xs)"
  by (induction xs) auto

lemma decreasing_window_sorted: "decreasing_window xs \<longleftrightarrow> \<not> sorted xs"
proof (induction xs)
  case (Cons a xs)
  then show ?case
    by (cases xs) (auto simp: decreasing_window_def sorted1 sorted2 not_less simp del: sorted_wrt.simps(2))
qed (simp add: decreasing_window_def)

lemma verify_windows_safe:
  "list_all safe vs \<Longrightarrow> sorted offs \<Longrightarrow> length vs < length offs \<Longrightarrow> \<forall>x \<in> set offs. x \<le> length sl \<Longrightarrow>
     verify_windows vs sl c offs \<noteq> None"
  by (induction vs sl c offs rule: verify_windows.induct) (auto simp: vthen_eq_None dest: safeD)

lemma verify_windows_nth:
  assumes "verify_windows vs sl c offs = Some (Ok ())" "i < length vs"
  shows "Suc i < length offs \<and> (\<exists>s. sub_slice sl (offs ! i) (offs ! Suc i) = Some s \<and> (vs ! i) s c = Some (Ok ()))"
  using assms
proof (induction vs sl c offs arbitrary: i rule: verify_windows.induct)
  case (2 v vs sl c a b offs)
  then show ?case
    by (cases i) (auto simp: vthen_eq_Some_Ok bind_eq_Some_conv)
qed auto

context mol_numbers
begin

lemma number_at_drop: "i + k \<le> length bs \<Longrightarrow> number_at P (drop k bs) i = number_at P bs (k + i)"
  by (simp add: number_at_def add.commute)

lemma number_at_total: "i + 4 \<le> length bs \<Longrightarrow> \<exists>n. number_at P bs i = Some n"
  using unpack_total [of "drop i bs"] by (auto simp: number_at_def)

lemma read_numbers_total:
  "4 * n \<le> length bs \<Longrightarrow> \<exists>offs. read_numbers P n bs = Some offs \<and> length offs = n"
proof (induction n arbitrary: bs)
  case (Suc n)
  obtain x where "unpack_number P (take 4 bs) = Some x"
    using unpack_total [of "take 4 bs"] Suc.prems by fastforce
  moreover obtain offs where "read_numbers P n (drop 4 bs) = Some offs" "length offs = n"
    using Suc.IH [of "drop 4 bs"] Suc.prems by fastforce
  ultimately show ?case by (simp add: NUMBER_SIZE_def)
qed simp

lemma read_numbers_nth:
  "read_numbers P n bs = Some offs \<Longrightarrow> 4 * n \<le> length bs \<Longrightarrow> i < n \<Longrightarrow> number_at P bs (4 * i) = Some (offs ! i)"
proof (induction n arbitrary: bs offs i)
  case (Suc n)
  obtain x offs' where x: "unpack_number P (take 4 bs) = Some x"
    and r: "read_numbers P n (drop 4 bs) = Some offs'" and offs: "offs = unat x # offs'"
    using Suc.prems(1) by (auto simp: NUMBER_SIZE_def bind_eq_Some_conv)
  show ?case
  proof (cases i)
    case 0
    have "unpack_number P bs = Some x" using x unpack_take [of bs] Suc.prems(2) by simp
    then show ?thesis using offs 0 by (simp add: number_at_def)
  next
    case (Suc j)
    then have "number_at P (drop 4 bs) (4 * j) = Some (offs' ! j)"
      using Suc.IH [OF r] Suc.prems by simp
    then show ?thesis using Suc offs \<open>4 * Suc n \<le> length bs\<close> \<open>i < Suc n\<close> by (simp add: number_at_def add.commute)
  qed
qed simp

lemma safe_fixvec [safe_intros]: "safe (fixvec_verify P)"
  unfolding safe_def
proof (intro allI)
  show "fixvec_verify P sl c \<noteq> None" for sl c
    using number_at_total [of 0 sl] by (auto simp: fixvec_verify_def Let_def NUMBER_SIZE_def)
qed

lemma safe_union [safe_intros]:
  assumes "list_all safe vs"
  shows "safe (union_verify P vs)"
  unfolding safe_def
proof (intro allI)
  fix sl c
  show "union_verify P vs sl c \<noteq> None"
  proof (cases "length sl < 4")
    case False
    then obtain n where "number_at P sl 0 = Some n" using number_at_total [of 0 sl] by auto
    moreover have "safe (vs ! n)" if "n < length vs" using assms that by (simp add: list_all_length)
    ultimately show ?thesis using False by (auto simp: union_verify_def Let_def NUMBER_SIZE_def dest: safeD)
  qed (simp add: union_verify_def Let_def NUMBER_SIZE_def)
qed

end

lemma safe_array [safe_intros]: "safe (array_verify n)"
  by (simp add: safe_def array_verify_def)

lemma safe_opt [safe_intros]: "safe v \<Longrightarrow> safe (opt_verify v)"
  by (simp add: safe_def opt_verify_def)

section \<open>Tables\<close>

text \<open>What both generator versions require of the header.\<close>

definition table_header :: "mol_ops \<Rightarrow> nat \<Rightarrow> bool \<Rightarrow> byte list \<Rightarrow> nat \<Rightarrow> nat list \<Rightarrow> bool" where
  "table_header P n compatible sl fc offs \<longleftrightarrow>
     1 \<le> fc \<and> n \<le> fc \<and> (compatible \<or> fc = n) \<and> 4 * (fc + 1) \<le> length sl
     \<and> number_at P sl 0 = Some (length sl) \<and> number_at P sl 4 = Some (4 * (fc + 1))
     \<and> read_numbers P fc (drop 4 sl) = Some offs \<and> length offs = fc \<and> sorted (offs @ [length sl])"

lemma offset_first_cases:
  "\<not> (off mod 4 \<noteq> 0 \<or> off < 8) \<longleftrightarrow> (\<exists>fc. off = 4 * (fc + 1) \<and> 1 \<le> fc)" for off :: nat
proof
  assume "\<not> (off mod 4 \<noteq> 0 \<or> off < 8)"
  then show "\<exists>fc. off = 4 * (fc + 1) \<and> 1 \<le> fc"
    by (intro exI [of _ "off div 4 - 1"]) presburger
qed presburger

lemma field_count_check_Ok:
  "field_count_check n c fc = Some (Ok ()) \<longleftrightarrow> n \<le> fc \<and> (c \<or> fc = n)"
  by (auto simp: field_count_check_def)

lemma field_count_check_ne [simp]: "field_count_check n c fc \<noteq> None"
  by (auto simp: field_count_check_def)

context mol_numbers
begin

lemma verify_offsets_eq:
  assumes "4 * (fc + 1) \<le> length sl" "tot = length sl"
  shows "\<exists>offs. read_numbers P fc (drop 4 sl) = Some offs \<and> length offs = fc \<and>
    verify_offsets P fc tot sl k =
      (if sorted (offs @ [length sl]) then k (offs @ [length sl]) else Some (Err OffsetsNotMatch))"
proof -
  have "4 * fc \<le> length (drop 4 sl)" using assms by simp
  then obtain offs where "read_numbers P fc (drop 4 sl) = Some offs" "length offs = fc"
    using read_numbers_total by blast
  then show ?thesis using assms
    by (auto simp: verify_offsets_def NUMBER_SIZE_def decreasing_window_sorted)
qed

lemma table_unfold:
  assumes "8 \<le> length sl" "number_at P sl 0 = Some (length sl)" "number_at P sl 4 = Some (4 * (fc + 1))" "1 \<le> fc"
  shows "table_verify P vs sl c =
      (if length sl < 4 * (fc + 1) then Some (Err (HeaderIsBroken (4 * (fc + 1)) (length sl)))
       else vthen (field_count_check (length vs) c fc)
              (verify_offsets P fc (length sl) sl (verify_windows vs sl c)))"
    and "table_verify_old P vs sl c =
      vthen (field_count_check (length vs) c fc)
        (if length sl < 4 * (fc + 1) then Some (Err (HeaderIsBroken (4 * (fc + 1)) (length sl)))
         else verify_offsets P fc (length sl) sl (verify_windows vs sl c))"
proof -
  have "4 * (fc + 1) mod 4 = 0" "\<not> 4 * (fc + 1) < 8" "4 * (fc + 1) div 4 - 1 = fc" using assms(4) by simp_all
  with assms show "table_verify P vs sl c =
      (if length sl < 4 * (fc + 1) then Some (Err (HeaderIsBroken (4 * (fc + 1)) (length sl)))
       else vthen (field_count_check (length vs) c fc)
              (verify_offsets P fc (length sl) sl (verify_windows vs sl c)))"
    and "table_verify_old P vs sl c =
      vthen (field_count_check (length vs) c fc)
        (if length sl < 4 * (fc + 1) then Some (Err (HeaderIsBroken (4 * (fc + 1)) (length sl)))
         else verify_offsets P fc (length sl) sl (verify_windows vs sl c))"
    by (simp_all add: table_verify_def table_verify_old_def Let_def NUMBER_SIZE_def)
qed

lemma table_header_ok:
  assumes "table_header P (length vs) c sl fc offs"
  shows "table_verify P vs sl c = verify_windows vs sl c (offs @ [length sl])"
    and "table_verify_old P vs sl c = verify_windows vs sl c (offs @ [length sl])"
proof -
  note H = assms [unfolded table_header_def]
  have "field_count_check (length vs) c fc = Some (Ok ())" using H by (simp add: field_count_check_Ok)
  moreover have "verify_offsets P fc (length sl) sl k = k (offs @ [length sl])" for k
    using H verify_offsets_eq [of fc sl "length sl" k] by auto
  ultimately show "table_verify P vs sl c = verify_windows vs sl c (offs @ [length sl])"
    "table_verify_old P vs sl c = verify_windows vs sl c (offs @ [length sl])"
    using H table_unfold [of sl fc vs c] by simp_all
qed

lemma table_bad_offsets:
  assumes "8 \<le> length sl" "number_at P sl 0 = Some (length sl)" "number_at P sl 4 = Some (4 * (fc + 1))" "1 \<le> fc"
    and no: "\<nexists>offs. table_header P (length vs) c sl fc offs"
  shows "\<exists>e e'. table_verify P vs sl c = Some (Err e) \<and> table_verify_old P vs sl c = Some (Err e')"
proof (cases "length vs \<le> fc \<and> (c \<or> fc = length vs) \<and> 4 * (fc + 1) \<le> length sl")
  case True
  then obtain offs where "read_numbers P fc (drop 4 sl) = Some offs" "length offs = fc"
    and eq: "verify_offsets P fc (length sl) sl (verify_windows vs sl c) =
      (if sorted (offs @ [length sl]) then verify_windows vs sl c (offs @ [length sl]) else Some (Err OffsetsNotMatch))"
    using verify_offsets_eq by blast
  with no True assms have "\<not> sorted (offs @ [length sl])" by (auto simp: table_header_def)
  with eq True table_unfold [OF assms(1-4), of vs c] show ?thesis
    using field_count_check_Ok [of "length vs" c fc] by auto
next
  case False
  with table_unfold [OF assms(1-4), of vs c] show ?thesis by (auto simp: field_count_check_def)
qed

lemma table_no_header:
  assumes no: "\<nexists>fc offs. table_header P (length vs) c sl fc offs" and ne: "\<not> (vs = [] \<and> length sl = 4)"
  shows "\<exists>e e'. table_verify P vs sl c = Some (Err e) \<and> table_verify_old P vs sl c = Some (Err e')"
proof (cases "8 \<le> length sl \<and> number_at P sl 0 = Some (length sl)")
  case False
  obtain n where n: "4 \<le> length sl \<longrightarrow> number_at P sl 0 = Some n" using number_at_total [of 0 sl] by auto
  show ?thesis
    using False n ne by (auto simp: table_verify_def table_verify_old_def Let_def NUMBER_SIZE_def not_less)
next
  case True
  then obtain off where n4: "number_at P sl 4 = Some off" using number_at_total [of 4 sl] by auto
  show ?thesis
  proof (cases "off mod 4 \<noteq> 0 \<or> off < 8")
    case bad: True
    with True n4 show ?thesis
      by (auto simp: table_verify_def table_verify_old_def Let_def NUMBER_SIZE_def)
  next
    case False
    then obtain fc where "off = 4 * (fc + 1)" "1 \<le> fc" using offset_first_cases by blast
    with True n4 no table_bad_offsets show ?thesis by blast
  qed
qed

lemma table_header_fields:
  assumes H: "table_header P (length vs) c sl fc offs" and i: "i < length vs"
    and win: "verify_windows vs sl c (offs @ [length sl]) = Some (Ok ())"
  shows "\<exists>s. table_field P (length vs) i sl = Some s \<and> (vs ! i) s c = Some (Ok ())"
proof -
  note h = H [unfolded table_header_def]
  have at: "number_at P sl (4 * (j + 1)) = Some (offs ! j)" if "j < fc" for j
  proof -
    have "number_at P (drop 4 sl) (4 * j) = Some (offs ! j)" using read_numbers_nth h that by auto
    moreover have "4 * j + 4 \<le> length sl" using h that by simp
    ultimately show ?thesis using number_at_drop [of "4 * j" 4 sl] by simp
  qed
  obtain s where s: "sub_slice sl ((offs @ [length sl]) ! i) ((offs @ [length sl]) ! Suc i) = Some s"
    "(vs ! i) s c = Some (Ok ())" using verify_windows_nth [OF win i] by blast
  have fc: "field_count P sl = Some fc" using h by (simp add: field_count_def NUMBER_SIZE_def)
  have "i < fc" using h i by simp
  then have start: "number_at P sl (4 * (i + 1)) = Some ((offs @ [length sl]) ! i)"
    using at h by (simp add: nth_append)
  have fin: "number_at P sl (4 * (i + 2)) = Some ((offs @ [length sl]) ! Suc i)" if "Suc i < fc"
    using at [of "Suc i"] that h by (simp add: nth_append)
  have "table_field P (length vs) i sl = Some s"
  proof (cases "Suc i < fc")
    case True
    then show ?thesis using start fin s(1) fc i h by (simp add: table_field_def NUMBER_SIZE_def)
  next
    case False
    then have "fc = length vs" "fc = Suc i" using h i by auto
    then show ?thesis using start s(1) fc h by (simp add: table_field_def NUMBER_SIZE_def nth_append)
  qed
  with s(2) show ?thesis by blast
qed

text \<open>The contract of a table: both verifiers accept the same slices, and then the accessors are in range.\<close>

lemma table_verify_versions: "table_verify P vs sl c = Some (Ok ()) \<longleftrightarrow> table_verify_old P vs sl c = Some (Ok ())"
proof (cases "\<exists>fc offs. table_header P (length vs) c sl fc offs")
  case True
  then show ?thesis using table_header_ok by auto
next
  case False
  have "table_verify P [] sl c = table_verify_old P [] sl c" if "length sl = 4"
    using that number_at_total [of 0 sl] by (auto simp: table_verify_def table_verify_old_def Let_def NUMBER_SIZE_def)
  with False table_no_header [of vs c sl] show ?thesis by (cases "vs = [] \<and> length sl = 4") auto
qed

lemma table_fields:
  assumes "table_verify P vs sl c = Some (Ok ())" "i < length vs"
  shows "\<exists>s. table_field P (length vs) i sl = Some s \<and> (vs ! i) s c = Some (Ok ())"
proof (cases "\<exists>fc offs. table_header P (length vs) c sl fc offs")
  case True
  then show ?thesis using table_header_ok table_header_fields assms by metis
next
  case False
  with table_no_header [of vs c sl] assms show ?thesis by (cases vs) auto
qed

lemma safe_tables:
  assumes "list_all safe vs"
  shows "table_verify P vs sl c \<noteq> None" "table_verify_old P vs sl c \<noteq> None"
proof -
  have "table_verify P vs sl c \<noteq> None \<and> table_verify_old P vs sl c \<noteq> None"
  proof (cases "\<exists>fc offs. table_header P (length vs) c sl fc offs")
    case True
    then obtain fc offs where H: "table_header P (length vs) c sl fc offs" by blast
    then have "verify_windows vs sl c (offs @ [length sl]) \<noteq> None"
      using assms by (intro verify_windows_safe) (auto simp: table_header_def sorted_append)
    with table_header_ok [OF H] show ?thesis by simp
  next
    case False
    have "table_verify P [] sl c \<noteq> None" "table_verify_old P [] sl c \<noteq> None" if "length sl = 4"
      using that number_at_total [of 0 sl]
      by (auto simp: table_verify_def table_verify_old_def Let_def NUMBER_SIZE_def)
    with False table_no_header [of vs c sl] show ?thesis by (cases "vs = [] \<and> length sl = 4") auto
  qed
  then show "table_verify P vs sl c \<noteq> None" "table_verify_old P vs sl c \<noteq> None" by auto
qed

lemma safe_table [safe_intros]: "list_all safe vs \<Longrightarrow> safe (table_verify P vs)"
  and safe_table_old [safe_intros]: "list_all safe vs \<Longrightarrow> safe (table_verify_old P vs)"
  using safe_tables by (simp_all add: safe_def)

end

section \<open>Dynamic vectors\<close>

text \<open>A non-empty dynamic vector has the header of a table with at least one field.\<close>

context mol_numbers
begin

lemma dynvec_header_ok:
  assumes "table_header P 1 True sl fc offs"
  shows "dynvec_verify P v sl c = verify_windows (replicate fc v) sl c (offs @ [length sl])"
proof -
  note H = assms [unfolded table_header_def]
  have "4 * (fc + 1) mod 4 = 0" "\<not> 4 * (fc + 1) < 8" "4 * (fc + 1) div 4 - 1 = fc" using H by simp_all
  moreover have "verify_offsets P fc (length sl) sl k = k (offs @ [length sl])" for k
    using H verify_offsets_eq [of fc sl "length sl" k] by auto
  ultimately show ?thesis using H by (simp add: dynvec_verify_def Let_def NUMBER_SIZE_def)
qed

lemma dynvec_no_header:
  assumes no: "\<nexists>fc offs. table_header P 1 True sl fc offs"
    and ne: "\<not> (length sl = 4 \<and> number_at P sl 0 = Some 4)"
  shows "\<exists>e. dynvec_verify P v sl c = Some (Err e)"
proof (cases "8 \<le> length sl \<and> number_at P sl 0 = Some (length sl)")
  case False
  obtain n where n: "4 \<le> length sl \<longrightarrow> number_at P sl 0 = Some n" using number_at_total [of 0 sl] by auto
  show ?thesis
    using False n ne by (auto simp: dynvec_verify_def Let_def NUMBER_SIZE_def not_less)
next
  case True
  then obtain off where n4: "number_at P sl 4 = Some off" using number_at_total [of 4 sl] by auto
  show ?thesis
  proof (cases "(off mod 4 \<noteq> 0 \<or> off < 8) \<or> length sl < off")
    case bad: True
    have "4 * (off div 4 - 1 + 1) = off" if "\<not> (off mod 4 \<noteq> 0 \<or> off < 8)" using that by presburger
    with bad True n4 show ?thesis by (auto simp: dynvec_verify_def Let_def NUMBER_SIZE_def)
  next
    case False
    then obtain fc where fc: "off = 4 * (fc + 1)" "1 \<le> fc" using offset_first_cases by blast
    then have le: "4 * (fc + 1) \<le> length sl" using False by simp
    obtain offs where offs: "read_numbers P fc (drop 4 sl) = Some offs" "length offs = fc"
      using verify_offsets_eq [OF le refl] by blast
    have eq: "verify_offsets P fc (length sl) sl k =
        (if sorted (offs @ [length sl]) then k (offs @ [length sl]) else Some (Err OffsetsNotMatch))" for k
      using verify_offsets_eq [OF le refl, of k] offs by auto
    have "table_header P 1 True sl fc offs \<longleftrightarrow> sorted (offs @ [length sl])"
      unfolding table_header_def using offs fc True n4 le by simp
    with no have "\<not> sorted (offs @ [length sl])" by blast
    then have "verify_offsets P fc (length sl) sl k = Some (Err OffsetsNotMatch)" for k using eq by simp
    moreover have "4 * (fc + 1) mod 4 = 0" "\<not> 4 * (fc + 1) < 8" "4 * (fc + 1) div 4 - 1 = fc" using fc by simp_all
    ultimately show ?thesis using True n4 fc le by (simp add: dynvec_verify_def Let_def NUMBER_SIZE_def)
  qed
qed

lemma dynvec_empty: "length sl = 4 \<Longrightarrow> number_at P sl 0 = Some 4 \<Longrightarrow> dynvec_verify P v sl c = Some (Ok ())"
  by (simp add: dynvec_verify_def Let_def NUMBER_SIZE_def)

lemma safe_dynvec [safe_intros]:
  assumes "safe v"
  shows "safe (dynvec_verify P v)"
  unfolding safe_def
proof (intro allI)
  fix sl c
  show "dynvec_verify P v sl c \<noteq> None"
  proof (cases "\<exists>fc offs. table_header P 1 True sl fc offs")
    case True
    then obtain fc offs where H: "table_header P 1 True sl fc offs" by blast
    then have "verify_windows (replicate fc v) sl c (offs @ [length sl]) \<noteq> None"
      using assms by (intro verify_windows_safe) (auto simp: table_header_def sorted_append list_all_iff)
    with dynvec_header_ok [OF H] show ?thesis by simp
  next
    case False
    with dynvec_no_header [of sl v c] dynvec_empty show ?thesis by fastforce
  qed
qed

lemma dynvec_get_window:
  assumes H: "table_header P 1 True sl fc offs" and i: "i < fc"
  shows "dynvec_get P i sl = sub_slice sl ((offs @ [length sl]) ! i) ((offs @ [length sl]) ! Suc i)"
proof -
  note h = H [unfolded table_header_def]
  have at: "number_at P sl (4 * (1 + j)) = Some (offs ! j)" if "j < fc" for j
    using read_numbers_nth [of fc "drop 4 sl" offs j] number_at_drop [of "4 * j" 4 sl] h that by auto
  have fc: "field_count P sl = Some fc" using h by (simp add: field_count_def NUMBER_SIZE_def)
  show ?thesis
  proof (cases "Suc i < fc")
    case True
    then have "number_at P sl (4 * (1 + i) + 4) = Some (offs ! Suc i)" using at [of "Suc i"] by (simp add: add.commute)
    with True show ?thesis
      using at [OF i] fc h i by (simp add: dynvec_get_def NUMBER_SIZE_def nth_append)
  next
    case False
    with i have "fc = Suc i" by simp
    then show ?thesis using at [OF i] fc h by (simp add: dynvec_get_def NUMBER_SIZE_def nth_append)
  qed
qed

lemma dynvec_from_windows:
  assumes H: "table_header P 1 True sl fc offs"
    and win: "\<And>i. i < fc \<Longrightarrow> \<exists>s. sub_slice sl ((offs @ [length sl]) ! i) ((offs @ [length sl]) ! Suc i) = Some s \<and> Q i s"
  shows "i + k \<le> fc \<Longrightarrow> \<exists>xs. dynvec_from P i k sl = Some xs \<and> length xs = k \<and> (\<forall>j < k. Q (i + j) (xs ! j))"
proof (induction k arbitrary: i)
  case (Suc k)
  obtain s where s: "dynvec_get P i sl = Some s" "Q i s"
    using win [of i] dynvec_get_window [OF H, of i] Suc.prems by auto
  obtain xs where xs: "dynvec_from P (Suc i) k sl = Some xs" "length xs = k" "\<forall>j < k. Q (Suc i + j) (xs ! j)"
    using Suc.IH [of "Suc i"] Suc.prems by auto
  have "Q (i + j) ((s # xs) ! j)" if "j < Suc k" for j
    using that s(2) xs(3) by (cases j) auto
  with s(1) xs show ?case by auto
qed simp

lemma dynvec_items:
  assumes "dynvec_verify P v sl c = Some (Ok ())"
  shows "\<exists>xs. dynvec_iter P sl = Some xs \<and> list_all (\<lambda>s. v s c = Some (Ok ())) xs"
proof (cases "\<exists>fc offs. table_header P 1 True sl fc offs")
  case True
  then obtain fc offs where H: "table_header P 1 True sl fc offs" by blast
  note win = verify_windows_nth [OF assms [unfolded dynvec_header_ok [OF H]]]
  have "\<exists>xs. dynvec_from P 0 fc sl = Some xs \<and> length xs = fc \<and> (\<forall>j < fc. v (xs ! j) c = Some (Ok ()))"
    using dynvec_from_windows [OF H, of "\<lambda>i s. v s c = Some (Ok ())" 0 fc] win by auto
  moreover have "field_count P sl = Some fc" using H by (simp add: table_header_def field_count_def NUMBER_SIZE_def)
  ultimately show ?thesis by (auto simp: dynvec_iter_def list_all_length)
next
  case False
  then have "length sl = 4" "number_at P sl 0 = Some 4" using dynvec_no_header [of sl v c] assms by auto
  then show ?thesis by (simp add: dynvec_iter_def field_count_def NUMBER_SIZE_def)
qed

text \<open>A decoder never panics when its verifier does not, and what follows holds on accepted slices.\<close>

lemma decode_with_total:
  "safe v \<Longrightarrow> (v data True = Some (Ok ()) \<Longrightarrow> k data \<noteq> None) \<Longrightarrow> decode_with P v k data \<noteq> None"
  using safeD [of v data True]
  by (auto simp: decode_with_def from_compatible split: sum.splits)

lemma decode_with_Ok: "v data True = Some (Ok ()) \<Longrightarrow> decode_with P v k data = k data"
  by (simp add: decode_with_def from_compatible)

end

end
