(* ===== verification/Molecule_Build.thy ===== *)
theory Molecule_Build
  imports Molecule
begin

text \<open>
  The builders of the generated code against its readers: what a builder writes is accepted by
  the verifier, and the accessors return the parts that were written, as long as the whole slice
  fits the 32-bit sizes of the format.
\<close>

section \<open>What builders write, readers accept\<close>

lemma running_nonempty [simp]: "running k fs \<noteq> []"
  by (cases fs) simp_all

lemma length_running: "length (running k fs) = Suc (length fs)"
  by (induction fs arbitrary: k) simp_all

lemma last_running: "last (running k fs) = k + length (concat fs)"
  by (induction fs arbitrary: k) simp_all

lemma running_between: "x \<in> set (running k fs) \<Longrightarrow> k \<le> x \<and> x \<le> k + length (concat fs)"
proof (induction fs arbitrary: k)
  case (Cons f fs)
  show ?case
  proof (cases "x = k")
    case False
    with Cons.prems have "x \<in> set (running (k + length f) fs)" by simp
    from Cons.IH [OF this] show ?thesis by simp
  qed simp
qed simp

lemma sorted_running: "sorted (running k fs)"
proof (induction fs arbitrary: k)
  case (Cons f fs)
  then show ?case by (auto dest: running_between)
qed simp

lemma running_split: "butlast (running k fs) @ [k + length (concat fs)] = running k fs"
  using last_running [of k fs] running_nonempty append_butlast_last_id by metis

lemma verify_windows_build:
  "list_all2 (\<lambda>v f. v f c = Some (Ok ())) vs fs \<Longrightarrow>
     verify_windows vs (pre @ concat fs) c (running (length pre) fs) = Some (Ok ())"
proof (induction arbitrary: pre rule: list_all2_induct)
  case (Cons v vs f fs)
  from Cons.IH [of "pre @ f"] Cons.hyps(1) show ?case
    by (cases fs) (auto simp: vthen_eq_Some_Ok)
qed simp

context mol_numbers
begin

lemma read_numbers_build:
  "list_all (\<lambda>x. x < 2 ^ 32) xs \<Longrightarrow>
     read_numbers P (length xs) (concat (map (\<lambda>off. pack_number P (of_nat off)) xs) @ r) = Some xs"
proof (induction xs)
  case (Cons x xs)
  have "unpack_number P (pack_number P (of_nat x)) = Some (of_nat x)" using unpack_pack [of _ "[]"] by simp
  with Cons show ?case by (simp add: NUMBER_SIZE_def unat_of_nat)
qed simp

lemma length_table_build:
  "length (table_build P fs) = 4 * (length fs + 1) + length (concat fs)"
proof -
  have "length (concat (map (\<lambda>off. pack_number P (of_nat off)) xs)) = 4 * length xs" for xs :: "nat list"
    by (induction xs) simp_all
  then show ?thesis using length_running [of _ fs] by (simp add: table_build_def Let_def del: length_concat)
qed

text \<open>The bytes of a table: total size, offsets, fields.\<close>

lemma table_build_bytes:
  "table_build P fs = pack_number P (of_nat (length (table_build P fs)))
     @ concat (map (\<lambda>off. pack_number P (of_nat off)) (butlast (running (4 * (length fs + 1)) fs))) @ concat fs"
  unfolding length_table_build by (simp add: table_build_def Let_def NUMBER_SIZE_def last_running del: length_concat)

lemma table_build_prefix: "\<exists>pre. length pre = 4 * (length fs + 1) \<and> table_build P fs = pre @ concat fs"
proof -
  obtain pre where pre: "table_build P fs = pre @ concat fs"
    using table_build_bytes [of fs] append_assoc by metis
  then have "length (table_build P fs) = length pre + length (concat fs)" by (metis length_append)
  with pre show ?thesis unfolding length_table_build by auto
qed

lemma table_build_total:
  "length (table_build P fs) < 2 ^ 32 \<Longrightarrow> number_at P (table_build P fs) 0 = Some (length (table_build P fs))"
  by (subst table_build_bytes) (simp add: number_at_def unat_of_nat del: length_concat)

lemma table_build_offsets:
  assumes "length (table_build P fs) < 2 ^ 32"
  shows "read_numbers P (length fs) (drop 4 (table_build P fs)) = Some (butlast (running (4 * (length fs + 1)) fs))"
    (is "_ = Some ?offs")
proof -
  have "x < 2 ^ 32" if "x \<in> set ?offs" for x
    using running_between [OF in_set_butlastD [OF that]] assms unfolding length_table_build by linarith
  then have "list_all (\<lambda>x. x < 2 ^ 32) ?offs" by (simp add: list_all_iff)
  from read_numbers_build [OF this, of "concat fs"] show ?thesis
    by (subst table_build_bytes) (simp add: length_running del: length_concat)
qed

lemma table_build_header:
  assumes "length (table_build P fs) < 2 ^ 32" "fs \<noteq> []"
  shows "table_header P (length fs) c (table_build P fs) (length fs) (butlast (running (4 * (length fs + 1)) fs))"
    (is "table_header P _ _ ?sl _ ?offs")
proof -
  let ?k = "4 * (length fs + 1)"
  note L = length_table_build [of fs]
  have lo: "length ?offs = length fs" by (simp add: length_running)
  have "number_at P ?sl 4 = Some ?k"
  proof -
    have "?offs ! 0 = ?k" using assms(2) by (cases fs) simp_all
    moreover have "number_at P (drop 4 ?sl) (4 * 0) = Some (?offs ! 0)"
      using read_numbers_nth [OF table_build_offsets [OF assms(1)], of 0] assms(2) L by simp
    ultimately show ?thesis using number_at_drop [of 0 4 ?sl] L by simp
  qed
  moreover have "sorted (?offs @ [length ?sl])" unfolding L running_split by (rule sorted_running)
  moreover have "1 \<le> length fs" using assms(2) by (cases fs) simp_all
  moreover have "?k \<le> length ?sl" unfolding L by simp
  ultimately show ?thesis
    unfolding table_header_def using le_refl [of "length fs"] table_build_total [OF assms(1)] table_build_offsets [OF assms(1)] lo by blast
qed

lemma table_build_windows:
  assumes "list_all2 (\<lambda>v f. v f c = Some (Ok ())) vs fs"
  shows "verify_windows vs (table_build P fs) c (butlast (running (4 * (length fs + 1)) fs) @ [length (table_build P fs)])
    = Some (Ok ())"
proof -
  obtain pre where "length pre = 4 * (length fs + 1)" "table_build P fs = pre @ concat fs"
    using table_build_prefix by blast
  with verify_windows_build [OF assms, of pre] show ?thesis unfolding length_table_build running_split by simp
qed

text \<open>Writing then verifying, and writing then reading a field.\<close>

lemma table_build_verify:
  assumes "list_all2 (\<lambda>v f. v f c = Some (Ok ())) vs fs" "length (table_build P fs) < 2 ^ 32" "fs \<noteq> []"
  shows "table_verify P vs (table_build P fs) c = Some (Ok ())"
  using table_header_ok table_build_header [OF assms(2,3), of c] table_build_windows [OF assms(1)]
    list_all2_lengthD [OF assms(1)] by metis

lemma table_build_verify_old:
  assumes "list_all2 (\<lambda>v f. v f c = Some (Ok ())) vs fs" "length (table_build P fs) < 2 ^ 32" "fs \<noteq> []"
  shows "table_verify_old P vs (table_build P fs) c = Some (Ok ())"
  using table_build_verify [OF assms] table_verify_versions by blast

lemma table_build_field:
  assumes "length (table_build P fs) < 2 ^ 32" "i < length fs"
  shows "table_field P (length fs) i (table_build P fs) = Some (fs ! i)"
proof -
  define only :: "byte list \<Rightarrow> verifier" where "only f s c = Some (if s = f then Ok () else Err OffsetsNotMatch)" for f s c
  have ok: "only f s c = Some (Ok ()) \<longleftrightarrow> s = f" for f s c by (simp add: only_def)
  have "list_all2 (\<lambda>v f. v f True = Some (Ok ())) (map only fs) fs" by (simp add: list_all2_conv_all_nth ok)
  moreover have "fs \<noteq> []" using assms(2) by auto
  ultimately have "table_verify P (map only fs) (table_build P fs) True = Some (Ok ())"
    using table_build_verify assms(1) by blast
  from table_fields [OF this, of i] assms(2) show ?thesis by (auto simp: ok)
qed

lemma dynvec_build_verify:
  assumes "list_all (\<lambda>f. v f c = Some (Ok ())) fs" "length (dynvec_build P fs) < 2 ^ 32"
  shows "dynvec_verify P v (dynvec_build P fs) c = Some (Ok ())"
proof (cases "fs = []")
  case True
  then show ?thesis using unpack_pack [of 4 "[]"]
    by (intro dynvec_empty) (simp_all add: dynvec_build_def NUMBER_SIZE_def number_at_def)
next
  case False
  then have H: "table_header P 1 True (table_build P fs) (length fs) (butlast (running (4 * (length fs + 1)) fs))"
    using table_build_header [of fs True] assms(2) by (cases fs) (auto simp: dynvec_build_def table_header_def)
  have "list_all2 (\<lambda>v f. v f c = Some (Ok ())) (replicate (length fs) v) fs"
    using assms(1) by (simp add: list_all2_conv_all_nth list_all_length)
  from table_build_windows [OF this] show ?thesis
    using dynvec_header_ok [OF H, of v c] False by (simp add: dynvec_build_def)
qed

lemma dynvec_build_iter:
  assumes "length (dynvec_build P fs) < 2 ^ 32"
  shows "dynvec_iter P (dynvec_build P fs) = Some fs"
proof (cases "fs = []")
  case True
  then show ?thesis using unpack_pack [of 4 "[]"]
    by (simp add: dynvec_build_def NUMBER_SIZE_def number_at_def dynvec_iter_def field_count_def)
next
  case False
  define only :: "byte list \<Rightarrow> verifier" where "only f s c = Some (if s = f then Ok () else Err OffsetsNotMatch)" for f s c
  have ok: "only f s c = Some (Ok ()) \<longleftrightarrow> s = f" for f s c by (simp add: only_def)
  let ?sl = "table_build P fs" and ?offs = "butlast (running (4 * (length fs + 1)) fs)"
  have H: "table_header P 1 True ?sl (length fs) ?offs"
    using table_build_header [of fs True] assms False by (cases fs) (auto simp: dynvec_build_def table_header_def)
  have "list_all2 (\<lambda>v f. v f True = Some (Ok ())) (map only fs) fs" by (simp add: list_all2_conv_all_nth ok)
  note win = verify_windows_nth [OF table_build_windows [OF this]]
  have "\<exists>xs. dynvec_from P 0 (length fs) ?sl = Some xs \<and> length xs = length fs \<and> (\<forall>j < length fs. xs ! j = fs ! j)"
    using dynvec_from_windows [OF H, of "\<lambda>i s. s = fs ! i" 0 "length fs"] win by (simp add: ok)
  then have "dynvec_from P 0 (length fs) ?sl = Some fs" by (metis nth_equalityI)
  moreover have "field_count P ?sl = Some (length fs)" using H by (simp add: table_header_def field_count_def NUMBER_SIZE_def)
  ultimately show ?thesis using False by (simp add: dynvec_iter_def dynvec_build_def)
qed

lemma fixvec_build_verify: "length bs < 2 ^ 32 \<Longrightarrow> fixvec_verify P (fixvec_build P bs) c = Some (Ok ())"
  using unpack_pack [of "of_nat (length bs)" bs]
  by (simp add: fixvec_verify_def fixvec_build_def Let_def NUMBER_SIZE_def number_at_def unat_of_nat)

lemma fixvec_build_raw: "fixvec_raw_data (fixvec_build P bs) = Some bs"
  by (simp add: fixvec_raw_data_def fixvec_build_def NUMBER_SIZE_def)

lemma union_build_verify:
  "unat i < length vs \<Longrightarrow> union_verify P vs (union_build P i inner) c = (vs ! unat i) inner c"
  using unpack_pack [of i inner]
  by (simp add: union_verify_def union_build_def Let_def NUMBER_SIZE_def number_at_def)

lemma union_build_enum: "union_to_enum P (union_build P i inner) = Some (unat i, inner)"
  using unpack_pack [of i inner]
  by (simp add: union_to_enum_def union_build_def NUMBER_SIZE_def number_at_def)

lemma fixvec_data:
  assumes "fixvec_verify P sl c = Some (Ok ())"
  shows "\<exists>bs. fixvec_raw_data sl = Some bs"
  using assms by (auto simp: fixvec_verify_def Let_def NUMBER_SIZE_def fixvec_raw_data_def split: if_splits)

lemma union_enum:
  assumes "union_verify P vs sl c = Some (Ok ())"
  shows "\<exists>i inner. union_to_enum P sl = Some (i, inner) \<and> i < length vs \<and> (vs ! i) inner c = Some (Ok ())"
  using assms by (auto simp: union_verify_def union_to_enum_def Let_def NUMBER_SIZE_def bind_eq_Some_conv split: if_splits)

text \<open>The same with the number of fields written as in the accessors.\<close>

lemma table_build_nth:
  "length fs = n \<Longrightarrow> length (table_build P fs) < 2 ^ 32 \<Longrightarrow> i < n \<Longrightarrow> table_field P n i (table_build P fs) = Some (fs ! i)"
  using table_build_field by blast

lemma length_part: "f \<in> set fs \<Longrightarrow> length f \<le> length (table_build P fs)"
  using member_le_sum_list [of "length f" "map length fs"] by (simp add: length_table_build length_concat)

lemma length_item: "f \<in> set fs \<Longrightarrow> length f \<le> length (dynvec_build P fs)"
  using length_part [of f fs] by (auto simp: dynvec_build_def)

lemma length_fixvec_build [simp]: "length (fixvec_build P bs) = 4 + length bs"
  by (simp add: fixvec_build_def)

lemma length_union_build [simp]: "length (union_build P i inner) = 4 + length inner"
  by (simp add: union_build_def)

lemma table_part:
  "table_verify P vs sl c = Some (Ok ()) \<Longrightarrow> length vs = n \<Longrightarrow> i < n \<Longrightarrow>
     \<exists>s. table_field P n i sl = Some s \<and> (vs ! i) s c = Some (Ok ())"
  using table_fields by blast

lemma table_part_old:
  "table_verify_old P vs sl c = Some (Ok ()) \<Longrightarrow> length vs = n \<Longrightarrow> i < n \<Longrightarrow>
     \<exists>s. table_field P n i sl = Some s \<and> (vs ! i) s c = Some (Ok ())"
  using table_fields table_verify_versions by blast

text \<open>Tables of one field.\<close>

lemma single_verify:
  "v f True = Some (Ok ()) \<Longrightarrow> length (table_build P [f]) < 2 ^ 32 \<Longrightarrow> table_verify_old P [v] (table_build P [f]) True = Some (Ok ())"
  using table_build_verify_old [of True "[v]" "[f]"] by simp

lemma single_field: "length (table_build P [f]) < 2 ^ 32 \<Longrightarrow> table_field P 1 0 (table_build P [f]) = Some f"
  using table_build_nth [of "[f]" 1 0] by simp

end

end
