(* ===== verification/Protocol_Select.thy ===== *)
theory Protocol_Select
  imports Std_Text Molecule_Build "HOL-Library.List_Lexorder"
begin

text \<open>
  Opening a protocol on a substream (\<open>protocol_select/mod.rs\<close>): the client proposes a name and the
  versions it supports, the server answers with the version it picked. The generated readers and
  builders are those of \<open>protocol_select_mol.rs\<close>. Strings are ordered as Rust orders them,
  lexicographically by bytes.
\<close>

section \<open>Generated types\<close>

definition select_String_verify :: "mol_ops \<Rightarrow> verifier" where
  "select_String_verify P = fixvec_verify P"

definition select_String_raw_data :: "byte list \<Rightarrow> byte list option" where
  "select_String_raw_data = fixvec_raw_data"

definition select_String_build :: "mol_ops \<Rightarrow> byte list \<Rightarrow> byte list" where
  "select_String_build P = fixvec_build P"

definition StringVec_verify :: "mol_ops \<Rightarrow> verifier" where
  "StringVec_verify P = dynvec_verify P (select_String_verify P)"

definition StringVec_get_unchecked :: "mol_ops \<Rightarrow> nat \<Rightarrow> byte list \<Rightarrow> byte list option" where
  "StringVec_get_unchecked P = dynvec_get P"

definition StringVec_iter :: "mol_ops \<Rightarrow> byte list \<Rightarrow> byte list list option" where
  "StringVec_iter P = dynvec_iter P"

definition StringVec_build :: "mol_ops \<Rightarrow> byte list list \<Rightarrow> byte list" where
  "StringVec_build P = dynvec_build P"

definition ProtocolInfo_verify :: "mol_ops \<Rightarrow> verifier" where
  "ProtocolInfo_verify P = table_verify P [select_String_verify P, StringVec_verify P]"

definition ProtocolInfo_name :: "mol_ops \<Rightarrow> byte list \<Rightarrow> byte list option" where
  "ProtocolInfo_name P = table_field P 2 0"

definition ProtocolInfo_support_versions :: "mol_ops \<Rightarrow> byte list \<Rightarrow> byte list option" where
  "ProtocolInfo_support_versions P = table_field P 2 1"

definition ProtocolInfo_build :: "mol_ops \<Rightarrow> byte list \<Rightarrow> byte list \<Rightarrow> byte list" where
  "ProtocolInfo_build P name support_versions = table_build P [name, support_versions]"

section \<open>Messages\<close>

record protocol_info =
  pi_name :: str
  pi_versions :: "str list"

definition protocol_info_encode :: "mol_ops \<Rightarrow> protocol_info \<Rightarrow> byte list" where
  "protocol_info_encode P m =
     ProtocolInfo_build P (select_String_build P (pi_name m))
       (StringVec_build P (map (select_String_build P) (pi_versions m)))"

definition protocol_info_decode :: "mol_ops \<Rightarrow> byte list \<Rightarrow> protocol_info option option" where
  "protocol_info_decode P = decode_with P (ProtocolInfo_verify P) (\<lambda>reader.
     Option.bind (Option.bind (ProtocolInfo_support_versions P reader) (StringVec_iter P)) (\<lambda>items.
     try_some (decode_each (\<lambda>version. map_option string_from_utf8 (select_String_raw_data version)) items) (\<lambda>supports.
     try_some (map_option string_from_utf8 (Option.bind (ProtocolInfo_name P reader) select_String_raw_data)) (\<lambda>name.
       Some (Some \<lparr>pi_name = name, pi_versions = supports\<rparr>)))))"

section \<open>Version selection\<close>

text \<open>The loop of \<open>select_version\<close>: what is left of the two reversed iterators, current items first.\<close>

fun select_loop :: "'a::linorder list \<Rightarrow> 'a list \<Rightarrow> 'a option" where
  "select_loop (l # ls) (r # rs) =
     (if l < r then select_loop (l # ls) rs
      else if r < l then select_loop ls (r # rs)
      else Some l)"
| "select_loop _ _ = None"

definition select_version :: "'a::linorder list \<Rightarrow> 'a list \<Rightarrow> 'a option" where
  "select_version local remote = select_loop (rev local) (rev remote)"

section \<open>The exchange\<close>

text \<open>
  The framed socket is third-party: what it yields (\<open>None\<close> at the end of the stream) and what
  sending returns are arguments. \<open>None\<close> outside is a panic. A selection function of the user is a
  \<open>select_fn\<close>.
\<close>

type_synonym select_fn = "str list \<Rightarrow> str list \<Rightarrow> str option"

definition read_info :: "mol_ops \<Rightarrow> (io_error + byte list) option \<Rightarrow> (io_error + protocol_info) option" where
  "read_info P raw =
     (case raw of
        None \<Rightarrow> Some (Err UnexpectedEof)
      | Some (Inl e) \<Rightarrow> Some (Err e)
      | Some (Inr info) \<Rightarrow> map_option (ok_or InvalidData) (protocol_info_decode P info))"

definition vec_pop :: "'a list \<Rightarrow> 'a option" where
  "vec_pop xs = (if xs = [] then None else Some (last xs))"

definition client_select ::
  "mol_ops \<Rightarrow> protocol_info \<Rightarrow> (byte list \<Rightarrow> io_error + unit) \<Rightarrow> (io_error + byte list) option
     \<Rightarrow> (io_error + str \<times> str option) option" where
  "client_select P info send raw =
     (case send (protocol_info_encode P info) of
        Inl e \<Rightarrow> Some (Err e)
      | Inr _ \<Rightarrow>
          map_option (\<lambda>r. and_then r (\<lambda>remote. Ok (pi_name remote, vec_pop (pi_versions remote)))) (read_info P raw))"

definition server_version :: "(str \<Rightarrow> (protocol_info \<times> select_fn option) option) \<Rightarrow> protocol_info \<Rightarrow> str option" where
  "server_version proto_infos remote =
     Option.bind (proto_infos (pi_name remote)) (\<lambda>(local, select).
       case select of
         Some f \<Rightarrow> f (pi_versions local) (pi_versions remote)
       | None \<Rightarrow> select_version (pi_versions local) (pi_versions remote))"

definition server_reply :: "mol_ops \<Rightarrow> protocol_info \<Rightarrow> str option \<Rightarrow> byte list" where
  "server_reply P remote version =
     protocol_info_encode P
       \<lparr>pi_name = pi_name remote, pi_versions = (case version of Some v \<Rightarrow> [v] | None \<Rightarrow> [])\<rparr>"

text \<open>The frame it sends, if it gets that far, and its result.\<close>

definition server_select ::
  "mol_ops \<Rightarrow> (str \<Rightarrow> (protocol_info \<times> select_fn option) option) \<Rightarrow> (byte list \<Rightarrow> io_error + unit)
     \<Rightarrow> (io_error + byte list) option \<Rightarrow> (byte list option \<times> (io_error + str \<times> str option)) option" where
  "server_select P proto_infos send raw =
     map_option (\<lambda>r.
       case r of
         Inl e \<Rightarrow> (None, Err e)
       | Inr remote \<Rightarrow>
           let version = server_version proto_infos remote; data = server_reply P remote version in
           (Some data, and_then (send data) (\<lambda>_. Ok (pi_name remote, version))))
       (read_info P raw)"

section \<open>Lemmas\<close>

lemmas select_types =
  select_String_verify_def select_String_raw_data_def select_String_build_def
  StringVec_verify_def StringVec_iter_def StringVec_build_def

text \<open>On descending lists the loop returns the greatest common item.\<close>

lemma select_loop_sound: "select_loop ls rs = Some v \<Longrightarrow> v \<in> set ls \<inter> set rs"
  by (induction ls rs rule: select_loop.induct) (auto split: if_splits)

lemma select_loop_greatest:
  "sorted_wrt (\<ge>) ls \<Longrightarrow> sorted_wrt (\<ge>) rs \<Longrightarrow> v \<in> set ls \<Longrightarrow> v \<in> set rs \<Longrightarrow>
     \<exists>w. select_loop ls rs = Some w \<and> v \<le> w"
  by (induction ls rs rule: select_loop.induct) force+

lemma select_version_sorted:
  assumes "sorted local" "sorted remote"
  shows "select_version local remote =
    (if set local \<inter> set remote = {} then None else Some (Max (set local \<inter> set remote)))"
proof (cases "select_loop (rev local) (rev remote)")
  case None
  have "sorted_wrt (\<ge>) (rev local)" "sorted_wrt (\<ge>) (rev remote)" using assms by (simp_all add: sorted_wrt_rev)
  then have "set local \<inter> set remote = {}" using select_loop_greatest [of "rev local" "rev remote"] None by force
  with None show ?thesis by (simp add: select_version_def)
next
  case (Some w)
  have "sorted_wrt (\<ge>) (rev local)" "sorted_wrt (\<ge>) (rev remote)" using assms by (simp_all add: sorted_wrt_rev)
  then have "v \<le> w" if "v \<in> set local \<inter> set remote" for v
    using select_loop_greatest [of "rev local" "rev remote" v] Some that by auto
  moreover have "w \<in> set local \<inter> set remote" using select_loop_sound [OF Some] by simp
  ultimately have "Max (set local \<inter> set remote) = w" by (intro Max_eqI) auto
  with Some \<open>w \<in> set local \<inter> set remote\<close> show ?thesis by (auto simp: select_version_def)
qed

context mol_numbers
begin

lemma protocol_info_decode_total: "protocol_info_decode P data \<noteq> None"
  unfolding protocol_info_decode_def
proof (rule decode_with_total)
  show "safe (ProtocolInfo_verify P)"
    unfolding ProtocolInfo_verify_def select_types by (intro safe_intros) (simp add: safe_intros)
next
  assume v: "ProtocolInfo_verify P data True = Some (Ok ())"
  obtain a b where "table_field P 2 0 data = Some a" "fixvec_verify P a True = Some (Ok ())"
    "table_field P 2 1 data = Some b" "dynvec_verify P (fixvec_verify P) b True = Some (Ok ())"
    using table_part [OF v [unfolded ProtocolInfo_verify_def], of 2 0]
      table_part [OF v [unfolded ProtocolInfo_verify_def], of 2 1] by (auto simp: select_types)
  moreover obtain items where "dynvec_iter P b = Some items"
    "list_all (\<lambda>s. fixvec_verify P s True = Some (Ok ())) items" using dynvec_items calculation(4) by blast
  moreover have "decode_each (\<lambda>version. map_option string_from_utf8 (fixvec_raw_data version)) items \<noteq> None"
    using calculation(6) by (intro decode_each_total) (auto simp: list_all_iff dest!: fixvec_data)
  moreover obtain bs where "fixvec_raw_data a = Some bs" using fixvec_data calculation(2) by blast
  ultimately show "Option.bind (Option.bind (ProtocolInfo_support_versions P data) (StringVec_iter P)) (\<lambda>items.
     try_some (decode_each (\<lambda>version. map_option string_from_utf8 (select_String_raw_data version)) items) (\<lambda>supports.
     try_some (map_option string_from_utf8 (Option.bind (ProtocolInfo_name P data) select_String_raw_data)) (\<lambda>name.
       Some (Some \<lparr>pi_name = name, pi_versions = supports\<rparr>)))) \<noteq> None"
    by (simp add: ProtocolInfo_support_versions_def ProtocolInfo_name_def select_types try_some_eq_None)
qed

lemma length_protocol_info:
  "length (protocol_info_encode P m) =
     (if pi_versions m = [] then 20 + length (pi_name m)
      else 20 + length (pi_name m) + (\<Sum>v\<leftarrow>pi_versions m. 8 + length v))"
  by (simp add: protocol_info_encode_def ProtocolInfo_build_def select_types length_table_build dynvec_build_def
      NUMBER_SIZE_def length_concat comp_def sum_list_addf sum_list_triv)

lemma protocol_info_roundtrip:
  assumes "length (protocol_info_encode P m) < 2 ^ 32" "utf8_valid (pi_name m)" "list_all utf8_valid (pi_versions m)"
  shows "protocol_info_decode P (protocol_info_encode P m) = Some (Some m)"
proof -
  define vec where "vec = dynvec_build P (map (fixvec_build P) (pi_versions m))"
  let ?fs = "[fixvec_build P (pi_name m), vec]"
  have enc: "protocol_info_encode P m = table_build P ?fs"
    by (simp add: protocol_info_encode_def ProtocolInfo_build_def select_types vec_def)
  have small: "length (fixvec_build P (pi_name m)) < 2 ^ 32" "length vec < 2 ^ 32"
    using length_part [of _ ?fs] assms(1) unfolding enc by fastforce+
  have each: "length v < 2 ^ 32" if "v \<in> set (pi_versions m)" for v
    using length_item [of "fixvec_build P v" "map (fixvec_build P) (pi_versions m)"] that small(2)
    by (simp add: vec_def)
  have "dynvec_verify P (fixvec_verify P) vec True = Some (Ok ())"
    unfolding vec_def using each small(2)
    by (intro dynvec_build_verify) (auto simp: list_all_iff fixvec_build_verify vec_def)
  then have "list_all2 (\<lambda>v f. v f True = Some (Ok ())) [fixvec_verify P, dynvec_verify P (fixvec_verify P)] ?fs"
    using small by (simp add: fixvec_build_verify)
  from table_build_verify [OF this] have "ProtocolInfo_verify P (protocol_info_encode P m) True = Some (Ok ())"
    using assms(1) unfolding enc by (simp add: ProtocolInfo_verify_def select_types)
  moreover have "table_field P 2 0 (protocol_info_encode P m) = Some (fixvec_build P (pi_name m))"
    "table_field P 2 1 (protocol_info_encode P m) = Some vec"
    using table_build_nth [of ?fs 2 0] table_build_nth [of ?fs 2 1] assms(1) unfolding enc by simp_all
  moreover have "dynvec_iter P vec = Some (map (fixvec_build P) (pi_versions m))"
    unfolding vec_def using small(2) by (intro dynvec_build_iter) (simp add: vec_def)
  moreover have "decode_each (\<lambda>version. map_option string_from_utf8 (fixvec_raw_data version))
      (map (fixvec_build P) (pi_versions m)) = Some (Some (pi_versions m))"
    using assms(3) by (intro decode_each_map) (simp add: fixvec_build_raw string_from_utf8_def list_all_iff)
  ultimately show ?thesis
    using assms(2) by (simp add: protocol_info_decode_def decode_with_Ok ProtocolInfo_support_versions_def
        ProtocolInfo_name_def select_types fixvec_build_raw string_from_utf8_def)
qed

text \<open>The answer is no longer than the proposal when the version comes from it.\<close>

lemma length_reply:
  assumes "pi_name r = pi_name m" "length (pi_versions r) \<le> 1" "set (pi_versions r) \<subseteq> set (pi_versions m)"
  shows "length (protocol_info_encode P r) \<le> length (protocol_info_encode P m)"
proof (cases "pi_versions r")
  case Nil
  then show ?thesis using assms(1) by (simp add: length_protocol_info)
next
  case (Cons v vs)
  with assms have "8 + length v \<in> set (map (\<lambda>v. 8 + length v) (pi_versions m))" "vs = []" by auto
  with member_le_sum_list [OF this(1)] Cons assms show ?thesis by (auto simp: length_protocol_info)
qed

end

lemma server_version_in:
  assumes "proto_infos (pi_name remote) = Some (local, None)" "server_version proto_infos remote = Some v"
  shows "v \<in> set (pi_versions remote)"
  using assms select_loop_sound by (fastforce simp: server_version_def select_version_def)

section \<open>Agreement\<close>

text \<open>
  C19. Client and server agree. When the client proposes versions of a protocol the server offers
  with the default selection, both lists sorted, and both frames are delivered, server and client
  return the same protocol name and the same version: the greatest version both support, or none if
  there is no common one.
\<close>

theorem select_agreement:
  assumes P: "mol_numbers P" and len: "length (protocol_info_encode P info) < 2 ^ 32"
    and utf8: "utf8_valid (pi_name info)" "list_all utf8_valid (pi_versions info)"
    and offered: "proto_infos (pi_name info) = Some (local, None)"
    and sorted: "sorted (pi_versions local)" "sorted (pi_versions info)"
    and sends: "\<And>d. send d = Ok ()" "\<And>d. send' d = Ok ()"
  shows "\<exists>reply v.
      v = (if set (pi_versions local) \<inter> set (pi_versions info) = {} then None
           else Some (Max (set (pi_versions local) \<inter> set (pi_versions info))))
      \<and> server_select P proto_infos send (Some (Ok (protocol_info_encode P info))) = Some (Some reply, Ok (pi_name info, v))
      \<and> client_select P info send' (Some (Ok reply)) = Some (Ok (pi_name info, v))"
proof -
  let ?v = "server_version proto_infos info"
  let ?r = "\<lparr>pi_name = pi_name info, pi_versions = (case ?v of Some v \<Rightarrow> [v] | None \<Rightarrow> [])\<rparr>"
  have in_info: "v \<in> set (pi_versions info)" if "?v = Some v" for v using server_version_in [of proto_infos info] offered that by blast
  have "length (protocol_info_encode P ?r) \<le> length (protocol_info_encode P info)"
    using in_info by (intro mol_numbers.length_reply [OF P]) (auto split: option.splits)
  then have "length (protocol_info_encode P ?r) < 2 ^ 32" using len by linarith
  then have rt: "protocol_info_decode P (protocol_info_encode P ?r) = Some (Some ?r)"
    using utf8 in_info by (intro mol_numbers.protocol_info_roundtrip [OF P]) (auto split: option.splits simp: list_all_iff)
  have "?v = select_version (pi_versions local) (pi_versions info)" using offered by (simp add: server_version_def)
  then have "?v = (if set (pi_versions local) \<inter> set (pi_versions info) = {} then None
      else Some (Max (set (pi_versions local) \<inter> set (pi_versions info))))"
    using select_version_sorted [OF sorted] by simp
  moreover have "server_select P proto_infos send (Some (Ok (protocol_info_encode P info)))
      = Some (Some (protocol_info_encode P ?r), Ok (pi_name info, ?v))"
    using mol_numbers.protocol_info_roundtrip [OF P len utf8] sends(1)
    by (simp add: server_select_def read_info_def server_reply_def Let_def)
  moreover have "client_select P info send' (Some (Ok (protocol_info_encode P ?r))) = Some (Ok (pi_name info, ?v))"
    using rt sends(2) by (auto simp: client_select_def read_info_def vec_pop_def split: option.splits)
  ultimately show ?thesis by blast
qed

definition sample_client :: protocol_info where
  "sample_client = \<lparr>pi_name = lit ''/ping'', pi_versions = [lit ''0.1'', lit ''0.2'']\<rparr>"

definition sample_server :: "str \<Rightarrow> (protocol_info \<times> select_fn option) option" where
  "sample_server name =
     (if name = lit ''/ping'' then Some (\<lparr>pi_name = name, pi_versions = [lit ''0.2'', lit ''0.3'']\<rparr>, None) else None)"

lemma sample_client_len: "length (protocol_info_encode le_ops sample_client) < 2 ^ 32"
  unfolding le.length_protocol_info by (simp add: sample_client_def lit_def)

theorem select_agreement_witness:
  "\<exists>reply. server_select le_ops sample_server (\<lambda>_. Ok ()) (Some (Ok (protocol_info_encode le_ops sample_client)))
       = Some (Some reply, Ok (lit ''/ping'', Some (lit ''0.2'')))
     \<and> client_select le_ops sample_client (\<lambda>_. Ok ()) (Some (Ok reply)) = Some (Ok (lit ''/ping'', Some (lit ''0.2'')))"
  using select_agreement [OF le.mol_numbers_axioms sample_client_len, of sample_server
      "\<lparr>pi_name = lit ''/ping'', pi_versions = [lit ''0.2'', lit ''0.3'']\<rparr>" "\<lambda>_. Ok ()" "\<lambda>_. Ok ()"]
  by (simp add: sample_client_def sample_server_def lit_def list_less_def list_le_def)

end
