(* ===== verification/Ping_Protocol.thy ===== *)
theory Ping_Protocol
  imports Std_Text Molecule_Build
begin

text \<open>
  The ping protocol (\<open>protocols/ping\<close>): the generated readers and builders of \<open>protocol_mol.rs\<close> and
  the handler of \<open>lib.rs\<close>. Time is counted in nanoseconds. What the handler asks of its context and
  of its callback is returned as a list of actions in order; the results of those calls are only
  logged.
\<close>

section \<open>Generated types\<close>

definition ping_Uint32_verify :: verifier where
  "ping_Uint32_verify = array_verify 4"

definition ping_Uint32_raw_data :: "byte list \<Rightarrow> byte list" where
  "ping_Uint32_raw_data sl = sl"

definition ping_Uint32_build :: "byte \<Rightarrow> byte \<Rightarrow> byte \<Rightarrow> byte \<Rightarrow> byte list" where
  "ping_Uint32_build nth0 nth1 nth2 nth3 = [nth0, nth1, nth2, nth3]"

definition Ping_verify :: "mol_ops \<Rightarrow> verifier" where
  "Ping_verify P = table_verify_old P [ping_Uint32_verify]"

definition Ping_nonce :: "mol_ops \<Rightarrow> byte list \<Rightarrow> byte list option" where
  "Ping_nonce P = table_field P 1 0"

definition Ping_build :: "mol_ops \<Rightarrow> byte list \<Rightarrow> byte list" where
  "Ping_build P nonce = table_build P [nonce]"

definition Pong_verify :: "mol_ops \<Rightarrow> verifier" where
  "Pong_verify P = table_verify_old P [ping_Uint32_verify]"

definition Pong_nonce :: "mol_ops \<Rightarrow> byte list \<Rightarrow> byte list option" where
  "Pong_nonce P = table_field P 1 0"

definition Pong_build :: "mol_ops \<Rightarrow> byte list \<Rightarrow> byte list" where
  "Pong_build P nonce = table_build P [nonce]"

datatype ping_union = PingU "byte list" | PongU "byte list"

definition PingPayload_verify :: "mol_ops \<Rightarrow> verifier" where
  "PingPayload_verify P = union_verify P [Ping_verify P, Pong_verify P]"

definition PingPayload_to_enum :: "mol_ops \<Rightarrow> byte list \<Rightarrow> ping_union option" where
  "PingPayload_to_enum P sl =
     Option.bind (union_to_enum P sl) (\<lambda>(item_id, inner).
       if item_id = 0 then Some (PingU inner) else if item_id = 1 then Some (PongU inner) else None)"

definition PingPayload_build :: "mol_ops \<Rightarrow> ping_union \<Rightarrow> byte list" where
  "PingPayload_build P v =
     (case v of PingU inner \<Rightarrow> union_build P 0 inner | PongU inner \<Rightarrow> union_build P 1 inner)"

definition PingMessage_verify :: "mol_ops \<Rightarrow> verifier" where
  "PingMessage_verify P = table_verify_old P [PingPayload_verify P]"

definition PingMessage_payload :: "mol_ops \<Rightarrow> byte list \<Rightarrow> byte list option" where
  "PingMessage_payload P = table_field P 1 0"

definition PingMessage_build :: "mol_ops \<Rightarrow> byte list \<Rightarrow> byte list" where
  "PingMessage_build P payload = table_build P [payload]"

section \<open>Messages\<close>

datatype ping_payload = Ping u32 | Pong u32

definition nonce_bytes :: "u32 \<Rightarrow> byte list" where
  "nonce_bytes nonce =
     (let nonce_le = to_le_bytes 4 nonce in
      ping_Uint32_build (nonce_le ! 0) (nonce_le ! 1) (nonce_le ! 2) (nonce_le ! 3))"

definition build_ping :: "mol_ops \<Rightarrow> u32 \<Rightarrow> byte list" where
  "build_ping P nonce =
     PingMessage_build P (PingPayload_build P (PingU (Ping_build P (nonce_bytes nonce))))"

definition build_pong :: "mol_ops \<Rightarrow> u32 \<Rightarrow> byte list" where
  "build_pong P nonce =
     PingMessage_build P (PingPayload_build P (PongU (Pong_build P (nonce_bytes nonce))))"

definition ping_decode :: "mol_ops \<Rightarrow> byte list \<Rightarrow> ping_payload option option" where
  "ping_decode P = decode_with P (PingMessage_verify P) (\<lambda>reader.
     Option.bind (Option.bind (PingMessage_payload P reader) (PingPayload_to_enum P)) (\<lambda>u.
       case u of
         PingU reader \<Rightarrow>
           Option.bind (Ping_nonce P reader) (\<lambda>n. map_option (\<lambda>x. Some (Ping x)) (read_le 4 (ping_Uint32_raw_data n)))
       | PongU reader \<Rightarrow>
           Option.bind (Pong_nonce P reader) (\<lambda>n. map_option (\<lambda>x. Some (Pong x)) (read_le 4 (ping_Uint32_raw_data n)))))"

section \<open>The handler\<close>

definition SEND_PING_TOKEN :: u64 where "SEND_PING_TOKEN = 0"
definition CHECK_TIMEOUT_TOKEN :: u64 where "CHECK_TIMEOUT_TOKEN = 1"

record ping_status =
  processing :: bool
  last_ping :: nat
  ps_nonce :: u32

record ping_handler =
  ph_interval :: nat
  ph_timeout :: nat
  connected_session_ids :: "nat \<Rightarrow> ping_status option"
  unix_epoch :: nat

datatype ping_action =
    SetNotify nat u64
  | SendMessage nat "byte list"
  | Broadcast "nat list" "byte list"
  | Disconnect nat
  | ReceivedPing nat | ReceivedPong nat nat | Timeout nat | UnexpectedError nat

text \<open>\<open>since_epoch\<close> is the system time; \<open>checked_sub\<close> fails below zero.\<close>

definition ping_new :: "nat \<Rightarrow> nat \<Rightarrow> nat \<Rightarrow> nat \<Rightarrow> ping_handler" where
  "ping_new interval timeout now since_epoch =
     \<lparr>ph_interval = interval, ph_timeout = timeout, connected_session_ids = Map.empty,
      unix_epoch = (if since_epoch \<le> now then now - since_epoch else now)\<rparr>"

definition nonce :: "nat \<Rightarrow> nat \<Rightarrow> u32" where
  "nonce t epoch = of_nat ((t - epoch) div 1000000000)"

definition ping_init :: "ping_handler \<Rightarrow> ping_action list" where
  "ping_init h = [SetNotify (ph_interval h) SEND_PING_TOKEN, SetNotify (ph_timeout h) CHECK_TIMEOUT_TOKEN]"

definition ping_connected :: "nat \<Rightarrow> bool \<Rightarrow> nat \<Rightarrow> ping_handler \<Rightarrow> ping_handler \<times> ping_action list" where
  "ping_connected session has_pubkey now h =
     (if has_pubkey then
        (h\<lparr>connected_session_ids :=
            (case connected_session_ids h session of
               Some _ \<Rightarrow> connected_session_ids h
             | None \<Rightarrow> (connected_session_ids h)(session \<mapsto> \<lparr>processing = False, last_ping = now, ps_nonce = 0\<rparr>))\<rparr>, [])
      else (h, [Disconnect session]))"

definition ping_disconnected :: "nat \<Rightarrow> ping_handler \<Rightarrow> ping_handler" where
  "ping_disconnected session h = h\<lparr>connected_session_ids := (connected_session_ids h)(session := None)\<rparr>"

definition ping_received ::
  "mol_ops \<Rightarrow> nat \<Rightarrow> byte list \<Rightarrow> nat \<Rightarrow> ping_handler \<Rightarrow> (ping_handler \<times> ping_action list) option" where
  "ping_received P session data now h =
     map_option (\<lambda>d.
       case d of
         None \<Rightarrow> (h, [UnexpectedError session])
       | Some (Ping x) \<Rightarrow> (h, [SendMessage session (build_pong P x), ReceivedPing session])
       | Some (Pong x) \<Rightarrow>
           (case connected_session_ids h session of
              Some status \<Rightarrow>
                if (True, x) = (processing status, ps_nonce status) then
                  (h\<lparr>connected_session_ids := (connected_session_ids h)(session \<mapsto> status\<lparr>processing := False\<rparr>)\<rparr>,
                   [ReceivedPong session (now - last_ping status)])
                else (h, [Disconnect session])
            | None \<Rightarrow> (h, [Disconnect session])))
       (ping_decode P data)"

text \<open>
  One iteration of the \<open>filter_map\<close> over the sessions: the state is \<open>now\<close> and \<open>send_nonce\<close>. \<open>keys\<close> is
  the order in which the hash map yields its sessions, \<open>t\<close> what \<open>Instant::now\<close> returns.
\<close>

definition ping_one :: "nat \<Rightarrow> nat \<Rightarrow> (nat option \<times> u32) \<Rightarrow> ping_status \<Rightarrow> (nat option \<times> u32) \<times> ping_status option" where
  "ping_one epoch t st ps =
     (if processing ps then (st, None)
      else
        let (now, send_nonce) = st; now' = (case now of Some u \<Rightarrow> u | None \<Rightarrow> t);
            send_nonce' = (if send_nonce = 0 then nonce now' epoch else send_nonce) in
        ((Some now', send_nonce'), Some (ps\<lparr>last_ping := now', ps_nonce := send_nonce'\<rparr>)))"

fun ping_each ::
  "nat \<Rightarrow> nat \<Rightarrow> nat list \<Rightarrow> (nat option \<times> u32) \<Rightarrow> (nat \<Rightarrow> ping_status option)
     \<Rightarrow> u32 \<times> (nat \<Rightarrow> ping_status option) \<times> nat list" where
  "ping_each epoch t [] st m = (snd st, m, [])"
| "ping_each epoch t (sid # sids) st m =
     (case m sid of
        None \<Rightarrow> ping_each epoch t sids st m
      | Some ps \<Rightarrow>
          (case ping_one epoch t st ps of
             (st', None) \<Rightarrow> ping_each epoch t sids st' m
           | (st', Some ps') \<Rightarrow>
               let (n, m', peers) = ping_each epoch t sids st' (m(sid \<mapsto> ps')) in (n, m', sid # peers)))"

definition ping_notify ::
  "mol_ops \<Rightarrow> u64 \<Rightarrow> nat list \<Rightarrow> nat \<Rightarrow> ping_handler \<Rightarrow> (ping_handler \<times> ping_action list) option" where
  "ping_notify P token keys t h =
     (if token = SEND_PING_TOKEN then
        let (send_nonce, m, peers) = ping_each (unix_epoch h) t keys (None, 0) (connected_session_ids h) in
        Some (h\<lparr>connected_session_ids := m\<rparr>,
              if peers \<noteq> [] then [Broadcast peers (build_ping P send_nonce)] else [])
      else if token = CHECK_TIMEOUT_TOKEN then
        Some (h, map Timeout (filter (\<lambda>id.
          case connected_session_ids h id of
            Some ps \<Rightarrow> processing ps \<and> ph_timeout h \<le> t - last_ping ps
          | None \<Rightarrow> False) keys))
      else None)"

section \<open>Messages decode to what was built\<close>

lemmas ping_types =
  ping_Uint32_verify_def ping_Uint32_raw_data_def ping_Uint32_build_def Ping_verify_def Pong_verify_def Ping_nonce_def
  Pong_nonce_def Ping_build_def Pong_build_def PingPayload_verify_def PingMessage_verify_def PingMessage_payload_def
  PingMessage_build_def

lemma nonce_bytes: "nonce_bytes n = to_le_bytes 4 n"
proof -
  obtain a b c d where "to_le_bytes 4 n = [a, b, c, d]"
    using length_to_le_bytes [of 4 n] by (auto simp: numeral_eq_Suc length_Suc_conv simp del: length_to_le_bytes)
  then show ?thesis by (simp add: nonce_bytes_def ping_Uint32_build_def)
qed

lemma read_nonce_bytes: "read_le 4 (nonce_bytes n) = Some n"
  unfolding nonce_bytes by (rule read_to_le_bytes) simp

context mol_numbers
begin

lemma nonce_table:
  "table_verify_old P [array_verify 4] (table_build P [nonce_bytes n]) True = Some (Ok ())"
  "table_field P 1 0 (table_build P [nonce_bytes n]) = Some (nonce_bytes n)"
  "length (table_build P [nonce_bytes n]) = 12"
  using single_verify [of "array_verify 4" "nonce_bytes n"] single_field [of "nonce_bytes n"]
  by (auto simp: nonce_bytes array_verify_def length_table_build)

lemma ping_roundtrip: "ping_decode P (build_ping P n) = Some (Some (Ping n))"
proof -
  let ?u = "union_build P 0 (table_build P [nonce_bytes n])"
  have "PingPayload_verify P ?u True = Some (Ok ())"
    by (simp add: ping_types union_build_verify nonce_table)
  moreover have "length (table_build P [?u]) < 2 ^ 32" by (simp add: nonce_bytes length_table_build)
  ultimately have "PingMessage_verify P (build_ping P n) True = Some (Ok ())"
      "table_field P 1 0 (build_ping P n) = Some ?u"
    using single_verify [of "PingPayload_verify P" ?u] single_field [of ?u]
    by (auto simp: build_ping_def ping_types PingPayload_build_def)
  then show ?thesis
    by (simp add: ping_decode_def decode_with_Ok PingMessage_payload_def PingPayload_to_enum_def union_build_enum
        Ping_nonce_def nonce_table [unfolded One_nat_def] ping_Uint32_raw_data_def read_nonce_bytes)
qed

lemma pong_roundtrip: "ping_decode P (build_pong P n) = Some (Some (Pong n))"
proof -
  let ?u = "union_build P 1 (table_build P [nonce_bytes n])"
  have "PingPayload_verify P ?u True = Some (Ok ())"
    by (simp add: ping_types union_build_verify nonce_table)
  moreover have "length (table_build P [?u]) < 2 ^ 32" by (simp add: nonce_bytes length_table_build)
  ultimately have "PingMessage_verify P (build_pong P n) True = Some (Ok ())"
      "table_field P 1 0 (build_pong P n) = Some ?u"
    using single_verify [of "PingPayload_verify P" ?u] single_field [of ?u]
    by (auto simp: build_pong_def ping_types PingPayload_build_def)
  then show ?thesis
    by (simp add: ping_decode_def decode_with_Ok PingMessage_payload_def PingPayload_to_enum_def union_build_enum
        Pong_nonce_def nonce_table [unfolded One_nat_def] ping_Uint32_raw_data_def read_nonce_bytes)
qed

lemma safe_ping: "safe (PingMessage_verify P)"
  unfolding ping_types by (intro safe_intros; simp add: safe_intros)

lemma nonce_part:
  assumes "table_verify_old P [array_verify 4] sl True = Some (Ok ())"
  shows "\<exists>n x. table_field P 1 0 sl = Some n \<and> read_le 4 n = Some (x :: u32)"
proof -
  obtain s where "table_field P 1 0 sl = Some s" "length s = 4"
    using table_part_old [OF assms, of 1 0] by (auto simp: array_verify_def split: if_splits)
  then show ?thesis by (auto simp: read_le_def)
qed

lemma ping_decode_total: "ping_decode P data \<noteq> None"
  unfolding ping_decode_def
proof (rule decode_with_total [OF safe_ping])
  assume v: "PingMessage_verify P data True = Some (Ok ())"
  obtain u where u: "table_field P 1 0 data = Some u" "PingPayload_verify P u True = Some (Ok ())"
    using table_part_old [OF v [unfolded PingMessage_verify_def], of 1 0] by auto
  obtain i inner where i: "union_to_enum P u = Some (i, inner)" "i < 2"
    "([Ping_verify P, Pong_verify P] ! i) inner True = Some (Ok ())"
    using union_enum [OF u(2) [unfolded PingPayload_verify_def]] by auto
  then have "table_verify_old P [array_verify 4] inner True = Some (Ok ())" by (auto simp: less_2_cases_iff ping_types)
  then obtain n x where "table_field P 1 0 inner = Some n" "read_le 4 n = Some (x :: u32)" using nonce_part by blast
  with u(1) i(1,2) show "Option.bind (Option.bind (PingMessage_payload P data) (PingPayload_to_enum P)) (\<lambda>u.
       case u of
         PingU reader \<Rightarrow>
           Option.bind (Ping_nonce P reader) (\<lambda>n. map_option (\<lambda>x. Some (Ping x)) (read_le 4 (ping_Uint32_raw_data n)))
       | PongU reader \<Rightarrow>
           Option.bind (Pong_nonce P reader) (\<lambda>n. map_option (\<lambda>x. Some (Pong x)) (read_le 4 (ping_Uint32_raw_data n)))) \<noteq> None"
    by (auto simp: less_2_cases_iff PingMessage_payload_def PingPayload_to_enum_def Ping_nonce_def Pong_nonce_def
        ping_Uint32_raw_data_def)
qed

end

section \<open>Runs of the handler\<close>

datatype ping_event =
    EvConnected nat bool nat | EvDisconnected nat | EvReceived nat "byte list" nat | EvNotify u64 "nat list" nat

text \<open>The service only calls \<open>notify\<close> with the tokens that \<open>init\<close> registered.\<close>

fun ping_adm :: "ping_event \<Rightarrow> bool" where
  "ping_adm (EvNotify token keys t) = (token = SEND_PING_TOKEN \<or> token = CHECK_TIMEOUT_TOKEN)"
| "ping_adm _ = True"

fun ping_handle :: "mol_ops \<Rightarrow> ping_event \<Rightarrow> ping_handler \<Rightarrow> (ping_handler \<times> ping_action list) option" where
  "ping_handle P (EvConnected session has_pubkey now) h = Some (ping_connected session has_pubkey now h)"
| "ping_handle P (EvDisconnected session) h = Some (ping_disconnected session h, [])"
| "ping_handle P (EvReceived session data now) h = ping_received P session data now h"
| "ping_handle P (EvNotify token keys t) h = ping_notify P token keys t h"

definition ping_step :: "mol_ops \<Rightarrow> ping_event \<Rightarrow> ping_handler \<Rightarrow> ping_handler" where
  "ping_step P e h = (case ping_handle P e h of Some (h', _) \<Rightarrow> h' | None \<Rightarrow> h)"

definition idle :: "(nat \<Rightarrow> ping_status option) \<Rightarrow> bool" where
  "idle m \<longleftrightarrow> (\<forall>sid ps. m sid = Some ps \<longrightarrow> \<not> processing ps)"

lemma idleI: "(\<And>sid ps. m sid = Some ps \<Longrightarrow> \<not> processing ps) \<Longrightarrow> idle m"
  by (simp add: idle_def)

lemma idle_upd: "idle m \<Longrightarrow> \<not> processing ps \<Longrightarrow> idle (m(sid \<mapsto> ps))"
  by (simp add: idle_def)

lemma ping_each_idle: "idle m \<Longrightarrow> ping_each epoch t keys st m = (n, m', peers) \<Longrightarrow> idle m'"
proof (induction keys arbitrary: st m n m' peers)
  case (Cons sid sids)
  show ?case
  proof (cases "m sid")
    case None
    with Cons show ?thesis by simp
  next
    case (Some ps)
    obtain st' o' where one: "ping_one epoch t st ps = (st', o')" by fastforce
    show ?thesis
    proof (cases o')
      case None
      with Cons Some one show ?thesis by simp
    next
      case (Some ps')
      have "\<not> processing ps'"
        using one Some by (auto simp: ping_one_def Let_def split: if_splits prod.splits)
      then have "idle (m(sid \<mapsto> ps'))" using Cons.prems(1) by (rule idle_upd [rotated])
      with Cons one Some \<open>m sid = Some ps\<close> show ?thesis by (auto split: prod.splits)
    qed
  qed
qed simp

lemma ping_step_idle: "idle (connected_session_ids h) \<Longrightarrow> idle (connected_session_ids (ping_step P e h))"
proof (cases e)
  case (EvConnected session has_pubkey now)
  assume "idle (connected_session_ids h)"
  with EvConnected show ?thesis
    by (auto simp: ping_step_def ping_connected_def intro!: idle_upd split: option.splits)
next
  case (EvDisconnected session)
  assume "idle (connected_session_ids h)"
  with EvDisconnected show ?thesis by (auto simp: ping_step_def ping_disconnected_def idle_def)
next
  case (EvReceived session data now)
  assume "idle (connected_session_ids h)"
  with EvReceived show ?thesis
    by (auto simp: ping_step_def ping_received_def intro!: idle_upd split: option.splits ping_payload.splits if_splits)
next
  case (EvNotify token keys t)
  assume "idle (connected_session_ids h)"
  with EvNotify show ?thesis
    using ping_each_idle by (auto simp: ping_step_def ping_notify_def split: option.splits prod.splits if_splits)
qed

interpretation pinger: invariant_system "ping_step P" ping_adm "\<lambda>h. idle (connected_session_ids h)" for P
  by unfold_locales (rule ping_step_idle)

lemma ping_run_idle:
  "list_all ping_adm es \<Longrightarrow> idle (connected_session_ids (fold (ping_step P) es (ping_new interval timeout now since)))"
  by (rule pinger.run_inv) (simp_all add: ping_new_def idle_def)

section \<open>What a ping records\<close>

text \<open>Once a time is fixed, the loop only uses that time and its nonce.\<close>

definition ping_fixed :: "nat \<Rightarrow> nat \<Rightarrow> nat option \<times> u32 \<Rightarrow> bool" where
  "ping_fixed epoch t st \<longleftrightarrow> st = (None, 0) \<or> st = (Some t, nonce t epoch)"

lemma ping_one_fixed:
  "ping_fixed epoch t st \<Longrightarrow> \<not> processing ps \<Longrightarrow>
     ping_one epoch t st ps = ((Some t, nonce t epoch), Some (ps\<lparr>last_ping := t, ps_nonce := nonce t epoch\<rparr>))"
  by (auto simp: ping_fixed_def ping_one_def Let_def)

lemma ping_each_spec:
  assumes "idle m" "distinct keys" "ping_fixed epoch t st" "ping_each epoch t keys st m = (n, m', peers)"
  shows "peers = filter (\<lambda>sid. m sid \<noteq> None) keys \<and> (peers = [] \<or> st = (Some t, nonce t epoch) \<longrightarrow> n = snd st)
    \<and> (peers \<noteq> [] \<longrightarrow> n = nonce t epoch)
    \<and> (\<forall>sid. m' sid = (if sid \<in> set peers
         then map_option (\<lambda>ps. ps\<lparr>last_ping := t, ps_nonce := nonce t epoch\<rparr>) (m sid) else m sid))"
  using assms
proof (induction keys arbitrary: st m n m' peers)
  case (Cons sid sids)
  show ?case
  proof (cases "m sid")
    case None
    with Cons.IH [of m st n m' peers] Cons.prems show ?thesis by auto
  next
    case (Some ps)
    let ?ps = "ps\<lparr>last_ping := t, ps_nonce := nonce t epoch\<rparr>" and ?st = "(Some t, nonce t epoch)"
    have np: "\<not> processing ps" using Cons.prems(1) Some by (auto simp: idle_def)
    obtain n1 m1 p1 where rec: "ping_each epoch t sids ?st (m(sid \<mapsto> ?ps)) = (n1, m1, p1)"
      using prod_cases3 by blast
    have "idle (m(sid \<mapsto> ?ps))" using Cons.prems(1) np by (intro idle_upd) simp_all
    moreover have "ping_fixed epoch t ?st" by (simp add: ping_fixed_def)
    moreover have "distinct sids" using Cons.prems(2) by simp
    ultimately have *: "p1 = filter (\<lambda>x. (m(sid \<mapsto> ?ps)) x \<noteq> None) sids \<and> (p1 = [] \<or> ?st = ?st \<longrightarrow> n1 = snd ?st)
      \<and> (p1 \<noteq> [] \<longrightarrow> n1 = nonce t epoch)
      \<and> (\<forall>x. m1 x = (if x \<in> set p1 then map_option (\<lambda>ps. ps\<lparr>last_ping := t, ps_nonce := nonce t epoch\<rparr>) ((m(sid \<mapsto> ?ps)) x)
             else (m(sid \<mapsto> ?ps)) x))"
      using Cons.IH [OF _ _ _ rec] by blast
    have IH: "p1 = filter (\<lambda>x. (m(sid \<mapsto> ?ps)) x \<noteq> None) sids" "n1 = nonce t epoch"
      "\<And>x. m1 x = (if x \<in> set p1 then map_option (\<lambda>ps. ps\<lparr>last_ping := t, ps_nonce := nonce t epoch\<rparr>) ((m(sid \<mapsto> ?ps)) x)
             else (m(sid \<mapsto> ?ps)) x)"
      using * by (blast, simp, blast)
    have res: "n = n1" "m' = m1" "peers = sid # p1"
      using Cons.prems(4) Some ping_one_fixed [OF Cons.prems(3) np] rec by auto
    have "p1 = filter (\<lambda>x. m x \<noteq> None) sids"
      unfolding IH(1) using Cons.prems(2) by (intro filter_cong) auto
    moreover have "sid \<notin> set p1" using IH(1) Cons.prems(2) by auto
    moreover have "m1 x = (if x \<in> set (sid # p1) then map_option (\<lambda>ps. ps\<lparr>last_ping := t, ps_nonce := nonce t epoch\<rparr>) (m x)
        else m x)" for x
      using IH(3) [of x] Some calculation(2) by auto
    ultimately show ?thesis using res IH(2) Some Cons.prems(3) by (auto simp: ping_fixed_def)
  qed
qed (auto simp: ping_fixed_def)

section \<open>Properties\<close>

text \<open>
  A ping round. In every run of the handler, the send timer pings every connected session with
  one message, whose nonce is the number of seconds since the epoch, and each session's status
  records that nonce and the time.
\<close>

theorem ping_round:
  assumes "list_all ping_adm es" "h = fold (ping_step P) es (ping_new interval timeout start since)"
    "distinct keys" "set keys = dom (connected_session_ids h)" "keys \<noteq> []"
  shows "\<exists>h'. ping_notify P SEND_PING_TOKEN keys t h = Some (h', [Broadcast keys (build_ping P (nonce t (unix_epoch h)))])
    \<and> (\<forall>sid. connected_session_ids h' sid =
         map_option (\<lambda>ps. ps\<lparr>last_ping := t, ps_nonce := nonce t (unix_epoch h)\<rparr>) (connected_session_ids h sid))"
proof -
  obtain n m' peers where each: "ping_each (unix_epoch h) t keys (None, 0) (connected_session_ids h) = (n, m', peers)"
    using prod_cases3 by blast
  have "idle (connected_session_ids h)" unfolding assms(2) using ping_run_idle [OF assms(1)] .
  from ping_each_spec [OF this assms(3) _ each]
  have spec: "peers = filter (\<lambda>sid. connected_session_ids h sid \<noteq> None) keys" "peers \<noteq> [] \<longrightarrow> n = nonce t (unix_epoch h)"
    "\<And>sid. m' sid = (if sid \<in> set peers then map_option (\<lambda>ps. ps\<lparr>last_ping := t, ps_nonce := nonce t (unix_epoch h)\<rparr>)
       (connected_session_ids h sid) else connected_session_ids h sid)"
    by (auto simp: ping_fixed_def)
  have peers: "peers = keys" unfolding spec(1) using assms(4) by (intro filter_True) auto
  have "m' sid = map_option (\<lambda>ps. ps\<lparr>last_ping := t, ps_nonce := nonce t (unix_epoch h)\<rparr>) (connected_session_ids h sid)" for sid
    using spec(3) [of sid] peers assms(4) by (cases "connected_session_ids h sid") auto
  moreover have "ping_notify P SEND_PING_TOKEN keys t h
      = Some (h\<lparr>connected_session_ids := m'\<rparr>, [Broadcast keys (build_ping P (nonce t (unix_epoch h)))])"
    using each peers assms(5) spec(2) by (simp add: ping_notify_def)
  ultimately show ?thesis by simp
qed

theorem ping_round_witness:
  "\<exists>h'. ping_notify le_ops SEND_PING_TOKEN [7] 5000000000
       (fold (ping_step le_ops) [EvConnected 7 True 3] (ping_new 1 2 0 0))
     = Some (h', [Broadcast [7] (build_ping le_ops 5)])"
  using ping_round [of "[EvConnected 7 True 3]" _ le_ops 1 2 0 0 "[7]" 5000000000, OF _ refl]
  by (auto simp: ping_step_def ping_connected_def ping_new_def nonce_def)

text \<open>
  Every pong ends the session. \<open>processing\<close> is never set, so in every run of the handler a
  correct pong, the answer to the ping just sent included, disconnects the session instead of
  being reported, and the timeout check never reports a session.
\<close>

theorem pong_disconnects:
  assumes "mol_numbers P" "list_all ping_adm es" "h = fold (ping_step P) es (ping_new interval timeout start since)"
  shows "ping_received P session (build_pong P x) now h = Some (h, [Disconnect session])
    \<and> ping_notify P CHECK_TIMEOUT_TOKEN keys t h = Some (h, [])"
proof -
  have idle: "idle (connected_session_ids h)" unfolding assms(3) using ping_run_idle [OF assms(2)] .
  then have "ping_received P session (build_pong P x) now h = Some (h, [Disconnect session])"
    using mol_numbers.pong_roundtrip [OF assms(1), of x]
    by (auto simp: ping_received_def idle_def split: option.splits)
  moreover have "ping_notify P CHECK_TIMEOUT_TOKEN keys t h = Some (h, [])"
    using idle by (auto simp: ping_notify_def SEND_PING_TOKEN_def CHECK_TIMEOUT_TOKEN_def idle_def filter_empty_conv
        split: option.splits)
  ultimately show ?thesis by blast
qed

theorem pong_disconnects_witness:
  "\<exists>h. ping_handle le_ops (EvNotify SEND_PING_TOKEN [7] 5000000000)
         (fold (ping_step le_ops) [EvConnected 7 True 3] (ping_new 1 2 0 0))
       = Some (h, [Broadcast [7] (build_ping le_ops 5)])
     \<and> ping_received le_ops 7 (build_pong le_ops 5) 5000000001 h = Some (h, [Disconnect 7])"
proof -
  let ?e = "EvNotify SEND_PING_TOKEN [7] 5000000000"
  let ?h0 = "fold (ping_step le_ops) [EvConnected 7 True 3] (ping_new 1 2 0 0)"
  obtain h where h: "ping_handle le_ops ?e ?h0 = Some (h, [Broadcast [7] (build_ping le_ops 5)])"
    by (simp add: ping_step_def ping_connected_def ping_new_def nonce_def ping_notify_def ping_one_def Let_def)
  then have "h = fold (ping_step le_ops) [EvConnected 7 True 3, ?e] (ping_new 1 2 0 0)" by (simp add: ping_step_def)
  with pong_disconnects [OF le.mol_numbers_axioms, of "[EvConnected 7 True 3, ?e]" h 1 2 0 0 7 5] h show ?thesis
    by auto
qed

end
