(* ===== verification/Multiaddr.thy ===== *)
theory Multiaddr
  imports Std_Text
begin

text \<open>
  The multiaddress crate (\<open>tentacle/multiaddr\<close>): the binary and the textual form of one
  protocol segment (\<open>protocol.rs\<close>) and of an address, which is kept as its bytes (\<open>lib.rs\<close>).

  The crates \<open>unsigned-varint\<close> and \<open>bs58\<close> are the parameters \<open>V\<close> and \<open>T\<close>, with their contracts
  as locales; \<open>leb_ops\<close> and \<open>b58_ops\<close> are their documented formats. Functions that call
  \<open>expect\<close> return \<open>None\<close> when they panic (or do not return).
\<close>

section \<open>Parameters\<close>

datatype uvar_error = Insufficient | Overflow | NotMinimal

record varint_ops =
  enc_u16 :: "u16 \<Rightarrow> byte list"
  enc_u32 :: "u32 \<Rightarrow> byte list"
  enc_usize :: "u64 \<Rightarrow> byte list"
  dec_u16 :: "byte list \<Rightarrow> uvar_error + u16 \<times> byte list"
  dec_u32 :: "byte list \<Rightarrow> uvar_error + u32 \<times> byte list"
  dec_usize :: "byte list \<Rightarrow> uvar_error + u64 \<times> byte list"

record text_ops =
  b58_encode :: "byte list \<Rightarrow> str"
  b58_decode :: "str \<Rightarrow> byte list option"

section \<open>Protocol segments\<close>

datatype parse_error = BadUtf8 | BadAddr | BadInt | BadBase58

datatype ma_error =
    DataLessThanLen | InvalidMultiaddr | InvalidProtocolString | InvalidUvar uvar_error
  | ParsingError parse_error | UnknownHash | UnknownProtocolId u32 | UnknownProtocolString

definition DNS4 :: u32 where "DNS4 = 0x36"
definition DNS6 :: u32 where "DNS6 = 0x37"
definition IP4 :: u32 where "IP4 = 0x04"
definition IP6 :: u32 where "IP6 = 0x29"
definition P2P_ID :: u32 where "P2P_ID = 0x01a5"
definition TCP :: u32 where "TCP = 0x06"
definition TLS :: u32 where "TLS = 0x01c0"
definition WS :: u32 where "WS = 0x01dd"
definition WSS :: u32 where "WSS = 0x01de"
definition MEMORY :: u32 where "MEMORY = 0x0309"

definition SHA256_CODE :: u16 where "SHA256_CODE = 0x12"
definition SHA256_SIZE :: byte where "SHA256_SIZE = 32"

lemmas protocol_ids = DNS4_def DNS6_def IP4_def IP6_def P2P_ID_def TCP_def TLS_def WS_def WSS_def MEMORY_def

datatype protocol =
    Dns4 str | Dns6 str | Ip4 ipv4 | Ip6 ipv6 | P2P "byte list" | Tcp u16 | Tls str | Ws | Wss | Memory u64

definition check_p2p :: "varint_ops \<Rightarrow> byte list \<Rightarrow> ma_error + unit" where
  "check_p2p V data =
     and_then (map_err InvalidUvar (dec_u16 V data)) (\<lambda>(code, bs).
       if code \<noteq> SHA256_CODE then Err UnknownHash
       else if length bs \<noteq> unat SHA256_SIZE + 1 then Err UnknownHash
       else if hd bs \<noteq> SHA256_SIZE then Err UnknownHash
       else Ok ())"

text \<open>One segment from the parts of a split text, with the parts that follow.\<close>

definition next_part :: "str list \<Rightarrow> ma_error + str \<times> str list" where
  "next_part parts = (case parts of s # rest \<Rightarrow> Ok (s, rest) | [] \<Rightarrow> Err InvalidProtocolString)"

definition from_str_peek :: "varint_ops \<Rightarrow> text_ops \<Rightarrow> str list \<Rightarrow> ma_error + protocol \<times> str list" where
  "from_str_peek V T parts =
     and_then (next_part parts) (\<lambda>(k, parts).
       if k = lit ''dns4'' then and_then (next_part parts) (\<lambda>(s, parts). Ok (Dns4 s, parts))
       else if k = lit ''dns6'' then and_then (next_part parts) (\<lambda>(s, parts). Ok (Dns6 s, parts))
       else if k = lit ''ip4'' then
         and_then (next_part parts) (\<lambda>(s, parts).
         and_then (ok_or (ParsingError BadAddr) (parse_ipv4 s)) (\<lambda>a. Ok (Ip4 a, parts)))
       else if k = lit ''ip6'' then
         and_then (next_part parts) (\<lambda>(s, parts).
         and_then (ok_or (ParsingError BadAddr) (parse_ipv6 s)) (\<lambda>a. Ok (Ip6 a, parts)))
       else if k = lit ''tls'' then and_then (next_part parts) (\<lambda>(s, parts). Ok (Tls s, parts))
       else if k = lit ''p2p'' then
         and_then (next_part parts) (\<lambda>(s, parts).
         and_then (ok_or (ParsingError BadBase58) (b58_decode T s)) (\<lambda>decoded.
         and_then (check_p2p V decoded) (\<lambda>_. Ok (P2P decoded, parts))))
       else if k = lit ''tcp'' then
         and_then (next_part parts) (\<lambda>(s, parts).
         and_then (ok_or (ParsingError BadInt) (parse_uint (2 ^ 16) s)) (\<lambda>n. Ok (Tcp (of_nat n), parts)))
       else if k = lit ''ws'' then Ok (Ws, parts)
       else if k = lit ''wss'' then Ok (Wss, parts)
       else if k = lit ''memory'' then
         and_then (next_part parts) (\<lambda>(s, parts).
         and_then (ok_or (ParsingError BadInt) (parse_uint (2 ^ 64) s)) (\<lambda>n. Ok (Memory (of_nat n), parts)))
       else Err UnknownProtocolString)"

definition split_header :: "nat \<Rightarrow> byte list \<Rightarrow> ma_error + byte list \<times> byte list" where
  "split_header n input =
     (if length input < n then Err DataLessThanLen else Ok (take n input, drop n input))"

definition len_prefixed :: "varint_ops \<Rightarrow> byte list \<Rightarrow> ma_error + byte list \<times> byte list" where
  "len_prefixed V input =
     and_then (map_err InvalidUvar (dec_usize V input)) (\<lambda>(n, input). split_header (unat n) input)"

definition from_utf8 :: "byte list \<Rightarrow> ma_error + str" where
  "from_utf8 data = (if utf8_valid data then Ok data else Err (ParsingError BadUtf8))"

definition read_segments :: "buf_ops \<Rightarrow> byte list \<Rightarrow> u16 list" where
  "read_segments B data = map (\<lambda>i. get_u16 B (take 2 (drop (2 * i) data))) [0..<8]"

definition from_bytes :: "varint_ops \<Rightarrow> buf_ops \<Rightarrow> byte list \<Rightarrow> ma_error + protocol \<times> byte list" where
  "from_bytes V B input =
     and_then (map_err InvalidUvar (dec_u32 V input)) (\<lambda>(id, input).
       if id = DNS4 then
         and_then (len_prefixed V input) (\<lambda>(data, rest).
         and_then (from_utf8 data) (\<lambda>s. Ok (Dns4 s, rest)))
       else if id = DNS6 then
         and_then (len_prefixed V input) (\<lambda>(data, rest).
         and_then (from_utf8 data) (\<lambda>s. Ok (Dns6 s, rest)))
       else if id = IP4 then
         and_then (split_header 4 input) (\<lambda>(data, rest).
           Ok (Ip4 (Ipv4 (data ! 0) (data ! 1) (data ! 2) (data ! 3)), rest))
       else if id = IP6 then
         and_then (split_header 16 input) (\<lambda>(data, rest).
           let seg = read_segments B data in
           Ok (Ip6 (Ipv6 (seg ! 0) (seg ! 1) (seg ! 2) (seg ! 3) (seg ! 4) (seg ! 5) (seg ! 6) (seg ! 7)), rest))
       else if id = TLS then
         and_then (len_prefixed V input) (\<lambda>(data, rest).
         and_then (from_utf8 data) (\<lambda>s. Ok (Tls s, rest)))
       else if id = P2P_ID then
         and_then (len_prefixed V input) (\<lambda>(data, rest).
         and_then (check_p2p V data) (\<lambda>_. Ok (P2P data, rest)))
       else if id = TCP then
         and_then (split_header 2 input) (\<lambda>(data, rest). Ok (Tcp (get_u16 B data), rest))
       else if id = WS then Ok (Ws, input)
       else if id = WSS then Ok (Wss, input)
       else if id = MEMORY then
         and_then (split_header 8 input) (\<lambda>(data, rest). Ok (Memory (get_u64 B data), rest))
       else Err (UnknownProtocolId id))"

definition len_prefix :: "varint_ops \<Rightarrow> byte list \<Rightarrow> byte list" where
  "len_prefix V bs = enc_usize V (of_nat (length bs)) @ bs"

text \<open>\<open>write_to_bytes\<close> appends to what the writer holds.\<close>

definition write_to_bytes :: "varint_ops \<Rightarrow> buf_ops \<Rightarrow> protocol \<Rightarrow> byte list \<Rightarrow> byte list" where
  "write_to_bytes V B p w =
     (case p of
        Dns4 s \<Rightarrow> w @ enc_u32 V DNS4 @ len_prefix V s
      | Dns6 s \<Rightarrow> w @ enc_u32 V DNS6 @ len_prefix V s
      | Ip4 a \<Rightarrow> w @ enc_u32 V IP4 @ octets a
      | Ip6 a \<Rightarrow> w @ enc_u32 V IP6 @ concat (map (put_u16 B) (segments a))
      | Tcp port \<Rightarrow> w @ enc_u32 V TCP @ put_u16 B port
      | Tls s \<Rightarrow> w @ enc_u32 V TLS @ len_prefix V s
      | P2P b \<Rightarrow> w @ enc_u32 V P2P_ID @ len_prefix V b
      | Ws \<Rightarrow> w @ enc_u32 V WS
      | Wss \<Rightarrow> w @ enc_u32 V WSS
      | Memory port \<Rightarrow> w @ enc_u32 V MEMORY @ put_u64 B port)"

definition show_protocol :: "text_ops \<Rightarrow> protocol \<Rightarrow> str" where
  "show_protocol T p =
     (case p of
        Dns4 s \<Rightarrow> lit ''/dns4/'' @ s
      | Dns6 s \<Rightarrow> lit ''/dns6/'' @ s
      | Ip4 a \<Rightarrow> lit ''/ip4/'' @ show_ipv4 a
      | Ip6 a \<Rightarrow> lit ''/ip6/'' @ show_ipv6 a
      | P2P c \<Rightarrow> lit ''/p2p/'' @ b58_encode T c
      | Tcp port \<Rightarrow> lit ''/tcp/'' @ show_radix 10 (unat port)
      | Tls s \<Rightarrow> lit ''/tls/'' @ s
      | Ws \<Rightarrow> lit ''/ws''
      | Wss \<Rightarrow> lit ''/wss''
      | Memory port \<Rightarrow> lit ''/memory/'' @ show_radix 10 (unat port))"

section \<open>Addresses\<close>

record multiaddr =
  ma_bytes :: "byte list"

definition ma_is_empty :: "multiaddr \<Rightarrow> bool" where
  "ma_is_empty a \<longleftrightarrow> ma_bytes a = []"

definition ma_len :: "multiaddr \<Rightarrow> nat" where
  "ma_len a = length (ma_bytes a)"

definition push :: "varint_ops \<Rightarrow> buf_ops \<Rightarrow> protocol \<Rightarrow> multiaddr \<Rightarrow> multiaddr" where
  "push V B p a = a\<lparr>ma_bytes := write_to_bytes V B p (ma_bytes a)\<rparr>"

partial_function (option) pop_loop :: "varint_ops \<Rightarrow> buf_ops \<Rightarrow> byte list \<Rightarrow> (protocol \<times> byte list) option" where
  "pop_loop V B sl =
     (case from_bytes V B sl of
        Inl _ \<Rightarrow> None
      | Inr (p, s) \<Rightarrow> if s = [] then Some (p, sl) else pop_loop V B s)"

definition pop :: "varint_ops \<Rightarrow> buf_ops \<Rightarrow> multiaddr \<Rightarrow> (multiaddr \<times> protocol option) option" where
  "pop V B a =
     (if ma_bytes a = [] then Some (a, None)
      else case pop_loop V B (ma_bytes a) of
             None \<Rightarrow> None
           | Some (p, sl) \<Rightarrow>
               Some (a\<lparr>ma_bytes := take (length (ma_bytes a) - length sl) (ma_bytes a)\<rparr>, Some p))"

text \<open>The iterator: one step, and the list of all its items.\<close>

definition iter_next :: "varint_ops \<Rightarrow> buf_ops \<Rightarrow> byte list \<Rightarrow> (byte list \<times> protocol option) option" where
  "iter_next V B it =
     (if it = [] then Some (it, None)
      else case from_bytes V B it of
             Inl _ \<Rightarrow> None
           | Inr (p, next_data) \<Rightarrow> Some (next_data, Some p))"

partial_function (option) iter_all :: "varint_ops \<Rightarrow> buf_ops \<Rightarrow> byte list \<Rightarrow> protocol list option" where
  "iter_all V B it =
     (case iter_next V B it of
        None \<Rightarrow> None
      | Some (_, None) \<Rightarrow> Some []
      | Some (it', Some p) \<Rightarrow> Option.bind (iter_all V B it') (\<lambda>ps. Some (p # ps)))"

definition iter :: "varint_ops \<Rightarrow> buf_ops \<Rightarrow> multiaddr \<Rightarrow> protocol list option" where
  "iter V B a = iter_all V B (ma_bytes a)"

partial_function (option) replace_loop ::
    "varint_ops \<Rightarrow> buf_ops \<Rightarrow> nat \<Rightarrow> (protocol \<Rightarrow> protocol option) \<Rightarrow> nat \<Rightarrow> byte list \<Rightarrow> byte list \<Rightarrow> bool \<Rightarrow>
       multiaddr option option" where
  "replace_loop V B at fn i it address replaced =
     (case iter_next V B it of
        None \<Rightarrow> None
      | Some (_, None) \<Rightarrow> Some (if replaced then Some \<lparr>ma_bytes = address\<rparr> else None)
      | Some (it', Some p) \<Rightarrow>
          if i = at then
            (case fn p of
               Some q \<Rightarrow> replace_loop V B at fn (Suc i) it' (write_to_bytes V B q address) True
             | None \<Rightarrow> Some None)
          else replace_loop V B at fn (Suc i) it' (write_to_bytes V B p address) replaced)"

definition replace :: "varint_ops \<Rightarrow> buf_ops \<Rightarrow> multiaddr \<Rightarrow> nat \<Rightarrow> (protocol \<Rightarrow> protocol option) \<Rightarrow> multiaddr option option" where
  "replace V B a at fn = replace_loop V B at fn 0 (ma_bytes a) [] False"

definition from_iter :: "varint_ops \<Rightarrow> buf_ops \<Rightarrow> protocol list \<Rightarrow> multiaddr" where
  "from_iter V B ps = \<lparr>ma_bytes = fold (write_to_bytes V B) ps []\<rparr>"

definition from_protocol :: "varint_ops \<Rightarrow> buf_ops \<Rightarrow> protocol \<Rightarrow> multiaddr" where
  "from_protocol V B p = \<lparr>ma_bytes = write_to_bytes V B p []\<rparr>"

text \<open>\<open>TryFrom<Bytes>\<close>: the loop that reads all segments.\<close>

partial_function (option) check_loop :: "varint_ops \<Rightarrow> buf_ops \<Rightarrow> byte list \<Rightarrow> (ma_error + unit) option" where
  "check_loop V B sl =
     (if sl = [] then Some (Ok ())
      else case from_bytes V B sl of
             Inl e \<Rightarrow> Some (Err e)
           | Inr (_, s) \<Rightarrow> check_loop V B s)"

definition try_from :: "varint_ops \<Rightarrow> buf_ops \<Rightarrow> byte list \<Rightarrow> (ma_error + multiaddr) option" where
  "try_from V B v =
     map_option (\<lambda>r. and_then r (\<lambda>_. Ok \<lparr>ma_bytes = v\<rparr>)) (check_loop V B v)"

text \<open>\<open>FromStr\<close> and \<open>Display\<close>.\<close>

lemma from_str_peek_shrinks:
  "from_str_peek V T parts = Inr (p, rest) \<Longrightarrow> length rest < length parts"
  by (auto simp: from_str_peek_def next_part_def and_then_eq_Inr split: if_splits list.splits prod.splits)

function from_str_loop :: "varint_ops \<Rightarrow> buf_ops \<Rightarrow> text_ops \<Rightarrow> str list \<Rightarrow> byte list \<Rightarrow> ma_error + byte list" where
  "from_str_loop V B T parts writer =
     (if parts = [] then Ok writer
      else case from_str_peek V T parts of
             Inl e \<Rightarrow> Err e
           | Inr (p, rest) \<Rightarrow> from_str_loop V B T rest (write_to_bytes V B p writer))"
  by pat_completeness auto
termination
  by (relation "measure (\<lambda>(V, B, T, parts, w). length parts)") (auto dest: from_str_peek_shrinks)

declare from_str_loop.simps [simp del]

definition from_str :: "varint_ops \<Rightarrow> buf_ops \<Rightarrow> text_ops \<Rightarrow> str \<Rightarrow> ma_error + multiaddr" where
  "from_str V B T input =
     (case split_on 47 input of
        first # parts \<Rightarrow>
          if first \<noteq> [] then Err InvalidMultiaddr
          else and_then (from_str_loop V B T parts []) (\<lambda>bs. Ok \<lparr>ma_bytes = bs\<rparr>)
      | [] \<Rightarrow> Err InvalidMultiaddr)"

definition to_string :: "varint_ops \<Rightarrow> buf_ops \<Rightarrow> text_ops \<Rightarrow> multiaddr \<Rightarrow> str option" where
  "to_string V B T a = map_option (\<lambda>ps. concat (map (show_protocol T) ps)) (iter V B a)"

text \<open>
  \<open>Serialize\<close> and \<open>Deserialize\<close>: what a format is given and what it may hand to the visitor.
\<close>

datatype serde_value = SerStr str | SerBytes "byte list" | SerSeq "byte list"

datatype serde_error = Custom ma_error | CustomUtf8

definition serialize :: "varint_ops \<Rightarrow> buf_ops \<Rightarrow> text_ops \<Rightarrow> bool \<Rightarrow> multiaddr \<Rightarrow> serde_value option" where
  "serialize V B T human a =
     (if human then map_option SerStr (to_string V B T a) else Some (SerBytes (ma_bytes a)))"

definition deserialize :: "varint_ops \<Rightarrow> buf_ops \<Rightarrow> text_ops \<Rightarrow> bool \<Rightarrow> serde_value \<Rightarrow> (serde_error + multiaddr) option" where
  "deserialize V B T human v =
     (case v of
        SerStr s \<Rightarrow> Some (map_err Custom (from_str V B T s))
      | SerBytes b \<Rightarrow> map_option (map_err Custom) (try_from V B b)
      | SerSeq buf \<Rightarrow>
          if human then
            if utf8_valid buf then Some (map_err Custom (from_str V B T buf)) else Some (Err CustomUtf8)
          else map_option (map_err Custom) (try_from V B buf))"

section \<open>Contracts of the parameters\<close>

text \<open>
  \<open>unsigned-varint\<close>: a decoder accepts exactly the (minimal) encodings and returns the rest.
\<close>

locale varint =
  fixes V :: varint_ops
  assumes dec_u16_iff: "dec_u16 V bs = Ok (x, r) \<longleftrightarrow> bs = enc_u16 V x @ r"
    and dec_u32_iff: "dec_u32 V bs = Ok (y, r) \<longleftrightarrow> bs = enc_u32 V y @ r"
    and dec_usize_iff: "dec_usize V bs = Ok (z, r) \<longleftrightarrow> bs = enc_usize V z @ r"
    and enc_u32_ne: "enc_u32 V y \<noteq> []"
    and enc_u16_len: "length (enc_u16 V x) \<le> 3"
begin

lemma dec_enc [simp]:
  "dec_u32 V (enc_u32 V y @ r) = Ok (y, r)"
  "dec_u32 V (enc_u32 V y) = Ok (y, [])"
  "dec_usize V (enc_usize V z @ r) = Ok (z, r)"
  using dec_u32_iff [of "enc_u32 V y" y "[]"] by (simp_all add: dec_u32_iff dec_usize_iff)

lemma len_prefixed_prefix:
  "length s < 2 ^ 64 \<Longrightarrow> len_prefixed V (len_prefix V s @ r) = Ok (s, r)"
  by (simp add: len_prefixed_def len_prefix_def split_header_def unat_of_nat_lt)

lemma len_prefixed_Ok:
  assumes "len_prefixed V bs = Ok (d, r)"
  shows "bs = len_prefix V d @ r \<and> length d < 2 ^ 64"
proof -
  obtain n rest where "bs = enc_usize V n @ rest" and sp: "split_header (unat n) rest = Ok (d, r)"
    using assms by (auto simp: len_prefixed_def and_then_eq_Inr dec_usize_iff)
  moreover have "rest = d @ r \<and> length d = unat n"
    using sp by (auto simp: split_header_def split: if_splits)
  moreover have "unat n < 2 ^ 64" using unat_lt [of n] by simp
  moreover have "of_nat (unat n) = n" by simp
  ultimately show ?thesis by (metis append.assoc len_prefix_def)
qed

lemma check_p2p_iff:
  "check_p2p V data = Ok () \<longleftrightarrow>
     (\<exists>hash. data = enc_u16 V SHA256_CODE @ SHA256_SIZE # hash \<and> length hash = 32)"
proof -
  have "check_p2p V data = Ok () \<longleftrightarrow>
      (\<exists>bs. dec_u16 V data = Ok (SHA256_CODE, bs) \<and> length bs = 33 \<and> hd bs = SHA256_SIZE)"
    by (auto simp: check_p2p_def and_then_eq_Inr SHA256_SIZE_def split: if_splits)
  also have "\<dots> \<longleftrightarrow> (\<exists>hash. data = enc_u16 V SHA256_CODE @ SHA256_SIZE # hash \<and> length hash = 32)"
  proof
    assume "\<exists>bs. dec_u16 V data = Ok (SHA256_CODE, bs) \<and> length bs = 33 \<and> hd bs = SHA256_SIZE"
    then obtain bs where "data = enc_u16 V SHA256_CODE @ bs" "length bs = 33" "hd bs = SHA256_SIZE"
      by (auto simp: dec_u16_iff)
    then show "\<exists>hash. data = enc_u16 V SHA256_CODE @ SHA256_SIZE # hash \<and> length hash = 32"
      by (cases bs) auto
  qed (auto simp: dec_u16_iff)
  finally show ?thesis .
qed

end

text \<open>\<open>bs58\<close>: decoding inverts encoding, and the alphabet has no slash.\<close>

locale base58 =
  fixes T :: text_ops
  assumes b58_dec_enc: "b58_decode T (b58_encode T bs) = Some bs"
    and b58_no_slash: "47 \<notin> set (b58_encode T bs)"

section \<open>The binary form\<close>

definition wf_protocol :: "varint_ops \<Rightarrow> protocol \<Rightarrow> bool" where
  "wf_protocol V p \<longleftrightarrow>
     (case p of
        Dns4 s \<Rightarrow> utf8_valid s \<and> length s < 2 ^ 64
      | Dns6 s \<Rightarrow> utf8_valid s \<and> length s < 2 ^ 64
      | Tls s \<Rightarrow> utf8_valid s \<and> length s < 2 ^ 64
      | P2P b \<Rightarrow> check_p2p V b = Ok () \<and> length b < 2 ^ 64
      | _ \<Rightarrow> True)"

definition seg_enc :: "varint_ops \<Rightarrow> buf_ops \<Rightarrow> protocol \<Rightarrow> byte list" where
  "seg_enc V B p = write_to_bytes V B p []"

definition seg_dec :: "varint_ops \<Rightarrow> buf_ops \<Rightarrow> byte list \<Rightarrow> (protocol \<times> byte list) option" where
  "seg_dec V B bs = (case from_bytes V B bs of Inr x \<Rightarrow> Some x | Inl _ \<Rightarrow> None)"

lemma write_to_bytes_append: "write_to_bytes V B p w = w @ seg_enc V B p"
  by (cases p) (simp_all add: write_to_bytes_def seg_enc_def)

lemma fold_write: "fold (write_to_bytes V B) ps w = w @ concat (map (seg_enc V B) ps)"
  by (induction ps arbitrary: w) (simp_all add: write_to_bytes_append)

lemma split_header_Ok: "split_header n input = Ok (d, r) \<Longrightarrow> input = d @ r \<and> length d = n"
  by (auto simp: split_header_def split: if_splits)

lemma concat_chunks: "concat (map (\<lambda>i. take 2 (drop (2 * i) xs)) [0..<n]) = take (2 * n) xs"
  by (induction n) (simp_all add: take_add [symmetric] add.commute)

lemma segments_nth:
  "length l = 8 \<Longrightarrow> segments (Ipv6 (l ! 0) (l ! 1) (l ! 2) (l ! 3) (l ! 4) (l ! 5) (l ! 6) (l ! 7)) = l"
  by (auto simp: length_Suc_conv eval_nat_numeral)

lemma Ipv6_segments:
  "Ipv6 (segments a ! 0) (segments a ! 1) (segments a ! 2) (segments a ! 3)
        (segments a ! 4) (segments a ! 5) (segments a ! 6) (segments a ! 7) = a"
  by (cases a) simp

lemma octets_nth: "length l = 4 \<Longrightarrow> octets (Ipv4 (l ! 0) (l ! 1) (l ! 2) (l ! 3)) = l"
  by (auto simp: length_Suc_conv eval_nat_numeral)

lemma length_read_segments [simp]: "length (read_segments B data) = 8"
  by (simp add: read_segments_def)

locale address_format = byte_order B + varint V for B V
begin

lemma read_segments_put: "read_segments B (concat (map (put_u16 B) (segments a)) @ r) = segments a"
  by (cases a) (simp add: read_segments_def upt_rec)

lemma put_read_segments:
  assumes "length data = 16"
  shows "concat (map (put_u16 B) (read_segments B data)) = data"
proof -
  have "put_u16 B (get_u16 B (take 2 (drop (2 * i) data))) = take 2 (drop (2 * i) data)" if "i < 8" for i
    using that assms by (intro put_get_u16) simp
  then have "map (put_u16 B) (read_segments B data) = map (\<lambda>i. take 2 (drop (2 * i) data)) [0..<8]"
    by (simp add: read_segments_def)
  with concat_chunks [of data 8] assms show ?thesis by simp
qed

lemma from_bytes_enc: "wf_protocol V p \<Longrightarrow> from_bytes V B (seg_enc V B p @ r) = Ok (p, r)"
proof (cases p)
  case (Ip6 a)
  have len: "length (concat (map (put_u16 B) (segments a))) = 16" by (cases a) simp
  then have "split_header 16 (concat (map (put_u16 B) (segments a)) @ r)
      = Ok (concat (map (put_u16 B) (segments a)), r)"
    by (simp add: split_header_def)
  moreover have "read_segments B (concat (map (put_u16 B) (segments a))) = segments a"
    using read_segments_put [of a "[]"] by simp
  ultimately show ?thesis
    using Ipv6_segments [of a]
    by (simp add: Ip6 seg_enc_def write_to_bytes_def from_bytes_def protocol_ids Let_def)
next
  case (Ip4 a)
  then show ?thesis
    by (cases a) (simp add: seg_enc_def write_to_bytes_def from_bytes_def protocol_ids split_header_def)
qed (simp_all add: seg_enc_def write_to_bytes_def from_bytes_def protocol_ids len_prefixed_prefix wf_protocol_def
      from_utf8_def split_header_def)

lemma from_bytes_Ok:
  assumes "from_bytes V B bs = Ok (p, r)"
  shows "wf_protocol V p \<and> bs = seg_enc V B p @ r"
proof -
  obtain id input where bs: "bs = enc_u32 V id @ input"
    using assms by (auto simp: from_bytes_def and_then_eq_Inr dec_u32_iff)
  note run = assms [unfolded bs from_bytes_def, simplified]
  have "id \<in> {DNS4, DNS6, IP4, IP6, TLS, P2P_ID, TCP, WS, WSS, MEMORY}"
    by (rule ccontr) (use run in simp)
  then consider "id = DNS4" | "id = DNS6" | "id = IP4" | "id = IP6" | "id = TLS" | "id = P2P_ID" | "id = TCP"
    | "id = WS" | "id = WSS" | "id = MEMORY" by blast
  then show ?thesis
  proof cases
    assume id: "id = IP4"
    with run show ?thesis
      by (auto simp: bs protocol_ids and_then_eq_Inr wf_protocol_def seg_enc_def write_to_bytes_def octets_nth [simplified]
          dest!: split_header_Ok)
  next
    assume id: "id = IP6"
    with run show ?thesis
      by (auto simp: bs protocol_ids and_then_eq_Inr wf_protocol_def seg_enc_def write_to_bytes_def Let_def
          segments_nth [unfolded One_nat_def] put_read_segments simp del: segments.simps dest!: split_header_Ok)
  next
    assume id: "id = P2P_ID"
    with run show ?thesis
      by (auto simp: bs protocol_ids and_then_eq_Inr wf_protocol_def seg_enc_def write_to_bytes_def
          dest!: len_prefixed_Ok)
  next
    assume id: "id = TCP"
    with run show ?thesis
      by (auto simp: bs protocol_ids and_then_eq_Inr wf_protocol_def seg_enc_def write_to_bytes_def put_get_u16
          dest!: split_header_Ok)
  next
    assume id: "id = MEMORY"
    with run show ?thesis
      by (auto simp: bs protocol_ids and_then_eq_Inr wf_protocol_def seg_enc_def write_to_bytes_def put_get_u64
          dest!: split_header_Ok)
  qed (use run in \<open>auto simp: bs protocol_ids and_then_eq_Inr wf_protocol_def seg_enc_def write_to_bytes_def
      from_utf8_def dest!: len_prefixed_Ok split: if_splits\<close>)
qed

lemma seg_enc_ne: "seg_enc V B p \<noteq> []"
  using enc_u32_ne by (cases p) (simp_all add: seg_enc_def write_to_bytes_def)

end

sublocale address_format \<subseteq> segs: wire_codec "seg_enc V B" "seg_dec V B" "wf_protocol V"
proof
  show "seg_dec V B (seg_enc V B p @ r) = Some (p, r)" if "wf_protocol V p" for p r
    using from_bytes_enc [OF that] by (simp add: seg_dec_def)
  show "length r < length bs" if "seg_dec V B bs = Some (p, r)" for bs p r
    using that from_bytes_Ok [of bs p r] seg_enc_ne [of p] by (auto simp: seg_dec_def split: sum.splits)
qed

section \<open>Addresses and the segments they denote\<close>

definition denotes :: "varint_ops \<Rightarrow> buf_ops \<Rightarrow> multiaddr \<Rightarrow> protocol list \<Rightarrow> bool" where
  "denotes V B a ps \<longleftrightarrow> list_all (wf_protocol V) ps \<and> ma_bytes a = concat (map (seg_enc V B) ps)"

definition valid_bytes :: "varint_ops \<Rightarrow> buf_ops \<Rightarrow> byte list \<Rightarrow> bool" where
  "valid_bytes V B bs \<longleftrightarrow> (\<exists>ps. denotes V B \<lparr>ma_bytes = bs\<rparr> ps)"

lemma valid_bytes_alt:
  "valid_bytes V B bs \<longleftrightarrow> (\<exists>ps. list_all (wf_protocol V) ps \<and> bs = concat (map (seg_enc V B) ps))"
  by (simp add: valid_bytes_def denotes_def)

lemma valid_bytes_denotes: "valid_bytes V B (ma_bytes a) \<longleftrightarrow> (\<exists>ps. denotes V B a ps)"
  by (simp add: valid_bytes_def denotes_def)

context address_format
begin

lemma denotes_unique: "denotes V B a ps \<Longrightarrow> denotes V B a qs \<Longrightarrow> ps = qs"
  using segs.concat_enc_inj by (simp add: denotes_def)

lemma iter_next_enc:
  "wf_protocol V p \<Longrightarrow> iter_next V B (seg_enc V B p @ r) = Some (r, Some p)"
  using seg_enc_ne [of p] by (simp add: iter_next_def from_bytes_enc)

lemma iter_next_Nil: "iter_next V B [] = Some ([], None)"
  by (simp add: iter_next_def)

lemma iter_all_enc: "list_all (wf_protocol V) ps \<Longrightarrow> iter_all V B (concat (map (seg_enc V B) ps)) = Some ps"
proof (induction ps)
  case Nil
  then show ?case by (subst iter_all.simps) (simp add: iter_next_Nil)
next
  case (Cons p ps)
  then show ?case by (subst iter_all.simps) (simp add: iter_next_enc)
qed

lemma iter_denotes: "denotes V B a ps \<Longrightarrow> iter V B a = Some ps"
  by (simp add: denotes_def iter_def iter_all_enc)

lemma pop_loop_enc:
  "list_all (wf_protocol V) ps \<Longrightarrow> wf_protocol V p \<Longrightarrow>
     pop_loop V B (concat (map (seg_enc V B) ps) @ seg_enc V B p) = Some (p, seg_enc V B p)"
proof (induction ps)
  case Nil
  then show ?case using from_bytes_enc [of p "[]"] by (subst pop_loop.simps) simp
next
  case (Cons q ps)
  then show ?case using seg_enc_ne [of p] by (subst pop_loop.simps) (simp add: from_bytes_enc)
qed

lemma pop_denotes:
  assumes "denotes V B a (ps @ [p])"
  shows "\<exists>a'. pop V B a = Some (a', Some p) \<and> denotes V B a' ps"
proof -
  have wf: "list_all (wf_protocol V) ps" "wf_protocol V p"
    and a: "ma_bytes a = concat (map (seg_enc V B) ps) @ seg_enc V B p"
    using assms by (auto simp: denotes_def)
  from pop_loop_enc [OF wf] seg_enc_ne [of p] wf(1) show ?thesis
    by (simp add: pop_def a denotes_def)
qed

lemma push_denotes:
  "denotes V B a ps \<Longrightarrow> wf_protocol V p \<Longrightarrow> denotes V B (push V B p a) (ps @ [p])"
  by (simp add: denotes_def push_def write_to_bytes_append)

lemma from_iter_denotes: "list_all (wf_protocol V) ps \<Longrightarrow> denotes V B (from_iter V B ps) ps"
  by (simp add: denotes_def from_iter_def fold_write)

lemma replace_loop_done:
  "list_all (wf_protocol V) ps \<Longrightarrow> at < i \<Longrightarrow>
     replace_loop V B at fn i (concat (map (seg_enc V B) ps)) w rep
       = Some (if rep then Some \<lparr>ma_bytes = w @ concat (map (seg_enc V B) ps)\<rparr> else None)"
proof (induction ps arbitrary: i w)
  case Nil
  then show ?case by (subst replace_loop.simps) (simp add: iter_next_Nil)
next
  case (Cons p ps)
  then show ?case by (subst replace_loop.simps) (simp add: iter_next_enc write_to_bytes_append)
qed

lemma replace_loop_enc:
  "list_all (wf_protocol V) ps \<Longrightarrow>
     replace_loop V B (i + k) fn i (concat (map (seg_enc V B) ps)) w False
       = Some (if k < length ps
               then map_option (\<lambda>q. \<lparr>ma_bytes = w @ concat (map (seg_enc V B) (ps[k := q]))\<rparr>) (fn (ps ! k))
               else None)"
proof (induction ps arbitrary: i k w)
  case Nil
  then show ?case by (subst replace_loop.simps) (simp add: iter_next_Nil)
next
  case (Cons p ps)
  show ?case
  proof (cases k)
    case 0
    with Cons.prems show ?thesis
      by (subst replace_loop.simps)
        (simp add: iter_next_enc replace_loop_done write_to_bytes_append split: option.splits)
  next
    case (Suc m)
    with Cons.prems Cons.IH [of "Suc i" m "w @ seg_enc V B p"] show ?thesis
      by (subst replace_loop.simps) (simp add: iter_next_enc write_to_bytes_append)
  qed
qed

lemma replace_denotes:
  assumes "denotes V B a ps"
  shows "replace V B a at fn =
           Some (if at < length ps then map_option (\<lambda>q. from_iter V B (ps[at := q])) (fn (ps ! at)) else None)"
  using replace_loop_enc [of ps 0 at fn "[]"] assms
  by (auto simp: denotes_def replace_def from_iter_def fold_write)

lemma valid_bytes_unfold:
  assumes "bs \<noteq> []"
  shows "valid_bytes V B bs \<longleftrightarrow> (\<exists>p r. from_bytes V B bs = Ok (p, r) \<and> valid_bytes V B r)"
proof
  assume "valid_bytes V B bs"
  then obtain ps where ps: "list_all (wf_protocol V) ps" "bs = concat (map (seg_enc V B) ps)"
    by (auto simp: valid_bytes_alt)
  with assms obtain p qs where "ps = p # qs" by (cases ps) auto
  with ps show "\<exists>p r. from_bytes V B bs = Ok (p, r) \<and> valid_bytes V B r"
    by (auto simp: valid_bytes_alt from_bytes_enc)
next
  assume "\<exists>p r. from_bytes V B bs = Ok (p, r) \<and> valid_bytes V B r"
  then obtain p r ps where "from_bytes V B bs = Ok (p, r)" "list_all (wf_protocol V) ps"
    "r = concat (map (seg_enc V B) ps)" by (auto simp: valid_bytes_alt)
  with from_bytes_Ok show "valid_bytes V B bs"
    by (auto simp: valid_bytes_alt intro!: exI [of _ "p # ps"])
qed

lemma check_loop_total: "\<exists>r. check_loop V B bs = Some r \<and> (r = Ok () \<longleftrightarrow> valid_bytes V B bs)"
proof (induction bs rule: length_induct)
  case (1 bs)
  show ?case
  proof (cases "bs = []")
    case True
    then show ?thesis by (subst check_loop.simps) (auto simp: valid_bytes_alt intro: exI [of _ "[]"])
  next
    case ne: False
    show ?thesis
    proof (cases "from_bytes V B bs")
      case (Inl e)
      with ne valid_bytes_unfold [OF ne] show ?thesis by (subst check_loop.simps) simp
    next
      case (Inr x)
      obtain p r where x: "x = (p, r)" by fastforce
      have "bs = seg_enc V B p @ r" using from_bytes_Ok Inr x by auto
      then have "length r < length bs" using seg_enc_ne [of p] by simp
      with 1 obtain q where "check_loop V B r = Some q" "q = Ok () \<longleftrightarrow> valid_bytes V B r" by blast
      with Inr x ne valid_bytes_unfold [OF ne] show ?thesis by (subst check_loop.simps) simp
    qed
  qed
qed

lemma try_from_iff:
  "\<exists>r. try_from V B bs = Some r \<and> (r = Ok a \<longleftrightarrow> valid_bytes V B bs \<and> a = \<lparr>ma_bytes = bs\<rparr>)"
  using check_loop_total [of bs] by (auto simp: try_from_def and_then_eq_Inr)

end

section \<open>The textual form\<close>

text \<open>The slash-separated parts of a printed segment.\<close>

definition proto_parts :: "text_ops \<Rightarrow> protocol \<Rightarrow> str list" where
  "proto_parts T p =
     (case p of
        Dns4 s \<Rightarrow> [lit ''dns4'', s]
      | Dns6 s \<Rightarrow> [lit ''dns6'', s]
      | Ip4 a \<Rightarrow> [lit ''ip4'', show_ipv4 a]
      | Ip6 a \<Rightarrow> [lit ''ip6'', show_ipv6 a]
      | P2P c \<Rightarrow> [lit ''p2p'', b58_encode T c]
      | Tcp port \<Rightarrow> [lit ''tcp'', show_radix 10 (unat port)]
      | Tls s \<Rightarrow> [lit ''tls'', s]
      | Ws \<Rightarrow> [lit ''ws'']
      | Wss \<Rightarrow> [lit ''wss'']
      | Memory port \<Rightarrow> [lit ''memory'', show_radix 10 (unat port)])"

text \<open>Names without a slash.\<close>

definition text_ok :: "protocol \<Rightarrow> bool" where
  "text_ok p \<longleftrightarrow> (case p of Dns4 s \<Rightarrow> 47 \<notin> set s | Dns6 s \<Rightarrow> 47 \<notin> set s | Tls s \<Rightarrow> 47 \<notin> set s | _ \<Rightarrow> True)"

lemma show_protocol_parts: "show_protocol T p = concat (map ((#) 47) (proto_parts T p))"
  by (cases p) (simp_all add: show_protocol_def proto_parts_def lit_def)

context base58
begin

lemma proto_parts_no_slash: "text_ok p \<Longrightarrow> list_all (\<lambda>q. 47 \<notin> set q) (proto_parts T p)"
  using show_ipv4_chars show_ipv6_chars b58_no_slash show_radix_chars [of 10 47]
  by (cases p) (auto simp: proto_parts_def text_ok_def lit_def)

lemma from_str_peek_parts:
  assumes "wf_protocol V p"
  shows "from_str_peek V T (proto_parts T p @ rest) = Ok (p, rest)"
  using assms parse_uint_show [of "unat port" "2 ^ 16" for port :: u16]
    parse_uint_show [of "unat port" "2 ^ 64" for port :: u64] unat_lt [of port for port :: u16]
    unat_lt [of port for port :: u64]
  by (cases p) (simp_all add: from_str_peek_def proto_parts_def next_part_def parse_show_ipv4 parse_show_ipv6
      b58_dec_enc wf_protocol_def lit_def)

lemma from_str_loop_parts:
  "list_all (wf_protocol V) ps \<Longrightarrow>
     from_str_loop V B T (concat (map (proto_parts T) ps)) w = Ok (w @ concat (map (seg_enc V B) ps))"
proof (induction ps arbitrary: w)
  case Nil
  then show ?case by (subst from_str_loop.simps) simp
next
  case (Cons p ps)
  have "proto_parts T p \<noteq> []" by (cases p) (simp_all add: proto_parts_def)
  with Cons show ?case
    by (subst from_str_loop.simps) (simp add: from_str_peek_parts write_to_bytes_append)
qed

lemma split_shown:
  assumes "list_all text_ok ps"
  shows "split_on 47 (concat (map (show_protocol T) ps)) = [] # concat (map (proto_parts T) ps)"
proof -
  have "concat (map (show_protocol T) ps) = [] @ concat (map ((#) 47) (concat (map (proto_parts T) ps)))"
    by (induction ps) (simp_all add: show_protocol_parts)
  moreover have "list_all (\<lambda>q. 47 \<notin> set q) (concat (map (proto_parts T) ps))"
    using assms by (induction ps) (auto simp: proto_parts_no_slash)
  ultimately show ?thesis using split_on_joined [of 47 "[]"] by (simp del: append_Nil)
qed

end

text \<open>What the text parser accepts is a well-formed segment.\<close>

definition parts_ok :: "str list \<Rightarrow> bool" where
  "parts_ok parts \<longleftrightarrow> list_all (\<lambda>s. utf8_valid s \<and> length s < 2 ^ 64) parts"

context address_format
begin

lemma check_p2p_len: "check_p2p V b = Ok () \<Longrightarrow> length b < 2 ^ 64"
  using enc_u16_len [of SHA256_CODE] by (auto simp: check_p2p_iff)

lemma from_str_peek_wf:
  assumes "from_str_peek V T parts = Ok (p, rest)" "parts_ok parts"
  shows "wf_protocol V p \<and> parts_ok rest"
  using assms check_p2p_len
  by (auto simp: from_str_peek_def next_part_def and_then_eq_Inr wf_protocol_def parts_ok_def
      split: if_splits list.splits)

lemma valid_bytes_write: "valid_bytes V B w \<Longrightarrow> wf_protocol V p \<Longrightarrow> valid_bytes V B (write_to_bytes V B p w)"
  using push_denotes [of "\<lparr>ma_bytes = w\<rparr>" _ p] by (auto simp: valid_bytes_def push_def)

lemma from_str_loop_valid:
  "from_str_loop V B T parts w = Ok bs \<Longrightarrow> parts_ok parts \<Longrightarrow> valid_bytes V B w \<Longrightarrow> valid_bytes V B bs"
proof (induction parts arbitrary: w rule: length_induct)
  case (1 parts)
  show ?case
  proof (cases "parts = []")
    case True
    with 1 show ?thesis by (simp add: from_str_loop.simps)
  next
    case False
    then obtain p rest where peek: "from_str_peek V T parts = Ok (p, rest)"
      and loop: "from_str_loop V B T rest (write_to_bytes V B p w) = Ok bs"
      using "1.prems"(1) by (subst (asm) from_str_loop.simps) (auto split: sum.splits)
    have wf: "wf_protocol V p" "parts_ok rest" using from_str_peek_wf [OF peek] 1 by auto
    have "valid_bytes V B (write_to_bytes V B p w)" by (rule valid_bytes_write) (use 1 wf in auto)
    with "1.IH" from_str_peek_shrinks [OF peek] loop wf show ?thesis by blast
  qed
qed

lemma from_str_valid:
  assumes "from_str V B T s = Ok a" "utf8_valid s" "length s < 2 ^ 64"
  shows "valid_bytes V B (ma_bytes a)"
proof -
  obtain parts where sp: "split_on 47 s = [] # parts"
    and loop: "from_str_loop V B T parts [] = Ok (ma_bytes a)"
    using assms(1) by (auto simp: from_str_def and_then_eq_Inr split: list.splits if_splits)
  have "parts_ok parts"
    using utf8_split [OF assms(2)] split_on_length [of _ 47 s] assms(3) sp
    by (fastforce simp: parts_ok_def list_all_iff)
  moreover have "valid_bytes V B []" by (auto simp: valid_bytes_alt intro: exI [of _ "[]"])
  ultimately show ?thesis using from_str_loop_valid [OF loop] by blast
qed

end

section \<open>The documented formats\<close>

text \<open>LEB128: seven bits per byte, least significant first, minimal.\<close>

fun leb_enc :: "nat \<Rightarrow> byte list" where
  "leb_enc n = (if n < 128 then [of_nat n] else of_nat (128 + n mod 128) # leb_enc (n div 128))"

declare leb_enc.simps [simp del]

fun leb_dec :: "byte list \<Rightarrow> uvar_error + nat \<times> byte list" where
  "leb_dec [] = Err Insufficient"
| "leb_dec (b # bs) =
     (if b < 128 then Ok (unat b, bs)
      else case leb_dec bs of
             Inl e \<Rightarrow> Err e
           | Inr (v, r) \<Rightarrow> if v = 0 then Err NotMinimal else Ok (unat b - 128 + 128 * v, r))"

definition leb_dec_word :: "byte list \<Rightarrow> uvar_error + 'w::len word \<times> byte list" where
  "leb_dec_word bs =
     and_then (leb_dec bs) (\<lambda>(v, r). if v < 2 ^ LENGTH('w) then Ok (of_nat v, r) else Err Overflow)"

definition leb_ops :: varint_ops where
  "leb_ops =
     \<lparr>enc_u16 = (\<lambda>x. leb_enc (unat x)), enc_u32 = (\<lambda>x. leb_enc (unat x)), enc_usize = (\<lambda>x. leb_enc (unat x)),
      dec_u16 = leb_dec_word, dec_u32 = leb_dec_word, dec_usize = leb_dec_word\<rparr>"

lemma leb_dec_enc: "leb_dec (leb_enc n @ r) = Ok (n, r)"
proof (induction n rule: leb_enc.induct)
  case (1 n)
  show ?case
  proof (cases "n < 128")
    case True
    then have "unat (of_nat n :: byte) = n" by (simp add: unat_of_nat_lt)
    with True show ?thesis by (subst leb_enc.simps) (simp add: word_less_nat_alt)
  next
    case False
    have u: "unat (of_nat (128 + n mod 128) :: byte) = 128 + n mod 128"
      by (rule unat_of_nat_lt) simp
    then have "\<not> (of_nat (128 + n mod 128) :: byte) < 128" by (simp add: word_less_nat_alt)
    with 1 False u show ?thesis by (subst leb_enc.simps) (simp del: of_nat_add)
  qed
qed

lemma leb_dec_Ok: "leb_dec bs = Ok (v, r) \<Longrightarrow> bs = leb_enc v @ r"
proof (induction bs arbitrary: v r)
  case (Cons b bs)
  show ?case
  proof (cases "b < 128")
    case True
    with Cons.prems show ?thesis by (subst leb_enc.simps) (auto simp: word_less_nat_alt)
  next
    case False
    then obtain v' where in': "leb_dec bs = Ok (v', r)" "v' \<noteq> 0" and v: "v = unat b - 128 + 128 * v'"
      using Cons.prems by (auto split: sum.splits if_splits)
    have "128 \<le> unat b" "unat b < 256" using False unat_lt [of b] by (auto simp: word_less_nat_alt)
    then obtain c where c: "unat b = 128 + c" "c < 128" by (metis le_Suc_ex nat_add_left_cancel_less numeral_Bit0)
    have "v mod 128 = c" "v div 128 = v'" using c by (simp_all add: v)
    moreover have "(of_nat (128 + c) :: byte) = b" unfolding c(1) [symmetric] by simp
    ultimately show ?thesis
      using in' Cons.IH [OF in'(1)] v by (subst leb_enc.simps) (simp del: of_nat_add of_nat_diff)
  qed
qed simp

lemma leb_dec_word_iff: "leb_dec_word bs = Ok (x, r) \<longleftrightarrow> bs = leb_enc (unat (x :: 'w::len word)) @ r"
proof
  assume "leb_dec_word bs = Ok (x, r)"
  then show "bs = leb_enc (unat x) @ r"
    by (auto simp: leb_dec_word_def and_then_eq_Inr unat_of_nat_lt split: if_splits dest!: leb_dec_Ok)
next
  assume "bs = leb_enc (unat x) @ r"
  then show "leb_dec_word bs = Ok (x, r)"
    by (simp add: leb_dec_word_def leb_dec_enc unat_lt)
qed

lemma leb_enc_length: "n < 128 ^ k \<Longrightarrow> 0 < k \<Longrightarrow> length (leb_enc n) \<le> k"
proof (induction k arbitrary: n)
  case (Suc k)
  show ?case
  proof (cases "n < 128")
    case True
    then show ?thesis by (subst leb_enc.simps) simp
  next
    case False
    then have "0 < k" using Suc.prems by (cases k) auto
    moreover have "n div 128 < 128 ^ k" using Suc.prems by (simp add: less_mult_imp_div_less mult.commute)
    ultimately show ?thesis using Suc.IH False by (subst leb_enc.simps) simp
  qed
qed simp

interpretation leb: varint leb_ops
proof
  have "unat x < 128 ^ 3" for x :: u16 using unat_lt [of x] by simp
  then show "length (enc_u16 leb_ops x) \<le> 3" for x
    using leb_enc_length [of "unat x" 3] by (simp add: leb_ops_def)
  show "enc_u32 leb_ops y \<noteq> []" for y by (simp add: leb_ops_def leb_enc.simps [of "unat y"])
qed (simp_all add: leb_ops_def leb_dec_word_iff)

interpretation wire: address_format be_ops leb_ops
  by unfold_locales

text \<open>Base58 with the Bitcoin alphabet; every leading zero byte is one leading \<open>1\<close>.\<close>

definition b58_alphabet :: str where
  "b58_alphabet = lit ''123456789ABCDEFGHJKLMNPQRSTUVWXYZabcdefghijkmnopqrstuvwxyz''"

definition b58_index :: "byte \<Rightarrow> nat option" where
  "b58_index c = map_of (zip b58_alphabet [0..<58]) c"

text \<open>Changing the radix of a big-endian digit list, leading zeros kept.\<close>

definition rebase :: "nat \<Rightarrow> nat \<Rightarrow> nat list \<Rightarrow> nat list" where
  "rebase r r' ds =
     (let rest = dropWhile (\<lambda>d. d = 0) ds in
      takeWhile (\<lambda>d. d = 0) ds @ (if rest = [] then [] else digs r' (digs_val r 0 rest)))"

fun collect :: "'a option list \<Rightarrow> 'a list option" where
  "collect [] = Some []"
| "collect (None # xs) = None"
| "collect (Some x # xs) = map_option ((#) x) (collect xs)"

definition b58_ops :: text_ops where
  "b58_ops =
     \<lparr>b58_encode = (\<lambda>bs. map (\<lambda>d. b58_alphabet ! d) (rebase 256 58 (map unat bs))),
      b58_decode = (\<lambda>s. map_option (\<lambda>ds. map of_nat (rebase 58 256 ds)) (collect (map b58_index s)))\<rparr>"

lemma digs_of_val:
  "2 \<le> r \<Longrightarrow> list_all (\<lambda>d. d < r) ds \<Longrightarrow> ds \<noteq> [] \<Longrightarrow> hd ds \<noteq> 0 \<Longrightarrow> digs r (digs_val r 0 ds) = ds"
proof (induction ds rule: rev_induct)
  case (snoc e ds)
  show ?case
  proof (cases ds)
    case Nil
    with snoc show ?thesis by (subst digs.simps) simp
  next
    case (Cons d ds')
    with snoc have "0 < digs_val r 0 ds" using digs_val_ge [of r d ds'] by auto
    then have "r \<le> digs_val r 0 ds * r + e" by (simp add: trans_le_add1)
    with snoc Cons show ?thesis by (subst digs.simps) auto
  qed
qed simp

lemma rebase_inverse:
  assumes "2 \<le> r" "2 \<le> r'" "list_all (\<lambda>d. d < r) ds"
  shows "rebase r' r (rebase r r' ds) = ds"
proof -
  define zs rest where "zs = takeWhile (\<lambda>d. d = (0 :: nat)) ds" and "rest = dropWhile (\<lambda>d. d = (0 :: nat)) ds"
  have ds: "ds = zs @ rest" by (simp add: zs_def rest_def)
  have z: "\<forall>d \<in> set zs. d = 0" by (auto simp: zs_def dest: set_takeWhileD)
  show ?thesis
  proof (cases "rest = []")
    case True
    then have "rebase r r' ds = zs" by (simp add: rebase_def Let_def zs_def rest_def)
    moreover have "rebase r' r zs = zs" using z by (simp add: rebase_def Let_def)
    ultimately show ?thesis using True ds by simp
  next
    case False
    have h: "hd rest \<noteq> 0" using False hd_dropWhile [of "\<lambda>d. d = 0" ds] by (simp add: rest_def)
    have lt: "list_all (\<lambda>d. d < r) rest" using assms(3) ds by simp
    let ?v = "digs_val r 0 rest"
    have "0 < ?v" using h False digs_val_ge [of r "hd rest" "tl rest"] assms(1) by (cases rest) auto
    then have hv: "hd (digs r' ?v) \<noteq> 0" using hd_digs [OF assms(2)] by simp
    have "rebase r r' ds = zs @ digs r' ?v"
      using False unfolding rebase_def Let_def zs_def [symmetric] rest_def [symmetric] by simp
    moreover have "takeWhile (\<lambda>d. d = 0) (zs @ digs r' ?v) = zs" "dropWhile (\<lambda>d. d = 0) (zs @ digs r' ?v) = digs r' ?v"
      using z hv by (simp_all add: takeWhile_append2 dropWhile_append2 takeWhile_eq_Nil_iff dropWhile_eq_self_iff)
    ultimately show ?thesis
      using digs_of_val [OF assms(1) lt False h] ds by (simp add: rebase_def Let_def digs_val_digs [OF assms(2)])
  qed
qed

lemma rebase_lt: "2 \<le> r' \<Longrightarrow> list_all (\<lambda>d. d < r') (rebase r r' ds)"
  using digs_lt [of r'] by (auto simp: rebase_def Let_def list_all_iff dest: set_takeWhileD)

lemma b58_alphabet_facts: "length b58_alphabet = 58" "distinct b58_alphabet" "47 \<notin> set b58_alphabet"
  by (simp_all add: b58_alphabet_def lit_def)

lemma b58_index_nth: "d < 58 \<Longrightarrow> b58_index (b58_alphabet ! d) = Some d"
  using map_of_zip_nth [of b58_alphabet "[0..<58]" d] b58_alphabet_facts by (simp add: b58_index_def)

lemma collect_Some: "collect (map Some xs) = Some xs"
  by (induction xs) auto

interpretation b58: base58 b58_ops
proof
  fix bs :: "byte list"
  have lt: "list_all (\<lambda>d. d < 58) (rebase 256 58 (map unat bs))" by (rule rebase_lt) simp
  have "list_all (\<lambda>d. d < 256) (map unat bs)"
    using unat_lt [where 'w = 8] by (simp add: list_all_iff)
  then have inv: "rebase 58 256 (rebase 256 58 (map unat bs)) = map unat bs" by (intro rebase_inverse) simp_all
  have "map b58_index (b58_encode b58_ops bs) = map Some (rebase 256 58 (map unat bs))"
    using lt by (simp add: b58_ops_def list_all_iff b58_index_nth)
  then have "collect (map b58_index (b58_encode b58_ops bs)) = Some (rebase 256 58 (map unat bs))"
    by (simp only: collect_Some)
  moreover have "b58_decode b58_ops s = map_option (\<lambda>ds. map of_nat (rebase 58 256 ds)) (collect (map b58_index s))" for s
    by (simp add: b58_ops_def)
  ultimately show "b58_decode b58_ops (b58_encode b58_ops bs) = Some bs"
    using inv by (simp add: o_def)
  show "47 \<notin> set (b58_encode b58_ops bs)"
    using lt b58_alphabet_facts nth_mem [of _ b58_alphabet] by (fastforce simp: b58_ops_def list_all_iff)
qed

section \<open>Properties\<close>

text \<open>
  C38. Segment codec. Over any varint crate with canonical encodings, the segment decoder accepts a
  byte string exactly when it starts with the encoding of a well-formed segment (UTF-8 names,
  SHA-256 peer ids), and returns that segment and what follows.
\<close>

theorem segment_codec_exact:
  assumes "address_format B V"
  shows "from_bytes V B bs = Ok (p, r) \<longleftrightarrow> wf_protocol V p \<and> bs = seg_enc V B p @ r"
proof -
  note [simp] = address_format.from_bytes_enc [OF assms]
  show ?thesis using address_format.from_bytes_Ok [OF assms] by auto
qed

theorem segment_codec_exact_witness:
  "address_format be_ops leb_ops \<and>
   from_bytes leb_ops be_ops (seg_enc leb_ops be_ops (Tcp 8080) @ [7]) = Ok (Tcp 8080, [7])"
  using segment_codec_exact [OF wire.address_format_axioms, of _ "Tcp 8080" "[7]"] wire.address_format_axioms
  by (simp add: wf_protocol_def)

text \<open>
  Validation. \<open>try_from\<close> always returns, accepts exactly the byte strings that are a sequence
  of well-formed segments, and iterating over an accepted address never panics and yields that
  sequence, which is unique.
\<close>

theorem try_from_exact:
  assumes "address_format B V"
  shows "\<exists>r. try_from V B bs = Some r \<and> ((\<exists>a. r = Ok a) \<longleftrightarrow> valid_bytes V B bs)
           \<and> (\<forall>a. r = Ok a \<longrightarrow> (\<exists>!ps. denotes V B a ps) \<and> (\<forall>ps. denotes V B a ps \<longrightarrow> iter V B a = Some ps))"
proof -
  obtain r where r: "try_from V B bs = Some r"
    "\<And>a. r = Ok a \<longleftrightarrow> valid_bytes V B bs \<and> a = \<lparr>ma_bytes = bs\<rparr>"
    using address_format.try_from_iff [OF assms, of bs] by (metis option.inject)
  moreover have "(\<exists>!ps. denotes V B a ps) \<and> (\<forall>ps. denotes V B a ps \<longrightarrow> iter V B a = Some ps)" if "r = Ok a" for a
    using that r(2) [of a] address_format.denotes_unique [OF assms] address_format.iter_denotes [OF assms]
    by (auto simp: valid_bytes_def)
  ultimately show ?thesis by blast
qed

theorem try_from_exact_witness:
  "\<exists>r. try_from leb_ops be_ops [0x1a] = Some r \<and> ((\<exists>a. r = Ok a) \<longleftrightarrow> valid_bytes leb_ops be_ops [0x1a])"
  using try_from_exact [OF wire.address_format_axioms, of "[0x1a]"] by blast

definition sample_addr :: "protocol list" where
  "sample_addr = [Ip4 (Ipv4 127 0 0 1), Tcp 8115, Dns4 (lit ''ckb''), Ws]"

lemma sample_addr_wf: "list_all (wf_protocol V) sample_addr" "list_all text_ok sample_addr"
  by (simp_all add: sample_addr_def wf_protocol_def text_ok_def lit_def)

text \<open>
  Editing. On an address that denotes a list of segments, \<open>push\<close> appends, \<open>pop\<close> removes the
  last one without panicking, and \<open>replace\<close> substitutes the segment at a position (or
  returns nothing when there is none or the function yields none).
\<close>

theorem address_edits:
  assumes "address_format B V" "denotes V B a ps"
  shows "(wf_protocol V p \<longrightarrow> denotes V B (push V B p a) (ps @ [p]) \<and>
            (\<exists>a'. pop V B (push V B p a) = Some (a', Some p) \<and> denotes V B a' ps))
       \<and> replace V B a at fn =
           Some (if at < length ps then map_option (\<lambda>q. from_iter V B (ps[at := q])) (fn (ps ! at)) else None)
       \<and> (ps = [] \<longrightarrow> pop V B a = Some (a, None))"
  using address_format.push_denotes [OF assms] address_format.pop_denotes [OF assms(1), of "push V B p a" ps p]
    address_format.replace_denotes [OF assms] assms(2)
  by (auto simp: pop_def denotes_def)

theorem address_edits_witness:
  "\<exists>a'. pop leb_ops be_ops (push leb_ops be_ops Wss (from_iter leb_ops be_ops sample_addr)) = Some (a', Some Wss)
      \<and> denotes leb_ops be_ops a' sample_addr"
  using address_edits [OF wire.address_format_axioms wire.from_iter_denotes [OF sample_addr_wf(1)], of Wss]
  by (simp add: wf_protocol_def)

text \<open>
  C39. Text round trip. An address whose names contain no slash prints without panicking, and
  parsing the text gives the same address back; so does serialising and deserialising it in a
  human-readable or a binary format.
\<close>

theorem text_roundtrip:
  assumes "address_format B V" "base58 T" "denotes V B a ps" "list_all text_ok ps"
  shows "(\<exists>s. to_string V B T a = Some s \<and> from_str V B T s = Ok a) \<and>
         (\<exists>v. serialize V B T human a = Some v \<and> deserialize V B T human v = Some (Ok a))"
proof -
  let ?s = "concat (map (show_protocol T) ps)"
  have a: "a = \<lparr>ma_bytes = concat (map (seg_enc V B) ps)\<rparr>" and wf: "list_all (wf_protocol V) ps"
    using assms(3) by (simp_all add: denotes_def)
  have s: "to_string V B T a = Some ?s"
    using address_format.iter_denotes [OF assms(1,3)] by (simp add: to_string_def)
  have f: "from_str V B T ?s = Ok a"
    using base58.split_shown [OF assms(2,4)] base58.from_str_loop_parts [OF assms(2) wf, of B "[]"] a
    by (simp add: from_str_def)
  have "try_from V B (ma_bytes a) = Some (Ok a)"
    using address_format.try_from_iff [OF assms(1), of "ma_bytes a" a] assms(3) a by (auto simp: valid_bytes_def)
  with s f show ?thesis
    by (cases human) (auto simp: serialize_def deserialize_def)
qed

theorem text_roundtrip_witness:
  "\<exists>s. to_string leb_ops be_ops b58_ops (from_iter leb_ops be_ops sample_addr) = Some s
      \<and> from_str leb_ops be_ops b58_ops s = Ok (from_iter leb_ops be_ops sample_addr)"
  using text_roundtrip [OF wire.address_format_axioms b58.base58_axioms
        wire.from_iter_denotes [OF sample_addr_wf(1)] sample_addr_wf(2)] by blast

text \<open>
  C40. Parsed addresses are valid. Whatever text the parser accepts, the address it builds is a
  sequence of well-formed segments, so iterating over it, popping from it and printing it do
  not panic.
\<close>

theorem parsed_text_valid:
  assumes "address_format B V" "from_str V B T s = Ok a" "utf8_valid s" "length s < 2 ^ 64"
  shows "\<exists>ps. denotes V B a ps \<and> iter V B a = Some ps \<and> pop V B a \<noteq> None \<and> to_string V B T a \<noteq> None"
proof -
  obtain ps where d: "denotes V B a ps"
    using address_format.from_str_valid [OF assms] by (auto simp: valid_bytes_denotes)
  have "iter V B a = Some ps" using address_format.iter_denotes [OF assms(1) d] .
  moreover have "pop V B a \<noteq> None"
  proof (cases ps rule: rev_exhaust)
    case Nil
    with d show ?thesis by (simp add: denotes_def pop_def)
  next
    case (snoc qs q)
    with address_format.pop_denotes [OF assms(1)] d show ?thesis by fastforce
  qed
  ultimately show ?thesis using d by (auto simp: to_string_def)
qed

theorem parsed_text_valid_witness:
  "\<exists>ps. iter leb_ops be_ops (from_iter leb_ops be_ops [Ws, Wss]) = Some ps"
proof -
  have "from_str leb_ops be_ops b58_ops (lit ''/ws/wss'') = Ok (from_iter leb_ops be_ops [Ws, Wss])"
    by (simp add: from_str_def lit_def from_str_loop.simps from_str_peek_def next_part_def from_iter_def)
  moreover have "utf8_valid (lit ''/ws/wss'')" by (simp add: lit_def)
  ultimately show ?thesis
    using parsed_text_valid [OF wire.address_format_axioms] by (fastforce simp: lit_def)
qed

text \<open>
  The text form is ambiguous. A DNS name may contain a slash in the binary form: the two
  different valid addresses with the segments \<open>dns4 a/ws\<close> and \<open>dns4 a\<close>, \<open>ws\<close> print the same
  text, so the first one does not survive printing and parsing.
\<close>

theorem text_ambiguous:
  "address_format B V \<Longrightarrow>
   \<exists>a b. valid_bytes V B (ma_bytes a) \<and> valid_bytes V B (ma_bytes b) \<and> a \<noteq> b \<and>
     to_string V B T a = Some (lit ''/dns4/a/ws'') \<and> to_string V B T b = Some (lit ''/dns4/a/ws'')"
proof -
  assume F: "address_format B V"
  let ?p = "[Dns4 (lit ''a/ws'')]" and ?q = "[Dns4 (lit ''a''), Ws]"
  have wf: "list_all (wf_protocol V) ?p" "list_all (wf_protocol V) ?q"
    by (simp_all add: wf_protocol_def lit_def)
  note d = address_format.from_iter_denotes [OF F wf(1)] address_format.from_iter_denotes [OF F wf(2)]
  have "from_iter V B ?p \<noteq> from_iter V B ?q"
    using address_format.denotes_unique [OF F] d by (metis list.distinct(1) list.inject)
  moreover have "to_string V B T (from_iter V B ?p) = Some (lit ''/dns4/a/ws'')"
    "to_string V B T (from_iter V B ?q) = Some (lit ''/dns4/a/ws'')"
    using d [THEN address_format.iter_denotes [OF F]] by (simp_all add: to_string_def show_protocol_def lit_def)
  moreover have "valid_bytes V B (ma_bytes (from_iter V B ?p))" "valid_bytes V B (ma_bytes (from_iter V B ?q))"
    using d by (auto simp: valid_bytes_denotes)
  ultimately show ?thesis by blast
qed

theorem text_ambiguous_witness:
  "\<exists>a b. a \<noteq> b \<and> to_string leb_ops be_ops b58_ops a = to_string leb_ops be_ops b58_ops b
      \<and> to_string leb_ops be_ops b58_ops a \<noteq> None"
  using text_ambiguous [OF wire.address_format_axioms, of b58_ops] by fastforce

text \<open>
  \<open>push\<close> does not check peer ids. Pushing a \<open>P2P\<close> segment whose bytes are not a SHA-256
  multihash yields an address on which iterating and popping panic.
\<close>

theorem push_unchecked_panics:
  assumes "address_format B V" "check_p2p V b \<noteq> Ok ()" "length b < 2 ^ 64" "denotes V B a []"
  shows "iter V B (push V B (P2P b) a) = None \<and> pop V B (push V B (P2P b) a) = None"
proof -
  let ?bs = "enc_u32 V P2P_ID @ len_prefix V b"
  have bs: "ma_bytes (push V B (P2P b) a) = ?bs"
    using assms(4) by (simp add: push_def write_to_bytes_def denotes_def)
  have V: "varint V" using assms(1) by (simp add: address_format_def)
  have ne: "?bs \<noteq> []" using varint.enc_u32_ne [OF V] by simp
  have "dec_u32 V ?bs = Ok (P2P_ID, len_prefix V b)" by (rule varint.dec_enc(1) [OF V])
  moreover have "len_prefixed V (len_prefix V b) = Ok (b, [])"
    using varint.len_prefixed_prefix [OF V assms(3), of "[]"] by simp
  moreover obtain e where "check_p2p V b = Err e" using assms(2) by (cases "check_p2p V b") auto
  ultimately have "from_bytes V B ?bs = Err e" by (simp add: from_bytes_def protocol_ids)
  with ne show ?thesis
    by (simp add: iter_def pop_def bs iter_all.simps [of V B ?bs] iter_next_def pop_loop.simps [of V B ?bs])
qed

theorem push_unchecked_panics_witness:
  "iter leb_ops be_ops (push leb_ops be_ops (P2P []) \<lparr>ma_bytes = []\<rparr>) = None"
proof -
  have "check_p2p leb_ops [] \<noteq> Ok ()" by (simp add: check_p2p_def leb_ops_def leb_dec_word_def)
  then show ?thesis
    using push_unchecked_panics [OF wire.address_format_axioms, of "[]" "\<lparr>ma_bytes = []\<rparr>"]
    by (simp add: denotes_def)
qed

end
