(* ===== verification/Net_Address.thy ===== *)
theory Net_Address
  imports Multiaddr
begin

text \<open>
  Peer identifiers (\<open>secio/src/peer_id.rs\<close>) and what the network code reads from addresses
  (\<open>tentacle/src/utils.rs\<close>, \<open>utils/dns.rs\<close>, \<open>find_type\<close> of \<open>transports/mod.rs\<close>). SHA-256 is a
  parameter. Iterating over an address panics on bytes that are not segments; results are \<open>None\<close>
  then.
\<close>

unbundle bit_operations_syntax

section \<open>Peer ids\<close>

record peer_id =
  pid_inner :: "byte list"

datatype pid_error = PidInvalidData | PidWrongLength | PidNotSupportHashCode | PidEmpty

definition pid_from_bytes :: "varint_ops \<Rightarrow> byte list \<Rightarrow> pid_error + peer_id" where
  "pid_from_bytes V data =
     (if data = [] then Err PidEmpty
      else and_then (map_err (\<lambda>_. PidInvalidData) (dec_u16 V data)) (\<lambda>(code, bytes).
        if code \<noteq> SHA256_CODE then Err PidNotSupportHashCode
        else if length bytes \<noteq> unat SHA256_SIZE + 1 then Err PidWrongLength
        else if bytes ! 0 \<noteq> SHA256_SIZE then Err PidInvalidData
        else Ok \<lparr>pid_inner = data\<rparr>))"

text \<open>\<open>copy_from_slice\<close> panics when the digest has another length.\<close>

definition pid_from_seed :: "varint_ops \<Rightarrow> (byte list \<Rightarrow> byte list) \<Rightarrow> byte list \<Rightarrow> peer_id option" where
  "pid_from_seed V sha256 seed =
     (let digest = sha256 seed in
      if length digest \<noteq> unat SHA256_SIZE then None
      else Some \<lparr>pid_inner = enc_u16 V SHA256_CODE @ [SHA256_SIZE] @ digest\<rparr>)"

definition pid_digest :: "varint_ops \<Rightarrow> peer_id \<Rightarrow> byte list option" where
  "pid_digest V p = (case dec_u16 V (pid_inner p) of Inl _ \<Rightarrow> None | Inr (_, bytes) \<Rightarrow> if bytes = [] then None else Some (tl bytes))"

definition pid_to_base58 :: "text_ops \<Rightarrow> peer_id \<Rightarrow> str" where
  "pid_to_base58 T p = b58_encode T (pid_inner p)"

definition pid_from_str :: "varint_ops \<Rightarrow> text_ops \<Rightarrow> str \<Rightarrow> pid_error + peer_id" where
  "pid_from_str V T s = and_then (ok_or PidInvalidData (b58_decode T s)) (pid_from_bytes V)"

section \<open>Reachable addresses\<close>

datatype ip_addr = V4 ipv4 | V6 ipv6

text \<open>The predicates of \<open>std::net::Ipv4Addr\<close> and \<open>Ipv6Addr\<close>.\<close>

fun v4_is_private :: "ipv4 \<Rightarrow> bool" where
  "v4_is_private (Ipv4 a b c d) =
     (a = 10 \<or> (a = 172 \<and> 16 \<le> b \<and> b \<le> 31) \<or> (a = 192 \<and> b = 168))"

fun v4_is_loopback :: "ipv4 \<Rightarrow> bool" where
  "v4_is_loopback (Ipv4 a b c d) = (a = 127)"

fun v4_is_link_local :: "ipv4 \<Rightarrow> bool" where
  "v4_is_link_local (Ipv4 a b c d) = (a = 169 \<and> b = 254)"

fun v4_is_documentation :: "ipv4 \<Rightarrow> bool" where
  "v4_is_documentation (Ipv4 a b c d) =
     ((a = 192 \<and> b = 0 \<and> c = 2) \<or> (a = 198 \<and> b = 51 \<and> c = 100) \<or> (a = 203 \<and> b = 0 \<and> c = 113))"

definition v4_is_broadcast :: "ipv4 \<Rightarrow> bool" where
  "v4_is_broadcast ip = (ip = Ipv4 255 255 255 255)"

definition v4_is_unspecified :: "ipv4 \<Rightarrow> bool" where
  "v4_is_unspecified ip = (ip = Ipv4 0 0 0 0)"

definition v6_is_multicast :: "ipv6 \<Rightarrow> bool" where
  "v6_is_multicast ip = (segments ip ! 0 AND 0xff00 = 0xff00)"

definition v6_is_loopback :: "ipv6 \<Rightarrow> bool" where
  "v6_is_loopback ip = (ip = Ipv6 0 0 0 0 0 0 0 1)"

definition v6_is_unspecified :: "ipv6 \<Rightarrow> bool" where
  "v6_is_unspecified ip = (ip = Ipv6 0 0 0 0 0 0 0 0)"

definition is_reachable :: "ip_addr \<Rightarrow> bool" where
  "is_reachable ip =
     (case ip of
        V4 ipv4 \<Rightarrow>
          \<not> v4_is_private ipv4 \<and> \<not> v4_is_loopback ipv4 \<and> \<not> v4_is_link_local ipv4
          \<and> \<not> v4_is_broadcast ipv4 \<and> \<not> v4_is_documentation ipv4 \<and> \<not> v4_is_unspecified ipv4
      | V6 ipv6 \<Rightarrow>
          let s0 = segments ipv6 ! 0; s1 = segments ipv6 ! 1;
              scope =
                (if v6_is_multicast ipv6 then
                   (let n = s0 AND 0x000f in
                    if n = 1 \<or> n = 2 \<or> n = 3 \<or> n = 4 \<or> n = 5 \<or> n = 8 then Some False
                    else if n = 14 then Some True
                    else None)
                 else None) in
          (case scope of
             Some True \<Rightarrow> True
           | None \<Rightarrow>
               \<not> (v6_is_multicast ipv6 \<or> v6_is_loopback ipv6 \<or> s0 AND 0xffc0 = 0xfe80 \<or> s0 AND 0xffc0 = 0xfec0
                  \<or> s0 AND 0xfe00 = 0xfc00 \<or> v6_is_unspecified ipv6 \<or> (s0 = 0x2001 \<and> s1 = 0xdb8))
           | Some False \<Rightarrow> False))"

section \<open>Scanning an address\<close>

text \<open>
  The loop of \<open>multiaddr_to_socketaddr\<close> and of \<open>DnsResolver::new\<close>: skip segments until one that
  starts a pair, take two, stop if they form a pair.
\<close>

partial_function (option) scan_pairs ::
  "varint_ops \<Rightarrow> buf_ops \<Rightarrow> (protocol \<Rightarrow> bool) \<Rightarrow> (protocol \<Rightarrow> protocol \<Rightarrow> 'a option) \<Rightarrow> byte list \<Rightarrow> 'a option option" where
  "scan_pairs V B starts pick sl =
     (case iter_next V B sl of
        None \<Rightarrow> None
      | Some (_, None) \<Rightarrow> Some None
      | Some (sl1, Some proto1) \<Rightarrow>
          if \<not> starts proto1 then scan_pairs V B starts pick sl1
          else
            (case iter_next V B sl1 of
               None \<Rightarrow> None
             | Some (_, None) \<Rightarrow> Some None
             | Some (sl2, Some proto2) \<Rightarrow>
                 (case pick proto1 proto2 of
                    Some r \<Rightarrow> Some (Some r)
                  | None \<Rightarrow> scan_pairs V B starts pick sl2)))"

type_synonym socket_addr = "ip_addr \<times> u16"

fun starts_ip :: "protocol \<Rightarrow> bool" where
  "starts_ip (Ip4 _) = True"
| "starts_ip (Ip6 _) = True"
| "starts_ip _ = False"

fun pick_socket :: "protocol \<Rightarrow> protocol \<Rightarrow> socket_addr option" where
  "pick_socket (Ip4 ip) (Tcp port) = Some (V4 ip, port)"
| "pick_socket (Ip6 ip) (Tcp port) = Some (V6 ip, port)"
| "pick_socket _ _ = None"

definition multiaddr_to_socketaddr :: "varint_ops \<Rightarrow> buf_ops \<Rightarrow> multiaddr \<Rightarrow> socket_addr option option" where
  "multiaddr_to_socketaddr V B addr = scan_pairs V B starts_ip pick_socket (ma_bytes addr)"

definition socketaddr_to_multiaddr :: "varint_ops \<Rightarrow> buf_ops \<Rightarrow> socket_addr \<Rightarrow> multiaddr" where
  "socketaddr_to_multiaddr V B address =
     from_iter V B [(case fst address of V4 ip \<Rightarrow> Ip4 ip | V6 ip \<Rightarrow> Ip6 ip), Tcp (snd address)]"

text \<open>\<open>iter.find_map(f)\<close>.\<close>

partial_function (option) ma_find_map :: "varint_ops \<Rightarrow> buf_ops \<Rightarrow> (protocol \<Rightarrow> 'a option) \<Rightarrow> byte list \<Rightarrow> 'a option option" where
  "ma_find_map V B f sl =
     (case iter_next V B sl of
        None \<Rightarrow> None
      | Some (_, None) \<Rightarrow> Some None
      | Some (sl', Some proto) \<Rightarrow> (case f proto of Some x \<Rightarrow> Some (Some x) | None \<Rightarrow> ma_find_map V B f sl'))"

definition peer_of :: "varint_ops \<Rightarrow> protocol \<Rightarrow> peer_id option" where
  "peer_of V proto =
     (case proto of
        P2P raw_bytes \<Rightarrow> (case pid_from_bytes V raw_bytes of Inr p \<Rightarrow> Some p | Inl _ \<Rightarrow> None)
      | _ \<Rightarrow> None)"

definition extract_peer_id :: "varint_ops \<Rightarrow> buf_ops \<Rightarrow> multiaddr \<Rightarrow> peer_id option option" where
  "extract_peer_id V B addr = ma_find_map V B (peer_of V) (ma_bytes addr)"

datatype transport_type = TyTcp | TyWs | TyWss | TyTls | TyMemory

definition find_type :: "varint_ops \<Rightarrow> buf_ops \<Rightarrow> multiaddr \<Rightarrow> transport_type option" where
  "find_type V B addr =
     map_option (\<lambda>r. case r of Some t \<Rightarrow> t | None \<Rightarrow> TyTcp)
       (ma_find_map V B
         (\<lambda>proto. case proto of
            Ws \<Rightarrow> Some TyWs | Wss \<Rightarrow> Some TyWss | Tls _ \<Rightarrow> Some TyTls | Memory _ \<Rightarrow> Some TyMemory | _ \<Rightarrow> None)
         (ma_bytes addr))"

section \<open>DNS names\<close>

record dns_resolver =
  dr_source :: multiaddr
  dr_ty :: transport_type
  dr_peer_id :: "peer_id option"
  dr_port :: u16
  dr_domain :: str

fun starts_dns :: "protocol \<Rightarrow> bool" where
  "starts_dns (Dns4 _) = True"
| "starts_dns (Dns6 _) = True"
| "starts_dns _ = False"

fun pick_dns :: "protocol \<Rightarrow> protocol \<Rightarrow> (str \<times> u16) option" where
  "pick_dns (Dns4 domain) (Tcp port) = Some (domain, port)"
| "pick_dns (Dns6 domain) (Tcp port) = Some (domain, port)"
| "pick_dns _ _ = None"

definition dns_new :: "varint_ops \<Rightarrow> buf_ops \<Rightarrow> multiaddr \<Rightarrow> dns_resolver option option" where
  "dns_new V B source_address =
     Option.bind (scan_pairs V B starts_dns pick_dns (ma_bytes source_address)) (\<lambda>r.
       case r of
         None \<Rightarrow> Some None
       | Some (domain, port) \<Rightarrow>
           Option.bind (find_type V B source_address) (\<lambda>ty.
           map_option (\<lambda>pid.
             Some \<lparr>dr_source = source_address, dr_ty = ty, dr_peer_id = pid, dr_port = port, dr_domain = domain\<rparr>)
             (extract_peer_id V B source_address)))"

text \<open>The address for the first resolved socket address; the peer id is taken out of the resolver.\<close>

definition new_addr ::
  "varint_ops \<Rightarrow> buf_ops \<Rightarrow> dns_resolver \<Rightarrow> socket_addr list \<Rightarrow> dns_resolver \<times> (multiaddr \<times> io_error + multiaddr)" where
  "new_addr V B r addrs =
     (case addrs of
        address # _ \<Rightarrow>
          let address1 = socketaddr_to_multiaddr V B address;
              address2 = (case dr_ty r of TyWs \<Rightarrow> push V B Ws address1 | TyWss \<Rightarrow> push V B Wss address1 | _ \<Rightarrow> address1) in
          (case dr_peer_id r of
             Some pid \<Rightarrow> (r\<lparr>dr_peer_id := None\<rparr>, Ok (push V B (P2P (pid_inner pid)) address2))
           | None \<Rightarrow> (r, Ok address2))
      | [] \<Rightarrow> (r, Err (dr_source r, InvalidData)))"

section \<open>Scans on the segments\<close>

text \<open>What the loops compute on the list of segments of an address.\<close>

fun list_pairs :: "(protocol \<Rightarrow> bool) \<Rightarrow> (protocol \<Rightarrow> protocol \<Rightarrow> 'a option) \<Rightarrow> protocol list \<Rightarrow> 'a option" where
  "list_pairs starts pick [] = None"
| "list_pairs starts pick [p] = None"
| "list_pairs starts pick (p # q # ps) =
     (if \<not> starts p then list_pairs starts pick (q # ps)
      else case pick p q of Some r \<Rightarrow> Some r | None \<Rightarrow> list_pairs starts pick ps)"

fun first_some :: "('a \<Rightarrow> 'b option) \<Rightarrow> 'a list \<Rightarrow> 'b option" where
  "first_some f [] = None"
| "first_some f (x # xs) = (case f x of Some y \<Rightarrow> Some y | None \<Rightarrow> first_some f xs)"

lemma first_some_Some: "first_some f xs = Some y \<Longrightarrow> \<exists>x. f x = Some y"
  by (induction xs) (auto split: option.splits)

lemma first_some_append:
  "first_some f (xs @ ys) = (case first_some f xs of Some y \<Rightarrow> Some y | None \<Rightarrow> first_some f ys)"
  by (induction xs) (auto split: option.splits)

context address_format
begin

lemma scan_pairs_enc:
  "list_all (wf_protocol V) ps \<Longrightarrow>
     scan_pairs V B starts pick (concat (map (seg_enc V B) ps)) = Some (list_pairs starts pick ps)"
proof (induction starts pick ps rule: list_pairs.induct)
  case (1 starts pick)
  then show ?case by (subst scan_pairs.simps) (simp add: iter_next_Nil)
next
  case (2 starts pick p)
  then show ?case
    using iter_next_enc [of p "[]"] by (subst scan_pairs.simps) (simp add: iter_next_Nil scan_pairs.simps [of V B _ _ "[]"])
next
  case (3 starts pick p q ps)
  then show ?case
    by (subst scan_pairs.simps) (auto simp: iter_next_enc split: option.splits)
qed

lemma scan_pairs_denotes: "denotes V B a ps \<Longrightarrow> scan_pairs V B starts pick (ma_bytes a) = Some (list_pairs starts pick ps)"
  by (simp add: denotes_def scan_pairs_enc)

lemma ma_find_map_denotes: "denotes V B a ps \<Longrightarrow> ma_find_map V B f (ma_bytes a) = Some (first_some f ps)"
proof -
  have "list_all (wf_protocol V) ps \<Longrightarrow> ma_find_map V B f (concat (map (seg_enc V B) ps)) = Some (first_some f ps)"
  proof (induction ps)
    case Nil
    then show ?case by (subst ma_find_map.simps) (simp add: iter_next_Nil)
  next
    case (Cons p ps)
    then show ?case by (subst ma_find_map.simps) (auto simp: iter_next_enc split: option.splits)
  qed
  then show "denotes V B a ps \<Longrightarrow> ?thesis" by (simp add: denotes_def)
qed

lemma pid_from_bytes_check: "(\<exists>p. pid_from_bytes V b = Ok p) \<longleftrightarrow> check_p2p V b = Ok ()"
proof (cases "dec_u16 V b")
  case (Inl e)
  then show ?thesis by (simp add: pid_from_bytes_def check_p2p_def)
next
  case (Inr x)
  obtain code r where x: "x = (code, r)" by (cases x)
  have "b \<noteq> []" if "length r = 33"
    using that Inr x dec_u16_iff [of b code r] by auto
  moreover have "r ! 0 = hd r" if "length r = 33" using that by (intro hd_conv_nth [symmetric]) auto
  ultimately show ?thesis
    using Inr x by (auto simp: pid_from_bytes_def check_p2p_def SHA256_SIZE_def)
qed

lemma pid_from_bytes_inner: "pid_from_bytes V b = Ok p \<Longrightarrow> pid_inner p = b"
  by (auto simp: pid_from_bytes_def and_then_eq_Inr split: if_splits prod.splits)

lemma pid_from_seed_bytes: "pid_from_seed V sha256 seed = Some p \<Longrightarrow> pid_from_bytes V (pid_inner p) = Ok p"
  by (auto simp: pid_from_seed_def pid_from_bytes_def Let_def SHA256_SIZE_def dec_u16_iff [THEN iffD2] split: if_splits)

lemma wf_P2P: "pid_from_bytes V (pid_inner p) = Ok p \<Longrightarrow> wf_protocol V (P2P (pid_inner p))"
  using pid_from_bytes_check [of "pid_inner p"] check_p2p_len by (auto simp: wf_protocol_def)

end

section \<open>Properties\<close>

definition is_p2p :: "protocol \<Rightarrow> bool" where
  "is_p2p p = (case p of P2P _ \<Rightarrow> True | _ \<Rightarrow> False)"

lemma first_some_no_p2p:
  "list_all (\<lambda>p. \<not> is_p2p p) ps \<Longrightarrow> first_some (peer_of V) ps = None"
  by (induction ps) (auto simp: is_p2p_def peer_of_def split: protocol.splits)

text \<open>
  Peer ids. The id of a public key is 32 bytes of digest behind a header; its text form parses
  back to it, it is a well-formed segment of an address, and appended to an address without peer
  id it is what \<open>extract_peer_id\<close> returns.
\<close>

theorem peer_id_in_address:
  assumes "address_format B V" "base58 T" "pid_from_seed V sha256 key = Some p"
    "denotes V B a ps" "list_all (\<lambda>p. \<not> is_p2p p) ps"
  shows "pid_from_str V T (pid_to_base58 T p) = Ok p \<and> pid_digest V p = Some (sha256 key)
    \<and> denotes V B (push V B (P2P (pid_inner p)) a) (ps @ [P2P (pid_inner p)])
    \<and> extract_peer_id V B (push V B (P2P (pid_inner p)) a) = Some (Some p)"
proof -
  note ok = address_format.pid_from_seed_bytes [OF assms(1,3)]
  have d: "denotes V B (push V B (P2P (pid_inner p)) a) (ps @ [P2P (pid_inner p)])"
    using address_format.push_denotes [OF assms(1,4) address_format.wf_P2P [OF assms(1) ok]] .
  have "extract_peer_id V B (push V B (P2P (pid_inner p)) a) = Some (Some p)"
    unfolding extract_peer_id_def address_format.ma_find_map_denotes [OF assms(1) d]
    using ok first_some_no_p2p [OF assms(5)] by (simp add: first_some_append peer_of_def)
  moreover have "pid_from_str V T (pid_to_base58 T p) = Ok p"
    using ok base58.b58_dec_enc [OF assms(2)] by (simp add: pid_from_str_def pid_to_base58_def)
  moreover have "pid_digest V p = Some (sha256 key)"
  proof -
    have "dec_u16 V (enc_u16 V SHA256_CODE @ r) = Ok (SHA256_CODE, r)" for r
      using varint.dec_u16_iff [OF address_format.axioms(2) [OF assms(1)]] by blast
    then show ?thesis using assms(3) by (auto simp: pid_from_seed_def pid_digest_def Let_def split: if_splits)
  qed
  ultimately show ?thesis using d by blast
qed

theorem peer_id_in_address_witness:
  "\<exists>p. pid_from_seed leb_ops (\<lambda>_. replicate 32 7) [1] = Some p
     \<and> extract_peer_id leb_ops be_ops (push leb_ops be_ops (P2P (pid_inner p)) (from_iter leb_ops be_ops sample_addr))
         = Some (Some p)"
proof -
  obtain p where p: "pid_from_seed leb_ops (\<lambda>_. replicate 32 7) [1] = Some p"
    by (simp add: pid_from_seed_def SHA256_SIZE_def)
  with peer_id_in_address [OF wire.address_format_axioms b58.base58_axioms p
      wire.from_iter_denotes [OF sample_addr_wf(1)]]
  show ?thesis by (auto simp: sample_addr_def is_p2p_def)
qed

definition ip_segment :: "ip_addr \<Rightarrow> protocol" where
  "ip_segment ip = (case ip of V4 a \<Rightarrow> Ip4 a | V6 a \<Rightarrow> Ip6 a)"

definition ws_segments :: "transport_type \<Rightarrow> protocol list" where
  "ws_segments ty = (case ty of TyWs \<Rightarrow> [Ws] | TyWss \<Rightarrow> [Wss] | _ \<Rightarrow> [])"

definition pid_segments :: "peer_id option \<Rightarrow> protocol list" where
  "pid_segments pid = (case pid of Some p \<Rightarrow> [P2P (pid_inner p)] | None \<Rightarrow> [])"

context address_format
begin

lemma extracted_valid: "extract_peer_id V B a = Some (Some p) \<Longrightarrow> denotes V B a ps \<Longrightarrow> pid_from_bytes V (pid_inner p) = Ok p"
proof -
  assume a: "extract_peer_id V B a = Some (Some p)" and d: "denotes V B a ps"
  obtain proto where "peer_of V proto = Some p"
    using a ma_find_map_denotes [OF d, of "peer_of V"] first_some_Some [of "peer_of V" ps p]
    by (auto simp: extract_peer_id_def)
  then obtain raw where "pid_from_bytes V raw = Ok p" by (auto simp: peer_of_def split: protocol.splits sum.splits)
  with pid_from_bytes_inner [OF this] show ?thesis by simp
qed

lemma new_addr_denotes:
  assumes "\<And>p. dr_peer_id r = Some p \<Longrightarrow> pid_from_bytes V (pid_inner p) = Ok p"
  shows "\<exists>r' a. new_addr V B r (s # rest) = (r', Ok a)
    \<and> denotes V B a ([ip_segment (fst s), Tcp (snd s)] @ ws_segments (dr_ty r) @ pid_segments (dr_peer_id r))"
proof -
  have wf: "wf_protocol V (Ip4 x)" "wf_protocol V (Ip6 y)" "wf_protocol V (Tcp z)" "wf_protocol V Ws" "wf_protocol V Wss"
    for x y z by (simp_all add: wf_protocol_def)
  have ip: "(case fst s of V4 ip \<Rightarrow> Ip4 ip | V6 ip \<Rightarrow> Ip6 ip) = ip_segment (fst s)" by (simp add: ip_segment_def)
  have "wf_protocol V (ip_segment (fst s))" by (cases "fst s") (simp_all add: ip_segment_def wf)
  then have "denotes V B (socketaddr_to_multiaddr V B s) [ip_segment (fst s), Tcp (snd s)]"
    unfolding socketaddr_to_multiaddr_def ip by (intro from_iter_denotes) (simp add: wf)
  then have d2: "denotes V B (case dr_ty r of TyWs \<Rightarrow> push V B Ws (socketaddr_to_multiaddr V B s)
       | TyWss \<Rightarrow> push V B Wss (socketaddr_to_multiaddr V B s) | _ \<Rightarrow> socketaddr_to_multiaddr V B s)
       ([ip_segment (fst s), Tcp (snd s)] @ ws_segments (dr_ty r))" (is "denotes V B ?a2 _")
    using push_denotes [of "socketaddr_to_multiaddr V B s" "[ip_segment (fst s), Tcp (snd s)]"] wf
    by (cases "dr_ty r") (auto simp: ws_segments_def)
  show ?thesis
  proof (cases "dr_peer_id r")
    case None
    with d2 show ?thesis by (simp add: new_addr_def Let_def pid_segments_def)
  next
    case (Some p)
    from push_denotes [OF d2 wf_P2P [OF assms [OF Some]]] Some show ?thesis
      by (simp add: new_addr_def Let_def pid_segments_def)
  qed
qed

end

text \<open>
  Name resolution keeps the destination. For an address with a DNS name, the address built from
  a resolved socket address is well formed, leads to that socket address, keeps a WebSocket
  transport and keeps the peer id of the original address.
\<close>

theorem dns_resolution:
  assumes "address_format B V" "denotes V B src ps" "dns_new V B src = Some (Some r)"
  shows "\<exists>r' a. new_addr V B r (s # rest) = (r', Ok a) \<and> valid_bytes V B (ma_bytes a)
    \<and> multiaddr_to_socketaddr V B a = Some (Some s)
    \<and> extract_peer_id V B a = extract_peer_id V B src
    \<and> find_type V B a = (if dr_ty r = TyWs \<or> dr_ty r = TyWss then find_type V B src else Some TyTcp)"
proof -
  have r: "find_type V B src = Some (dr_ty r)" "extract_peer_id V B src = Some (dr_peer_id r)"
    using assms(3) by (auto simp: dns_new_def bind_eq_Some_conv split: option.splits)
  have pid: "pid_from_bytes V (pid_inner p) = Ok p" if "dr_peer_id r = Some p" for p
    using address_format.extracted_valid [OF assms(1) _ assms(2)] r(2) that by simp
  then obtain r' a where new: "new_addr V B r (s # rest) = (r', Ok a)"
    and a: "denotes V B a ([ip_segment (fst s), Tcp (snd s)] @ ws_segments (dr_ty r) @ pid_segments (dr_peer_id r))"
    using address_format.new_addr_denotes [OF assms(1), of r s rest] by blast
  have "multiaddr_to_socketaddr V B a = Some (Some s)"
    unfolding multiaddr_to_socketaddr_def address_format.scan_pairs_denotes [OF assms(1) a]
    by (cases s; cases "fst s") (auto simp: ip_segment_def)
  moreover have "extract_peer_id V B a = extract_peer_id V B src"
    unfolding r(2) unfolding extract_peer_id_def address_format.ma_find_map_denotes [OF assms(1) a]
    using pid by (cases "fst s"; cases "dr_ty r"; cases "dr_peer_id r")
      (auto simp: ip_segment_def ws_segments_def pid_segments_def peer_of_def)
  moreover have "find_type V B a = (if dr_ty r = TyWs \<or> dr_ty r = TyWss then find_type V B src else Some TyTcp)"
    unfolding r(1) unfolding find_type_def address_format.ma_find_map_denotes [OF assms(1) a]
    by (cases "fst s"; cases "dr_ty r"; cases "dr_peer_id r") (auto simp: ip_segment_def ws_segments_def pid_segments_def)
  ultimately show ?thesis using new a by (auto simp: valid_bytes_denotes)
qed

theorem dns_resolution_witness:
  "\<exists>r r' a. dns_new leb_ops be_ops (from_iter leb_ops be_ops [Dns4 (lit ''ckb''), Tcp 80, Ws]) = Some (Some r)
     \<and> new_addr leb_ops be_ops r [(V4 (Ipv4 1 2 3 4), 80)] = (r', Ok a)
     \<and> multiaddr_to_socketaddr leb_ops be_ops a = Some (Some (V4 (Ipv4 1 2 3 4), 80))
     \<and> find_type leb_ops be_ops a = Some TyWs"
proof -
  let ?ps = "[Dns4 (lit ''ckb''), Tcp 80, Ws]" and ?src = "from_iter leb_ops be_ops [Dns4 (lit ''ckb''), Tcp 80, Ws]"
  have d: "denotes leb_ops be_ops ?src ?ps" by (rule wire.from_iter_denotes) (simp add: wf_protocol_def lit_def)
  have ty: "find_type leb_ops be_ops ?src = Some TyWs"
    unfolding find_type_def wire.ma_find_map_denotes [OF d] by simp
  have "scan_pairs leb_ops be_ops starts_dns pick_dns (ma_bytes ?src) = Some (Some (lit ''ckb'', 80))"
    "extract_peer_id leb_ops be_ops ?src = Some None"
    unfolding extract_peer_id_def wire.scan_pairs_denotes [OF d] wire.ma_find_map_denotes [OF d] by (simp_all add: peer_of_def)
  then obtain r where r: "dns_new leb_ops be_ops ?src = Some (Some r)" "dr_ty r = TyWs"
    using ty by (simp add: dns_new_def)
  from dns_resolution [OF wire.address_format_axioms d r(1), of "(V4 (Ipv4 1 2 3 4), 80)" "[]"]
  obtain r' a where "new_addr leb_ops be_ops r [(V4 (Ipv4 1 2 3 4), 80)] = (r', Ok a)"
    "multiaddr_to_socketaddr leb_ops be_ops a = Some (Some (V4 (Ipv4 1 2 3 4), 80))"
    "find_type leb_ops be_ops a = Some TyWs"
    unfolding r(2) ty by auto
  with r(1) show ?thesis by blast
qed

end
