(* ===== verification/Handshake_Msg.thy ===== *)
theory Handshake_Msg
  imports Std_Text Molecule_Build
begin

text \<open>
  The messages of the secio handshake: the generated readers and builders of
  \<open>handshake_mol.rs\<close>, one definition per reader or builder, and \<open>encode\<close>/\<open>decode\<close> of
  \<open>handshake_struct.rs\<close>. A reader or an entity is the slice it wraps.
\<close>

section \<open>Generated types\<close>

definition Secp256k1_verify :: "mol_ops \<Rightarrow> verifier" where
  "Secp256k1_verify P = fixvec_verify P"

definition Secp256k1_raw_data :: "byte list \<Rightarrow> byte list option" where
  "Secp256k1_raw_data = fixvec_raw_data"

definition Secp256k1_build :: "mol_ops \<Rightarrow> byte list \<Rightarrow> byte list" where
  "Secp256k1_build P = fixvec_build P"

definition handshake_Bytes_verify :: "mol_ops \<Rightarrow> verifier" where
  "handshake_Bytes_verify P = fixvec_verify P"

definition handshake_Bytes_raw_data :: "byte list \<Rightarrow> byte list option" where
  "handshake_Bytes_raw_data = fixvec_raw_data"

definition handshake_Bytes_build :: "mol_ops \<Rightarrow> byte list \<Rightarrow> byte list" where
  "handshake_Bytes_build P = fixvec_build P"

definition handshake_String_verify :: "mol_ops \<Rightarrow> verifier" where
  "handshake_String_verify P = fixvec_verify P"

definition handshake_String_raw_data :: "byte list \<Rightarrow> byte list option" where
  "handshake_String_raw_data = fixvec_raw_data"

definition handshake_String_build :: "mol_ops \<Rightarrow> byte list \<Rightarrow> byte list" where
  "handshake_String_build P = fixvec_build P"

definition PublicKey_verify :: "mol_ops \<Rightarrow> verifier" where
  "PublicKey_verify P = union_verify P [Secp256k1_verify P]"

text \<open>\<open>to_enum\<close> panics on another item id.\<close>

definition PublicKey_to_enum :: "mol_ops \<Rightarrow> byte list \<Rightarrow> byte list option" where
  "PublicKey_to_enum P sl =
     Option.bind (union_to_enum P sl) (\<lambda>(item_id, inner). if item_id = 0 then Some inner else None)"

definition PublicKey_build :: "mol_ops \<Rightarrow> byte list \<Rightarrow> byte list" where
  "PublicKey_build P = union_build P 0"

definition Propose_verify :: "mol_ops \<Rightarrow> verifier" where
  "Propose_verify P = table_verify P
     [handshake_Bytes_verify P, handshake_Bytes_verify P, handshake_String_verify P,
      handshake_String_verify P, handshake_String_verify P]"

definition Propose_rand :: "mol_ops \<Rightarrow> byte list \<Rightarrow> byte list option" where
  "Propose_rand P = table_field P 5 0"

definition Propose_pubkey :: "mol_ops \<Rightarrow> byte list \<Rightarrow> byte list option" where
  "Propose_pubkey P = table_field P 5 1"

definition Propose_exchanges :: "mol_ops \<Rightarrow> byte list \<Rightarrow> byte list option" where
  "Propose_exchanges P = table_field P 5 2"

definition Propose_ciphers :: "mol_ops \<Rightarrow> byte list \<Rightarrow> byte list option" where
  "Propose_ciphers P = table_field P 5 3"

definition Propose_hashes :: "mol_ops \<Rightarrow> byte list \<Rightarrow> byte list option" where
  "Propose_hashes P = table_field P 5 4"

definition Propose_build ::
  "mol_ops \<Rightarrow> byte list \<Rightarrow> byte list \<Rightarrow> byte list \<Rightarrow> byte list \<Rightarrow> byte list \<Rightarrow> byte list" where
  "Propose_build P rand pubkey exchanges ciphers hashes = table_build P [rand, pubkey, exchanges, ciphers, hashes]"

definition Exchange_verify :: "mol_ops \<Rightarrow> verifier" where
  "Exchange_verify P = table_verify P [handshake_Bytes_verify P, handshake_Bytes_verify P]"

definition Exchange_epubkey :: "mol_ops \<Rightarrow> byte list \<Rightarrow> byte list option" where
  "Exchange_epubkey P = table_field P 2 0"

definition Exchange_signature :: "mol_ops \<Rightarrow> byte list \<Rightarrow> byte list option" where
  "Exchange_signature P = table_field P 2 1"

definition Exchange_build :: "mol_ops \<Rightarrow> byte list \<Rightarrow> byte list \<Rightarrow> byte list" where
  "Exchange_build P epubkey signature = table_build P [epubkey, signature]"

section \<open>Messages\<close>

record propose =
  p_rand :: "byte list"
  p_pubkey :: "byte list"
  p_exchange :: str
  p_ciphers :: str
  p_hashes :: str

definition propose_encode :: "mol_ops \<Rightarrow> propose \<Rightarrow> byte list" where
  "propose_encode P m =
     Propose_build P
       (handshake_Bytes_build P (p_rand m))
       (handshake_Bytes_build P (p_pubkey m))
       (handshake_String_build P (p_exchange m))
       (handshake_String_build P (p_ciphers m))
       (handshake_String_build P (p_hashes m))"

definition propose_decode :: "mol_ops \<Rightarrow> byte list \<Rightarrow> propose option option" where
  "propose_decode P = decode_with P (Propose_verify P) (\<lambda>reader.
     Option.bind (Option.bind (Propose_rand P reader) handshake_Bytes_raw_data) (\<lambda>rand.
     Option.bind (Option.bind (Propose_pubkey P reader) handshake_Bytes_raw_data) (\<lambda>pubkey.
     try_some (map_option string_from_utf8 (Option.bind (Propose_exchanges P reader) handshake_String_raw_data)) (\<lambda>exchange.
     try_some (map_option string_from_utf8 (Option.bind (Propose_ciphers P reader) handshake_String_raw_data)) (\<lambda>ciphers.
     try_some (map_option string_from_utf8 (Option.bind (Propose_hashes P reader) handshake_String_raw_data)) (\<lambda>hashes.
       Some (Some \<lparr>p_rand = rand, p_pubkey = pubkey, p_exchange = exchange, p_ciphers = ciphers, p_hashes = hashes\<rparr>)))))))"

record exchange =
  e_epubkey :: "byte list"
  e_signature :: "byte list"

definition exchange_encode :: "mol_ops \<Rightarrow> exchange \<Rightarrow> byte list" where
  "exchange_encode P m =
     Exchange_build P (handshake_Bytes_build P (e_epubkey m)) (handshake_Bytes_build P (e_signature m))"

definition exchange_decode :: "mol_ops \<Rightarrow> byte list \<Rightarrow> exchange option option" where
  "exchange_decode P = decode_with P (Exchange_verify P) (\<lambda>reader.
     Option.bind (Option.bind (Exchange_epubkey P reader) handshake_Bytes_raw_data) (\<lambda>epubkey.
     Option.bind (Option.bind (Exchange_signature P reader) handshake_Bytes_raw_data) (\<lambda>signature.
       Some (Some \<lparr>e_epubkey = epubkey, e_signature = signature\<rparr>))))"

datatype public_key = Secp256k1 (pk_inner: "byte list")

definition pubkey_encode :: "mol_ops \<Rightarrow> public_key \<Rightarrow> byte list" where
  "pubkey_encode P k = PublicKey_build P (Secp256k1_build P (pk_inner k))"

definition pubkey_decode :: "mol_ops \<Rightarrow> byte list \<Rightarrow> public_key option option" where
  "pubkey_decode P = decode_with P (PublicKey_verify P) (\<lambda>reader.
     Option.bind (PublicKey_to_enum P reader) (\<lambda>inner.
     map_option (\<lambda>k. Some (Secp256k1 k)) (Secp256k1_raw_data inner)))"

section \<open>Decoding bytes from the network\<close>

lemmas handshake_types =
  Secp256k1_verify_def handshake_Bytes_verify_def handshake_String_verify_def
  Secp256k1_raw_data_def handshake_Bytes_raw_data_def handshake_String_raw_data_def
  Secp256k1_build_def handshake_Bytes_build_def handshake_String_build_def

lemmas propose_parts =
  Propose_rand_def Propose_pubkey_def Propose_exchanges_def Propose_ciphers_def Propose_hashes_def

context mol_numbers
begin

lemma Propose_part:
  assumes "Propose_verify P sl c = Some (Ok ())" "i < 5"
  shows "\<exists>bs. Option.bind (table_field P 5 i sl) fixvec_raw_data = Some bs"
proof -
  let ?vs = "[fixvec_verify P, fixvec_verify P, fixvec_verify P, fixvec_verify P, fixvec_verify P]"
  obtain s where s: "table_field P 5 i sl = Some s" "(?vs ! i) s c = Some (Ok ())"
    using table_part [of ?vs sl c 5 i] assms by (auto simp: Propose_verify_def handshake_types)
  have "?vs ! i \<in> set ?vs" using assms(2) by (intro nth_mem) simp
  then have "?vs ! i = fixvec_verify P" by simp
  then show ?thesis using fixvec_data [of s c] s by simp
qed

lemma Exchange_part:
  assumes "Exchange_verify P sl c = Some (Ok ())" "i < 2"
  shows "\<exists>bs. Option.bind (table_field P 2 i sl) fixvec_raw_data = Some bs"
proof -
  let ?vs = "[fixvec_verify P, fixvec_verify P]"
  obtain s where s: "table_field P 2 i sl = Some s" "(?vs ! i) s c = Some (Ok ())"
    using table_part [of ?vs sl c 2 i] assms by (auto simp: Exchange_verify_def handshake_types)
  have "?vs ! i \<in> set ?vs" using assms(2) by (intro nth_mem) simp
  then have "?vs ! i = fixvec_verify P" by simp
  then show ?thesis using fixvec_data [of s c] s by simp
qed

lemma propose_decode_total: "propose_decode P data \<noteq> None"
  unfolding propose_decode_def
proof (rule decode_with_total)
  show "safe (Propose_verify P)"
    unfolding Propose_verify_def handshake_types by (intro safe_intros) (simp add: safe_intros)
next
  assume v: "Propose_verify P data True = Some (Ok ())"
  obtain a b c d e where
    "Option.bind (table_field P 5 0 data) fixvec_raw_data = Some a"
    "Option.bind (table_field P 5 1 data) fixvec_raw_data = Some b"
    "Option.bind (table_field P 5 2 data) fixvec_raw_data = Some c"
    "Option.bind (table_field P 5 3 data) fixvec_raw_data = Some d"
    "Option.bind (table_field P 5 4 data) fixvec_raw_data = Some e"
    using Propose_part [OF v, of 0] Propose_part [OF v, of 1] Propose_part [OF v, of 2]
      Propose_part [OF v, of 3] Propose_part [OF v, of 4] by auto
  then show "Option.bind (Option.bind (Propose_rand P data) handshake_Bytes_raw_data) (\<lambda>rand.
     Option.bind (Option.bind (Propose_pubkey P data) handshake_Bytes_raw_data) (\<lambda>pubkey.
     try_some (map_option string_from_utf8 (Option.bind (Propose_exchanges P data) handshake_String_raw_data)) (\<lambda>exchange.
     try_some (map_option string_from_utf8 (Option.bind (Propose_ciphers P data) handshake_String_raw_data)) (\<lambda>ciphers.
     try_some (map_option string_from_utf8 (Option.bind (Propose_hashes P data) handshake_String_raw_data)) (\<lambda>hashes.
       Some (Some \<lparr>p_rand = rand, p_pubkey = pubkey, p_exchange = exchange, p_ciphers = ciphers, p_hashes = hashes\<rparr>)))))) \<noteq> None"
    by (simp add: propose_parts handshake_types try_some_eq_None)
qed

lemma exchange_decode_total: "exchange_decode P data \<noteq> None"
  unfolding exchange_decode_def
proof (rule decode_with_total)
  show "safe (Exchange_verify P)"
    unfolding Exchange_verify_def handshake_types by (intro safe_intros) (simp add: safe_intros)
next
  assume v: "Exchange_verify P data True = Some (Ok ())"
  obtain a b where
    "Option.bind (table_field P 2 0 data) fixvec_raw_data = Some a"
    "Option.bind (table_field P 2 1 data) fixvec_raw_data = Some b"
    using Exchange_part [OF v, of 0] Exchange_part [OF v, of 1] by auto
  then show "Option.bind (Option.bind (Exchange_epubkey P data) handshake_Bytes_raw_data) (\<lambda>epubkey.
     Option.bind (Option.bind (Exchange_signature P data) handshake_Bytes_raw_data) (\<lambda>signature.
       Some (Some \<lparr>e_epubkey = epubkey, e_signature = signature\<rparr>))) \<noteq> None"
    by (simp add: Exchange_epubkey_def Exchange_signature_def handshake_types)
qed

lemma pubkey_decode_total: "pubkey_decode P data \<noteq> None"
  unfolding pubkey_decode_def
proof (rule decode_with_total)
  show "safe (PublicKey_verify P)"
    unfolding PublicKey_verify_def handshake_types by (intro safe_intros) (simp add: safe_intros)
next
  assume "PublicKey_verify P data True = Some (Ok ())"
  then obtain inner where "union_to_enum P data = Some (0, inner)" "fixvec_verify P inner True = Some (Ok ())"
    unfolding PublicKey_verify_def by (auto dest!: union_enum simp: handshake_types)
  moreover from this(2) obtain bs where "fixvec_raw_data inner = Some bs" using fixvec_data by blast
  ultimately show "Option.bind (PublicKey_to_enum P data) (\<lambda>inner.
     map_option (\<lambda>k. Some (Secp256k1 k)) (Secp256k1_raw_data inner)) \<noteq> None"
    by (simp add: PublicKey_to_enum_def handshake_types)
qed

section \<open>Round trips\<close>

lemma propose_roundtrip:
  assumes "length (propose_encode P m) < 2 ^ 32"
    "utf8_valid (p_exchange m)" "utf8_valid (p_ciphers m)" "utf8_valid (p_hashes m)"
  shows "propose_decode P (propose_encode P m) = Some (Some m)"
proof -
  define fs where "fs = map (fixvec_build P) [p_rand m, p_pubkey m, p_exchange m, p_ciphers m, p_hashes m]"
  have enc: "propose_encode P m = table_build P fs"
    by (simp add: propose_encode_def Propose_build_def handshake_types fs_def)
  have small: "length bs < 2 ^ 32" if "fixvec_build P bs \<in> set fs" for bs
    using length_part [OF that] assms(1) enc by simp
  have "list_all2 (\<lambda>v f. v f True = Some (Ok ()))
      [fixvec_verify P, fixvec_verify P, fixvec_verify P, fixvec_verify P, fixvec_verify P] fs"
    using small by (simp add: fs_def fixvec_build_verify)
  from table_build_verify [OF this] have "Propose_verify P (propose_encode P m) True = Some (Ok ())"
    using assms(1) unfolding enc by (simp add: Propose_verify_def handshake_types fs_def)
  moreover have "table_field P 5 i (propose_encode P m) = Some (fs ! i)" if "i < 5" for i
    using table_build_nth [of fs 5 i] that assms(1) unfolding enc by (simp add: fs_def)
  ultimately show ?thesis
    using assms(2-4)
    by (simp add: propose_decode_def decode_with_Ok propose_parts handshake_types fs_def fixvec_build_raw string_from_utf8_def)
qed

lemma exchange_roundtrip:
  assumes "length (exchange_encode P m) < 2 ^ 32"
  shows "exchange_decode P (exchange_encode P m) = Some (Some m)"
proof -
  define fs where "fs = map (fixvec_build P) [e_epubkey m, e_signature m]"
  have enc: "exchange_encode P m = table_build P fs"
    by (simp add: exchange_encode_def Exchange_build_def handshake_types fs_def)
  have "length (e_epubkey m) < 2 ^ 32" "length (e_signature m) < 2 ^ 32"
    using length_part [of "fixvec_build P (e_epubkey m)" fs] length_part [of "fixvec_build P (e_signature m)" fs]
      assms enc by (simp_all add: fs_def)
  then have "list_all2 (\<lambda>v f. v f True = Some (Ok ())) [fixvec_verify P, fixvec_verify P] fs"
    by (simp add: fs_def fixvec_build_verify)
  from table_build_verify [OF this] have "Exchange_verify P (exchange_encode P m) True = Some (Ok ())"
    using assms unfolding enc by (simp add: Exchange_verify_def handshake_types fs_def)
  moreover have "table_field P 2 i (exchange_encode P m) = Some (fs ! i)" if "i < 2" for i
    using table_build_nth [of fs 2 i] that assms unfolding enc by (simp add: fs_def)
  ultimately show ?thesis
    by (simp add: exchange_decode_def decode_with_Ok Exchange_epubkey_def Exchange_signature_def handshake_types
        fs_def fixvec_build_raw)
qed

lemma pubkey_roundtrip:
  assumes "length (pubkey_encode P k) < 2 ^ 32"
  shows "pubkey_decode P (pubkey_encode P k) = Some (Some k)"
proof -
  have "length (pk_inner k) < 2 ^ 32"
    using assms by (simp add: pubkey_encode_def PublicKey_build_def handshake_types)
  then have "PublicKey_verify P (pubkey_encode P k) True = Some (Ok ())"
    by (simp add: PublicKey_verify_def pubkey_encode_def PublicKey_build_def union_build_verify handshake_types
        fixvec_build_verify)
  then show ?thesis
    by (simp add: pubkey_decode_def decode_with_Ok PublicKey_to_enum_def pubkey_encode_def PublicKey_build_def
        union_build_enum handshake_types fixvec_build_raw)
qed

end

end
