(* ===== verification/Session_Context.thy ===== *)
theory Session_Context
  imports Net_Address Handshake_Msg
begin

text \<open>
  What the protocol handlers share: the session they are called for (\<open>SessionContext\<close> of
  \<open>tentacle/src/context.rs\<close>), addresses taken from messages, and lazy iterator adapters whose
  predicate may panic.
\<close>

datatype session_kind = Outbound | Inbound

record session_ctx =
  sc_id :: nat
  sc_address :: multiaddr
  sc_ty :: session_kind
  sc_pubkey :: "public_key option"

definition pid_from_public_key :: "varint_ops \<Rightarrow> (byte list \<Rightarrow> byte list) \<Rightarrow> public_key \<Rightarrow> peer_id option" where
  "pid_from_public_key V sha256 key = pid_from_seed V sha256 (pk_inner key)"

text \<open>\<open>Multiaddr::try_from(..).ok()\<close>.\<close>

definition try_addr :: "varint_ops \<Rightarrow> buf_ops \<Rightarrow> byte list \<Rightarrow> multiaddr option option" where
  "try_addr V B bs = map_option (\<lambda>r. case r of Inr a \<Rightarrow> Some a | Inl _ \<Rightarrow> None) (try_from V B bs)"

text \<open>\<open>filter(f).take(n).collect()\<close>; without \<open>take\<close> it is \<open>lazy_filter\<close>.\<close>

fun lazy_take_filter :: "nat \<Rightarrow> ('a \<Rightarrow> bool option) \<Rightarrow> 'a list \<Rightarrow> 'a list option" where
  "lazy_take_filter 0 f xs = Some []"
| "lazy_take_filter (Suc n) f [] = Some []"
| "lazy_take_filter (Suc n) f (x # xs) =
     Option.bind (f x) (\<lambda>b.
       if b then map_option ((#) x) (lazy_take_filter n f xs) else lazy_take_filter (Suc n) f xs)"

fun lazy_filter :: "('a \<Rightarrow> bool option) \<Rightarrow> 'a list \<Rightarrow> 'a list option" where
  "lazy_filter f [] = Some []"
| "lazy_filter f (x # xs) =
     Option.bind (f x) (\<lambda>b. map_option (\<lambda>ys. if b then x # ys else ys) (lazy_filter f xs))"

lemma lazy_take_filter_spec:
  "lazy_take_filter n f xs = Some ys \<Longrightarrow> length ys \<le> n \<and> (\<forall>y \<in> set ys. y \<in> set xs \<and> f y = Some True)"
proof (induction n f xs arbitrary: ys rule: lazy_take_filter.induct)
  case (3 n f x xs)
  show ?case
  proof (cases "f x = Some True")
    case True
    with "3.prems" obtain zs where "ys = x # zs" "lazy_take_filter n f xs = Some zs" by auto
    with "3.IH"(1) [OF True _, of zs] True show ?thesis by auto
  next
    case False
    with "3.prems" have "f x = Some False" "lazy_take_filter (Suc n) f xs = Some ys"
      by (auto simp: bind_eq_Some_conv split: if_splits)
    with "3.IH"(2) [of False ys] show ?thesis by auto
  qed
qed simp_all

lemma lazy_filter_spec: "lazy_filter f xs = Some ys \<Longrightarrow> ys = filter (\<lambda>x. f x = Some True) xs"
  by (induction xs arbitrary: ys) (auto simp: bind_eq_Some_conv split: if_splits)

lemma lazy_filter_total: "list_all (\<lambda>x. f x \<noteq> None) xs \<Longrightarrow> lazy_filter f xs \<noteq> None"
  by (induction xs) auto

context address_format
begin

lemma try_addr_total: "try_addr V B bs \<noteq> None"
proof -
  obtain r where "try_from V B bs = Some r" using try_from_iff by blast
  then show ?thesis by (simp add: try_addr_def)
qed

lemma try_addr_eq: "try_addr V B bs = Some (Some a) \<longleftrightarrow> valid_bytes V B bs \<and> a = \<lparr>ma_bytes = bs\<rparr>"
proof -
  obtain r where "try_from V B bs = Some r" "r = Ok a \<longleftrightarrow> valid_bytes V B bs \<and> a = \<lparr>ma_bytes = bs\<rparr>"
    using try_from_iff by blast
  then show ?thesis by (cases r) (simp_all add: try_addr_def)
qed

lemma try_addr_Ok: "valid_bytes V B (ma_bytes a) \<Longrightarrow> try_addr V B (ma_bytes a) = Some (Some a)"
  by (simp add: try_addr_eq)

lemma socketaddr_total: "valid_bytes V B (ma_bytes a) \<Longrightarrow> \<exists>r. multiaddr_to_socketaddr V B a = Some r"
  unfolding valid_bytes_denotes multiaddr_to_socketaddr_def using scan_pairs_denotes by blast

end

text \<open>Messages that carry addresses need both the message format and the address format.\<close>

locale message_format = mol_numbers P + address_format B V for P B V

interpretation msg: message_format le_ops be_ops leb_ops
  by unfold_locales

end
