(* ===== verification/Identify_Protocol.thy ===== *)
theory Identify_Protocol
  imports Session_Context
begin

text \<open>
  The identify protocol (\<open>protocols/identify\<close>): generated readers and builders of \<open>protocol_mol.rs\<close>,
  the message of \<open>protocol.rs\<close> and the handler of \<open>lib.rs\<close>. The callback is user code: every call to
  it, and every request to the context, is appended to a log, and what the callback returns is a
  function of the log up to and including the call, so it may keep state. \<open>None\<close> is a panic.
\<close>

section \<open>Generated types\<close>

definition identify_Bytes_verify :: "mol_ops \<Rightarrow> verifier" where
  "identify_Bytes_verify P = fixvec_verify P"

definition identify_Bytes_raw_data :: "byte list \<Rightarrow> byte list option" where
  "identify_Bytes_raw_data = fixvec_raw_data"

definition identify_Bytes_build :: "mol_ops \<Rightarrow> byte list \<Rightarrow> byte list" where
  "identify_Bytes_build P = fixvec_build P"

definition Address_verify :: "mol_ops \<Rightarrow> verifier" where
  "Address_verify P = table_verify_old P [identify_Bytes_verify P]"

definition Address_bytes :: "mol_ops \<Rightarrow> byte list \<Rightarrow> byte list option" where
  "Address_bytes P = table_field P 1 0"

definition Address_build :: "mol_ops \<Rightarrow> byte list \<Rightarrow> byte list" where
  "Address_build P bytes = table_build P [bytes]"

definition AddressVec_verify :: "mol_ops \<Rightarrow> verifier" where
  "AddressVec_verify P = dynvec_verify P (Address_verify P)"

definition AddressVec_get_unchecked :: "mol_ops \<Rightarrow> nat \<Rightarrow> byte list \<Rightarrow> byte list option" where
  "AddressVec_get_unchecked P = dynvec_get P"

definition AddressVec_iter :: "mol_ops \<Rightarrow> byte list \<Rightarrow> byte list list option" where
  "AddressVec_iter P = dynvec_iter P"

definition AddressVec_build :: "mol_ops \<Rightarrow> byte list list \<Rightarrow> byte list" where
  "AddressVec_build P = dynvec_build P"

definition IdentifyMessage_verify :: "mol_ops \<Rightarrow> verifier" where
  "IdentifyMessage_verify P = table_verify_old P [AddressVec_verify P, Address_verify P, identify_Bytes_verify P]"

definition IdentifyMessage_listen_addrs :: "mol_ops \<Rightarrow> byte list \<Rightarrow> byte list option" where
  "IdentifyMessage_listen_addrs P = table_field P 3 0"

definition IdentifyMessage_observed_addr :: "mol_ops \<Rightarrow> byte list \<Rightarrow> byte list option" where
  "IdentifyMessage_observed_addr P = table_field P 3 1"

definition IdentifyMessage_identify :: "mol_ops \<Rightarrow> byte list \<Rightarrow> byte list option" where
  "IdentifyMessage_identify P = table_field P 3 2"

definition IdentifyMessage_build :: "mol_ops \<Rightarrow> byte list \<Rightarrow> byte list \<Rightarrow> byte list \<Rightarrow> byte list" where
  "IdentifyMessage_build P listen_addrs observed_addr identify = table_build P [listen_addrs, observed_addr, identify]"

section \<open>The message\<close>

record identify_message =
  im_listen_addrs :: "multiaddr list"
  im_observed_addr :: multiaddr
  im_identify :: "byte list"

definition encode_addr :: "mol_ops \<Rightarrow> multiaddr \<Rightarrow> byte list" where
  "encode_addr P addr = Address_build P (identify_Bytes_build P (ma_bytes addr))"

definition identify_encode :: "mol_ops \<Rightarrow> identify_message \<Rightarrow> byte list" where
  "identify_encode P m =
     (let identify = identify_Bytes_build P (im_identify m);
          observed_addr = encode_addr P (im_observed_addr m);
          listen_addrs = AddressVec_build P (map (encode_addr P) (im_listen_addrs m)) in
      IdentifyMessage_build P listen_addrs observed_addr identify)"

definition decode_addr :: "mol_ops \<Rightarrow> varint_ops \<Rightarrow> buf_ops \<Rightarrow> byte list \<Rightarrow> multiaddr option option" where
  "decode_addr P V B reader =
     Option.bind (Option.bind (Address_bytes P reader) identify_Bytes_raw_data) (try_addr V B)"

definition identify_decode :: "mol_ops \<Rightarrow> varint_ops \<Rightarrow> buf_ops \<Rightarrow> byte list \<Rightarrow> identify_message option option" where
  "identify_decode P V B = decode_with P (IdentifyMessage_verify P) (\<lambda>reader.
     Option.bind (Option.bind (IdentifyMessage_identify P reader) identify_Bytes_raw_data) (\<lambda>identify.
     try_some (Option.bind (IdentifyMessage_observed_addr P reader) (decode_addr P V B)) (\<lambda>observed_addr.
     Option.bind (Option.bind (IdentifyMessage_listen_addrs P reader) (AddressVec_iter P)) (\<lambda>items.
     try_some (decode_each (decode_addr P V B) items) (\<lambda>listen_addrs.
       Some (Some \<lparr>im_listen_addrs = listen_addrs, im_observed_addr = observed_addr, im_identify = identify\<rparr>))))))"

section \<open>The handler\<close>

definition ID_MAX_ADDRS :: nat where "ID_MAX_ADDRS = 10"
definition DEFAULT_TIMEOUT :: nat where "DEFAULT_TIMEOUT = 8"

datatype id_misbehavior = DuplicateReceived | Timeout | IdInvalidData | TooManyAddresses nat

datatype misbehave_result = Continue | Disconnect

text \<open>Calls of the callback and requests to the context.\<close>

datatype id_call =
    ReceivedIdentify nat "byte list" | GetIdentify | LocalListenAddrs
  | AddRemoteListenAddrs peer_id "multiaddr list" | AddObservedAddr peer_id multiaddr session_kind
  | Misbehave peer_id id_misbehavior
  | CtxDisconnect nat | CtxSend nat "byte list"

record id_callback =
  cb_result :: "id_call list \<Rightarrow> misbehave_result"
  cb_identify :: "id_call list \<Rightarrow> byte list"
  cb_local_listen :: "id_call list \<Rightarrow> multiaddr list"

record remote_info =
  ri_peer_id :: peer_id
  ri_session :: session_ctx
  ri_connected_at :: nat
  ri_timeout :: nat
  ri_has_received :: bool

record identify =
  id_log :: "id_call list"
  remote_infos :: "nat \<Rightarrow> remote_info option"
  secio_enabled :: bool
  global_ip_only :: bool

definition identify_new :: identify where
  "identify_new = \<lparr>id_log = [], remote_infos = Map.empty, secio_enabled = True, global_ip_only = True\<rparr>"

definition set_global_ip_only :: "bool \<Rightarrow> identify \<Rightarrow> identify" where
  "set_global_ip_only b h = h\<lparr>global_ip_only := b\<rparr>"

definition call :: "id_call \<Rightarrow> identify \<Rightarrow> identify" where
  "call c h = h\<lparr>id_log := id_log h @ [c]\<rparr>"

text \<open>A call that returns a \<open>MisbehaveResult\<close>.\<close>

definition ask :: "id_callback \<Rightarrow> id_call \<Rightarrow> identify \<Rightarrow> identify \<times> misbehave_result" where
  "ask C c h = (let h' = call c h in (h', cb_result C (id_log h')))"

definition addr_allowed :: "varint_ops \<Rightarrow> buf_ops \<Rightarrow> bool \<Rightarrow> multiaddr \<Rightarrow> bool option" where
  "addr_allowed V B global_only addr =
     map_option (\<lambda>s. case s of Some (ip, _) \<Rightarrow> \<not> global_only \<or> is_reachable ip | None \<Rightarrow> False)
       (multiaddr_to_socketaddr V B addr)"

definition check_duplicate :: "id_callback \<Rightarrow> nat \<Rightarrow> identify \<Rightarrow> (identify \<times> misbehave_result) option" where
  "check_duplicate C session h =
     map_option (\<lambda>info.
       if ri_has_received info then ask C (Misbehave (ri_peer_id info) DuplicateReceived) h
       else (h\<lparr>remote_infos := (remote_infos h)(session \<mapsto> info\<lparr>ri_has_received := True\<rparr>)\<rparr>, Continue))
       (remote_infos h session)"

definition process_listens ::
  "varint_ops \<Rightarrow> buf_ops \<Rightarrow> id_callback \<Rightarrow> nat \<Rightarrow> multiaddr list \<Rightarrow> identify \<Rightarrow> (identify \<times> misbehave_result) option" where
  "process_listens V B C session listens h =
     Option.bind (remote_infos h session) (\<lambda>info.
       if length listens > ID_MAX_ADDRS then
         Some (ask C (Misbehave (ri_peer_id info) (TooManyAddresses (length listens))) h)
       else
         map_option (\<lambda>reachable_addrs. (call (AddRemoteListenAddrs (ri_peer_id info) reachable_addrs) h, Continue))
           (lazy_filter (addr_allowed V B (global_ip_only h)) listens))"

definition process_observed ::
  "varint_ops \<Rightarrow> buf_ops \<Rightarrow> id_callback \<Rightarrow> nat \<Rightarrow> multiaddr \<Rightarrow> identify \<Rightarrow> (identify \<times> misbehave_result) option" where
  "process_observed V B C session observed h =
     Option.bind (remote_infos h session) (\<lambda>info.
     map_option (\<lambda>ok.
       if ok then
         let (h', r) = ask C (AddObservedAddr (ri_peer_id info) observed (sc_ty (ri_session info))) h in
         (h', if r = Disconnect then Disconnect else Continue)
       else (h, Continue))
       (addr_allowed V B (global_ip_only h) observed))"

definition identify_connected ::
  "mol_ops \<Rightarrow> varint_ops \<Rightarrow> buf_ops \<Rightarrow> (byte list \<Rightarrow> byte list) \<Rightarrow> id_callback \<Rightarrow> session_ctx \<Rightarrow> nat \<Rightarrow> identify
     \<Rightarrow> identify option" where
  "identify_connected P V B sha256 C session now h =
     (case sc_pubkey session of
        None \<Rightarrow> Some ((call (CtxDisconnect (sc_id session)) h)\<lparr>secio_enabled := False\<rparr>)
      | Some key \<Rightarrow>
          Option.bind (pid_from_public_key V sha256 key) (\<lambda>peer_id.
          let info = \<lparr>ri_peer_id = peer_id, ri_session = session, ri_connected_at = now, ri_timeout = DEFAULT_TIMEOUT,
                      ri_has_received = False\<rparr>;
              h1 = h\<lparr>remote_infos := (remote_infos h)(sc_id session \<mapsto> info)\<rparr>;
              h2 = call LocalListenAddrs h1 in
          Option.bind (lazy_take_filter ID_MAX_ADDRS (addr_allowed V B (global_ip_only h)) (cb_local_listen C (id_log h2)))
            (\<lambda>listen_addrs.
          Option.bind (iter V B (sc_address session)) (\<lambda>ps.
          let observed_addr = from_iter V B (filter (\<lambda>p. \<not> is_p2p p) ps);
              h3 = call GetIdentify h2;
              data = identify_encode P
                       \<lparr>im_listen_addrs = listen_addrs, im_observed_addr = observed_addr, im_identify = cb_identify C (id_log h3)\<rparr> in
          Some (call (CtxSend (sc_id session) data) h3)))))"

definition identify_disconnected :: "nat \<Rightarrow> identify \<Rightarrow> identify option" where
  "identify_disconnected session h =
     (if secio_enabled h then
        (case remote_infos h session of
           None \<Rightarrow> None
         | Some _ \<Rightarrow> Some (h\<lparr>remote_infos := (remote_infos h)(session := None)\<rparr>))
      else Some h)"

text \<open>The chain of checks stops at the first \<open>Disconnect\<close>.\<close>

definition or_else ::
  "(identify \<times> misbehave_result) option \<Rightarrow> (identify \<Rightarrow> (identify \<times> misbehave_result) option)
     \<Rightarrow> (identify \<times> misbehave_result) option" where
  "or_else m k = Option.bind m (\<lambda>(h, r). if r = Disconnect then Some (h, Disconnect) else k h)"

definition identify_received ::
  "mol_ops \<Rightarrow> varint_ops \<Rightarrow> buf_ops \<Rightarrow> id_callback \<Rightarrow> nat \<Rightarrow> byte list \<Rightarrow> identify \<Rightarrow> identify option" where
  "identify_received P V B C session data h =
     (if \<not> secio_enabled h then Some h
      else Option.bind (identify_decode P V B data) (\<lambda>d.
        case d of
          Some message \<Rightarrow>
            map_option (\<lambda>(h', r). if r = Disconnect then call (CtxDisconnect session) h' else h')
              (or_else (check_duplicate C session h) (\<lambda>h.
               or_else (Some (ask C (ReceivedIdentify session (im_identify message)) h)) (\<lambda>h.
               or_else (process_listens V B C session (im_listen_addrs message) h) (\<lambda>h.
               process_observed V B C session (im_observed_addr message) h))))
        | None \<Rightarrow>
            map_option (\<lambda>info.
              let (h', r) = ask C (Misbehave (ri_peer_id info) IdInvalidData) h in
              if r = Disconnect then call (CtxDisconnect session) h' else h')
              (remote_infos h session)))"

text \<open>\<open>keys\<close> is the order in which the hash map yields its sessions.\<close>

definition notify_one :: "id_callback \<Rightarrow> nat \<Rightarrow> nat \<Rightarrow> identify \<Rightarrow> identify" where
  "notify_one C now session h =
     (case remote_infos h session of
        None \<Rightarrow> h
      | Some info \<Rightarrow>
          if ri_has_received info \<and> ri_connected_at info + ri_timeout info \<le> now then
            let (h', r) = ask C (Misbehave (ri_peer_id info) Timeout) h in
            if r = Disconnect then call (CtxDisconnect session) h' else h'
          else h)"

definition identify_notify :: "id_callback \<Rightarrow> nat list \<Rightarrow> nat \<Rightarrow> identify \<Rightarrow> identify" where
  "identify_notify C keys now h = (if \<not> secio_enabled h then h else fold (notify_one C now) keys h)"

section \<open>Decoding\<close>

lemmas identify_types =
  identify_Bytes_verify_def identify_Bytes_raw_data_def identify_Bytes_build_def Address_verify_def Address_bytes_def
  Address_build_def AddressVec_verify_def AddressVec_iter_def AddressVec_build_def IdentifyMessage_verify_def
  IdentifyMessage_listen_addrs_def IdentifyMessage_observed_addr_def IdentifyMessage_identify_def
  IdentifyMessage_build_def

context message_format
begin

lemma safe_identify: "safe (IdentifyMessage_verify P)"
  unfolding identify_types by (intro safe_intros; simp add: safe_intros)

lemma decode_addr_total:
  assumes "table_verify_old P [fixvec_verify P] reader True = Some (Ok ())"
  shows "decode_addr P V B reader \<noteq> None"
proof -
  obtain s where s: "table_field P 1 0 reader = Some s" "fixvec_verify P s True = Some (Ok ())"
    using table_part_old [OF assms, of 1 0] by auto
  moreover obtain bs where "fixvec_raw_data s = Some bs" using fixvec_data [OF s(2)] by blast
  ultimately show ?thesis using try_addr_total by (simp add: decode_addr_def identify_types)
qed

lemma identify_parts:
  assumes "IdentifyMessage_verify P data True = Some (Ok ())"
  shows "\<exists>vec obs ident items bs. table_field P 3 0 data = Some vec \<and> table_field P 3 1 data = Some obs
    \<and> table_field P 3 2 data = Some ident \<and> dynvec_iter P vec = Some items \<and> fixvec_raw_data ident = Some bs
    \<and> table_verify_old P [fixvec_verify P] obs True = Some (Ok ())
    \<and> list_all (\<lambda>s. table_verify_old P [fixvec_verify P] s True = Some (Ok ())) items"
proof -
  note part = table_part_old [OF assms [unfolded identify_types], of 3]
  obtain vec where vec: "table_field P 3 0 data = Some vec"
    "dynvec_verify P (table_verify_old P [fixvec_verify P]) vec True = Some (Ok ())" using part [of 0] by auto
  obtain obs where obs: "table_field P 3 1 data = Some obs" "table_verify_old P [fixvec_verify P] obs True = Some (Ok ())"
    using part [of 1] by auto
  obtain ident where ident: "table_field P 3 2 data = Some ident" "fixvec_verify P ident True = Some (Ok ())"
    using part [of 2] by auto
  show ?thesis using vec(1) obs ident(1) dynvec_items [OF vec(2)] fixvec_data [OF ident(2)] by blast
qed

lemma identify_decode_total: "identify_decode P V B data \<noteq> None"
  unfolding identify_decode_def
proof (rule decode_with_total [OF safe_identify])
  assume "IdentifyMessage_verify P data True = Some (Ok ())"
  from identify_parts [OF this] obtain vec obs ident items bs where
    "table_field P 3 0 data = Some vec" "table_field P 3 1 data = Some obs" "table_field P 3 2 data = Some ident"
    "dynvec_iter P vec = Some items" "fixvec_raw_data ident = Some bs"
    and obs: "table_verify_old P [fixvec_verify P] obs True = Some (Ok ())"
    and items: "list_all (\<lambda>s. table_verify_old P [fixvec_verify P] s True = Some (Ok ())) items" by blast
  moreover have "decode_each (decode_addr P V B) items \<noteq> None"
    using items decode_addr_total by (intro decode_each_total) (simp add: list_all_iff)
  moreover have "decode_addr P V B obs \<noteq> None" using decode_addr_total [OF obs] .
  ultimately show "Option.bind (Option.bind (IdentifyMessage_identify P data) identify_Bytes_raw_data) (\<lambda>identify.
     try_some (Option.bind (IdentifyMessage_observed_addr P data) (decode_addr P V B)) (\<lambda>observed_addr.
     Option.bind (Option.bind (IdentifyMessage_listen_addrs P data) (AddressVec_iter P)) (\<lambda>items.
     try_some (decode_each (decode_addr P V B) items) (\<lambda>listen_addrs.
       Some (Some \<lparr>im_listen_addrs = listen_addrs, im_observed_addr = observed_addr, im_identify = identify\<rparr>))))) \<noteq> None"
    by (simp add: identify_types try_some_eq_None)
qed

lemma encode_addr_verify:
  assumes "length (encode_addr P a) < 2 ^ 32"
  shows "table_verify_old P [fixvec_verify P] (encode_addr P a) True = Some (Ok ())"
proof -
  have len: "length (table_build P [fixvec_build P (ma_bytes a)]) < 2 ^ 32" using assms by (simp add: encode_addr_def identify_types)
  then have "fixvec_verify P (fixvec_build P (ma_bytes a)) True = Some (Ok ())"
    by (intro fixvec_build_verify) (simp add: length_table_build)
  from single_verify [of "fixvec_verify P", OF this len] show ?thesis by (simp add: encode_addr_def identify_types)
qed

lemma decode_encode_addr:
  assumes "length (encode_addr P a) < 2 ^ 32" "valid_bytes V B (ma_bytes a)"
  shows "decode_addr P V B (encode_addr P a) = Some (Some a)"
  using single_field [of "fixvec_build P (ma_bytes a)"] assms
  by (simp add: encode_addr_def decode_addr_def identify_types fixvec_build_raw try_addr_Ok)

lemma identify_roundtrip:
  assumes len: "length (identify_encode P m) < 2 ^ 32"
    and valid: "valid_bytes V B (ma_bytes (im_observed_addr m))" "list_all (\<lambda>a. valid_bytes V B (ma_bytes a)) (im_listen_addrs m)"
  shows "identify_decode P V B (identify_encode P m) = Some (Some m)"
proof -
  define vec where "vec = dynvec_build P (map (encode_addr P) (im_listen_addrs m))"
  let ?obs = "encode_addr P (im_observed_addr m)" and ?id = "fixvec_build P (im_identify m)"
  let ?fs = "[vec, ?obs, ?id]"
  have enc: "identify_encode P m = table_build P ?fs"
    by (simp add: identify_encode_def identify_types vec_def Let_def)
  have small: "length vec < 2 ^ 32" "length ?obs < 2 ^ 32" "length ?id < 2 ^ 32"
    using length_part [of _ ?fs] len unfolding enc by fastforce+
  have each: "length (encode_addr P a) < 2 ^ 32" if "a \<in> set (im_listen_addrs m)" for a
    using length_item [of "encode_addr P a" "map (encode_addr P) (im_listen_addrs m)"] that small(1)
    by (simp add: vec_def)
  have "dynvec_verify P (table_verify_old P [fixvec_verify P]) vec True = Some (Ok ())"
    unfolding vec_def using each small(1) encode_addr_verify
    by (intro dynvec_build_verify) (auto simp: list_all_iff vec_def)
  then have "list_all2 (\<lambda>v f. v f True = Some (Ok ()))
      [dynvec_verify P (table_verify_old P [fixvec_verify P]), table_verify_old P [fixvec_verify P], fixvec_verify P] ?fs"
    using small encode_addr_verify [of "im_observed_addr m"] by (simp add: fixvec_build_verify)
  from table_build_verify_old [OF this] have "IdentifyMessage_verify P (identify_encode P m) True = Some (Ok ())"
    using len unfolding enc by (simp add: identify_types)
  moreover have "table_field P 3 0 (identify_encode P m) = Some vec" "table_field P 3 1 (identify_encode P m) = Some ?obs"
    "table_field P 3 2 (identify_encode P m) = Some ?id"
    using table_build_nth [of ?fs 3 0] table_build_nth [of ?fs 3 1] table_build_nth [of ?fs 3 2] len unfolding enc by simp_all
  moreover have "dynvec_iter P vec = Some (map (encode_addr P) (im_listen_addrs m))"
    unfolding vec_def using small(1) by (intro dynvec_build_iter) (simp add: vec_def)
  moreover have "decode_each (decode_addr P V B) (map (encode_addr P) (im_listen_addrs m)) = Some (Some (im_listen_addrs m))"
    using valid(2) each by (intro decode_each_map decode_encode_addr) (auto simp: list_all_iff)
  moreover have "decode_addr P V B ?obs = Some (Some (im_observed_addr m))"
    using decode_encode_addr [OF small(2) valid(1)] .
  ultimately show ?thesis
    by (simp add: identify_decode_def decode_with_Ok identify_types fixvec_build_raw)
qed

end

section \<open>Runs of the handler\<close>

datatype id_event =
    EvConnected session_ctx nat | EvDisconnected nat | EvReceived nat "byte list" | EvNotify "nat list" nat

fun identify_handle ::
  "mol_ops \<Rightarrow> varint_ops \<Rightarrow> buf_ops \<Rightarrow> (byte list \<Rightarrow> byte list) \<Rightarrow> id_callback \<Rightarrow> id_event \<Rightarrow> identify \<Rightarrow> identify option" where
  "identify_handle P V B sha256 C (EvConnected session now) h = identify_connected P V B sha256 C session now h"
| "identify_handle P V B sha256 C (EvDisconnected session) h = identify_disconnected session h"
| "identify_handle P V B sha256 C (EvReceived session data) h = identify_received P V B C session data h"
| "identify_handle P V B sha256 C (EvNotify keys now) h = Some (identify_notify C keys now h)"

definition identify_step ::
  "mol_ops \<Rightarrow> varint_ops \<Rightarrow> buf_ops \<Rightarrow> (byte list \<Rightarrow> byte list) \<Rightarrow> id_callback \<Rightarrow> id_event \<Rightarrow> identify \<Rightarrow> identify" where
  "identify_step P V B sha256 C e h = (case identify_handle P V B sha256 C e h of Some h' \<Rightarrow> h' | None \<Rightarrow> h)"

text \<open>What may be told to the callback and sent to the peer.\<close>

definition addrs_ok :: "varint_ops \<Rightarrow> buf_ops \<Rightarrow> bool \<Rightarrow> multiaddr list \<Rightarrow> bool" where
  "addrs_ok V B g addrs \<longleftrightarrow> length addrs \<le> ID_MAX_ADDRS \<and> (\<forall>a \<in> set addrs. addr_allowed V B g a = Some True)"

definition call_ok :: "mol_ops \<Rightarrow> varint_ops \<Rightarrow> buf_ops \<Rightarrow> bool \<Rightarrow> id_call \<Rightarrow> bool" where
  "call_ok P V B g c =
     (case c of
        AddRemoteListenAddrs _ addrs \<Rightarrow> addrs_ok V B g addrs
      | AddObservedAddr _ a _ \<Rightarrow> addr_allowed V B g a = Some True
      | CtxSend _ data \<Rightarrow> \<exists>m. data = identify_encode P m \<and> addrs_ok V B g (im_listen_addrs m)
      | _ \<Rightarrow> True)"

definition log_ok :: "mol_ops \<Rightarrow> varint_ops \<Rightarrow> buf_ops \<Rightarrow> bool \<Rightarrow> identify \<Rightarrow> bool" where
  "log_ok P V B g h \<longleftrightarrow> global_ip_only h = g \<and> list_all (call_ok P V B g) (id_log h)"

text \<open>Steps that keep it: \<open>fine\<close> operations only add calls that may be made.\<close>

definition fine :: "mol_ops \<Rightarrow> varint_ops \<Rightarrow> buf_ops \<Rightarrow> bool \<Rightarrow> (identify \<times> 'r) option \<Rightarrow> bool" where
  "fine P V B g m \<longleftrightarrow> (\<forall>h r. m = Some (h, r) \<longrightarrow> log_ok P V B g h)"

named_theorems fine_intros \<open>operations that only make allowed calls\<close>

lemma log_ok_call [fine_intros]: "log_ok P V B g h \<Longrightarrow> call_ok P V B g c \<Longrightarrow> log_ok P V B g (call c h)"
  by (simp add: log_ok_def call_def)

lemma log_ok_infos [fine_intros]: "log_ok P V B g h \<Longrightarrow> log_ok P V B g (h\<lparr>remote_infos := m\<rparr>)"
  by (simp add: log_ok_def)

lemma log_ok_secio [fine_intros]: "log_ok P V B g h \<Longrightarrow> log_ok P V B g (h\<lparr>secio_enabled := b\<rparr>)"
  by (simp add: log_ok_def)

lemma call_ok_simps [simp]:
  "call_ok P V B g (Misbehave p k)" "call_ok P V B g (CtxDisconnect s)" "call_ok P V B g (ReceivedIdentify s d)"
  "call_ok P V B g GetIdentify" "call_ok P V B g LocalListenAddrs"
  by (simp_all add: call_ok_def)

lemma fine_ask: "ask C c h = (h', r) \<Longrightarrow> log_ok P V B g h \<Longrightarrow> call_ok P V B g c \<Longrightarrow> log_ok P V B g h'"
  by (auto simp: ask_def Let_def intro: log_ok_call)

lemma fine_or_else [fine_intros]:
  "fine P V B g m \<Longrightarrow> (\<And>h. log_ok P V B g h \<Longrightarrow> fine P V B g (k h)) \<Longrightarrow> fine P V B g (or_else m k)"
  by (fastforce simp: fine_def or_else_def bind_eq_Some_conv split: if_splits)

lemma fine_check_duplicate [fine_intros]: "log_ok P V B g h \<Longrightarrow> fine P V B g (check_duplicate C s h)"
  by (auto simp: fine_def check_duplicate_def intro: fine_ask log_ok_infos split: if_splits)

lemma fine_ReceivedIdentify [fine_intros]: "log_ok P V B g h \<Longrightarrow> fine P V B g (Some (ask C (ReceivedIdentify s d) h))"
  by (simp add: fine_def ask_def Let_def log_ok_call)

lemma fine_process_listens [fine_intros]:
  assumes "log_ok P V B g h"
  shows "fine P V B g (process_listens V B C s listens h)"
proof -
  have "addrs_ok V B g ys" if "lazy_filter (addr_allowed V B (global_ip_only h)) listens = Some ys"
    "\<not> ID_MAX_ADDRS < length listens" for ys
    using lazy_filter_spec [OF that(1)] that(2) assms
    by (auto simp: addrs_ok_def log_ok_def not_less intro: order_trans [OF length_filter_le])
  then show ?thesis
    using assms by (auto simp: fine_def process_listens_def bind_eq_Some_conv call_ok_def intro: fine_ask log_ok_call
        split: if_splits)
qed

lemma fine_process_observed [fine_intros]:
  assumes "log_ok P V B g h"
  shows "fine P V B g (process_observed V B C s observed h)"
  using assms by (auto simp: fine_def process_observed_def bind_eq_Some_conv log_ok_def call_ok_def ask_def Let_def call_def
      split: if_splits prod.splits)

lemma connected_log_ok:
  assumes "log_ok P V B g h" "identify_connected P V B sha256 C session now h = Some h'"
  shows "log_ok P V B g h'"
proof (cases "sc_pubkey session")
  case None
  with assms show ?thesis by (auto simp: identify_connected_def intro!: log_ok_secio log_ok_call)
next
  case (Some key)
  then obtain info h2 addrs m where h2: "h2 = call LocalListenAddrs (h\<lparr>remote_infos := info\<rparr>)"
    and addrs: "lazy_take_filter ID_MAX_ADDRS (addr_allowed V B (global_ip_only h)) (cb_local_listen C (id_log h2)) = Some addrs"
    and h': "h' = call (CtxSend (sc_id session) (identify_encode P m)) (call GetIdentify h2)" "im_listen_addrs m = addrs"
    using assms(2) by (force simp: identify_connected_def bind_eq_Some_conv Let_def)
  have "global_ip_only h = g" using assms(1) by (simp add: log_ok_def)
  then have "addrs_ok V B g addrs" using lazy_take_filter_spec [OF addrs] by (simp add: addrs_ok_def)
  then have "call_ok P V B g (CtxSend (sc_id session) (identify_encode P m))" using h'(2) by (auto simp: call_ok_def)
  moreover have "log_ok P V B g h2" unfolding h2 using assms(1) by (intro fine_intros) simp_all
  ultimately show ?thesis unfolding h'(1) by (intro fine_intros) simp_all
qed

lemma received_log_ok:
  assumes "log_ok P V B g h" "identify_received P V B C session data h = Some h'"
  shows "log_ok P V B g h'"
proof -
  have chain: "fine P V B g (or_else (check_duplicate C session h) (\<lambda>h.
               or_else (Some (ask C (ReceivedIdentify session (im_identify message)) h)) (\<lambda>h.
               or_else (process_listens V B C session (im_listen_addrs message) h) (\<lambda>h.
               process_observed V B C session (im_observed_addr message) h))))" for message
    by (intro fine_intros assms(1))
  show ?thesis
  proof (cases "secio_enabled h")
    case False
    with assms show ?thesis by (simp add: identify_received_def)
  next
    case True
    then obtain d where d: "identify_decode P V B data = Some d"
      using assms(2) by (auto simp: identify_received_def bind_eq_Some_conv)
    show ?thesis
    proof (cases d)
      case None
      with True d assms show ?thesis
        by (auto simp: identify_received_def ask_def Let_def intro!: log_ok_call split: if_splits)
    next
      case (Some message)
      with True d assms(2) chain [of message] show ?thesis
        by (auto simp: identify_received_def fine_def intro!: log_ok_call split: prod.splits if_splits)
    qed
  qed
qed

lemma notify_one_log_ok: "log_ok P V B g h \<Longrightarrow> log_ok P V B g (notify_one C now s h)"
  by (auto simp: notify_one_def ask_def Let_def intro!: log_ok_call split: option.splits)

lemma notify_log_ok: "log_ok P V B g h \<Longrightarrow> log_ok P V B g (identify_notify C keys now h)"
proof -
  have "log_ok P V B g h \<Longrightarrow> log_ok P V B g (fold (notify_one C now) keys h)" for h
    by (induction keys arbitrary: h) (auto intro: notify_one_log_ok)
  then show "log_ok P V B g h \<Longrightarrow> ?thesis" by (simp add: identify_notify_def)
qed

lemma identify_step_log_ok: "log_ok P V B g h \<Longrightarrow> log_ok P V B g (identify_step P V B sha256 C e h)"
proof (cases e)
  case (EvConnected s now)
  then show "log_ok P V B g h \<Longrightarrow> ?thesis" by (auto simp: identify_step_def intro: connected_log_ok split: option.splits)
next
  case (EvDisconnected s)
  then show "log_ok P V B g h \<Longrightarrow> ?thesis"
    by (auto simp: identify_step_def identify_disconnected_def intro: log_ok_infos split: option.splits if_splits)
next
  case (EvReceived s data)
  then show "log_ok P V B g h \<Longrightarrow> ?thesis" by (auto simp: identify_step_def intro: received_log_ok split: option.splits)
next
  case (EvNotify keys now)
  then show "log_ok P V B g h \<Longrightarrow> ?thesis" by (simp add: identify_step_def notify_log_ok)
qed

interpretation ident: invariant_system "identify_step P V B sha256 C" "\<lambda>_. True" "log_ok P V B g" for P V B sha256 C g
  by unfold_locales (rule identify_step_log_ok)

section \<open>Properties\<close>

text \<open>
  Only allowed addresses pass. In every run, whatever the peers send and the callback answers,
  the callback is given at most ten listen addresses at a time, each with a socket address that is
  reachable unless local addresses were enabled; observed addresses obey the same rule, and so do
  the listen addresses in every message sent.
\<close>

theorem identify_filters:
  assumes "h = fold (identify_step P V B sha256 C) es (set_global_ip_only g identify_new)" "c \<in> set (id_log h)"
  shows "(c = AddRemoteListenAddrs p addrs \<longrightarrow> addrs_ok V B g addrs)
    \<and> (c = AddObservedAddr p a ty \<longrightarrow> addr_allowed V B g a = Some True)
    \<and> (c = CtxSend s data \<longrightarrow> (\<exists>m. data = identify_encode P m \<and> addrs_ok V B g (im_listen_addrs m)))"
proof -
  have "log_ok P V B g h" unfolding assms(1)
    by (rule ident.run_inv) (simp_all add: log_ok_def set_global_ip_only_def identify_new_def list_all_iff)
  then have "call_ok P V B g c" using assms(2) by (simp add: log_ok_def list_all_iff)
  then show ?thesis by (auto simp: call_ok_def)
qed

definition sample_peer :: session_ctx where
  "sample_peer =
     \<lparr>sc_id = 1, sc_address = from_iter leb_ops be_ops [Ip4 (Ipv4 8 8 8 8), Tcp 80], sc_ty = Outbound,
      sc_pubkey = Some (Secp256k1 [1])\<rparr>"

definition sample_callback :: id_callback where
  "sample_callback =
     \<lparr>cb_result = (\<lambda>_. Continue), cb_identify = (\<lambda>_. [42]),
      cb_local_listen = (\<lambda>_. [from_iter leb_ops be_ops [Ip4 (Ipv4 127 0 0 1), Tcp 80]])\<rparr>"

theorem identify_filters_witness:
  "\<exists>h s m. identify_handle le_ops leb_ops be_ops (\<lambda>_. replicate 32 0) sample_callback (EvConnected sample_peer 5)
         (set_global_ip_only True identify_new) = Some h
     \<and> CtxSend s (identify_encode le_ops m) \<in> set (id_log h) \<and> addrs_ok leb_ops be_ops True (im_listen_addrs m)"
proof -
  let ?step = "identify_handle le_ops leb_ops be_ops (\<lambda>_. replicate 32 0) sample_callback"
  let ?e = "EvConnected sample_peer 5" and ?h0 = "set_global_ip_only True identify_new"
  have it: "iter leb_ops be_ops (sc_address sample_peer) = Some [Ip4 (Ipv4 8 8 8 8), Tcp 80]"
    unfolding sample_peer_def session_ctx.simps
    by (intro wire.iter_denotes wire.from_iter_denotes) (simp add: wf_protocol_def)
  have "denotes leb_ops be_ops (from_iter leb_ops be_ops [Ip4 (Ipv4 127 0 0 1), Tcp 80]) [Ip4 (Ipv4 127 0 0 1), Tcp 80]"
    by (intro wire.from_iter_denotes) (simp add: wf_protocol_def)
  from wire.scan_pairs_denotes [OF this, of starts_ip pick_socket]
  have loc: "addr_allowed leb_ops be_ops True (from_iter leb_ops be_ops [Ip4 (Ipv4 127 0 0 1), Tcp 80]) = Some False"
    by (simp add: addr_allowed_def multiaddr_to_socketaddr_def is_reachable_def)
  have ten: "ID_MAX_ADDRS = Suc 9" by (simp add: ID_MAX_ADDRS_def)
  have none: "lazy_take_filter ID_MAX_ADDRS (addr_allowed leb_ops be_ops True)
      [from_iter leb_ops be_ops [Ip4 (Ipv4 127 0 0 1), Tcp 80]] = Some []"
    unfolding ten lazy_take_filter.simps loc by simp
  obtain h data where h: "?step ?e ?h0 = Some h" "CtxSend 1 data \<in> set (id_log h)"
    using it none
    by (auto simp: identify_connected_def sample_callback_def set_global_ip_only_def identify_new_def call_def Let_def
        pid_from_public_key_def pid_from_seed_def SHA256_SIZE_def sample_peer_def)
  then have "h = fold (identify_step le_ops leb_ops be_ops (\<lambda>_. replicate 32 0) sample_callback) [?e] ?h0"
    by (simp add: identify_step_def)
  from identify_filters [OF this h(2), of undefined "[]" undefined undefined 1 data] h show ?thesis by blast
qed

section \<open>Timeouts\<close>

definition timeouts :: "id_call list \<Rightarrow> peer_id list" where
  "timeouts log = concat (map (\<lambda>c. case c of Misbehave p Timeout \<Rightarrow> [p] | _ \<Rightarrow> []) log)"

definition expired :: "nat \<Rightarrow> identify \<Rightarrow> nat \<Rightarrow> peer_id list" where
  "expired now h s =
     (case remote_infos h s of
        Some info \<Rightarrow> if ri_has_received info \<and> ri_connected_at info + ri_timeout info \<le> now then [ri_peer_id info] else []
      | None \<Rightarrow> [])"

lemma notify_one_timeouts:
  "timeouts (id_log (notify_one C now s h)) = timeouts (id_log h) @ expired now h s"
  "remote_infos (notify_one C now s h) = remote_infos h" "secio_enabled (notify_one C now s h) = secio_enabled h"
  by (auto simp: notify_one_def expired_def timeouts_def ask_def call_def Let_def split: option.splits)

lemma expired_notify_one: "expired now (notify_one C now s h) = expired now h"
  by (simp add: expired_def fun_eq_iff notify_one_timeouts)

text \<open>
  The timeout check is inverted. A check reports exactly the sessions whose identify message did
  arrive and whose deadline is over; a session that never sends one is never reported.
\<close>

theorem timeout_inverted:
  assumes "secio_enabled h"
  shows "timeouts (id_log (identify_notify C keys now h)) = timeouts (id_log h) @ concat (map (expired now h) keys)"
proof -
  have "timeouts (id_log (fold (notify_one C now) keys h)) = timeouts (id_log h) @ concat (map (expired now h) keys)" for h
    by (induction keys arbitrary: h) (simp_all add: notify_one_timeouts expired_notify_one)
  then show ?thesis using assms by (simp add: identify_notify_def)
qed

definition silent_peer :: identify where
  "silent_peer = identify_new\<lparr>remote_infos :=
     [1 \<mapsto> \<lparr>ri_peer_id = \<lparr>pid_inner = [1]\<rparr>, ri_session = sample_peer, ri_connected_at = 0, ri_timeout = 8,
             ri_has_received = False\<rparr>,
      2 \<mapsto> \<lparr>ri_peer_id = \<lparr>pid_inner = [2]\<rparr>, ri_session = sample_peer, ri_connected_at = 0, ri_timeout = 8,
             ri_has_received = True\<rparr>]\<rparr>"

theorem timeout_inverted_witness:
  "secio_enabled silent_peer \<and> timeouts (id_log (identify_notify sample_callback [1, 2] 100 silent_peer)) = [\<lparr>pid_inner = [2]\<rparr>]"
  using timeout_inverted [of silent_peer sample_callback "[1, 2]" 100]
  by (simp add: silent_peer_def identify_new_def timeouts_def expired_def)

end
