(* ===== verification/Discovery_Msg.thy ===== *)
theory Discovery_Msg
  imports Session_Context
begin

text \<open>
  The messages of the discovery protocol: generated readers and builders of
  \<open>protocols/discovery/src/protocol_mol.rs\<close> and the messages of \<open>protocol.rs\<close>. The length-delimited
  codec of \<open>tokio_util\<close> is a parameter.
\<close>

section \<open>Generated types\<close>

definition discovery_Bytes_verify :: "mol_ops \<Rightarrow> verifier" where
  "discovery_Bytes_verify P = fixvec_verify P"

definition discovery_Bytes_raw_data :: "byte list \<Rightarrow> byte list option" where
  "discovery_Bytes_raw_data = fixvec_raw_data"

definition discovery_Bytes_build :: "mol_ops \<Rightarrow> byte list \<Rightarrow> byte list" where
  "discovery_Bytes_build P = fixvec_build P"

definition BytesVec_verify :: "mol_ops \<Rightarrow> verifier" where
  "BytesVec_verify P = dynvec_verify P (discovery_Bytes_verify P)"

definition BytesVec_get_unchecked :: "mol_ops \<Rightarrow> nat \<Rightarrow> byte list \<Rightarrow> byte list option" where
  "BytesVec_get_unchecked P = dynvec_get P"

definition BytesVec_iter :: "mol_ops \<Rightarrow> byte list \<Rightarrow> byte list list option" where
  "BytesVec_iter P = dynvec_iter P"

definition BytesVec_build :: "mol_ops \<Rightarrow> byte list list \<Rightarrow> byte list" where
  "BytesVec_build P = dynvec_build P"

definition Node_verify :: "mol_ops \<Rightarrow> verifier" where
  "Node_verify P = table_verify_old P [BytesVec_verify P]"

definition Node_addresses :: "mol_ops \<Rightarrow> byte list \<Rightarrow> byte list option" where
  "Node_addresses P = table_field P 1 0"

definition Node_build :: "mol_ops \<Rightarrow> byte list \<Rightarrow> byte list" where
  "Node_build P addresses = table_build P [addresses]"

definition NodeVec_verify :: "mol_ops \<Rightarrow> verifier" where
  "NodeVec_verify P = dynvec_verify P (Node_verify P)"

definition NodeVec_get_unchecked :: "mol_ops \<Rightarrow> nat \<Rightarrow> byte list \<Rightarrow> byte list option" where
  "NodeVec_get_unchecked P = dynvec_get P"

definition NodeVec_iter :: "mol_ops \<Rightarrow> byte list \<Rightarrow> byte list list option" where
  "NodeVec_iter P = dynvec_iter P"

definition NodeVec_build :: "mol_ops \<Rightarrow> byte list list \<Rightarrow> byte list" where
  "NodeVec_build P = dynvec_build P"

definition discovery_Uint32_verify :: verifier where
  "discovery_Uint32_verify = array_verify 4"

definition discovery_Uint32_raw_data :: "byte list \<Rightarrow> byte list" where
  "discovery_Uint32_raw_data sl = sl"

definition discovery_Uint32_build :: "byte \<Rightarrow> byte \<Rightarrow> byte \<Rightarrow> byte \<Rightarrow> byte list" where
  "discovery_Uint32_build nth0 nth1 nth2 nth3 = [nth0, nth1, nth2, nth3]"

definition Uint16_verify :: verifier where
  "Uint16_verify = array_verify 2"

definition Uint16_raw_data :: "byte list \<Rightarrow> byte list" where
  "Uint16_raw_data sl = sl"

definition Uint16_build :: "byte \<Rightarrow> byte \<Rightarrow> byte list" where
  "Uint16_build nth0 nth1 = [nth0, nth1]"

definition Bool_verify :: verifier where
  "Bool_verify = array_verify 1"

definition Bool_build :: "byte \<Rightarrow> byte list" where
  "Bool_build nth0 = [nth0]"

definition PortOpt_verify :: verifier where
  "PortOpt_verify = opt_verify Uint16_verify"

definition PortOpt_to_opt :: "byte list \<Rightarrow> byte list option" where
  "PortOpt_to_opt = opt_to_opt"

definition PortOpt_build :: "byte list option \<Rightarrow> byte list" where
  "PortOpt_build = opt_build"

definition GetNodes_verify :: "mol_ops \<Rightarrow> verifier" where
  "GetNodes_verify P = table_verify_old P [discovery_Uint32_verify, discovery_Uint32_verify, PortOpt_verify]"

definition GetNodes_version :: "mol_ops \<Rightarrow> byte list \<Rightarrow> byte list option" where
  "GetNodes_version P = table_field P 3 0"

definition GetNodes_count :: "mol_ops \<Rightarrow> byte list \<Rightarrow> byte list option" where
  "GetNodes_count P = table_field P 3 1"

definition GetNodes_listen_port :: "mol_ops \<Rightarrow> byte list \<Rightarrow> byte list option" where
  "GetNodes_listen_port P = table_field P 3 2"

definition GetNodes_build :: "mol_ops \<Rightarrow> byte list \<Rightarrow> byte list \<Rightarrow> byte list \<Rightarrow> byte list" where
  "GetNodes_build P version count listen_port = table_build P [version, count, listen_port]"

definition Nodes_verify :: "mol_ops \<Rightarrow> verifier" where
  "Nodes_verify P = table_verify_old P [Bool_verify, NodeVec_verify P]"

definition Nodes_announce :: "mol_ops \<Rightarrow> byte list \<Rightarrow> byte list option" where
  "Nodes_announce P = table_field P 2 0"

definition Nodes_items :: "mol_ops \<Rightarrow> byte list \<Rightarrow> byte list option" where
  "Nodes_items P = table_field P 2 1"

definition Nodes_build :: "mol_ops \<Rightarrow> byte list \<Rightarrow> byte list \<Rightarrow> byte list" where
  "Nodes_build P announce items = table_build P [announce, items]"

datatype discovery_union = GetNodesU "byte list" | NodesU "byte list"

definition DiscoveryPayload_verify :: "mol_ops \<Rightarrow> verifier" where
  "DiscoveryPayload_verify P = union_verify P [GetNodes_verify P, Nodes_verify P]"

definition DiscoveryPayload_to_enum :: "mol_ops \<Rightarrow> byte list \<Rightarrow> discovery_union option" where
  "DiscoveryPayload_to_enum P sl =
     Option.bind (union_to_enum P sl) (\<lambda>(item_id, inner).
       if item_id = 0 then Some (GetNodesU inner) else if item_id = 1 then Some (NodesU inner) else None)"

definition DiscoveryPayload_build :: "mol_ops \<Rightarrow> discovery_union \<Rightarrow> byte list" where
  "DiscoveryPayload_build P v =
     (case v of GetNodesU inner \<Rightarrow> union_build P 0 inner | NodesU inner \<Rightarrow> union_build P 1 inner)"

definition DiscoveryMessage_verify :: "mol_ops \<Rightarrow> verifier" where
  "DiscoveryMessage_verify P = table_verify_old P [DiscoveryPayload_verify P]"

definition DiscoveryMessage_payload :: "mol_ops \<Rightarrow> byte list \<Rightarrow> byte list option" where
  "DiscoveryMessage_payload P = table_field P 1 0"

definition DiscoveryMessage_build :: "mol_ops \<Rightarrow> byte list \<Rightarrow> byte list" where
  "DiscoveryMessage_build P payload = table_build P [payload]"

section \<open>Messages\<close>

record node =
  nd_addresses :: "multiaddr list"

record nodes =
  ns_announce :: bool
  ns_items :: "node list"

datatype discovery_message =
    GetNodes (gn_version: u32) (gn_count: u32) (gn_listen_port: "u16 option")
  | Nodes (nodes_of: nodes)

definition encode_u32 :: "u32 \<Rightarrow> byte list" where
  "encode_u32 x =
     (let le = to_le_bytes 4 x in discovery_Uint32_build (le ! 0) (le ! 1) (le ! 2) (le ! 3))"

definition encode_port :: "u16 \<Rightarrow> byte list" where
  "encode_port port = (let port_le = to_le_bytes 2 port in Uint16_build (port_le ! 0) (port_le ! 1))"

definition encode_get_nodes :: "mol_ops \<Rightarrow> u32 \<Rightarrow> u32 \<Rightarrow> u16 option \<Rightarrow> byte list" where
  "encode_get_nodes P version count listen_port =
     DiscoveryPayload_build P (GetNodesU
       (GetNodes_build P (encode_u32 version) (encode_u32 count) (PortOpt_build (map_option encode_port listen_port))))"

definition encode_node :: "mol_ops \<Rightarrow> node \<Rightarrow> byte list" where
  "encode_node P item =
     Node_build P (BytesVec_build P (map (\<lambda>addr. discovery_Bytes_build P (ma_bytes addr)) (nd_addresses item)))"

definition encode_nodes :: "mol_ops \<Rightarrow> nodes \<Rightarrow> byte list" where
  "encode_nodes P ns =
     DiscoveryPayload_build P (NodesU
       (Nodes_build P (Bool_build (if ns_announce ns then 1 else 0))
         (NodeVec_build P (map (encode_node P) (ns_items ns)))))"

definition discovery_encode :: "mol_ops \<Rightarrow> discovery_message \<Rightarrow> byte list" where
  "discovery_encode P m =
     DiscoveryMessage_build P
       (case m of
          GetNodes version count listen_port \<Rightarrow> encode_get_nodes P version count listen_port
        | Nodes ns \<Rightarrow> encode_nodes P ns)"

definition decode_get_nodes :: "mol_ops \<Rightarrow> byte list \<Rightarrow> discovery_message option option" where
  "decode_get_nodes P reader =
     Option.bind (Option.bind (GetNodes_version P reader) (\<lambda>r. read_le 4 (discovery_Uint32_raw_data r))) (\<lambda>version.
     Option.bind (Option.bind (GetNodes_count P reader) (\<lambda>r. read_le 4 (discovery_Uint32_raw_data r))) (\<lambda>count.
     Option.bind (GetNodes_listen_port P reader) (\<lambda>p.
       case PortOpt_to_opt p of
         None \<Rightarrow> Some (Some (GetNodes version count None))
       | Some port_reader \<Rightarrow>
           map_option (\<lambda>port. Some (GetNodes version count (Some port))) (read_le 2 (Uint16_raw_data port_reader)))))"

definition decode_node :: "mol_ops \<Rightarrow> varint_ops \<Rightarrow> buf_ops \<Rightarrow> byte list \<Rightarrow> node option option" where
  "decode_node P V B node_reader =
     Option.bind (Option.bind (Node_addresses P node_reader) (BytesVec_iter P)) (\<lambda>items.
     try_some (decode_each (\<lambda>r. Option.bind (discovery_Bytes_raw_data r) (try_addr V B)) items) (\<lambda>addresses.
       Some (Some \<lparr>nd_addresses = addresses\<rparr>)))"

definition decode_nodes :: "mol_ops \<Rightarrow> varint_ops \<Rightarrow> buf_ops \<Rightarrow> byte list \<Rightarrow> discovery_message option option" where
  "decode_nodes P V B reader =
     Option.bind (Nodes_announce P reader) (\<lambda>a.
       if a = [] then None
       else if a ! 0 \<noteq> 0 \<and> a ! 0 \<noteq> 1 then Some None
       else
         Option.bind (Option.bind (Nodes_items P reader) (NodeVec_iter P)) (\<lambda>readers.
         try_some (decode_each (decode_node P V B) readers) (\<lambda>items.
           Some (Some (Nodes \<lparr>ns_announce = (a ! 0 = 1), ns_items = items\<rparr>)))))"

definition discovery_decode :: "mol_ops \<Rightarrow> varint_ops \<Rightarrow> buf_ops \<Rightarrow> byte list \<Rightarrow> discovery_message option option" where
  "discovery_decode P V B = decode_with P (DiscoveryMessage_verify P) (\<lambda>reader.
     Option.bind (Option.bind (DiscoveryMessage_payload P reader) (DiscoveryPayload_to_enum P)) (\<lambda>u.
       case u of
         GetNodesU reader \<Rightarrow> decode_get_nodes P reader
       | NodesU reader \<Rightarrow> decode_nodes P V B reader))"

section \<open>Framing\<close>

record frame_ops =
  ld_encode :: "byte list \<Rightarrow> io_error + byte list"
  ld_decode :: "byte list \<Rightarrow> io_error + byte list option"

text \<open>\<open>encode\<close> panics when the codec refuses the frame.\<close>

definition encode_frame :: "mol_ops \<Rightarrow> frame_ops \<Rightarrow> discovery_message \<Rightarrow> byte list option" where
  "encode_frame P L m = (case ld_encode L (discovery_encode P m) of Inr bs \<Rightarrow> Some bs | Inl _ \<Rightarrow> None)"

definition decode_frame :: "mol_ops \<Rightarrow> varint_ops \<Rightarrow> buf_ops \<Rightarrow> frame_ops \<Rightarrow> byte list \<Rightarrow> discovery_message option option" where
  "decode_frame P V B L data =
     (case ld_decode L data of
        Inr (Some frame) \<Rightarrow> discovery_decode P V B frame
      | Inr None \<Rightarrow> Some None
      | Inl _ \<Rightarrow> Some None)"

section \<open>Decoding\<close>

lemmas discovery_types =
  discovery_Bytes_verify_def discovery_Bytes_raw_data_def discovery_Bytes_build_def BytesVec_verify_def BytesVec_iter_def
  BytesVec_build_def Node_verify_def Node_addresses_def Node_build_def NodeVec_verify_def NodeVec_iter_def NodeVec_build_def
  discovery_Uint32_verify_def discovery_Uint32_raw_data_def discovery_Uint32_build_def Uint16_verify_def Uint16_raw_data_def
  Uint16_build_def Bool_verify_def Bool_build_def PortOpt_verify_def PortOpt_to_opt_def PortOpt_build_def GetNodes_verify_def
  GetNodes_version_def GetNodes_count_def GetNodes_listen_port_def GetNodes_build_def Nodes_verify_def Nodes_announce_def
  Nodes_items_def Nodes_build_def DiscoveryPayload_verify_def DiscoveryMessage_verify_def DiscoveryMessage_payload_def
  DiscoveryMessage_build_def

abbreviation node_v :: "mol_ops \<Rightarrow> verifier" where
  "node_v P \<equiv> table_verify_old P [dynvec_verify P (fixvec_verify P)]"

definition msg_valid :: "varint_ops \<Rightarrow> buf_ops \<Rightarrow> discovery_message \<Rightarrow> bool" where
  "msg_valid V B m =
     (case m of
        Nodes ns \<Rightarrow> list_all (\<lambda>n. list_all (\<lambda>a. valid_bytes V B (ma_bytes a)) (nd_addresses n)) (ns_items ns)
      | GetNodes _ _ _ \<Rightarrow> True)"

context message_format
begin

lemma safe_discovery: "safe (DiscoveryMessage_verify P)"
  unfolding discovery_types by (intro safe_intros; simp add: safe_intros)

lemma u32_part: "array_verify 4 s True = Some (Ok ()) \<Longrightarrow> \<exists>x. read_le 4 s = Some (x :: u32)"
  by (auto simp: array_verify_def read_le_def split: if_splits)

lemma decode_get_nodes_total:
  assumes "GetNodes_verify P reader True = Some (Ok ())"
  shows "decode_get_nodes P reader \<noteq> None"
proof -
  note part = table_part_old [OF assms [unfolded discovery_types], of 3]
  obtain a where a: "table_field P 3 0 reader = Some a" "array_verify 4 a True = Some (Ok ())" using part [of 0] by auto
  obtain b where b: "table_field P 3 1 reader = Some b" "array_verify 4 b True = Some (Ok ())" using part [of 1] by auto
  obtain c where c: "table_field P 3 2 reader = Some c" "opt_verify (array_verify 2) c True = Some (Ok ())"
    using part [of 2] by auto
  obtain x y where "read_le 4 a = Some (x :: u32)" "read_le 4 b = Some (y :: u32)"
    using u32_part a(2) b(2) by blast
  moreover have "c \<noteq> [] \<Longrightarrow> \<exists>z. read_le 2 c = Some (z :: u16)"
    using c(2) by (auto simp: opt_verify_def array_verify_def read_le_def split: if_splits)
  ultimately show ?thesis
    using a b c by (auto simp: decode_get_nodes_def discovery_types opt_to_opt_def)
qed

lemma decode_node_total:
  assumes "node_v P reader True = Some (Ok ())"
  shows "decode_node P V B reader \<noteq> None"
proof -
  obtain vec where vec: "table_field P 1 0 reader = Some vec" "dynvec_verify P (fixvec_verify P) vec True = Some (Ok ())"
    using table_part_old [OF assms, of 1 0] by auto
  obtain items where items: "dynvec_iter P vec = Some items" "list_all (\<lambda>s. fixvec_verify P s True = Some (Ok ())) items"
    using dynvec_items [OF vec(2)] by blast
  have "Option.bind (fixvec_raw_data s) (try_addr V B) \<noteq> None" if "fixvec_verify P s True = Some (Ok ())" for s
    using fixvec_data [OF that] try_addr_total by auto
  then have "decode_each (\<lambda>r. Option.bind (fixvec_raw_data r) (try_addr V B)) items \<noteq> None"
    using items(2) by (intro decode_each_total) (simp add: list_all_iff)
  then show ?thesis using vec(1) items(1) by (simp add: decode_node_def discovery_types try_some_eq_None)
qed

lemma decode_nodes_total:
  assumes "Nodes_verify P reader True = Some (Ok ())"
  shows "decode_nodes P V B reader \<noteq> None"
proof -
  note part = table_part_old [OF assms [unfolded discovery_types], of 2]
  obtain a where a: "table_field P 2 0 reader = Some a" "array_verify 1 a True = Some (Ok ())" using part [of 0] by auto
  obtain vec where vec: "table_field P 2 1 reader = Some vec" "dynvec_verify P (node_v P) vec True = Some (Ok ())"
    using part [of 1] by auto
  obtain items where items: "dynvec_iter P vec = Some items" "list_all (\<lambda>s. node_v P s True = Some (Ok ())) items"
    using dynvec_items [OF vec(2)] by blast
  have "a \<noteq> []" using a(2) by (auto simp: array_verify_def)
  moreover obtain r where "decode_each (decode_node P V B) items = Some r"
    using items(2) decode_node_total decode_each_total [of "decode_node P V B" items] by (auto simp: list_all_iff)
  ultimately show ?thesis
    using a(1) vec(1) items(1) by (cases r) (simp_all add: decode_nodes_def discovery_types)
qed

lemma discovery_decode_total: "discovery_decode P V B data \<noteq> None"
  unfolding discovery_decode_def
proof (rule decode_with_total [OF safe_discovery])
  assume v: "DiscoveryMessage_verify P data True = Some (Ok ())"
  obtain u where u: "table_field P 1 0 data = Some u" "DiscoveryPayload_verify P u True = Some (Ok ())"
    using table_part_old [OF v [unfolded DiscoveryMessage_verify_def], of 1 0] by auto
  obtain i inner where i: "union_to_enum P u = Some (i, inner)" "i < 2"
    "([GetNodes_verify P, Nodes_verify P] ! i) inner True = Some (Ok ())"
    using union_enum [OF u(2) [unfolded DiscoveryPayload_verify_def]] by auto
  then show "Option.bind (Option.bind (DiscoveryMessage_payload P data) (DiscoveryPayload_to_enum P)) (\<lambda>u.
       case u of
         GetNodesU reader \<Rightarrow> decode_get_nodes P reader
       | NodesU reader \<Rightarrow> decode_nodes P V B reader) \<noteq> None"
    using u(1) decode_get_nodes_total decode_nodes_total
    by (auto simp: less_2_cases_iff DiscoveryMessage_payload_def DiscoveryPayload_to_enum_def)
qed

section \<open>Round trips\<close>

lemma encode_u32: "encode_u32 x = to_le_bytes 4 x"
proof -
  obtain a b c d where "to_le_bytes 4 x = [a, b, c, d]"
    using length_to_le_bytes [of 4 x] by (auto simp: numeral_eq_Suc length_Suc_conv simp del: length_to_le_bytes)
  then show ?thesis by (simp add: encode_u32_def discovery_Uint32_build_def)
qed

lemma encode_port: "encode_port x = to_le_bytes 2 x"
proof -
  obtain a b where "to_le_bytes 2 x = [a, b]"
    using length_to_le_bytes [of 2 x] by (auto simp: numeral_eq_Suc length_Suc_conv simp del: length_to_le_bytes)
  then show ?thesis by (simp add: encode_port_def Uint16_build_def)
qed

lemma get_nodes_roundtrip:
  "GetNodes_verify P (GetNodes_build P (encode_u32 v) (encode_u32 c) (PortOpt_build (map_option encode_port p))) True = Some (Ok ())"
  "decode_get_nodes P (GetNodes_build P (encode_u32 v) (encode_u32 c) (PortOpt_build (map_option encode_port p)))
     = Some (Some (GetNodes v c p))"
  "length (GetNodes_build P (encode_u32 v) (encode_u32 c) (PortOpt_build (map_option encode_port p))) \<le> 26"
proof -
  let ?p = "PortOpt_build (map_option encode_port p)"
  let ?fs = "[encode_u32 v, encode_u32 c, ?p]"
  have lp: "length ?p \<le> 2" by (cases p) (simp_all add: discovery_types opt_build_def encode_port)
  have len: "length (table_build P ?fs) \<le> 26" using lp by (simp add: length_table_build encode_u32)
  then show "length (GetNodes_build P (encode_u32 v) (encode_u32 c) ?p) \<le> 26" by (simp add: GetNodes_build_def)
  have small: "length (table_build P ?fs) < 2 ^ 32" using len by simp
  have "PortOpt_verify ?p True = Some (Ok ())"
    by (cases p) (simp_all add: discovery_types opt_build_def opt_verify_def array_verify_def encode_port)
  then have "list_all2 (\<lambda>v f. v f True = Some (Ok ())) [array_verify 4, array_verify 4, PortOpt_verify] ?fs"
    by (simp add: array_verify_def encode_u32)
  from table_build_verify_old [OF this small]
  show "GetNodes_verify P (GetNodes_build P (encode_u32 v) (encode_u32 c) ?p) True = Some (Ok ())"
    by (simp add: GetNodes_verify_def GetNodes_build_def discovery_Uint32_verify_def)
  have f: "table_field P 3 i (table_build P ?fs) = Some (?fs ! i)" if "i < 3" for i
    using table_build_nth [of ?fs 3 i] small that by simp
  have "read_le 4 (encode_u32 x) = Some x" for x :: u32 unfolding encode_u32 by (rule read_to_le_bytes) simp
  moreover have "read_le 2 (encode_port x) = Some x" for x :: u16 unfolding encode_port by (rule read_to_le_bytes) simp
  moreover have "encode_port x \<noteq> []" for x unfolding encode_port using length_to_le_bytes [of 2 x] by (metis list.size(3) zero_neq_numeral)
  ultimately show "decode_get_nodes P (GetNodes_build P (encode_u32 v) (encode_u32 c) ?p) = Some (Some (GetNodes v c p))"
    using f [of 0] f [of 1] f [of 2]
    by (cases p) (simp_all add: decode_get_nodes_def discovery_types opt_build_def opt_to_opt_def)
qed

lemma encode_node_ok:
  assumes "length (encode_node P n) < 2 ^ 32" "list_all (\<lambda>a. valid_bytes V B (ma_bytes a)) (nd_addresses n)"
  shows "node_v P (encode_node P n) True = Some (Ok ())" "decode_node P V B (encode_node P n) = Some (Some n)"
proof -
  define vec where "vec = dynvec_build P (map (\<lambda>a. fixvec_build P (ma_bytes a)) (nd_addresses n))"
  have enc: "encode_node P n = table_build P [vec]" by (simp add: encode_node_def discovery_types vec_def)
  have small: "length vec < 2 ^ 32" using length_part [of vec "[vec]"] assms(1) unfolding enc by simp
  have each: "length (ma_bytes a) < 2 ^ 32" if "a \<in> set (nd_addresses n)" for a
    using length_item [of "fixvec_build P (ma_bytes a)" "map (\<lambda>a. fixvec_build P (ma_bytes a)) (nd_addresses n)"] that small
    by (auto simp: vec_def)
  have "dynvec_verify P (fixvec_verify P) vec True = Some (Ok ())"
    unfolding vec_def using each small by (intro dynvec_build_verify) (auto simp: list_all_iff fixvec_build_verify vec_def)
  from single_verify [of "dynvec_verify P (fixvec_verify P)", OF this] assms(1)
  show "node_v P (encode_node P n) True = Some (Ok ())" unfolding enc by simp
  have "table_field P 1 0 (encode_node P n) = Some vec" using single_field [of vec] assms(1) unfolding enc by simp
  moreover have "dynvec_iter P vec = Some (map (\<lambda>a. fixvec_build P (ma_bytes a)) (nd_addresses n))"
    unfolding vec_def using small by (intro dynvec_build_iter) (simp add: vec_def)
  moreover have "decode_each (\<lambda>r. Option.bind (fixvec_raw_data r) (try_addr V B))
      (map (\<lambda>a. fixvec_build P (ma_bytes a)) (nd_addresses n)) = Some (Some (nd_addresses n))"
    using assms(2) by (intro decode_each_map) (simp add: fixvec_build_raw try_addr_Ok list_all_iff)
  ultimately show "decode_node P V B (encode_node P n) = Some (Some n)"
    by (simp add: decode_node_def discovery_types)
qed

lemma nodes_roundtrip:
  assumes "length (Nodes_build P (Bool_build (if ns_announce ns then 1 else 0)) (NodeVec_build P (map (encode_node P) (ns_items ns)))) < 2 ^ 32"
    (is "length ?bs < _")
    and valid: "list_all (\<lambda>n. list_all (\<lambda>a. valid_bytes V B (ma_bytes a)) (nd_addresses n)) (ns_items ns)"
  shows "Nodes_verify P ?bs True = Some (Ok ())" "decode_nodes P V B ?bs = Some (Some (Nodes ns))"
proof -
  define vec where "vec = dynvec_build P (map (encode_node P) (ns_items ns))"
  let ?b = "[if ns_announce ns then 1 else 0 :: byte]"
  have enc: "?bs = table_build P [?b, vec]" by (simp add: discovery_types vec_def)
  have len: "length (table_build P [?b, vec]) < 2 ^ 32" using assms(1) unfolding enc .
  have small: "length vec < 2 ^ 32" using length_part [of vec "[?b, vec]"] len by simp
  have each: "length (encode_node P n) < 2 ^ 32" if "n \<in> set (ns_items ns)" for n
    using length_item [of "encode_node P n" "map (encode_node P) (ns_items ns)"] that small by (auto simp: vec_def)
  have "dynvec_verify P (node_v P) vec True = Some (Ok ())"
    unfolding vec_def using each small valid encode_node_ok(1)
    by (intro dynvec_build_verify) (auto simp: list_all_iff vec_def)
  then have "list_all2 (\<lambda>v f. v f True = Some (Ok ())) [array_verify 1, dynvec_verify P (node_v P)] [?b, vec]"
    by (simp add: array_verify_def)
  from table_build_verify_old [OF this len] show "Nodes_verify P ?bs True = Some (Ok ())"
    unfolding enc by (simp add: discovery_types)
  have "table_field P 2 0 ?bs = Some ?b" "table_field P 2 1 ?bs = Some vec"
    using table_build_nth [of "[?b, vec]" 2 0] table_build_nth [of "[?b, vec]" 2 1] len unfolding enc by simp_all
  moreover have "dynvec_iter P vec = Some (map (encode_node P) (ns_items ns))"
    unfolding vec_def using small by (intro dynvec_build_iter) (simp add: vec_def)
  moreover have "decode_each (decode_node P V B) (map (encode_node P) (ns_items ns)) = Some (Some (ns_items ns))"
    using valid each encode_node_ok(2) by (intro decode_each_map) (auto simp: list_all_iff)
  ultimately show "decode_nodes P V B ?bs = Some (Some (Nodes ns))"
    by (simp add: decode_nodes_def Nodes_announce_def Nodes_items_def NodeVec_iter_def)
qed

text \<open>A payload survives the message around it.\<close>

lemma payload_roundtrip:
  assumes "length (table_build P [union_build P i inner]) < 2 ^ 32" "unat i < 2"
    "([GetNodes_verify P, Nodes_verify P] ! unat i) inner True = Some (Ok ())"
  shows "DiscoveryMessage_verify P (table_build P [union_build P i inner]) True = Some (Ok ())"
    "Option.bind (DiscoveryMessage_payload P (table_build P [union_build P i inner])) (union_to_enum P) = Some (unat i, inner)"
proof -
  have "DiscoveryPayload_verify P (union_build P i inner) True = Some (Ok ())"
    using assms(2,3) unfolding DiscoveryPayload_verify_def by (subst union_build_verify) simp_all
  from single_verify [of "DiscoveryPayload_verify P", OF this assms(1)]
  show "DiscoveryMessage_verify P (table_build P [union_build P i inner]) True = Some (Ok ())"
    by (simp add: DiscoveryMessage_verify_def)
  show "Option.bind (DiscoveryMessage_payload P (table_build P [union_build P i inner])) (union_to_enum P) = Some (unat i, inner)"
    using single_field [OF assms(1)] by (simp add: DiscoveryMessage_payload_def union_build_enum)
qed

lemma discovery_roundtrip:
  assumes "length (discovery_encode P m) < 2 ^ 32" "msg_valid V B m"
  shows "discovery_decode P V B (discovery_encode P m) = Some (Some m)"
proof (cases m)
  case (GetNodes v c p)
  let ?in = "GetNodes_build P (encode_u32 v) (encode_u32 c) (PortOpt_build (map_option encode_port p))"
  have enc: "discovery_encode P m = table_build P [union_build P 0 ?in]"
    using GetNodes by (simp add: discovery_encode_def encode_get_nodes_def DiscoveryPayload_build_def DiscoveryMessage_build_def)
  note pr = payload_roundtrip [of 0 ?in, OF assms(1) [unfolded enc]]
  have "discovery_decode P V B (discovery_encode P m) = decode_get_nodes P ?in"
    unfolding enc discovery_decode_def using pr get_nodes_roundtrip(1) [of v c p]
    by (subst decode_with_Ok) (auto simp: DiscoveryPayload_to_enum_def bind_assoc bind_eq_Some_conv)
  then show ?thesis using get_nodes_roundtrip(2) GetNodes by simp
next
  case (Nodes ns)
  let ?in = "Nodes_build P (Bool_build (if ns_announce ns then 1 else 0)) (NodeVec_build P (map (encode_node P) (ns_items ns)))"
  have enc: "discovery_encode P m = table_build P [union_build P 1 ?in]"
    using Nodes by (simp add: discovery_encode_def encode_nodes_def DiscoveryPayload_build_def DiscoveryMessage_build_def)
  have "length ?in < 2 ^ 32"
    using length_part [of "union_build P 1 ?in" "[union_build P 1 ?in]"] assms(1) unfolding enc by simp
  note nr = nodes_roundtrip [OF this]
  have valid: "list_all (\<lambda>n. list_all (\<lambda>a. valid_bytes V B (ma_bytes a)) (nd_addresses n)) (ns_items ns)"
    using assms(2) Nodes by (simp add: msg_valid_def)
  note pr = payload_roundtrip [of 1 ?in, OF assms(1) [unfolded enc]]
  have "discovery_decode P V B (discovery_encode P m) = decode_nodes P V B ?in"
    unfolding enc discovery_decode_def using pr nr(1) [OF valid]
    by (subst decode_with_Ok) (auto simp: DiscoveryPayload_to_enum_def bind_assoc bind_eq_Some_conv)
  then show ?thesis using nr(2) [OF valid] Nodes by simp
qed

end

section \<open>Frames\<close>

text \<open>What the code relies on: a frame that was encoded is decoded again.\<close>

locale framing =
  fixes L :: frame_ops
  assumes ld_decode_encode: "ld_encode L x = Ok y \<Longrightarrow> ld_decode L y = Ok (Some x)"

text \<open>The documented default format: four bytes of big-endian length, frames of at most eight MiB.\<close>

definition ld_ops :: frame_ops where
  "ld_ops =
     \<lparr>ld_encode = (\<lambda>x. if length x > 8388608 then Err InvalidInput else Ok (put_u32 be_ops (of_nat (length x)) @ x)),
      ld_decode = (\<lambda>y.
        if length y < 4 then Ok None
        else let n = unat (get_u32 be_ops (take 4 y)) in
          if n > 8388608 then Err InvalidData
          else if length y < 4 + n then Ok None
          else Ok (Some (take n (drop 4 y))))\<rparr>"

interpretation ld: framing ld_ops
proof
  fix x y
  assume "ld_encode ld_ops x = Ok y"
  then have "length x \<le> 8388608" "y = put_u32 be_ops (of_nat (length x)) @ x"
    by (auto simp: ld_ops_def split: if_splits)
  moreover have "unat (of_nat (length x) :: u32) = length x"
    using \<open>length x \<le> 8388608\<close> by (simp add: unat_of_nat)
  ultimately show "ld_decode ld_ops y = Ok (Some x)"
    by (simp add: ld_ops_def Let_def be.put_u32_len be.get_put_u32)
qed

lemma frame_roundtrip:
  assumes "message_format P B V" "framing L" "length (discovery_encode P m) < 2 ^ 32" "msg_valid V B m"
    "encode_frame P L m = Some bs"
  shows "decode_frame P V B L bs = Some (Some m)"
  using assms(5) framing.ld_decode_encode [OF assms(2)] message_format.discovery_roundtrip [OF assms(1,3,4)]
  by (auto simp: encode_frame_def decode_frame_def split: sum.splits)

end
