(* ===== verification/Discovery_Protocol.thy ===== *)
theory Discovery_Protocol
  imports Discovery_Msg
begin

text \<open>
  The handler of the discovery protocol (\<open>protocols/discovery/src\<close>: \<open>lib.rs\<close>, \<open>state.rs\<close>, \<open>addr.rs\<close>).
  The address manager is user code: calls to it and requests to the context go to a log, and what
  it returns is a function of the log. The stable Bloom filter is third-party and randomised: the
  model keeps the keys inserted so far and asks a parameter whether the filter contains an address.
  Random choices and the iteration order of the hash map are parameters. \<open>None\<close> is a panic.
\<close>

section \<open>Parameters\<close>

definition ANNOUNCE_THRESHOLD :: nat where "ANNOUNCE_THRESHOLD = 10"
definition MAX_ADDR_TO_SEND :: nat where "MAX_ADDR_TO_SEND = 1000"
definition DISC_MAX_ADDRS :: nat where "DISC_MAX_ADDRS = 3"
definition ANNOUNCE_INTERVAL :: nat where "ANNOUNCE_INTERVAL = 3600 * 24"
definition VERSION :: u32 where "VERSION = 0"

datatype disc_misbehavior =
    DuplicateGetNodes | DuplicateFirstNodes | TooManyItems bool nat | TooManyAddrs nat | DiscInvalidData

datatype disc_result = DiscDisconnect | DiscContinue

fun is_disconnect :: "disc_result \<Rightarrow> bool" where
  "is_disconnect DiscDisconnect = True"
| "is_disconnect DiscContinue = False"

datatype disc_call =
    AddNewAddr nat multiaddr | AddNewAddrs nat "multiaddr list" | MisbehaveD nat disc_misbehavior | GetRandom nat
  | DCtxDisconnect nat | DCtxSend nat "byte list"

record addr_mgr =
  am_is_valid :: "disc_call list \<Rightarrow> multiaddr \<Rightarrow> bool"
  am_misbehave :: "disc_call list \<Rightarrow> disc_result"
  am_get_random :: "disc_call list \<Rightarrow> multiaddr list"

record disc_env =
  de_mol :: mol_ops
  de_varint :: varint_ops
  de_buf :: buf_ops
  de_frame :: frame_ops
  de_mgr :: addr_mgr
  de_bloom :: "multiaddr list \<Rightarrow> multiaddr \<Rightarrow> bool"
  de_choose :: "multiaddr list \<Rightarrow> nat \<Rightarrow> multiaddr list"

section \<open>Session state\<close>

datatype remote_address = Init multiaddr | Listen multiaddr

fun to_inner :: "remote_address \<Rightarrow> multiaddr" where
  "to_inner (Init addr) = addr"
| "to_inner (Listen addr) = addr"

definition update_port :: "varint_ops \<Rightarrow> buf_ops \<Rightarrow> u16 \<Rightarrow> remote_address \<Rightarrow> remote_address option" where
  "update_port V B port r =
     (case r of
        Init addr \<Rightarrow>
          map_option (\<lambda>ps. Listen (from_iter V B (map (\<lambda>proto. case proto of Tcp _ \<Rightarrow> Tcp port | value \<Rightarrow> value) ps)))
            (iter V B addr)
      | Listen addr \<Rightarrow> Some (Listen addr))"

record session_state =
  ss_addr_known :: "multiaddr list"
  ss_remote_addr :: remote_address
  ss_last_announce :: "nat option"
  ss_announce :: "multiaddr list"
  ss_received_get_nodes :: bool
  ss_received_nodes :: bool

record discovery =
  d_log :: "disc_call list"
  d_sessions :: "nat \<Rightarrow> session_state option"
  d_query_cycle :: "nat option"

definition discovery_new :: "nat option \<Rightarrow> discovery" where
  "discovery_new query_cycle = \<lparr>d_log = [], d_sessions = Map.empty, d_query_cycle = query_cycle\<rparr>"

definition dcall :: "disc_call \<Rightarrow> discovery \<Rightarrow> discovery" where
  "dcall c h = h\<lparr>d_log := d_log h @ [c]\<rparr>"

definition dsend :: "disc_env \<Rightarrow> nat \<Rightarrow> discovery_message \<Rightarrow> discovery \<Rightarrow> discovery option" where
  "dsend E sid m h = map_option (\<lambda>msg. dcall (DCtxSend sid msg) h) (encode_frame (de_mol E) (de_frame E) m)"

definition set_session :: "nat \<Rightarrow> session_state \<Rightarrow> discovery \<Rightarrow> discovery" where
  "set_session sid st h = h\<lparr>d_sessions := (d_sessions h)(sid \<mapsto> st)\<rparr>"

text \<open>\<open>listens().iter().filter_map(multiaddr_to_socketaddr).map(port).next()\<close>.\<close>

fun first_port :: "varint_ops \<Rightarrow> buf_ops \<Rightarrow> multiaddr list \<Rightarrow> u16 option option" where
  "first_port V B [] = Some None"
| "first_port V B (a # as) =
     (case multiaddr_to_socketaddr V B a of
        None \<Rightarrow> None
      | Some (Some (_, port)) \<Rightarrow> Some (Some port)
      | Some None \<Rightarrow> first_port V B as)"

definition session_state_new :: "disc_env \<Rightarrow> session_ctx \<Rightarrow> multiaddr list \<Rightarrow> discovery \<Rightarrow> (discovery \<times> session_state) option" where
  "session_state_new E session listens h =
     (let state = (\<lambda>known remote.
            \<lparr>ss_addr_known = known, ss_remote_addr = remote, ss_last_announce = None, ss_announce = [],
             ss_received_get_nodes = False, ss_received_nodes = False\<rparr>) in
      case sc_ty session of
        Outbound \<Rightarrow>
          Option.bind (first_port (de_varint E) (de_buf E) listens) (\<lambda>port.
          map_option (\<lambda>h'. (h', state [sc_address session] (Listen (sc_address session))))
            (dsend E (sc_id session) (GetNodes VERSION (of_nat MAX_ADDR_TO_SEND) port) h))
      | Inbound \<Rightarrow> Some (h, state [] (Init (sc_address session))))"

definition check_timer :: "nat \<Rightarrow> nat \<Rightarrow> session_state \<Rightarrow> session_state \<times> multiaddr option" where
  "check_timer now interval st =
     (if (case ss_last_announce st of Some time \<Rightarrow> now - time > interval | None \<Rightarrow> True) then
        (st\<lparr>ss_last_announce := Some now\<rparr>, case ss_remote_addr st of Listen addr \<Rightarrow> Some addr | Init _ \<Rightarrow> None)
      else (st, None))"

definition nodes_message :: "bool \<Rightarrow> multiaddr list \<Rightarrow> discovery_message" where
  "nodes_message announce addrs =
     Nodes \<lparr>ns_announce = announce, ns_items = map (\<lambda>addr. \<lparr>nd_addresses = [addr]\<rparr>) addrs\<rparr>"

definition send_messages :: "disc_env \<Rightarrow> nat \<Rightarrow> session_state \<Rightarrow> discovery \<Rightarrow> (discovery \<times> session_state) option" where
  "send_messages E sid st h =
     (if ss_announce st \<noteq> [] then
        map_option (\<lambda>h'. (h', st\<lparr>ss_announce := []\<rparr>)) (dsend E sid (nodes_message True (ss_announce st)) h)
      else Some (h, st))"

section \<open>The handler\<close>

definition verify_nodes_message :: "nodes \<Rightarrow> disc_misbehavior option" where
  "verify_nodes_message ns =
     (let misbehavior =
        (if ns_announce ns then
           if length (ns_items ns) > ANNOUNCE_THRESHOLD then Some (TooManyItems True (length (ns_items ns))) else None
         else if length (ns_items ns) > MAX_ADDR_TO_SEND then Some (TooManyItems False (length (ns_items ns)))
         else None) in
      case misbehavior of
        Some m \<Rightarrow> Some m
      | None \<Rightarrow>
          (case filter (\<lambda>item. length (nd_addresses item) > DISC_MAX_ADDRS) (ns_items ns) of
             item # _ \<Rightarrow> Some (TooManyAddrs (length (nd_addresses item)))
           | [] \<Rightarrow> None))"

text \<open>The closure \<open>check\<close>: report, and disconnect if told to.\<close>

definition check :: "disc_env \<Rightarrow> nat \<Rightarrow> disc_misbehavior \<Rightarrow> discovery \<Rightarrow> discovery \<times> bool" where
  "check E sid kind h =
     (let h1 = dcall (MisbehaveD sid kind) h in
      if is_disconnect (am_misbehave (de_mgr E) (d_log h1)) then (dcall (DCtxDisconnect sid) h1, True) else (h1, False))"

definition discovery_connected :: "disc_env \<Rightarrow> session_ctx \<Rightarrow> multiaddr list \<Rightarrow> discovery \<Rightarrow> discovery option" where
  "discovery_connected E session listens h =
     map_option (\<lambda>(h', st). set_session (sc_id session) st h') (session_state_new E session listens h)"

definition discovery_disconnected :: "nat \<Rightarrow> discovery \<Rightarrow> discovery" where
  "discovery_disconnected sid h = h\<lparr>d_sessions := (d_sessions h)(sid := None)\<rparr>"

text \<open>Change the client's random outbound port to its listen port.\<close>

definition learn_port :: "disc_env \<Rightarrow> nat \<Rightarrow> u16 option \<Rightarrow> session_state \<Rightarrow> discovery \<Rightarrow> (session_state \<times> discovery) option" where
  "learn_port E sid listen_port st h =
     (case listen_port of
        Some port \<Rightarrow>
          map_option (\<lambda>r.
            (st\<lparr>ss_remote_addr := r, ss_addr_known := ss_addr_known st @ [to_inner r]\<rparr>,
             case r of Listen addr \<Rightarrow> dcall (AddNewAddr sid addr) h | Init _ \<Rightarrow> h))
            (update_port (de_varint E) (de_buf E) port (ss_remote_addr st))
      | None \<Rightarrow> Some (st, h))"

definition pick_items :: "disc_env \<Rightarrow> u32 \<Rightarrow> multiaddr list \<Rightarrow> multiaddr list" where
  "pick_items E count items =
     (let m = max MAX_ADDR_TO_SEND (unat count) in if length items > m then de_choose E items m else items)"

definition answer_get_nodes :: "disc_env \<Rightarrow> nat \<Rightarrow> session_state \<Rightarrow> u32 \<Rightarrow> u16 option \<Rightarrow> discovery \<Rightarrow> discovery option" where
  "answer_get_nodes E sid st count listen_port h0 =
     (let h1 = dcall (GetRandom 2500) h0;
          items = pick_items E count (am_get_random (de_mgr E) (d_log h1)) in
      Option.bind (learn_port E sid listen_port (st\<lparr>ss_received_get_nodes := True\<rparr>) h1) (\<lambda>(st1, h2).
        dsend E sid (nodes_message False items)
          (set_session sid (st1\<lparr>ss_addr_known := ss_addr_known st1 @ items\<rparr>) h2)))"

definition accept_nodes :: "disc_env \<Rightarrow> nat \<Rightarrow> nodes \<Rightarrow> discovery \<Rightarrow> discovery" where
  "accept_nodes E sid ns h =
     (case d_sessions h sid of
        None \<Rightarrow> h
      | Some st \<Rightarrow>
          if \<not> ns_announce ns \<and> ss_received_nodes st then fst (check E sid DuplicateFirstNodes h)
          else
            let addrs = concat (map nd_addresses (ns_items ns)) in
            dcall (AddNewAddrs sid addrs)
              (set_session sid
                (st\<lparr>ss_addr_known := ss_addr_known st @ addrs, ss_received_nodes := ss_received_nodes st \<or> \<not> ns_announce ns\<rparr>) h))"

definition discovery_received :: "disc_env \<Rightarrow> nat \<Rightarrow> byte list \<Rightarrow> discovery \<Rightarrow> discovery option" where
  "discovery_received E sid data h =
     Option.bind (decode_frame (de_mol E) (de_varint E) (de_buf E) (de_frame E) data) (\<lambda>d.
       case d of
         Some (GetNodes _ count listen_port) \<Rightarrow>
           (case d_sessions h sid of
              None \<Rightarrow> Some h
            | Some st \<Rightarrow>
                if ss_received_get_nodes st then
                  let (h', stop) = check E sid DuplicateGetNodes h in
                  if stop then Some h' else answer_get_nodes E sid st count listen_port h'
                else answer_get_nodes E sid st count listen_port h)
       | Some (Nodes ns) \<Rightarrow>
           (case verify_nodes_message ns of
              Some misbehavior \<Rightarrow>
                let (h', stop) = check E sid misbehavior h in Some (if stop then h' else accept_nodes E sid ns h')
            | None \<Rightarrow> Some (accept_nodes E sid ns h))
       | None \<Rightarrow> Some (fst (check E sid DiscInvalidData h)))"

text \<open>\<open>keys\<close>: the order of \<open>sessions.iter_mut()\<close>; \<open>shuffled i\<close>: the keys as shuffled for the \<open>i\<close>-th announced address.\<close>

fun collect_announce :: "disc_env \<Rightarrow> nat \<Rightarrow> nat \<Rightarrow> nat list \<Rightarrow> discovery \<Rightarrow> (discovery \<times> multiaddr list) option" where
  "collect_announce E now interval [] h = Some (h, [])"
| "collect_announce E now interval (sid # keys) h =
     (case d_sessions h sid of
        None \<Rightarrow> collect_announce E now interval keys h
      | Some st \<Rightarrow>
          Option.bind (send_messages E sid st h) (\<lambda>(h1, st1).
          let (st2, timer) = check_timer now interval st1; h2 = set_session sid st2 h1 in
          map_option (\<lambda>(h3, addrs).
            (h3, (case timer of
                    Some addr \<Rightarrow> if am_is_valid (de_mgr E) (d_log h2) addr then addr # addrs else addrs
                  | None \<Rightarrow> addrs)))
            (collect_announce E now interval keys h2)))"

definition announce_one :: "disc_env \<Rightarrow> multiaddr \<Rightarrow> nat \<Rightarrow> discovery \<Rightarrow> discovery" where
  "announce_one E addr key h =
     (case d_sessions h key of
        None \<Rightarrow> h
      | Some value \<Rightarrow>
          if length (ss_announce value) < 10 \<and> \<not> de_bloom E (ss_addr_known value) addr then
            set_session key
              (value\<lparr>ss_announce := ss_announce value @ [addr], ss_addr_known := ss_addr_known value @ [addr]\<rparr>) h
          else h)"

fun announce_all :: "disc_env \<Rightarrow> (nat \<Rightarrow> nat list) \<Rightarrow> nat \<Rightarrow> multiaddr list \<Rightarrow> discovery \<Rightarrow> discovery" where
  "announce_all E shuffled i [] h = h"
| "announce_all E shuffled i (addr # addrs) h =
     announce_all E shuffled (Suc i) addrs (fold (announce_one E addr) (take 3 (shuffled i)) h)"

definition discovery_notify :: "disc_env \<Rightarrow> nat \<Rightarrow> nat list \<Rightarrow> (nat \<Rightarrow> nat list) \<Rightarrow> discovery \<Rightarrow> discovery option" where
  "discovery_notify E now keys shuffled h =
     (let dynamic_query_cycle = (case d_query_cycle h of Some c \<Rightarrow> c | None \<Rightarrow> ANNOUNCE_INTERVAL) in
      map_option (\<lambda>(h', announce_list). announce_all E shuffled 0 announce_list h')
        (collect_announce E now dynamic_query_cycle keys h))"

section \<open>Runs of the handler\<close>

datatype disc_event =
    DConnected session_ctx "multiaddr list" | DDisconnected nat | DReceived nat "byte list"
  | DNotify nat "nat list" "nat \<Rightarrow> nat list"

fun discovery_handle :: "disc_env \<Rightarrow> disc_event \<Rightarrow> discovery \<Rightarrow> discovery option" where
  "discovery_handle E (DConnected session listens) h = discovery_connected E session listens h"
| "discovery_handle E (DDisconnected sid) h = Some (discovery_disconnected sid h)"
| "discovery_handle E (DReceived sid data) h = discovery_received E sid data h"
| "discovery_handle E (DNotify now keys shuffled) h = discovery_notify E now keys shuffled h"

definition discovery_step :: "disc_env \<Rightarrow> disc_event \<Rightarrow> discovery \<Rightarrow> discovery" where
  "discovery_step E e h = (case discovery_handle E e h of Some h' \<Rightarrow> h' | None \<Rightarrow> h)"

text \<open>What a peer that runs the same code asks for: at most \<open>MAX_ADDR_TO_SEND\<close> addresses.\<close>

definition modest :: "disc_env \<Rightarrow> disc_event \<Rightarrow> bool" where
  "modest E e =
     (case e of
        DReceived _ data \<Rightarrow>
          (case decode_frame (de_mol E) (de_varint E) (de_buf E) (de_frame E) data of
             Some (Some (GetNodes _ count _)) \<Rightarrow> unat count \<le> MAX_ADDR_TO_SEND
           | _ \<Rightarrow> True)
      | _ \<Rightarrow> True)"

definition polite :: "discovery_message \<Rightarrow> bool" where
  "polite m =
     (case m of
        GetNodes _ count _ \<Rightarrow> unat count \<le> MAX_ADDR_TO_SEND
      | Nodes ns \<Rightarrow> verify_nodes_message ns = None)"

definition sends_polite :: "disc_env \<Rightarrow> disc_call list \<Rightarrow> bool" where
  "sends_polite E log \<longleftrightarrow>
     (\<forall>sid bs. DCtxSend sid bs \<in> set log \<longrightarrow> (\<exists>m. encode_frame (de_mol E) (de_frame E) m = Some bs \<and> polite m))"

definition disc_inv :: "disc_env \<Rightarrow> discovery \<Rightarrow> bool" where
  "disc_inv E h \<longleftrightarrow> sends_polite E (d_log h) \<and> (\<forall>sid st. d_sessions h sid = Some st \<longrightarrow> length (ss_announce st) \<le> 10)"

lemma polite_nodes:
  "length addrs \<le> (if announce then ANNOUNCE_THRESHOLD else MAX_ADDR_TO_SEND) \<Longrightarrow> polite (nodes_message announce addrs)"
  by (auto simp: polite_def nodes_message_def verify_nodes_message_def Let_def DISC_MAX_ADDRS_def filter_map comp_def
      split: if_splits)

lemma polite_request: "polite (GetNodes v (of_nat MAX_ADDR_TO_SEND) p)"
  by (simp add: polite_def MAX_ADDR_TO_SEND_def)

lemma disc_inv_call: "disc_inv E h \<Longrightarrow> (\<And>sid bs. c \<noteq> DCtxSend sid bs) \<Longrightarrow> disc_inv E (dcall c h)"
  by (auto simp: disc_inv_def dcall_def sends_polite_def)

lemma disc_inv_set: "disc_inv E h \<Longrightarrow> length (ss_announce st) \<le> 10 \<Longrightarrow> disc_inv E (set_session sid st h)"
  by (simp add: disc_inv_def set_session_def)

lemma disc_inv_send: "dsend E sid m h = Some h' \<Longrightarrow> disc_inv E h \<Longrightarrow> polite m \<Longrightarrow> disc_inv E h'"
  by (auto simp: disc_inv_def dsend_def dcall_def sends_polite_def)

lemma disc_inv_check: "disc_inv E h \<Longrightarrow> check E sid k h = (h', b) \<Longrightarrow> disc_inv E h' \<and> d_sessions h' = d_sessions h"
  by (auto simp: check_def Let_def dcall_def disc_inv_def sends_polite_def split: if_splits)

lemma disc_inv_announce: "disc_inv E h \<Longrightarrow> d_sessions h sid = Some st \<Longrightarrow> length (ss_announce st) \<le> 10"
  by (simp add: disc_inv_def)

lemma connected_inv: "disc_inv E h \<Longrightarrow> discovery_connected E session listens h = Some h' \<Longrightarrow> disc_inv E h'"
  by (auto simp: discovery_connected_def session_state_new_def Let_def bind_eq_Some_conv
      intro!: disc_inv_set polite_request elim!: disc_inv_send split: session_kind.splits)

lemma learn_port_inv:
  "disc_inv E h \<Longrightarrow> learn_port E sid port st h = Some (st', h') \<Longrightarrow> disc_inv E h' \<and> ss_announce st' = ss_announce st"
proof (cases port)
  case (Some p)
  assume inv: "disc_inv E h" and l: "learn_port E sid port st h = Some (st', h')"
  then obtain r where "update_port (de_varint E) (de_buf E) p (ss_remote_addr st) = Some r"
    using Some by (auto simp: learn_port_def)
  with inv l Some show ?thesis by (cases r) (auto simp: learn_port_def intro!: disc_inv_call)
qed (simp add: learn_port_def)

lemma pick_items_le:
  "(\<And>xs n. length (de_choose E xs n) \<le> n) \<Longrightarrow> unat count \<le> MAX_ADDR_TO_SEND \<Longrightarrow> length (pick_items E count xs) \<le> MAX_ADDR_TO_SEND"
  by (auto simp: pick_items_def Let_def max_def)

lemma answer_inv:
  assumes "disc_inv E h" "d_sessions h sid = Some st" "unat count \<le> MAX_ADDR_TO_SEND"
    and choose: "\<And>xs n. length (de_choose E xs n) \<le> n"
    and a: "answer_get_nodes E sid st count port h = Some h'"
  shows "disc_inv E h'"
proof -
  let ?h1 = "dcall (GetRandom 2500) h" and ?st = "st\<lparr>ss_received_get_nodes := True\<rparr>"
  define xs where "xs = pick_items E count (am_get_random (de_mgr E) (d_log ?h1))"
  obtain st1 h2 where learn: "learn_port E sid port ?st ?h1 = Some (st1, h2)"
    and send: "dsend E sid (nodes_message False xs) (set_session sid (st1\<lparr>ss_addr_known := ss_addr_known st1 @ xs\<rparr>) h2) = Some h'"
    using a by (auto simp: answer_get_nodes_def Let_def bind_eq_Some_conv xs_def)
  have "disc_inv E ?h1" using assms(1) by (rule disc_inv_call) simp
  from learn_port_inv [OF this learn]
  have "disc_inv E (set_session sid (st1\<lparr>ss_addr_known := ss_addr_known st1 @ xs\<rparr>) h2)"
    using disc_inv_announce [OF assms(1,2)] by (intro disc_inv_set) simp_all
  then show ?thesis using disc_inv_send [OF send] pick_items_le [OF choose assms(3)] by (simp add: polite_nodes xs_def)
qed

lemma accept_inv: "disc_inv E h \<Longrightarrow> disc_inv E (accept_nodes E sid ns h)"
proof (cases "d_sessions h sid")
  case (Some st)
  assume inv: "disc_inv E h"
  show ?thesis
  proof (cases "\<not> ns_announce ns \<and> ss_received_nodes st")
    case True
    then show ?thesis using Some disc_inv_check [OF inv, of sid DuplicateFirstNodes]
      by (cases "check E sid DuplicateFirstNodes h") (simp add: accept_nodes_def)
  next
    case False
    then show ?thesis
      using Some inv disc_inv_announce [OF inv Some]
      by (auto simp: accept_nodes_def Let_def intro!: disc_inv_call disc_inv_set)
  qed
qed (simp add: accept_nodes_def)

lemma received_inv:
  assumes inv: "disc_inv E h" and modest: "modest E (DReceived sid data)"
    and choose: "\<And>xs n. length (de_choose E xs n) \<le> n"
    and r: "discovery_received E sid data h = Some h'"
  shows "disc_inv E h'"
proof -
  obtain d where d: "decode_frame (de_mol E) (de_varint E) (de_buf E) (de_frame E) data = Some d"
    using r by (auto simp: discovery_received_def bind_eq_Some_conv)
  consider "d = None" | v c p where "d = Some (GetNodes v c p)" | ns where "d = Some (Nodes ns)"
    by (cases d; cases "the d") auto
  then show ?thesis
  proof cases
    case 1
    then show ?thesis using r d disc_inv_check [OF inv, of sid DiscInvalidData]
      by (cases "check E sid DiscInvalidData h") (simp add: discovery_received_def)
  next
    case 2
    have c: "unat c \<le> MAX_ADDR_TO_SEND" using modest 2 d by (simp add: modest_def)
    show ?thesis
    proof (cases "d_sessions h sid")
      case None
      then show ?thesis using r d 2 inv by (simp add: discovery_received_def)
    next
      case (Some st)
      obtain h1 stop where chk: "check E sid DuplicateGetNodes h = (h1, stop)" by fastforce
      note h1 = disc_inv_check [OF inv chk]
      show ?thesis
        using r d 2 Some chk h1 inv answer_inv [OF _ _ c choose]
        by (auto simp: discovery_received_def split: if_splits)
    qed
  next
    case 3
    show ?thesis
    proof (cases "verify_nodes_message ns")
      case None
      then show ?thesis using r d 3 accept_inv [OF inv, of sid ns] by (simp add: discovery_received_def)
    next
      case (Some k)
      obtain h1 stop where chk: "check E sid k h = (h1, stop)" by fastforce
      show ?thesis using r d 3 Some chk disc_inv_check [OF inv chk] accept_inv by (auto simp: discovery_received_def)
    qed
  qed
qed

lemma send_messages_inv:
  assumes "disc_inv E h" "length (ss_announce st) \<le> 10" "send_messages E sid st h = Some (h', st')"
  shows "disc_inv E h' \<and> length (ss_announce st') \<le> 10"
  using assms disc_inv_send [of E sid "nodes_message True (ss_announce st)" h]
  by (auto simp: send_messages_def polite_nodes ANNOUNCE_THRESHOLD_def split: if_splits)

lemma collect_inv: "disc_inv E h \<Longrightarrow> collect_announce E now interval keys h = Some (h', addrs) \<Longrightarrow> disc_inv E h'"
proof (induction keys arbitrary: h h' addrs)
  case (Cons sid keys)
  show ?case
  proof (cases "d_sessions h sid")
    case None
    with Cons show ?thesis by simp
  next
    case (Some st)
    then obtain h1 st1 where s: "send_messages E sid st h = Some (h1, st1)" using Cons.prems(2) by (auto simp: bind_eq_Some_conv)
    have "disc_inv E h1 \<and> length (ss_announce st1) \<le> 10"
      using send_messages_inv [OF Cons.prems(1) disc_inv_announce [OF Cons.prems(1) Some] s] .
    moreover have "ss_announce (fst (check_timer now interval st1)) = ss_announce st1" by (simp add: check_timer_def)
    ultimately have "disc_inv E (set_session sid (fst (check_timer now interval st1)) h1)" by (simp add: disc_inv_set)
    from Cons.IH [OF this] show ?thesis using Cons.prems(2) Some s by (auto simp: Let_def split: prod.splits)
  qed
qed simp

lemma announce_one_inv: "disc_inv E h \<Longrightarrow> disc_inv E (announce_one E addr key h)"
  by (auto simp: announce_one_def intro!: disc_inv_set split: option.splits)

lemma announce_all_inv: "disc_inv E h \<Longrightarrow> disc_inv E (announce_all E shuffled i addrs h)"
proof (induction addrs arbitrary: i h)
  case (Cons addr addrs)
  have "disc_inv E h \<Longrightarrow> disc_inv E (fold (announce_one E addr) ks h)" for ks h
    by (induction ks arbitrary: h) (auto intro: announce_one_inv)
  with Cons show ?case by simp
qed simp

lemma discovery_step_inv:
  assumes "modest E e" "disc_inv E h" "\<And>xs n. length (de_choose E xs n) \<le> n"
  shows "disc_inv E (discovery_step E e h)"
proof (cases e)
  case (DConnected s l)
  then show ?thesis using assms(2) by (auto simp: discovery_step_def intro: connected_inv split: option.splits)
next
  case (DDisconnected sid)
  then show ?thesis using assms(2) by (auto simp: discovery_step_def discovery_disconnected_def disc_inv_def)
next
  case (DReceived sid data)
  then show ?thesis using assms received_inv by (auto simp: discovery_step_def split: option.splits)
next
  case (DNotify now keys shuffled)
  then show ?thesis
    using assms(2) collect_inv announce_all_inv
    by (auto simp: discovery_step_def discovery_notify_def Let_def split: option.splits prod.splits)
qed

section \<open>Properties\<close>

locale honest_choice =
  fixes E :: disc_env
  assumes choose_le: "length (de_choose E xs n) \<le> n"
begin

sublocale disco: invariant_system "discovery_step E" "modest E" "disc_inv E"
  by unfold_locales (rule discovery_step_inv, auto simp: choose_le)

lemma run_polite:
  assumes "list_all (modest E) es" "DCtxSend sid bs \<in> set (d_log (fold (discovery_step E) es (discovery_new cycle)))"
  shows "\<exists>m. encode_frame (de_mol E) (de_frame E) m = Some bs \<and> polite m"
proof -
  have "disc_inv E (fold (discovery_step E) es (discovery_new cycle))"
    by (rule disco.run_inv [OF assms(1)]) (simp add: disc_inv_def discovery_new_def sends_polite_def)
  then show ?thesis using assms(2) by (auto simp: disc_inv_def sends_polite_def)
qed

end

text \<open>
  The environment with the documented formats and with the crates' contracts taken literally: a
  filter without errors and a choice of the first items.
\<close>

definition disc_std :: "addr_mgr \<Rightarrow> disc_env" where
  "disc_std mgr =
     \<lparr>de_mol = le_ops, de_varint = leb_ops, de_buf = be_ops, de_frame = ld_ops, de_mgr = mgr,
      de_bloom = (\<lambda>known addr. addr \<in> set known), de_choose = (\<lambda>xs n. take n xs)\<rparr>"

interpretation std: honest_choice "disc_std mgr" for mgr
  by unfold_locales (simp add: disc_std_def)


lemma get_nodes_frame: "\<exists>bs. encode_frame le_ops ld_ops (GetNodes v c p) = Some bs"
proof -
  have "length (discovery_encode le_ops (GetNodes v c p)) \<le> 8388608"
    using msg.get_nodes_roundtrip(3) [of v c p]
    by (simp add: discovery_encode_def encode_get_nodes_def DiscoveryPayload_build_def DiscoveryMessage_build_def
        le.length_table_build)
  then show ?thesis by (simp add: encode_frame_def ld_ops_def)
qed

definition sample_outbound :: session_ctx where
  "sample_outbound = \<lparr>sc_id = 1, sc_address = from_iter leb_ops be_ops sample_addr, sc_ty = Outbound, sc_pubkey = None\<rparr>"

definition sample_mgr :: addr_mgr where
  "sample_mgr = \<lparr>am_is_valid = (\<lambda>_ _. True), am_misbehave = (\<lambda>_. DiscDisconnect), am_get_random = (\<lambda>_. [])\<rparr>"


text \<open>A request for more than \<open>MAX_ADDR_TO_SEND\<close> addresses raises the limit: the answer is one its receiver reports.\<close>

lemma oversized_answer:
  "MAX_ADDR_TO_SEND < unat count \<Longrightarrow> length items = unat count \<Longrightarrow>
     verify_nodes_message (nodes_of (nodes_message False (pick_items E count items))) = Some (TooManyItems False (unat count))"
  by (simp add: pick_items_def nodes_message_def verify_nodes_message_def)

end
