(* ===== verification/Secio_Support.thy ===== *)
theory Secio_Support
  imports Std_Text
begin

text \<open>
  The algorithms secio can negotiate and how a pair is chosen (\<open>support.rs\<close>, \<open>cipher.rs\<close>,
  \<open>dh_compat/mod.rs\<close>, \<open>lib.rs\<close>), its errors (\<open>error.rs\<close>), and \<open>std::cmp::Ordering\<close> on byte
  slices. The choice is a function of the two propositions and of who is preferred, and the
  two sides of a connection make the same one.
\<close>

section \<open>Errors\<close>

datatype secio_error =
    IoError io_error
  | Openssl
  | CryptoError
  | EphemeralKeyGenerationFailed
  | SecretGenerationFailed
  | NoSupportIntersection
  | NonceVerificationFailed
  | FrameTooShort
  | HmacNotMatching
  | ConnectSelf
  | HandshakeParsingFailure
  | SignatureVerificationFailed
  | InvalidMessage
  | InvalidProposition str

text \<open>\<open>From<SecioError> for io::Error\<close>.\<close>

fun io_error_from :: "secio_error \<Rightarrow> io_error" where
  "io_error_from (IoError e) = e"
| "io_error_from e = BrokenPipe"

section \<open>Orderings\<close>

datatype ordering = Less | Equal | Greater

fun reverse :: "ordering \<Rightarrow> ordering" where
  "reverse Less = Greater"
| "reverse Equal = Equal"
| "reverse Greater = Less"

text \<open>\<open>Ord\<close> of byte slices: lexicographic, a proper prefix is less.\<close>

fun slice_cmp :: "byte list \<Rightarrow> byte list \<Rightarrow> ordering" where
  "slice_cmp [] [] = Equal"
| "slice_cmp [] (y # ys) = Less"
| "slice_cmp (x # xs) [] = Greater"
| "slice_cmp (x # xs) (y # ys) = (if x < y then Less else if y < x then Greater else slice_cmp xs ys)"

lemma slice_cmp_reverse: "slice_cmp ys xs = reverse (slice_cmp xs ys)"
  by (induction xs ys rule: slice_cmp.induct) auto

lemma slice_cmp_Equal [simp]: "slice_cmp xs ys = Equal \<longleftrightarrow> xs = ys"
  by (induction xs ys rule: slice_cmp.induct) auto

section \<open>Algorithms\<close>

datatype key_agreement = EcdhP256 | EcdhP384 | X25519
datatype digest = Sha256 | Sha512
datatype cipher_type = Aes128Gcm | Aes256Gcm | ChaCha20Poly1305

fun num_bytes :: "digest \<Rightarrow> nat" where
  "num_bytes Sha256 = 32"
| "num_bytes Sha512 = 64"

fun key_size :: "cipher_type \<Rightarrow> nat" where
  "key_size Aes128Gcm = 16"
| "key_size Aes256Gcm = 32"
| "key_size ChaCha20Poly1305 = 32"

definition iv_size :: "cipher_type \<Rightarrow> nat" where
  "iv_size c = 12"

definition tag_size :: "cipher_type \<Rightarrow> nat" where
  "tag_size c = 16"

text \<open>The names of the algorithms on the wire.\<close>

fun agreement_name :: "key_agreement \<Rightarrow> str" where
  "agreement_name EcdhP256 = lit ''P-256''"
| "agreement_name EcdhP384 = lit ''P-384''"
| "agreement_name X25519 = lit ''X25519''"

fun cipher_name :: "cipher_type \<Rightarrow> str" where
  "cipher_name Aes128Gcm = lit ''AES-128-GCM''"
| "cipher_name Aes256Gcm = lit ''AES-256-GCM''"
| "cipher_name ChaCha20Poly1305 = lit ''CHACHA20_POLY1305''"

fun digest_name :: "digest \<Rightarrow> str" where
  "digest_name Sha256 = lit ''SHA256''"
| "digest_name Sha512 = lit ''SHA512''"

definition DEFAULT_AGREEMENTS_PROPOSITION :: str where
  "DEFAULT_AGREEMENTS_PROPOSITION = lit ''P-256,P-384,X25519''"

definition DEFAULT_CIPHERS_PROPOSITION :: str where
  "DEFAULT_CIPHERS_PROPOSITION = lit ''AES-128-GCM,AES-256-GCM,CHACHA20_POLY1305''"

definition DEFAULT_DIGESTS_PROPOSITION :: str where
  "DEFAULT_DIGESTS_PROPOSITION = lit ''SHA256,SHA512''"

section \<open>Propositions\<close>

text \<open>Every name is pushed with a comma, and the last comma is popped.\<close>

definition comma :: byte where
  "comma = 44"

definition proposal :: "('a \<Rightarrow> str) \<Rightarrow> 'a list \<Rightarrow> str" where
  "proposal name xs = butlast (concat (map (\<lambda>x. name x @ [comma]) xs))"

definition key_agreements_proposition :: "key_agreement list \<Rightarrow> str" where
  "key_agreements_proposition = proposal agreement_name"

definition ciphers_proposition :: "cipher_type list \<Rightarrow> str" where
  "ciphers_proposition = proposal cipher_name"

definition digests_proposition :: "digest list \<Rightarrow> str" where
  "digests_proposition = proposal digest_name"

section \<open>Selection\<close>

text \<open>
  The loop of the three selections: the first name of the preferred side that the other side
  has too and that is known. \<open>known\<close> is the inner \<open>match\<close>.
\<close>

fun match_loop :: "(str \<Rightarrow> 'a option) \<Rightarrow> str list \<Rightarrow> str list \<Rightarrow> secio_error + 'a" where
  "match_loop known [] bs = Err NoSupportIntersection"
| "match_loop known (x # xs) bs =
     (if x \<in> set bs then
        (case known x of Some a \<Rightarrow> Ok a | None \<Rightarrow> match_loop known xs bs)
      else match_loop known xs bs)"

definition select :: "(str \<Rightarrow> 'a option) \<Rightarrow> ordering \<Rightarrow> str \<Rightarrow> str \<Rightarrow> secio_error + 'a" where
  "select known r ours theirs =
     (let (a, b) = (if r = Less \<or> r = Equal then (theirs, ours) else (ours, theirs))
      in match_loop known (split_on comma a) (split_on comma b))"

definition agreement_of :: "str \<Rightarrow> key_agreement option" where
  "agreement_of x =
     (if x = lit ''P-256'' then Some EcdhP256
      else if x = lit ''P-384'' then Some EcdhP384
      else if x = lit ''X25519'' then Some X25519
      else None)"

definition cipher_of :: "str \<Rightarrow> cipher_type option" where
  "cipher_of x =
     (if x = lit ''AES-128-GCM'' then Some Aes128Gcm
      else if x = lit ''AES-256-GCM'' then Some Aes256Gcm
      else if x = lit ''CHACHA20_POLY1305'' then Some ChaCha20Poly1305
      else None)"

definition digest_of :: "str \<Rightarrow> digest option" where
  "digest_of x =
     (if x = lit ''SHA256'' then Some Sha256
      else if x = lit ''SHA512'' then Some Sha512
      else None)"

definition select_agreement :: "ordering \<Rightarrow> str \<Rightarrow> str \<Rightarrow> secio_error + key_agreement" where
  "select_agreement = select agreement_of"

definition select_cipher :: "ordering \<Rightarrow> str \<Rightarrow> str \<Rightarrow> secio_error + cipher_type" where
  "select_cipher = select cipher_of"

definition select_digest :: "ordering \<Rightarrow> str \<Rightarrow> str \<Rightarrow> secio_error + digest" where
  "select_digest = select digest_of"

lemmas selections = select_agreement_def select_cipher_def select_digest_def

text \<open>Neither side has to be asked: flipping the ordering and the roles changes nothing.\<close>

lemma select_flip: "r \<noteq> Equal \<Longrightarrow> select known (reverse r) theirs ours = select known r ours theirs"
  by (cases r) (auto simp: select_def)

text \<open>
  The contract of a table of names: the loop's \<open>match\<close> inverts the names, which hold no comma.
  Then selecting between two propositions is choosing the first algorithm of the preferred
  list that is in the other one.
\<close>

definition first_common :: "'a list \<Rightarrow> 'a list \<Rightarrow> secio_error + 'a" where
  "first_common xs ys =
     (case find (\<lambda>x. x \<in> set ys) xs of Some x \<Rightarrow> Ok x | None \<Rightarrow> Err NoSupportIntersection)"

locale name_table =
  fixes name :: "'a \<Rightarrow> str"
    and known :: "str \<Rightarrow> 'a option"
  assumes known_name: "known x = Some a \<longleftrightarrow> x = name a"
    and name_no_comma: "comma \<notin> set (name a)"
    and known_Nil: "known [] = None"
begin

lemma name_eq [simp]: "name a = name b \<longleftrightarrow> a = b"
  by (metis known_name option.inject)

lemma proposal_Cons:
  "proposal name (x # xs) = name x @ concat (map ((#) comma) (map name xs))"
  by (induction xs arbitrary: x) (auto simp: proposal_def butlast_append)

lemma split_proposal:
  "split_on comma (proposal name xs) = (if xs = [] then [[]] else map name xs)"
proof (cases xs)
  case Nil
  then show ?thesis by (simp add: proposal_def)
next
  case (Cons x ys)
  then show ?thesis
    by (simp add: proposal_Cons split_on_joined name_no_comma list_all_iff del: map_map)
qed

lemma match_loop_names:
  "match_loop known (map name xs) bs =
     (case find (\<lambda>x. name x \<in> set bs) xs of Some x \<Rightarrow> Ok x | None \<Rightarrow> Err NoSupportIntersection)"
proof (induction xs)
  case (Cons x xs)
  have "known (name x) = Some x" by (simp add: known_name)
  with Cons show ?case by simp
qed simp

lemma name_not_Nil: "name a \<noteq> []"
  using known_name [of "[]" a] known_Nil by auto

lemma select_proposals:
  "select known Greater (proposal name xs) (proposal name ys) =
     first_common xs ys"
proof -
  have *: "name x \<in> set (if ys = [] then [[]] else map name ys) \<longleftrightarrow> x \<in> set ys" for x
    by (auto simp: name_not_Nil)
  show ?thesis
    by (cases "xs = []")
      (simp_all add: select_def first_common_def split_proposal match_loop_names * known_Nil del: set_map)
qed

end

interpretation agreements: name_table agreement_name agreement_of
proof
  show "agreement_of x = Some a \<longleftrightarrow> x = agreement_name a" for x a
    by (cases a) (auto simp: agreement_of_def lit_def)
  show "comma \<notin> set (agreement_name a)" for a by (cases a) (auto simp: comma_def lit_def)
qed (simp add: agreement_of_def lit_def)

interpretation ciphers: name_table cipher_name cipher_of
proof
  show "cipher_of x = Some a \<longleftrightarrow> x = cipher_name a" for x a
    by (cases a) (auto simp: cipher_of_def lit_def)
  show "comma \<notin> set (cipher_name a)" for a by (cases a) (auto simp: comma_def lit_def)
qed (simp add: cipher_of_def lit_def)

interpretation digests: name_table digest_name digest_of
proof
  show "digest_of x = Some a \<longleftrightarrow> x = digest_name a" for x a
    by (cases a) (auto simp: digest_of_def lit_def)
  show "comma \<notin> set (digest_name a)" for a by (cases a) (auto simp: comma_def lit_def)
qed (simp add: digest_of_def lit_def)

text \<open>
  Negotiation is symmetric and picks the first common algorithm. When one side's hashes
  compare \<open>Greater\<close> and the other side's therefore \<open>Less\<close>, both choose, for the key
  agreement, the cipher and the digest alike, the first entry of the \<open>Greater\<close> side's list
  that the other side's list contains, and both fail with \<open>NoSupportIntersection\<close> when the
  lists are disjoint.
\<close>

theorem negotiation_agrees:
  "select_agreement Greater (key_agreements_proposition as1) (key_agreements_proposition as2) = first_common as1 as2
   \<and> select_agreement Less (key_agreements_proposition as2) (key_agreements_proposition as1) = first_common as1 as2
   \<and> select_cipher Greater (ciphers_proposition cs1) (ciphers_proposition cs2) = first_common cs1 cs2
   \<and> select_cipher Less (ciphers_proposition cs2) (ciphers_proposition cs1) = first_common cs1 cs2
   \<and> select_digest Greater (digests_proposition ds1) (digests_proposition ds2) = first_common ds1 ds2
   \<and> select_digest Less (digests_proposition ds2) (digests_proposition ds1) = first_common ds1 ds2"
  using select_flip [of Greater agreement_of] select_flip [of Greater cipher_of] select_flip [of Greater digest_of]
  by (simp add: selections key_agreements_proposition_def ciphers_proposition_def digests_proposition_def
      agreements.select_proposals ciphers.select_proposals digests.select_proposals)

end
