(* ===== verification/Aead_Standard.thy ===== *)
theory Aead_Standard
  imports Secio_Support
begin

text \<open>
  The authenticated ciphers as their standards define them, with no associated data: AES-GCM
  (FIPS 197, NIST SP 800-38D, 96-bit nonces) and ChaCha20-Poly1305 (RFC 8439). They are the
  documented behaviour of the crates \<open>openssl\<close>, \<open>ring\<close> and \<open>chacha20poly1305\<close>, which the
  cipher code takes as a parameter, and the instance its laws are shown to hold for.
\<close>

section \<open>Blocks\<close>

definition xor_bytes :: "byte list \<Rightarrow> byte list \<Rightarrow> byte list" where
  "xor_bytes xs ys = map2 (XOR) xs ys"

fun chunks :: "nat \<Rightarrow> byte list \<Rightarrow> byte list list" where
  "chunks n bs = (if bs = [] \<or> n = 0 then [] else take n bs # chunks n (drop n bs))"

declare chunks.simps [simp del]

definition pad16 :: "byte list \<Rightarrow> byte list" where
  "pad16 bs = bs @ replicate ((16 - length bs mod 16) mod 16) 0"

definition le_nat :: "byte list \<Rightarrow> nat" where
  "le_nat bs = be_value 0 (rev bs)"

definition nat_le :: "nat \<Rightarrow> nat \<Rightarrow> byte list" where
  "nat_le n v = rev (be_digits n v)"

text \<open>The key stream of a block function in counter mode, as long as the text.\<close>

definition key_stream :: "(nat \<Rightarrow> byte list) \<Rightarrow> nat \<Rightarrow> byte list" where
  "key_stream block n = take n (concat (map block [0..<(n + 15) div 16]))"

section \<open>ChaCha20-Poly1305\<close>

fun quarter :: "u32 list \<Rightarrow> nat \<times> nat \<times> nat \<times> nat \<Rightarrow> u32 list" where
  "quarter st (i, j, k, l) =
     (let a = st ! i + st ! j; d = word_rotl 16 (st ! l XOR a);
          c = st ! k + d; b = word_rotl 12 (st ! j XOR c);
          a = a + b; d = word_rotl 8 (d XOR a);
          c = c + d; b = word_rotl 7 (b XOR c)
      in st[i := a, j := b, k := c, l := d])"

definition double_round :: "u32 list \<Rightarrow> u32 list" where
  "double_round st = foldl quarter st
     [(0, 4, 8, 12), (1, 5, 9, 13), (2, 6, 10, 14), (3, 7, 11, 15),
      (0, 5, 10, 15), (1, 6, 11, 12), (2, 7, 8, 13), (3, 4, 9, 14)]"

definition chacha_block :: "byte list \<Rightarrow> byte list \<Rightarrow> nat \<Rightarrow> byte list" where
  "chacha_block k n ctr =
     (let st = [0x61707865, 0x3320646e, 0x79622d32, 0x6b206574]
            @ map (\<lambda>w. of_nat (le_nat w)) (chunks 4 k) @ [of_nat ctr] @ map (\<lambda>w. of_nat (le_nat w)) (chunks 4 n)
      in concat (map2 (\<lambda>x y. nat_le 4 (unat (x + y))) ((double_round ^^ 10) st) st))"

definition poly1305 :: "byte list \<Rightarrow> byte list \<Rightarrow> byte list" where
  "poly1305 k msg =
     (let r = le_nat (take 16 k) AND 0x0ffffffc0ffffffc0ffffffc0fffffff; s = le_nat (drop 16 k);
          acc = foldl (\<lambda>a b. ((a + le_nat (b @ [1])) * r) mod (2 ^ 130 - 5)) 0 (chunks 16 msg)
      in nat_le 16 ((acc + s) mod 2 ^ 128))"

definition chacha_stream :: "byte list \<Rightarrow> byte list \<Rightarrow> nat \<Rightarrow> byte list" where
  "chacha_stream k n = key_stream (\<lambda>i. take 16 (drop (16 * (i mod 4)) (chacha_block k n (1 + i div 4))))"

definition chacha_tag :: "byte list \<Rightarrow> byte list \<Rightarrow> byte list \<Rightarrow> byte list" where
  "chacha_tag k n ct =
     poly1305 (take 32 (chacha_block k n 0)) (pad16 ct @ nat_le 8 0 @ nat_le 8 (length ct))"

section \<open>AES-GCM\<close>

definition xtime :: "byte \<Rightarrow> byte" where
  "xtime b = (if bit b 7 then push_bit 1 b XOR 0x1b else push_bit 1 b)"

definition gmul :: "byte \<Rightarrow> byte \<Rightarrow> byte" where
  "gmul a b = foldl (XOR) 0 (map (\<lambda>i. if bit b i then (xtime ^^ i) a else 0) [0..<8])"

definition sbox :: "byte \<Rightarrow> byte" where
  "sbox x = (let y = ((\<lambda>p. gmul x (gmul p p)) ^^ 6) x; i = gmul y y
             in i XOR word_rotl 1 i XOR word_rotl 2 i XOR word_rotl 3 i XOR word_rotl 4 i XOR 0x63)"

fun key_schedule :: "nat \<Rightarrow> nat \<Rightarrow> byte list list \<Rightarrow> byte list list" where
  "key_schedule nk 0 ws = ws"
| "key_schedule nk (Suc m) ws =
     (let i = length ws; t = last ws;
          t = (if i mod nk = 0 then xor_bytes (map sbox (rotate1 t)) [(xtime ^^ (i div nk - 1)) 1, 0, 0, 0]
               else if nk > 6 \<and> i mod nk = 4 then map sbox t else t)
      in key_schedule nk m (ws @ [xor_bytes (ws ! (i - nk)) t]))"

definition round_keys :: "byte list \<Rightarrow> byte list list" where
  "round_keys k =
     (let nk = length k div 4
      in chunks 16 (concat (key_schedule nk (4 * (nk + 7) - nk) (chunks 4 k))))"

definition shift_rows :: "byte list \<Rightarrow> byte list" where
  "shift_rows s = map (\<lambda>i. s ! ((5 * i) mod 16)) [0..<16]"

definition mix_column :: "byte list \<Rightarrow> byte list" where
  "mix_column c = map (\<lambda>i. gmul (c ! i) 2 XOR gmul (c ! ((i + 1) mod 4)) 3 XOR c ! ((i + 2) mod 4) XOR c ! ((i + 3) mod 4)) [0..<4]"

definition aes_block :: "byte list list \<Rightarrow> byte list \<Rightarrow> byte list" where
  "aes_block rks s =
     (let s = foldl (\<lambda>s rk. xor_bytes (concat (map mix_column (chunks 4 (shift_rows (map sbox s))))) rk)
                (xor_bytes s (rks ! 0)) (butlast (drop 1 rks))
      in xor_bytes (shift_rows (map sbox s)) (last rks))"

definition ghash_mult :: "128 word \<Rightarrow> 128 word \<Rightarrow> 128 word" where
  "ghash_mult x h =
     fst (foldl (\<lambda>(z, v) i.
       (if bit x (127 - i) then z XOR v else z,
        if bit v 0 then drop_bit 1 v XOR push_bit 120 0xe1 else drop_bit 1 v)) (0, h) [0..<128])"

definition ghash :: "128 word \<Rightarrow> byte list \<Rightarrow> byte list" where
  "ghash h bs = be_digits 16 (unat (foldl (\<lambda>y b. ghash_mult (y XOR of_nat (be_value 0 b)) h) 0 (chunks 16 bs)))"

definition gcm_stream :: "byte list \<Rightarrow> byte list \<Rightarrow> nat \<Rightarrow> byte list" where
  "gcm_stream k n = (let rks = round_keys k in key_stream (\<lambda>i. aes_block rks (n @ be_digits 4 (i + 2))))"

definition gcm_tag :: "byte list \<Rightarrow> byte list \<Rightarrow> byte list \<Rightarrow> byte list" where
  "gcm_tag k n ct =
     (let rks = round_keys k; h = of_nat (be_value 0 (aes_block rks (replicate 16 0)))
      in xor_bytes (ghash h (pad16 ct @ be_digits 8 0 @ be_digits 8 (8 * length ct)))
           (aes_block rks (n @ be_digits 4 1)))"

section \<open>Sealing and opening\<close>

definition std_stream :: "cipher_type \<Rightarrow> byte list \<Rightarrow> byte list \<Rightarrow> nat \<Rightarrow> byte list" where
  "std_stream c = (if c = ChaCha20Poly1305 then chacha_stream else gcm_stream)"

definition std_tag :: "cipher_type \<Rightarrow> byte list \<Rightarrow> byte list \<Rightarrow> byte list \<Rightarrow> byte list" where
  "std_tag c = (if c = ChaCha20Poly1305 then chacha_tag else gcm_tag)"

definition std_seal :: "cipher_type \<Rightarrow> byte list \<Rightarrow> byte list \<Rightarrow> byte list \<Rightarrow> byte list" where
  "std_seal c k n d = (let ct = xor_bytes d (std_stream c k n (length d)) in ct @ std_tag c k n ct)"

definition std_open :: "cipher_type \<Rightarrow> byte list \<Rightarrow> byte list \<Rightarrow> byte list \<Rightarrow> byte list option" where
  "std_open c k n b =
     (let ct = take (length b - 16) b
      in if 16 \<le> length b \<and> drop (length b - 16) b = std_tag c k n ct
         then Some (xor_bytes ct (std_stream c k n (length ct))) else None)"

section \<open>Lengths\<close>

lemma length_xor_bytes [simp]: "length (xor_bytes xs ys) = min (length xs) (length ys)"
  by (simp add: xor_bytes_def)

lemma xor_bytes_twice: "length xs \<le> length ys \<Longrightarrow> xor_bytes (xor_bytes xs ys) ys = xs"
  unfolding xor_bytes_def
proof (induction xs arbitrary: ys)
  case (Cons x xs)
  then show ?case by (cases ys) (simp_all add: xor.assoc)
qed simp

lemma length_nat_le [simp]: "length (nat_le n v) = n"
  by (simp add: nat_le_def)

lemma chunks_step:
  assumes "0 < n" "length bs = n * Suc m"
  shows "chunks n bs = take n bs # chunks n (drop n bs)" "length (drop n bs) = n * m"
proof -
  from assms have "bs \<noteq> []" by auto
  with assms show "chunks n bs = take n bs # chunks n (drop n bs)" by (subst chunks.simps) simp
qed (use assms in simp)

lemma chunks_Nil [simp]: "chunks n [] = []"
  by (subst chunks.simps) simp

lemma chunks_lengths:
  "0 < n \<Longrightarrow> length bs = n * m \<Longrightarrow> length (chunks n bs) = m \<and> (\<forall>c \<in> set (chunks n bs). length c = n)"
proof (induction m arbitrary: bs)
  case (Suc m)
  from Suc.IH [OF Suc.prems(1) chunks_step(2) [OF Suc.prems]] chunks_step(1) [OF Suc.prems] Suc.prems
  show ?case by simp
qed simp

lemma length_chunks: "0 < n \<Longrightarrow> length bs = n * m \<Longrightarrow> length (chunks n bs) = m"
  and chunk_length: "0 < n \<Longrightarrow> length bs = n * m \<Longrightarrow> c \<in> set (chunks n bs) \<Longrightarrow> length c = n"
  using chunks_lengths by blast+

lemma length_concat_const: "(\<And>x. x \<in> set xs \<Longrightarrow> length x = n) \<Longrightarrow> length (concat xs) = n * length xs"
  by (induction xs) auto

lemma length_key_stream: "(\<And>i. length (block i) = 16) \<Longrightarrow> length (key_stream block n) = n"
proof -
  assume b: "\<And>i. length (block i) = 16"
  have "length (concat (map block [0..<(n + 15) div 16])) = 16 * ((n + 15) div 16)"
    by (subst length_concat_const [of _ 16]) (auto simp: b)
  then show ?thesis by (simp add: key_stream_def)
qed

lemma length_quarter [simp]: "length (quarter st ix) = length st"
  by (cases ix) (simp add: Let_def)

lemma length_double_round [simp]: "length (double_round st) = length st"
  by (simp add: double_round_def del: quarter.simps)

lemma length_rounds [simp]: "length ((double_round ^^ n) st) = length st"
  by (induction n) simp_all

lemma length_chacha_block:
  assumes "length k = 32" "length n = 12"
  shows "length (chacha_block k n ctr) = 64"
proof -
  have "length (chunks 4 k) = 8" "length (chunks 4 n) = 3"
    using assms length_chunks [of 4 k 8] length_chunks [of 4 n 3] by simp_all
  then show ?thesis
    unfolding chacha_block_def Let_def
    by (subst length_concat_const [of _ 4]) (auto simp del: funpow.simps)
qed

lemma key_schedule_length:
  "(\<And>w. w \<in> set ws \<Longrightarrow> length w = 4) \<Longrightarrow> 0 < nk \<Longrightarrow> nk \<le> length ws \<Longrightarrow>
   length (key_schedule nk m ws) = length ws + m \<and> (\<forall>w \<in> set (key_schedule nk m ws). length w = 4)"
proof (induction nk m ws rule: key_schedule.induct)
  case (2 nk m ws)
  let ?i = "length ws"
  let ?t = "if ?i mod nk = 0 then xor_bytes (map sbox (rotate1 (last ws))) [(xtime ^^ (?i div nk - 1)) 1, 0, 0, 0]
            else if nk > 6 \<and> ?i mod nk = 4 then map sbox (last ws) else last ws"
  have "ws \<noteq> []" using "2.prems" by auto
  then have "length (last ws) = 4" "length (ws ! (?i - nk)) = 4" using "2.prems" by simp_all
  then have "length ?t = 4" "length (ws ! (?i - nk)) = 4" by simp_all
  then have "length w = 4" if "w \<in> set (ws @ [xor_bytes (ws ! (?i - nk)) ?t])" for w
    using that "2.prems"(1) by (auto simp del: if_split_asm)
  from "2.IH" [OF refl refl refl this] "2.prems"(2,3) show ?case
    unfolding key_schedule.simps Let_def by (simp del: key_schedule.simps)
qed simp

lemma round_keys_length:
  assumes "length k = 4 * nk" "0 < nk"
  shows "round_keys k \<noteq> [] \<and> (\<forall>r \<in> set (round_keys k). length r = 16)"
proof -
  let ?ws = "key_schedule nk (4 * (nk + 7) - nk) (chunks 4 k)"
  have c: "length (chunks 4 k) = nk" "\<And>w. w \<in> set (chunks 4 k) \<Longrightarrow> length w = 4"
    using length_chunks [of 4 k nk] chunk_length [of 4 k nk] assms by auto
  then have "length ?ws = 4 * (nk + 7) \<and> (\<forall>w \<in> set ?ws. length w = 4)"
    using key_schedule_length [of "chunks 4 k" nk "4 * (nk + 7) - nk"] assms by simp
  then have "length (concat ?ws) = 16 * (nk + 7)"
    by (subst length_concat_const [of _ 4]) auto
  then have "length (chunks 16 (concat ?ws)) = nk + 7" "\<forall>r \<in> set (chunks 16 (concat ?ws)). length r = 16"
    using length_chunks [of 16 "concat ?ws" "nk + 7"] chunk_length [of 16 "concat ?ws" "nk + 7"] by simp_all
  then show ?thesis using assms by (auto simp: round_keys_def Let_def)
qed

lemma length_aes_block:
  assumes "length k = 4 * nk" "0 < nk"
  shows "length (aes_block (round_keys k) s) = 16"
  using round_keys_length [OF assms] by (simp add: aes_block_def Let_def shift_rows_def)

lemma length_aes_key: "c \<noteq> ChaCha20Poly1305 \<Longrightarrow> \<exists>nk. key_size c = 4 * nk \<and> 0 < nk"
  by (cases c) auto

lemma length_std_stream:
  assumes "length k = key_size c" "length n = 12"
  shows "length (std_stream c k n m) = m"
proof (cases "c = ChaCha20Poly1305")
  case True
  then show ?thesis using assms
    by (simp add: std_stream_def chacha_stream_def length_key_stream length_chacha_block)
next
  case False
  then obtain nk where "length k = 4 * nk" "0 < nk" using length_aes_key assms by metis
  with False show ?thesis by (simp add: std_stream_def gcm_stream_def Let_def length_key_stream length_aes_block)
qed

lemma length_std_tag:
  assumes "length k = key_size c"
  shows "length (std_tag c k n ct) = 16"
proof (cases "c = ChaCha20Poly1305")
  case True
  then show ?thesis by (simp add: std_tag_def chacha_tag_def poly1305_def Let_def)
next
  case False
  then obtain nk where "length k = 4 * nk" "0 < nk" using length_aes_key assms by metis
  with False show ?thesis by (simp add: std_tag_def gcm_tag_def ghash_def Let_def length_aes_block)
qed

lemma length_std_seal:
  "length k = key_size c \<Longrightarrow> length n = 12 \<Longrightarrow> length (std_seal c k n d) = length d + 16"
  by (simp add: std_seal_def Let_def length_std_stream length_std_tag)

lemma std_open_seal:
  "length k = key_size c \<Longrightarrow> length n = 12 \<Longrightarrow> std_open c k n (std_seal c k n d) = Some d"
  by (simp add: std_open_def std_seal_def Let_def length_std_stream length_std_tag xor_bytes_twice)

end
