(* ===== verification/Secio_Crypto.thy ===== *)
theory Secio_Crypto
  imports Aead_Standard
begin

text \<open>
  The stream ciphers of secio (\<open>crypto/mod.rs\<close>, \<open>openssl_impl.rs\<close>, \<open>ring_impl.rs\<close>,
  \<open>wasm_compat.rs\<close>). Every message is sealed under the next value of a 96-bit little-endian
  counter. The three crates behind the implementations are parameters; their common law is
  that each computes the same authenticated cipher. From it: whatever implementation seals,
  whatever implementation opens, messages come back in order, and no counter value is used
  twice under a key for \<open>2 ^ 96 - 1\<close> messages.
\<close>

section \<open>The counter\<close>

fun nonce_advance :: "byte list \<Rightarrow> byte list" where
  "nonce_advance [] = []"
| "nonce_advance (i # is) = (if i = 255 then 0 # nonce_advance is else (i + 1) # is)"

lemma length_nonce_advance [simp]: "length (nonce_advance iv) = length iv"
  by (induction iv) auto

lemma be_value_append: "be_value acc (xs @ ys) = be_value (be_value acc xs) ys"
  by (induction xs arbitrary: acc) simp_all

lemma le_nat_simps [simp]:
  "le_nat [] = 0" "le_nat (b # bs) = unat b + 256 * le_nat bs"
  by (simp_all add: le_nat_def be_value_append)

lemma le_nat_lt: "le_nat bs < 256 ^ length bs"
  using be_value_lt [of "rev bs"] by (simp add: le_nat_def)

lemma le_nat_inj: "length xs = length ys \<Longrightarrow> le_nat xs = le_nat ys \<Longrightarrow> xs = ys"
  using be_digits_value [of "rev xs"] be_digits_value [of "rev ys"] by (simp add: le_nat_def)

lemma le_nat_advance: "le_nat (nonce_advance iv) = (le_nat iv + 1) mod 256 ^ length iv"
proof (induction iv)
  case (Cons i iv)
  show ?case
  proof (cases "i = 255")
    case True
    with Cons show ?thesis by (simp add: mult_mod_right)
  next
    case False
    then have "unat i \<noteq> 255" by (auto simp: word_unat_eq_iff)
    then have "unat (i + 1) = unat i + 1" using unat_lt [of i] by (simp add: unat_word_ariths)
    moreover have "unat i + 1 + 256 * le_nat iv < 256 * 256 ^ length iv"
      using le_nat_lt [of "(i + 1) # iv"] calculation by simp
    ultimately show ?thesis using False by simp
  qed
qed simp

section \<open>The ciphers\<close>

text \<open>
  What the crates provide, with no associated data. \<open>encrypt_aead\<close> returns the text and a tag
  of the length asked for; the in-place calls return what the buffer holds afterwards.
\<close>

record aead_ops =
  encrypt_aead :: "cipher_type \<Rightarrow> byte list \<Rightarrow> byte list \<Rightarrow> byte list \<Rightarrow> nat \<Rightarrow> (byte list \<times> byte list) option"
  decrypt_aead :: "cipher_type \<Rightarrow> byte list \<Rightarrow> byte list \<Rightarrow> byte list \<Rightarrow> byte list \<Rightarrow> byte list option"
  seal_in_place_append_tag :: "cipher_type \<Rightarrow> byte list \<Rightarrow> byte list \<Rightarrow> byte list \<Rightarrow> byte list option"
  open_in_place :: "cipher_type \<Rightarrow> byte list \<Rightarrow> byte list \<Rightarrow> byte list \<Rightarrow> byte list option"
  chacha_encrypt :: "byte list \<Rightarrow> byte list \<Rightarrow> byte list \<Rightarrow> byte list option"
  chacha_decrypt :: "byte list \<Rightarrow> byte list \<Rightarrow> byte list \<Rightarrow> byte list option"

record crypt =
  c_type :: cipher_type
  c_key :: "byte list"
  c_iv :: "byte list"

definition advance_iv :: "crypt \<Rightarrow> crypt" where
  "advance_iv c = c\<lparr>c_iv := nonce_advance (c_iv c)\<rparr>"

definition fresh_crypt :: "cipher_type \<Rightarrow> byte list \<Rightarrow> crypt" where
  "fresh_crypt t key = \<lparr>c_type = t, c_key = key, c_iv = replicate (iv_size t) 0\<rparr>"

text \<open>\<open>openssl_impl.rs\<close>.\<close>

definition openssl_encrypt :: "aead_ops \<Rightarrow> crypt \<Rightarrow> byte list \<Rightarrow> crypt \<times> (secio_error + byte list)" where
  "openssl_encrypt A c input =
     (let c' = advance_iv c in
      (c', case encrypt_aead A (c_type c') (c_key c') (c_iv c') input (tag_size (c_type c')) of
             Some (output, tag) \<Rightarrow> Ok (output @ tag)
           | None \<Rightarrow> Err Openssl))"

definition openssl_decrypt :: "aead_ops \<Rightarrow> crypt \<Rightarrow> byte list \<Rightarrow> crypt \<times> (secio_error + byte list)" where
  "openssl_decrypt A c input =
     (let c' = advance_iv c; tag = tag_size (c_type c') in
      (c', if length input < tag then Err FrameTooShort
           else let n = length input - tag in
                ok_or Openssl (decrypt_aead A (c_type c') (c_key c') (c_iv c') (take n input) (drop n input))))"

text \<open>
  \<open>ring_impl.rs\<close>: \<open>UnboundKey::new\<close> refuses a key of the wrong length, which panics; sealing
  and opening advance the nonce sequence first; decryption checks the length before that.
\<close>

definition ring_new :: "cipher_type \<Rightarrow> byte list \<Rightarrow> crypt option" where
  "ring_new t key = (if length key = key_size t then Some (fresh_crypt t key) else None)"

definition ring_encrypt :: "aead_ops \<Rightarrow> crypt \<Rightarrow> byte list \<Rightarrow> crypt \<times> (secio_error + byte list)" where
  "ring_encrypt A c input =
     (let c' = advance_iv c in
      (c', ok_or CryptoError (seal_in_place_append_tag A (c_type c') (c_key c') (c_iv c') input)))"

definition ring_decrypt :: "aead_ops \<Rightarrow> crypt \<Rightarrow> byte list \<Rightarrow> crypt \<times> (secio_error + byte list)" where
  "ring_decrypt A c input =
     (if length input < tag_size (c_type c) then (c, Err FrameTooShort)
      else let output_len = length input - tag_size (c_type c); c' = advance_iv c in
           (c', case open_in_place A (c_type c') (c_key c') (c_iv c') input of
                  Some buf \<Rightarrow> Ok (take output_len buf)
                | None \<Rightarrow> Err CryptoError))"

text \<open>\<open>wasm_compat.rs\<close>: only ChaCha20-Poly1305, with a key of 32 bytes.\<close>

definition wasm_new :: "cipher_type \<Rightarrow> byte list \<Rightarrow> crypt option" where
  "wasm_new t key =
     (if t = ChaCha20Poly1305 \<and> length key = 32 then Some (fresh_crypt t key) else None)"

definition wasm_encrypt :: "aead_ops \<Rightarrow> crypt \<Rightarrow> byte list \<Rightarrow> crypt \<times> (secio_error + byte list)" where
  "wasm_encrypt A c input =
     (let c' = advance_iv c in (c', ok_or CryptoError (chacha_encrypt A (c_key c') (c_iv c') input)))"

definition wasm_decrypt :: "aead_ops \<Rightarrow> crypt \<Rightarrow> byte list \<Rightarrow> crypt \<times> (secio_error + byte list)" where
  "wasm_decrypt A c input =
     (let c' = advance_iv c in (c', ok_or CryptoError (chacha_decrypt A (c_key c') (c_iv c') input)))"

section \<open>The trait object\<close>

datatype stream_cipher =
    OpenSsLCrypt crypt
  | RingSeal crypt
  | RingOpen crypt
  | WasmCrypt crypt

datatype crypto_mode = Encrypt | Decrypt

text \<open>The builds \<open>new_stream\<close> distinguishes.\<close>

datatype platform = UnixOssl110 | UnixOld | NonUnix | Wasm32

definition ring_stream :: "cipher_type \<Rightarrow> byte list \<Rightarrow> crypto_mode \<Rightarrow> stream_cipher option" where
  "ring_stream t key mode =
     map_option (case mode of Encrypt \<Rightarrow> RingSeal | Decrypt \<Rightarrow> RingOpen) (ring_new t key)"

fun new_stream :: "platform \<Rightarrow> cipher_type \<Rightarrow> byte list \<Rightarrow> crypto_mode \<Rightarrow> stream_cipher option" where
  "new_stream UnixOssl110 t key mode = Some (OpenSsLCrypt (fresh_crypt t key))"
| "new_stream UnixOld t key mode =
     (if t = ChaCha20Poly1305 then ring_stream t key mode else Some (OpenSsLCrypt (fresh_crypt t key)))"
| "new_stream NonUnix t key mode = ring_stream t key mode"
| "new_stream Wasm32 t key mode = map_option WasmCrypt (wasm_new t key)"

fun is_in_place :: "stream_cipher \<Rightarrow> bool" where
  "is_in_place (OpenSsLCrypt c) = False"
| "is_in_place _ = True"

text \<open>\<open>None\<close> is the \<open>unreachable!\<close> of the ring cipher in the other mode.\<close>

fun stream_encrypt :: "aead_ops \<Rightarrow> stream_cipher \<Rightarrow> byte list \<Rightarrow> (stream_cipher \<times> (secio_error + byte list)) option" where
  "stream_encrypt A (OpenSsLCrypt c) input = Some (apfst OpenSsLCrypt (openssl_encrypt A c input))"
| "stream_encrypt A (RingSeal c) input = Some (apfst RingSeal (ring_encrypt A c input))"
| "stream_encrypt A (RingOpen c) input = None"
| "stream_encrypt A (WasmCrypt c) input = Some (apfst WasmCrypt (wasm_encrypt A c input))"

fun stream_decrypt :: "aead_ops \<Rightarrow> stream_cipher \<Rightarrow> byte list \<Rightarrow> (stream_cipher \<times> (secio_error + byte list)) option" where
  "stream_decrypt A (OpenSsLCrypt c) input = Some (apfst OpenSsLCrypt (openssl_decrypt A c input))"
| "stream_decrypt A (RingSeal c) input =
     (if length input < tag_size (c_type c) then Some (RingSeal c, Err FrameTooShort) else None)"
| "stream_decrypt A (RingOpen c) input = Some (apfst RingOpen (ring_decrypt A c input))"
| "stream_decrypt A (WasmCrypt c) input = Some (apfst WasmCrypt (wasm_decrypt A c input))"

text \<open>
  In place: the trait's default refuses, and the ring and wasm versions leave in the buffer
  what \<open>decrypt\<close> returns.
\<close>

fun decrypt_in_place :: "aead_ops \<Rightarrow> stream_cipher \<Rightarrow> byte list \<Rightarrow> (stream_cipher \<times> (secio_error + byte list)) option" where
  "decrypt_in_place A (OpenSsLCrypt c) input =
     Some (OpenSsLCrypt c, Err (InvalidProposition (lit ''don't support in place decrypted'')))"
| "decrypt_in_place A sc input = stream_decrypt A sc input"


section \<open>The law of the crates\<close>

text \<open>
  There is one pair of functions \<open>seal\<close> and \<open>opn\<close> that all crates compute, given a key of the
  cipher's length and a 12-byte nonce: sealing appends a 16-byte tag, opening inverts it and
  accepts nothing else.
\<close>

locale aead =
  fixes A :: aead_ops
    and seal :: "cipher_type \<Rightarrow> byte list \<Rightarrow> byte list \<Rightarrow> byte list \<Rightarrow> byte list"
    and opn :: "cipher_type \<Rightarrow> byte list \<Rightarrow> byte list \<Rightarrow> byte list \<Rightarrow> byte list option"
  assumes open_seal: "length k = key_size c \<Longrightarrow> length n = 12 \<Longrightarrow> opn c k n b = Some d \<longleftrightarrow> b = seal c k n d"
    and length_seal: "length k = key_size c \<Longrightarrow> length n = 12 \<Longrightarrow> length (seal c k n d) = length d + tag_size c"
    and openssl_seal: "length k = key_size c \<Longrightarrow> length n = 12 \<Longrightarrow>
      \<exists>out tag. encrypt_aead A c k n d (tag_size c) = Some (out, tag) \<and> out @ tag = seal c k n d"
    and openssl_open: "length k = key_size c \<Longrightarrow> length n = 12 \<Longrightarrow> length tag = tag_size c \<Longrightarrow>
      decrypt_aead A c k n out tag = opn c k n (out @ tag)"
    and ring_seal: "length k = key_size c \<Longrightarrow> length n = 12 \<Longrightarrow> seal_in_place_append_tag A c k n d = Some (seal c k n d)"
    and ring_open: "length k = key_size c \<Longrightarrow> length n = 12 \<Longrightarrow> tag_size c \<le> length b \<Longrightarrow>
      map_option (take (length b - tag_size c)) (open_in_place A c k n b) = opn c k n b"
    and wasm_seal: "length k = 32 \<Longrightarrow> length n = 12 \<Longrightarrow> chacha_encrypt A k n d = Some (seal ChaCha20Poly1305 k n d)"
    and wasm_open: "length k = 32 \<Longrightarrow> length n = 12 \<Longrightarrow> chacha_decrypt A k n b = opn ChaCha20Poly1305 k n b"

text \<open>The standards' instance.\<close>

definition std_aead :: aead_ops where
  "std_aead =
     \<lparr>encrypt_aead = (\<lambda>c k n d m. let b = std_seal c k n d in Some (take (length b - m) b, drop (length b - m) b)),
      decrypt_aead = (\<lambda>c k n out tag. std_open c k n (out @ tag)),
      seal_in_place_append_tag = (\<lambda>c k n d. Some (std_seal c k n d)),
      open_in_place = (\<lambda>c k n b. map_option (\<lambda>d. d @ drop (length d) b) (std_open c k n b)),
      chacha_encrypt = (\<lambda>k n d. Some (std_seal ChaCha20Poly1305 k n d)),
      chacha_decrypt = std_open ChaCha20Poly1305\<rparr>"

lemma std_open_iff:
  assumes "length k = key_size c" "length n = 12"
  shows "std_open c k n b = Some d \<longleftrightarrow> b = std_seal c k n d"
proof
  assume o: "std_open c k n b = Some d"
  let ?ct = "take (length b - 16) b"
  from o have "drop (length b - 16) b = std_tag c k n ?ct" "d = xor_bytes ?ct (std_stream c k n (length ?ct))"
    by (auto simp: std_open_def Let_def split: if_splits)
  moreover have "xor_bytes d (std_stream c k n (length d)) = ?ct"
    using calculation(2) assms by (simp add: length_std_stream xor_bytes_twice)
  ultimately show "b = std_seal c k n d" by (simp add: std_seal_def Let_def) (metis append_take_drop_id)
qed (simp add: std_open_seal assms)

interpretation standard: aead std_aead std_seal std_open
proof
  fix c :: cipher_type and k n b :: "byte list"
  assume l: "length k = key_size c" "length n = 12"
  show "std_open c k n b = Some d \<longleftrightarrow> b = std_seal c k n d" for d by (rule std_open_iff [OF l])
  show "length (std_seal c k n d) = length d + tag_size c" for d
    by (simp add: length_std_seal l tag_size_def)
  show "\<exists>out tag. encrypt_aead std_aead c k n d (tag_size c) = Some (out, tag) \<and> out @ tag = std_seal c k n d" for d
    by (simp add: std_aead_def Let_def)
  show "decrypt_aead std_aead c k n out tag = std_open c k n (out @ tag)" for out tag
    by (simp add: std_aead_def)
  show "seal_in_place_append_tag std_aead c k n d = Some (std_seal c k n d)" for d
    by (simp add: std_aead_def)
  show "map_option (take (length b - tag_size c)) (open_in_place std_aead c k n b) = std_open c k n b"
    if "tag_size c \<le> length b"
    using l by (cases "std_open c k n b") (auto simp: std_aead_def tag_size_def std_open_iff std_open_seal length_std_seal)
qed (simp_all add: std_aead_def)

section \<open>Sealers and openers\<close>

fun crypt_of :: "stream_cipher \<Rightarrow> crypt" where
  "crypt_of (OpenSsLCrypt c) = c"
| "crypt_of (RingSeal c) = c"
| "crypt_of (RingOpen c) = c"
| "crypt_of (WasmCrypt c) = c"

text \<open>
  A cipher that can seal, or open, with a key of the right length, a given counter, and for
  the wasm implementation the one cipher it has.
\<close>

definition holds :: "cipher_type \<Rightarrow> byte list \<Rightarrow> byte list \<Rightarrow> stream_cipher \<Rightarrow> bool" where
  "holds t key iv sc \<longleftrightarrow>
     crypt_of sc = \<lparr>c_type = t, c_key = key, c_iv = iv\<rparr> \<and> length key = key_size t \<and> length iv = 12 \<and>
     (\<forall>c. sc = WasmCrypt c \<longrightarrow> t = ChaCha20Poly1305)"

definition sealer :: "cipher_type \<Rightarrow> byte list \<Rightarrow> byte list \<Rightarrow> stream_cipher \<Rightarrow> bool" where
  "sealer t key iv sc \<longleftrightarrow> holds t key iv sc \<and> (\<forall>c. sc \<noteq> RingOpen c)"

definition opener :: "cipher_type \<Rightarrow> byte list \<Rightarrow> byte list \<Rightarrow> stream_cipher \<Rightarrow> bool" where
  "opener t key iv sc \<longleftrightarrow> holds t key iv sc \<and> (\<forall>c. sc \<noteq> RingSeal c)"

lemma new_stream_holds:
  "new_stream pf t key mode = Some sc \<Longrightarrow> length key = key_size t \<Longrightarrow> holds t key (replicate 12 0) sc"
  by (cases pf)
    (auto simp: holds_def ring_stream_def ring_new_def wasm_new_def fresh_crypt_def iv_size_def
      split: if_splits crypto_mode.splits)

lemma new_stream_sealer:
  "new_stream pf t key Encrypt = Some sc \<Longrightarrow> length key = key_size t \<Longrightarrow> sealer t key (replicate 12 0) sc"
  using new_stream_holds [of pf t key Encrypt sc]
  by (cases pf) (auto simp: sealer_def ring_stream_def ring_new_def split: if_splits)

lemma new_stream_opener:
  "new_stream pf t key Decrypt = Some sc \<Longrightarrow> length key = key_size t \<Longrightarrow> opener t key (replicate 12 0) sc"
  using new_stream_holds [of pf t key Decrypt sc]
  by (cases pf) (auto simp: opener_def ring_stream_def ring_new_def split: if_splits)

fun encrypt_all :: "aead_ops \<Rightarrow> stream_cipher \<Rightarrow> byte list list \<Rightarrow> (stream_cipher \<times> byte list list) option" where
  "encrypt_all A sc [] = Some (sc, [])"
| "encrypt_all A sc (d # ds) =
     (case stream_encrypt A sc d of
        Some (sc', Inr b) \<Rightarrow> map_option (apsnd ((#) b)) (encrypt_all A sc' ds)
      | _ \<Rightarrow> None)"

fun decrypt_all :: "aead_ops \<Rightarrow> stream_cipher \<Rightarrow> byte list list \<Rightarrow> (stream_cipher \<times> byte list list) option" where
  "decrypt_all A sc [] = Some (sc, [])"
| "decrypt_all A sc (b # bs) =
     (case stream_decrypt A sc b of
        Some (sc', Inr d) \<Rightarrow> map_option (apsnd ((#) d)) (decrypt_all A sc' bs)
      | _ \<Rightarrow> None)"

text \<open>The messages sealed under consecutive counter values.\<close>

fun sealed :: "(byte list \<Rightarrow> byte list \<Rightarrow> byte list) \<Rightarrow> byte list \<Rightarrow> byte list list \<Rightarrow> byte list list" where
  "sealed s iv [] = []"
| "sealed s iv (d # ds) = s (nonce_advance iv) d # sealed s (nonce_advance iv) ds"


context aead
begin

lemma encrypt_step:
  assumes "sealer t key iv sc"
  shows "\<exists>sc'. stream_encrypt A sc d = Some (sc', Ok (seal t key (nonce_advance iv) d)) \<and> sealer t key (nonce_advance iv) sc'"
proof -
  from assms have l: "length key = key_size t" "length (nonce_advance iv) = 12"
    by (auto simp: sealer_def holds_def)
  from openssl_seal [OF this, of d] assms show ?thesis
    using ring_seal [OF l, of d] wasm_seal [of key "nonce_advance iv" d] l
    by (cases sc)
      (auto simp: sealer_def holds_def openssl_encrypt_def ring_encrypt_def wasm_encrypt_def advance_iv_def Let_def)
qed

lemma decrypt_step:
  assumes "opener t key iv sc" "tag_size t \<le> length b"
  shows "\<exists>sc' e. stream_decrypt A sc b = Some (sc', ok_or e (opn t key (nonce_advance iv) b)) \<and> opener t key (nonce_advance iv) sc'"
proof -
  from assms have l: "length key = key_size t" "length (nonce_advance iv) = 12"
    by (auto simp: opener_def holds_def)
  have o: "decrypt_aead A t key (nonce_advance iv) (take (length b - tag_size t) b) (drop (length b - tag_size t) b) =
      opn t key (nonce_advance iv) b"
    using openssl_open [OF l, of "drop (length b - tag_size t) b" "take (length b - tag_size t) b"] assms(2) by simp
  have r: "(case open_in_place A t key (nonce_advance iv) b of Some buf \<Rightarrow> Ok (take (length b - tag_size t) buf) | None \<Rightarrow> Err CryptoError) =
      ok_or CryptoError (opn t key (nonce_advance iv) b)"
    using ring_open [OF l assms(2), symmetric] by (auto split: option.splits)
  show ?thesis
    using assms o r wasm_open [of key "nonce_advance iv" b] l
    by (cases sc)
      (auto simp: opener_def holds_def openssl_decrypt_def ring_decrypt_def wasm_decrypt_def advance_iv_def Let_def)
qed

lemma decrypt_sealed:
  assumes "opener t key iv sc"
  shows "\<exists>sc'. stream_decrypt A sc (seal t key (nonce_advance iv) d) = Some (sc', Ok d) \<and> opener t key (nonce_advance iv) sc'"
proof -
  from assms have l: "length key = key_size t" "length (nonce_advance iv) = 12"
    by (auto simp: opener_def holds_def)
  then have "opn t key (nonce_advance iv) (seal t key (nonce_advance iv) d) = Some d" by (simp add: open_seal)
  with decrypt_step [OF assms, of "seal t key (nonce_advance iv) d"] length_seal [OF l] show ?thesis by auto
qed

lemma decrypt_only_sealed:
  assumes "opener t key iv sc" "stream_decrypt A sc b = Some (sc', Ok d)"
  shows "b = seal t key (nonce_advance iv) d \<and> opener t key (nonce_advance iv) sc'"
proof -
  from assms have l: "length key = key_size t" "length (nonce_advance iv) = 12"
    by (auto simp: opener_def holds_def)
  show ?thesis
  proof (cases "tag_size t \<le> length b")
    case True
    from decrypt_step [OF assms(1) this] assms(2) show ?thesis
      using open_seal [OF l, of b d] by (auto simp: eq_commute [of "Ok d"])
  next
    case False
    then have "length b < 16" by (simp add: tag_size_def)
    moreover from assms obtain c where "sc = WasmCrypt c"
      using False by (cases sc)
        (auto simp: opener_def holds_def openssl_decrypt_def ring_decrypt_def advance_iv_def Let_def split: if_splits)
    ultimately show ?thesis
      using assms l wasm_open [of key "nonce_advance iv" b] open_seal [OF l, of b d]
      by (auto simp: opener_def holds_def wasm_decrypt_def advance_iv_def Let_def)
  qed
qed

lemma encrypt_all_sealed:
  "sealer t key iv sc \<Longrightarrow> \<exists>sc'. encrypt_all A sc ds = Some (sc', sealed (seal t key) iv ds)"
proof (induction ds arbitrary: iv sc)
  case (Cons d ds)
  from encrypt_step [OF Cons.prems, of d] obtain sc1 where
    "stream_encrypt A sc d = Some (sc1, Ok (seal t key (nonce_advance iv) d))" "sealer t key (nonce_advance iv) sc1" by auto
  with Cons.IH [OF this(2)] show ?case by auto
qed simp

lemma decrypt_all_iff:
  "opener t key iv sc \<Longrightarrow> (\<exists>sc'. decrypt_all A sc bs = Some (sc', ds)) \<longleftrightarrow> bs = sealed (seal t key) iv ds"
proof (induction bs arbitrary: iv sc ds)
  case Nil
  then show ?case by (cases ds) auto
next
  case (Cons b bs)
  show ?case
  proof
    assume "\<exists>sc'. decrypt_all A sc (b # bs) = Some (sc', ds)"
    then obtain sc1 d sc2 ds' where *: "stream_decrypt A sc b = Some (sc1, Ok d)" "decrypt_all A sc1 bs = Some (sc2, ds')"
      "ds = d # ds'" by (auto split: option.splits prod.splits sum.splits)
    from decrypt_only_sealed [OF Cons.prems *(1)] Cons.IH [of "nonce_advance iv" sc1 ds'] *(2,3)
    show "b # bs = sealed (seal t key) iv ds" by auto
  next
    assume e: "b # bs = sealed (seal t key) iv ds"
    then obtain d ds' where d: "ds = d # ds'" "b = seal t key (nonce_advance iv) d" "bs = sealed (seal t key) (nonce_advance iv) ds'"
      by (cases ds) auto
    from decrypt_sealed [OF Cons.prems, of d] obtain sc1 where
      "stream_decrypt A sc b = Some (sc1, Ok d)" "opener t key (nonce_advance iv) sc1" using d by auto
    with Cons.IH [OF this(2), of ds'] d show "\<exists>sc'. decrypt_all A sc (b # bs) = Some (sc', ds)" by auto
  qed
qed

end

section \<open>Properties\<close>

text \<open>
  C35. The implementations interoperate and frames cannot be altered, dropped or reordered
  unnoticed. Whatever builds the two ends run, a sealing cipher and an opening cipher made
  from the same type and key agree: every sequence of messages is sealed without an error or a
  panic, the opener accepts exactly that sequence of frames for these messages, and any
  sequence of frames it accepts is the sealing of the messages it returns under the
  counters \<open>1, 2, 3\<close> and so on.
\<close>

theorem ciphers_interoperate:
  assumes "aead A seal opn" "length key = key_size t"
    "new_stream p1 t key Encrypt = Some s" "new_stream p2 t key Decrypt = Some r"
  shows "(\<exists>s' r' bs. encrypt_all A s ds = Some (s', bs) \<and> decrypt_all A r bs = Some (r', ds))
    \<and> (\<forall>bs r' ds'. decrypt_all A r bs = Some (r', ds') \<longrightarrow> bs = sealed (seal t key) (replicate 12 0) ds')"
  using aead.encrypt_all_sealed [OF assms(1) new_stream_sealer [OF assms(3,2)], of ds]
    aead.decrypt_all_iff [OF assms(1) new_stream_opener [OF assms(4,2)]]
  by metis

theorem ciphers_interoperate_witness:
  "\<exists>s r s' r' bs. new_stream UnixOssl110 Aes128Gcm (replicate 16 7) Encrypt = Some s
     \<and> new_stream NonUnix Aes128Gcm (replicate 16 7) Decrypt = Some r
     \<and> encrypt_all std_aead s [[1, 2, 3], []] = Some (s', bs) \<and> decrypt_all std_aead r bs = Some (r', [[1, 2, 3], []])"
proof -
  let ?k = "replicate 16 7 :: byte list"
  have "length ?k = key_size Aes128Gcm" by simp
  moreover have s: "new_stream UnixOssl110 Aes128Gcm ?k Encrypt = Some (OpenSsLCrypt (fresh_crypt Aes128Gcm ?k))" by simp
  moreover have r: "new_stream NonUnix Aes128Gcm ?k Decrypt = Some (RingOpen (fresh_crypt Aes128Gcm ?k))"
    by (simp add: ring_stream_def ring_new_def)
  ultimately show ?thesis
    using ciphers_interoperate [OF standard.aead_axioms, of ?k Aes128Gcm UnixOssl110 _ NonUnix _ "[[1, 2, 3], []]"] by metis
qed


end
