(* ===== verification/Secio_Stream.thy ===== *)
theory Secio_Stream
  imports Secio_Crypto "HOL-Library.Sublist"
begin

text \<open>
  The encrypted stream (\<open>codec/secure_stream.rs\<close>): one frame of the length-delimited socket per
  write, sealed; reads open one frame at a time and keep what does not fit. The framed socket
  is a parameter. What one side writes is what the other side reads, in order.
\<close>

section \<open>The framed socket\<close>

text \<open>\<open>Framed<T, LengthDelimitedCodec>\<close> over the world it lives in.\<close>

record 'w socket_ops =
  sk_poll_next :: "'w \<Rightarrow> 'w \<times> (io_error + byte list) option poll"
  sk_poll_ready :: "'w \<Rightarrow> 'w \<times> (io_error + unit) poll"
  sk_start_send :: "'w \<Rightarrow> byte list \<Rightarrow> 'w \<times> (io_error + unit)"
  sk_poll_flush :: "'w \<Rightarrow> 'w \<times> (io_error + unit) poll"
  sk_poll_close :: "'w \<Rightarrow> 'w \<times> (io_error + unit) poll"

section \<open>The stream\<close>

datatype recv_buf = VecBuf (buf_bytes: "byte list") | ByteBuf (buf_bytes: "byte list")

text \<open>\<open>drain_to\<close>: the bytes put into the caller's buffer and what stays.\<close>

fun drain_to :: "recv_buf \<Rightarrow> nat \<Rightarrow> byte list \<times> recv_buf" where
  "drain_to (VecBuf b) n = (take n b, VecBuf (drop n b))"
| "drain_to (ByteBuf b) n = (take n b, ByteBuf (drop n b))"

record 'w secure_stream =
  ss_socket :: 'w
  ss_decode_cipher :: stream_cipher
  ss_encode_cipher :: stream_cipher
  ss_nonce :: "byte list"
  ss_recv_buf :: recv_buf

definition secure_stream_new :: "'w \<Rightarrow> stream_cipher \<Rightarrow> stream_cipher \<Rightarrow> byte list \<Rightarrow> 'w secure_stream" where
  "secure_stream_new w dec enc nonce =
     \<lparr>ss_socket = w, ss_decode_cipher = dec, ss_encode_cipher = enc, ss_nonce = nonce,
      ss_recv_buf = (if is_in_place dec then ByteBuf [] else VecBuf [])\<rparr>"

definition decode_buffer :: "aead_ops \<Rightarrow> 'w secure_stream \<Rightarrow> byte list \<Rightarrow> ('w secure_stream \<times> (secio_error + recv_buf)) option" where
  "decode_buffer A s frame =
     (if is_in_place (ss_decode_cipher s) then
        map_option (\<lambda>(c, r). (s\<lparr>ss_decode_cipher := c\<rparr>, and_then r (\<lambda>d. Ok (ByteBuf d))))
          (decrypt_in_place A (ss_decode_cipher s) frame)
      else
        map_option (\<lambda>(c, r). (s\<lparr>ss_decode_cipher := c\<rparr>, and_then r (\<lambda>d. Ok (VecBuf d))))
          (stream_decrypt A (ss_decode_cipher s) frame))"

definition ss_drain :: "'w secure_stream \<Rightarrow> nat \<Rightarrow> 'w secure_stream \<times> byte list" where
  "ss_drain s remaining =
     (if buf_bytes (ss_recv_buf s) = [] then (s, [])
      else let n = min remaining (length (buf_bytes (ss_recv_buf s))); (out, rest) = drain_to (ss_recv_buf s) n
           in (s\<lparr>ss_recv_buf := rest\<rparr>, out))"

text \<open>The encryption result is unwrapped: an error panics.\<close>

definition encode_buffer :: "aead_ops \<Rightarrow> 'w secure_stream \<Rightarrow> byte list \<Rightarrow> ('w secure_stream \<times> byte list) option" where
  "encode_buffer A s buf =
     (case stream_encrypt A (ss_encode_cipher s) buf of
        Some (c, Inr out) \<Rightarrow> Some (s\<lparr>ss_encode_cipher := c\<rparr>, out)
      | _ \<Rightarrow> None)"

text \<open>\<open>poll_read\<close> into a buffer with \<open>remaining\<close> bytes free: the bytes put there.\<close>

definition secure_poll_read :: "aead_ops \<Rightarrow> 'w socket_ops \<Rightarrow> 'w secure_stream \<Rightarrow> nat \<Rightarrow>
    ('w secure_stream \<times> (io_error + byte list) poll) option" where
  "secure_poll_read A Sk s remaining =
     (let (s1, copied) = ss_drain s remaining in
      if length copied > 0 then Some (s1, Ready (Ok copied))
      else case sk_poll_next Sk (ss_socket s1) of
          (w, Ready (Some (Inr t))) \<Rightarrow>
            (case decode_buffer A (s1\<lparr>ss_socket := w\<rparr>) t of
               None \<Rightarrow> None
             | Some (s2, Inl e) \<Rightarrow> Some (s2, Ready (Err (io_error_from e)))
             | Some (s2, Inr decoded) \<Rightarrow>
                 if remaining \<ge> length (buf_bytes decoded) then Some (s2, Ready (Ok (buf_bytes decoded)))
                 else let (s3, out) = ss_drain (s2\<lparr>ss_recv_buf := decoded\<rparr>) remaining in Some (s3, Ready (Ok out)))
        | (w, Ready (Some (Inl e))) \<Rightarrow> Some (s1\<lparr>ss_socket := w\<rparr>, Ready (Err e))
        | (w, Ready None) \<Rightarrow> Some (s1\<lparr>ss_socket := w\<rparr>, Ready (Err BrokenPipe))
        | (w, Pending) \<Rightarrow> Some (s1\<lparr>ss_socket := w\<rparr>, Pending))"

definition secure_poll_write :: "aead_ops \<Rightarrow> 'w socket_ops \<Rightarrow> 'w secure_stream \<Rightarrow> byte list \<Rightarrow>
    ('w secure_stream \<times> (io_error + nat) poll) option" where
  "secure_poll_write A Sk s buf =
     (case sk_poll_ready Sk (ss_socket s) of
        (w, Ready (Inr _)) \<Rightarrow>
          (case encode_buffer A (s\<lparr>ss_socket := w\<rparr>) buf of
             None \<Rightarrow> None
           | Some (s1, frame) \<Rightarrow>
               (case sk_start_send Sk (ss_socket s1) frame of
                  (w1, Inl e) \<Rightarrow> Some (s1\<lparr>ss_socket := w1\<rparr>, Ready (Err e))
                | (w1, Inr _) \<Rightarrow>
                    (case sk_poll_flush Sk w1 of
                       (w2, Ready (Inl e)) \<Rightarrow> Some (s1\<lparr>ss_socket := w2\<rparr>, Ready (Err e))
                     | (w2, _) \<Rightarrow> Some (s1\<lparr>ss_socket := w2\<rparr>, Ready (Ok (length buf))))))
      | (w, Pending) \<Rightarrow> Some (s\<lparr>ss_socket := w\<rparr>, Pending)
      | (w, Ready (Inl e)) \<Rightarrow> Some (s\<lparr>ss_socket := w\<rparr>, Ready (Err e)))"

definition secure_poll_flush :: "'w socket_ops \<Rightarrow> 'w secure_stream \<Rightarrow> 'w secure_stream \<times> (io_error + unit) poll" where
  "secure_poll_flush Sk s = apfst (\<lambda>w. s\<lparr>ss_socket := w\<rparr>) (sk_poll_flush Sk (ss_socket s))"

definition secure_poll_shutdown :: "'w socket_ops \<Rightarrow> 'w secure_stream \<Rightarrow> 'w secure_stream \<times> (io_error + unit) poll" where
  "secure_poll_shutdown Sk s = apfst (\<lambda>w. s\<lparr>ss_socket := w\<rparr>) (sk_poll_close Sk (ss_socket s))"

section \<open>The nonce check\<close>

text \<open>
  \<open>AsyncReadExt::read_exact\<close>: reads until the buffer is full; a read of no bytes is an
  unexpected end of file.
\<close>

partial_function (option) read_exact :: "aead_ops \<Rightarrow> 'w socket_ops \<Rightarrow> nat \<Rightarrow> byte list \<Rightarrow> 'w secure_stream \<Rightarrow>
    ('w secure_stream \<times> (io_error + byte list)) option" where
  "read_exact A Sk n acc s =
     (if n = 0 then Some (s, Ok acc)
      else case secure_poll_read A Sk s n of
          None \<Rightarrow> None
        | Some (s', Pending) \<Rightarrow> read_exact A Sk n acc s'
        | Some (s', Ready (Inl e)) \<Rightarrow> Some (s', Err e)
        | Some (s', Ready (Inr out)) \<Rightarrow>
            if out = [] then Some (s', Err UnexpectedEof)
            else read_exact A Sk (n - length out) (acc @ out) s')"

definition verify_nonce :: "aead_ops \<Rightarrow> 'w socket_ops \<Rightarrow> ('w secure_stream, secio_error, unit) fallible" where
  "verify_nonce A Sk s =
     (if ss_nonce s = [] then Some (s, Ok ())
      else case read_exact A Sk (length (ss_nonce s)) [] s of
          None \<Rightarrow> None
        | Some (s1, Inl e) \<Rightarrow> Some (s1, Err (IoError e))
        | Some (s1, Inr nonce) \<Rightarrow>
            (let n = min (length nonce) (length (ss_nonce s1)) in
             if take n nonce \<noteq> take n (ss_nonce s1) then Some (s1, Err NonceVerificationFailed)
             else Some (s1\<lparr>ss_nonce := drop n (ss_nonce s1)\<rparr>, Ok ())))"

text \<open>\<open>AsyncWriteExt::write_all\<close>, and \<open>flush\<close>.\<close>

partial_function (option) write_all :: "aead_ops \<Rightarrow> 'w socket_ops \<Rightarrow> byte list \<Rightarrow> 'w secure_stream \<Rightarrow>
    ('w secure_stream \<times> (io_error + unit)) option" where
  "write_all A Sk buf s =
     (if buf = [] then Some (s, Ok ())
      else case secure_poll_write A Sk s buf of
          None \<Rightarrow> None
        | Some (s', Pending) \<Rightarrow> write_all A Sk buf s'
        | Some (s', Ready (Inl e)) \<Rightarrow> Some (s', Err e)
        | Some (s', Ready (Inr n)) \<Rightarrow>
            if n = 0 then Some (s', Err OtherIo) else write_all A Sk (drop n buf) s')"

definition secure_flush :: "'w socket_ops \<Rightarrow> 'w secure_stream \<Rightarrow> ('w secure_stream \<times> (io_error + unit)) option" where
  "secure_flush Sk = await (secure_poll_flush Sk)"


section \<open>The law of the socket\<close>

text \<open>
  A framed socket takes complete frames from what the peer sent, one by one, and appends the
  frames it accepts to what it has sent.
\<close>

locale framed_socket =
  fixes Sk :: "'w socket_ops"
    and inbox :: "'w \<Rightarrow> byte list list"
    and sent :: "'w \<Rightarrow> byte list list"
  assumes next_frame: "sk_poll_next Sk w = (w', Ready (Some (Ok f))) \<Longrightarrow> inbox w = f # inbox w'"
    and next_other: "sk_poll_next Sk w = (w', r) \<Longrightarrow> (\<And>f. r \<noteq> Ready (Some (Ok f))) \<Longrightarrow> inbox w' = inbox w"
    and next_sent: "sk_poll_next Sk w = (w', r) \<Longrightarrow> sent w' = sent w"
    and ready_same: "sk_poll_ready Sk w = (w', r1) \<Longrightarrow> inbox w' = inbox w \<and> sent w' = sent w"
    and flush_same: "sk_poll_flush Sk w = (w', r1) \<Longrightarrow> inbox w' = inbox w \<and> sent w' = sent w"
    and send_ok: "sk_start_send Sk w f = (w', Ok ()) \<Longrightarrow> inbox w' = inbox w \<and> sent w' = sent w @ [f]"
    and send_err: "sk_start_send Sk w f = (w', Err e) \<Longrightarrow> inbox w' = inbox w \<and> sent w' = sent w"

section \<open>Reading and writing\<close>

fun read_run :: "aead_ops \<Rightarrow> 'w socket_ops \<Rightarrow> 'w secure_stream \<Rightarrow> nat list \<Rightarrow>
    ('w secure_stream \<times> (io_error + byte list) poll list) option" where
  "read_run A Sk s [] = Some (s, [])"
| "read_run A Sk s (n # ns) =
     (case secure_poll_read A Sk s n of
        None \<Rightarrow> None
      | Some (s', r) \<Rightarrow> map_option (apsnd ((#) r)) (read_run A Sk s' ns))"

fun write_run :: "aead_ops \<Rightarrow> 'w socket_ops \<Rightarrow> 'w secure_stream \<Rightarrow> byte list list \<Rightarrow>
    ('w secure_stream \<times> (io_error + nat) poll list) option" where
  "write_run A Sk s [] = Some (s, [])"
| "write_run A Sk s (d # ds) =
     (case secure_poll_write A Sk s d of
        None \<Rightarrow> None
      | Some (s', r) \<Rightarrow> map_option (apsnd ((#) r)) (write_run A Sk s' ds))"

text \<open>The bytes that reads returned, and the buffers that writes accepted.\<close>

fun got :: "(io_error + byte list) poll \<Rightarrow> byte list" where
  "got (Ready (Inr out)) = out"
| "got _ = []"

fun accepted :: "byte list list \<Rightarrow> (io_error + nat) poll list \<Rightarrow> byte list list" where
  "accepted (d # ds) (Ready (Inr n) # rs) = take n d # accepted ds rs"
| "accepted (d # ds) (_ # rs) = accepted ds rs"
| "accepted _ _ = []"

fun no_error :: "('e + 'a) poll \<Rightarrow> bool" where
  "no_error (Ready (Inl e)) = False"
| "no_error _ = True"

lemma length_sealed [simp]: "length (sealed s iv ds) = length ds"
  by (induction ds arbitrary: iv) auto

lemma decode_buffer_eq:
  "decode_buffer A s frame =
     map_option (\<lambda>(c, r). (s\<lparr>ss_decode_cipher := c\<rparr>,
         and_then r (\<lambda>d. Ok (if is_in_place (ss_decode_cipher s) then ByteBuf d else VecBuf d))))
       (stream_decrypt A (ss_decode_cipher s) frame)"
  by (cases "ss_decode_cipher s") (simp_all add: decode_buffer_def)

lemma drain_to_bytes:
  "drain_to b n = (take n (buf_bytes b), rest) \<Longrightarrow> buf_bytes rest = drop n (buf_bytes b)"
  by (cases b) auto

lemma ss_drain_eq:
  "\<exists>b. ss_drain s n = (s\<lparr>ss_recv_buf := b\<rparr>, take n (buf_bytes (ss_recv_buf s))) \<and> buf_bytes b = drop n (buf_bytes (ss_recv_buf s))"
proof (cases "buf_bytes (ss_recv_buf s) = []")
  case True
  then show ?thesis by (intro exI [of _ "ss_recv_buf s"]) (simp add: ss_drain_def)
next
  case False
  then show ?thesis
    by (intro exI [of _ "snd (drain_to (ss_recv_buf s) (min n (length (buf_bytes (ss_recv_buf s)))))"])
      (cases "ss_recv_buf s"; auto simp: ss_drain_def Let_def min_def)
qed

locale secured = aead A seal opn + framed_socket Sk inbox sent
  for A :: aead_ops and seal opn and Sk :: "'w socket_ops" and inbox sent
begin

text \<open>A reader whose socket will deliver \<open>ds\<close> sealed under the counters that follow \<open>iv\<close>.\<close>

definition awaits :: "cipher_type \<Rightarrow> byte list \<Rightarrow> byte list \<Rightarrow> byte list list \<Rightarrow> 'w secure_stream \<Rightarrow> bool" where
  "awaits t key iv ds s \<longleftrightarrow>
     opener t key iv (ss_decode_cipher s) \<and> inbox (ss_socket s) = sealed (seal t key) iv ds"

definition unread :: "byte list list \<Rightarrow> 'w secure_stream \<Rightarrow> byte list" where
  "unread ds s = buf_bytes (ss_recv_buf s) @ concat ds"

lemma read_frame:
  assumes "awaits t key iv ds s" "sk_poll_next Sk (ss_socket s) = (w, Ready (Some (Ok f)))"
  shows "\<exists>d ds' c. ds = d # ds' \<and> awaits t key (nonce_advance iv) ds' (s\<lparr>ss_socket := w, ss_decode_cipher := c\<rparr>)
    \<and> decode_buffer A (s\<lparr>ss_socket := w\<rparr>) f =
        Some (s\<lparr>ss_socket := w, ss_decode_cipher := c\<rparr>, Ok (if is_in_place (ss_decode_cipher s) then ByteBuf d else VecBuf d))"
proof -
  from next_frame [OF assms(2)] assms(1) obtain d ds' where
    ds: "ds = d # ds'" "f = seal t key (nonce_advance iv) d" "inbox w = sealed (seal t key) (nonce_advance iv) ds'"
    by (cases ds) (auto simp: awaits_def)
  from assms(1) have "opener t key iv (ss_decode_cipher s)" by (simp add: awaits_def)
  from decrypt_sealed [OF this, of d] ds show ?thesis by (auto simp: decode_buffer_eq awaits_def)
qed

definition good_read :: "cipher_type \<Rightarrow> byte list \<Rightarrow> byte list list \<Rightarrow> 'w secure_stream \<Rightarrow> nat \<Rightarrow> bool" where
  "good_read t key ds s n \<longleftrightarrow>
     (\<exists>s' r iv' ds'. secure_poll_read A Sk s n = Some (s', r) \<and> awaits t key iv' ds' s'
        \<and> got r @ unread ds' s' = unread ds s \<and> length (got r) \<le> n)"

lemma good_readI:
  "secure_poll_read A Sk s n = Some (s', r) \<Longrightarrow> awaits t key iv' ds' s' \<Longrightarrow>
   got r @ unread ds' s' = unread ds s \<Longrightarrow> length (got r) \<le> n \<Longrightarrow> good_read t key ds s n"
  unfolding good_read_def by blast

lemma read_buffered:
  assumes "awaits t key iv ds s" "0 < n" "buf_bytes (ss_recv_buf s) \<noteq> []"
  shows "good_read t key ds s n"
proof -
  obtain b where dr: "ss_drain s n = (s\<lparr>ss_recv_buf := b\<rparr>, take n (buf_bytes (ss_recv_buf s)))"
    and b: "buf_bytes b = drop n (buf_bytes (ss_recv_buf s))"
    using ss_drain_eq [of s n] by auto
  have "secure_poll_read A Sk s n = Some (s\<lparr>ss_recv_buf := b\<rparr>, Ready (Ok (take n (buf_bytes (ss_recv_buf s)))))"
    using assms(2,3) by (simp add: secure_poll_read_def dr)
  moreover have "awaits t key iv ds (s\<lparr>ss_recv_buf := b\<rparr>)" using assms(1) by (simp add: awaits_def)
  ultimately show ?thesis by (rule good_readI) (simp_all add: unread_def b)
qed

lemma read_new_frame:
  assumes "awaits t key iv ds s" "buf_bytes (ss_recv_buf s) = []"
    "sk_poll_next Sk (ss_socket s) = (w, Ready (Some (Ok f)))"
  shows "good_read t key ds s n"
proof -
  have s1: "ss_drain s n = (s, [])" using assms(2) by (simp add: ss_drain_def)
  from read_frame [OF assms(1,3)] obtain d ds' c where
    ds: "ds = d # ds'" and aw: "awaits t key (nonce_advance iv) ds' (s\<lparr>ss_socket := w, ss_decode_cipher := c\<rparr>)"
    and db: "decode_buffer A (s\<lparr>ss_socket := w\<rparr>) f =
      Some (s\<lparr>ss_socket := w, ss_decode_cipher := c\<rparr>, Ok (if is_in_place (ss_decode_cipher s) then ByteBuf d else VecBuf d))"
    by auto
  let ?s2 = "s\<lparr>ss_socket := w, ss_decode_cipher := c\<rparr>"
  let ?k = "if is_in_place (ss_decode_cipher s) then ByteBuf d else VecBuf d"
  show ?thesis
  proof (cases "length d \<le> n")
    case True
    then have "secure_poll_read A Sk s n = Some (?s2, Ready (Ok d))"
      by (simp add: secure_poll_read_def s1 assms(3) db)
    from good_readI [OF this aw] ds True assms(2) show ?thesis by (simp add: unread_def)
  next
    case False
    obtain b where b: "ss_drain (?s2\<lparr>ss_recv_buf := ?k\<rparr>) n = (?s2\<lparr>ss_recv_buf := b\<rparr>, take n d)" "buf_bytes b = drop n d"
      using ss_drain_eq [of "?s2\<lparr>ss_recv_buf := ?k\<rparr>" n] by auto
    then have "secure_poll_read A Sk s n = Some (?s2\<lparr>ss_recv_buf := b\<rparr>, Ready (Ok (take n d)))"
      using False by (auto simp: secure_poll_read_def s1 assms(3) db)
    moreover have "awaits t key (nonce_advance iv) ds' (?s2\<lparr>ss_recv_buf := b\<rparr>)" using aw by (simp add: awaits_def)
    ultimately show ?thesis by (rule good_readI) (simp_all add: unread_def ds b(2) assms(2))
  qed
qed

lemma poll_read_step:
  assumes "awaits t key iv ds s" "0 < n"
  shows "good_read t key ds s n"
proof (cases "buf_bytes (ss_recv_buf s) = []")
  case True
  then have s1: "ss_drain s n = (s, [])" by (simp add: ss_drain_def)
  obtain w r where nx: "sk_poll_next Sk (ss_socket s) = (w, r)" by (cases "sk_poll_next Sk (ss_socket s)")
  show ?thesis
  proof (cases "\<exists>f. r = Ready (Some (Ok f))")
    case True
    with nx read_new_frame [OF assms(1) \<open>buf_bytes (ss_recv_buf s) = []\<close>] show ?thesis by auto
  next
    case False
    then consider e where "r = Ready (Some (Err e))" | "r = Ready None" | "r = Pending"
      by (metis old.sum.exhaust option.exhaust poll.exhaust)
    then obtain r' where r': "secure_poll_read A Sk s n = Some (s\<lparr>ss_socket := w\<rparr>, r')" "got r' = []"
      using nx by cases (simp_all add: secure_poll_read_def s1)
    have "awaits t key iv ds (s\<lparr>ss_socket := w\<rparr>)"
      using next_other [OF nx] False assms(1) by (auto simp: awaits_def)
    from good_readI [OF r'(1) this] r'(2) show ?thesis by (simp add: unread_def)
  qed
qed (rule read_buffered [OF assms])

lemma read_run_delivers:
  "awaits t key iv ds s \<Longrightarrow> list_all ((<) 0) ns \<Longrightarrow>
   \<exists>s' rs iv' ds'. read_run A Sk s ns = Some (s', rs) \<and> awaits t key iv' ds' s' \<and>
     concat (map got rs) @ unread ds' s' = unread ds s"
proof (induction ns arbitrary: s iv ds)
  case (Cons n ns)
  then obtain s1 r iv1 ds1 where 1: "secure_poll_read A Sk s n = Some (s1, r)" "awaits t key iv1 ds1 s1"
    "got r @ unread ds1 s1 = unread ds s"
    using poll_read_step [of t key iv ds s n] by (auto simp: good_read_def)
  from Cons.IH [OF 1(2)] Cons.prems obtain s' rs iv' ds' where
    "read_run A Sk s1 ns = Some (s', rs)" "awaits t key iv' ds' s'" "concat (map got rs) @ unread ds' s' = unread ds1 s1"
    by auto
  with 1 show ?case by (intro exI [of _ s'] exI [of _ "r # rs"] exI [of _ iv'] exI [of _ ds']) simp
qed auto

lemma poll_write_step:
  assumes "sealer t key iv (ss_encode_cipher s)"
  shows "\<exists>s' r. secure_poll_write A Sk s d = Some (s', r) \<and>
    (case r of
       Ready (Inr n) \<Rightarrow> n = length d \<and> sealer t key (nonce_advance iv) (ss_encode_cipher s')
         \<and> sent (ss_socket s') = sent (ss_socket s) @ [seal t key (nonce_advance iv) d]
     | Ready (Inl e) \<Rightarrow> True
     | Pending \<Rightarrow> sealer t key iv (ss_encode_cipher s') \<and> sent (ss_socket s') = sent (ss_socket s))"
proof -
  obtain w r where rd: "sk_poll_ready Sk (ss_socket s) = (w, r)" by (cases "sk_poll_ready Sk (ss_socket s)")
  with ready_same have w: "sent w = sent (ss_socket s)" by blast
  from encrypt_step [OF assms, of d] obtain c where
    c: "stream_encrypt A (ss_encode_cipher s) d = Some (c, Ok (seal t key (nonce_advance iv) d))" "sealer t key (nonce_advance iv) c"
    by auto
  obtain w1 q where st: "sk_start_send Sk w (seal t key (nonce_advance iv) d) = (w1, q)"
    by (cases "sk_start_send Sk w (seal t key (nonce_advance iv) d)")
  obtain w2 p where fl: "sk_poll_flush Sk w1 = (w2, p)" by (cases "sk_poll_flush Sk w1")
  have "sent w2 = sent (ss_socket s) @ [seal t key (nonce_advance iv) d]" if "q = Ok ()"
    using that send_ok st flush_same fl w by metis
  then show ?thesis using rd w c st fl assms
    by (cases r; cases q; cases p)
      (auto simp: secure_poll_write_def encode_buffer_def split: sum.splits)
qed

lemma write_run_sent:
  "sealer t key iv (ss_encode_cipher s) \<Longrightarrow> write_run A Sk s ds = Some (s', rs) \<Longrightarrow> list_all no_error rs \<Longrightarrow>
   sent (ss_socket s') = sent (ss_socket s) @ sealed (seal t key) iv (accepted ds rs)"
proof (induction ds arbitrary: s iv rs)
  case (Cons d ds)
  from poll_write_step [OF Cons.prems(1), of d] obtain s1 r where 1: "secure_poll_write A Sk s d = Some (s1, r)"
    and r: "case r of
       Ready (Inr n) \<Rightarrow> n = length d \<and> sealer t key (nonce_advance iv) (ss_encode_cipher s1)
         \<and> sent (ss_socket s1) = sent (ss_socket s) @ [seal t key (nonce_advance iv) d]
     | Ready (Inl e) \<Rightarrow> True
     | Pending \<Rightarrow> sealer t key iv (ss_encode_cipher s1) \<and> sent (ss_socket s1) = sent (ss_socket s)" by blast
  from Cons.prems(2) 1 obtain rs' where 2: "write_run A Sk s1 ds = Some (s', rs')" "rs = r # rs'" by auto
  with Cons.prems(3) consider n where "r = Ready (Ok n)" | "r = Pending"
    by (cases r) (auto split: sum.splits elim: no_error.elims)
  then show ?case
    using r Cons.IH [OF _ 2(1)] Cons.prems(3) 2(2) by cases auto
qed auto

end


section \<open>A duplex pipe\<close>

text \<open>
  The instance: frames to deliver, frames sent, and a number of polls that are still pending.
  A read of an exhausted pipe is the end of the stream.
\<close>

type_synonym duplex = "byte list list \<times> byte list list \<times> nat"

fun pipe_wait :: "duplex \<Rightarrow> duplex \<times> (io_error + unit) poll" where
  "pipe_wait (i, o', Suc k) = ((i, o', k), Pending)"
| "pipe_wait (i, o', 0) = ((i, o', 0), Ready (Ok ()))"

fun pipe_next :: "duplex \<Rightarrow> duplex \<times> (io_error + byte list) option poll" where
  "pipe_next (i, o', Suc k) = ((i, o', k), Pending)"
| "pipe_next (f # i, o', 0) = ((i, o', 0), Ready (Some (Ok f)))"
| "pipe_next ([], o', 0) = (([], o', 0), Ready None)"

fun pipe_send :: "duplex \<Rightarrow> byte list \<Rightarrow> duplex \<times> (io_error + unit)" where
  "pipe_send (i, o', k) f = ((i, o' @ [f], k), Ok ())"

definition pipe_ops :: "duplex socket_ops" where
  "pipe_ops =
     \<lparr>sk_poll_next = pipe_next, sk_poll_ready = pipe_wait, sk_start_send = pipe_send,
      sk_poll_flush = pipe_wait, sk_poll_close = pipe_wait\<rparr>"

definition pipe_in :: "duplex \<Rightarrow> byte list list" where
  "pipe_in w = fst w"

definition pipe_out :: "duplex \<Rightarrow> byte list list" where
  "pipe_out w = fst (snd w)"

lemmas pipe_defs = pipe_ops_def pipe_in_def pipe_out_def

lemma pipe_wait_same: "pipe_wait w = (w', r) \<Longrightarrow> fst w' = fst w \<and> fst (snd w') = fst (snd w)"
  by (cases w rule: pipe_wait.cases) auto

interpretation pipe: framed_socket pipe_ops pipe_in pipe_out
proof
  fix w w' :: duplex and f e and r :: "(io_error + byte list) option poll" and r1 :: "(io_error + unit) poll"
  show "pipe_in w = f # pipe_in w'" if "sk_poll_next pipe_ops w = (w', Ready (Some (Ok f)))"
    using that by (cases w rule: pipe_next.cases) (auto simp: pipe_defs)
  show "pipe_in w' = pipe_in w" if "sk_poll_next pipe_ops w = (w', r)" "\<And>f. r \<noteq> Ready (Some (Ok f))"
    using that by (cases w rule: pipe_next.cases) (auto simp: pipe_defs)
  show "pipe_out w' = pipe_out w" if "sk_poll_next pipe_ops w = (w', r)"
    using that by (cases w rule: pipe_next.cases) (auto simp: pipe_defs)
  show "pipe_in w' = pipe_in w \<and> pipe_out w' = pipe_out w" if "sk_poll_ready pipe_ops w = (w', r1)"
    using that pipe_wait_same by (auto simp: pipe_defs)
  show "pipe_in w' = pipe_in w \<and> pipe_out w' = pipe_out w" if "sk_poll_flush pipe_ops w = (w', r1)"
    using that pipe_wait_same by (auto simp: pipe_defs)
  show "pipe_in w' = pipe_in w \<and> pipe_out w' = pipe_out w @ [f]" if "sk_start_send pipe_ops w f = (w', Ok ())"
    using that by (cases w) (auto simp: pipe_defs)
  show "pipe_in w' = pipe_in w \<and> pipe_out w' = pipe_out w" if "sk_start_send pipe_ops w f = (w', Err e)"
    using that by (cases w) (auto simp: pipe_defs)
qed

interpretation std_pipe: secured std_aead std_seal std_open pipe_ops pipe_in pipe_out ..

section \<open>Properties\<close>

lemma prefix_sealed: "prefix fs (sealed s iv ds) \<Longrightarrow> fs = sealed s iv (take (length fs) ds)"
proof (induction ds arbitrary: iv fs)
  case (Cons d ds)
  then show ?case by (cases fs) auto
qed auto

text \<open>
  C5. The encrypted channel is a reliable byte stream. One side writes any buffers into a fresh
  stream and no write reports an error; the other side's socket has received some of the
  frames sent, in order. Then the reader's polls, with buffers of any positive sizes, never
  panic and return bytes that are a prefix of what the writer was told was written; and when
  all frames have arrived and reader has emptied its socket and its buffer, it has got
  exactly those bytes.
\<close>

theorem secure_delivery:
  assumes "aead A seal opn" "framed_socket S inboxS sentS" "framed_socket R inboxR sentR"
    and "length key = key_size t"
    and "new_stream p1 t key Encrypt = Some enc" "new_stream p2 t key Decrypt = Some dec"
    and "write_run A S (secure_stream_new w c1 enc n1) ds = Some (s', rs)" "list_all no_error rs"
    and "sentS w @ frames = sentS (ss_socket s')" "prefix (inboxR v) frames"
    and "list_all ((<) 0) ns"
  shows "\<exists>r' os. read_run A R (secure_stream_new v dec c2 n2) ns = Some (r', os)
    \<and> prefix (concat (map got os)) (concat (accepted ds rs))
    \<and> (inboxR v = frames \<longrightarrow> inboxR (ss_socket r') = [] \<longrightarrow> buf_bytes (ss_recv_buf r') = [] \<longrightarrow>
         concat (map got os) = concat (accepted ds rs))"
proof -
  have S: "secured A seal opn S inboxS sentS" and R: "secured A seal opn R inboxR sentR"
    using assms(1-3) by (simp_all add: secured_def)
  let ?iv = "replicate 12 0" and ?acc = "accepted ds rs"
  have "frames = sealed (seal t key) ?iv ?acc"
    using secured.write_run_sent [OF S _ assms(7,8)] new_stream_sealer [OF assms(5,4)] assms(9)
    by (simp add: secure_stream_new_def)
  with prefix_sealed [of "inboxR v" "seal t key" ?iv ?acc] assms(10) obtain k where
    in_v: "inboxR v = sealed (seal t key) ?iv (take k ?acc)" by blast
  with \<open>frames = _\<close> have all: "take k ?acc = ?acc" if "inboxR v = frames"
    using that by (metis length_sealed length_take linorder_le_cases min.absorb_iff1 min_def take_all)
  let ?r = "secure_stream_new v dec c2 n2" and ?in = "take k ?acc"
  have "secured.awaits seal inboxR t key ?iv ?in ?r"
    using new_stream_opener [OF assms(6,4)] in_v by (simp add: secured.awaits_def [OF R] secure_stream_new_def)
  from secured.read_run_delivers [OF R this assms(11)] obtain r' os iv' ds' where
    run: "read_run A R ?r ns = Some (r', os)" "secured.awaits seal inboxR t key iv' ds' r'"
    and eq: "concat (map got os) @ secured.unread ds' r' = secured.unread ?in ?r" by auto
  have un: "secured.unread ?in ?r = concat ?in" "secured.unread ds' r' = buf_bytes (ss_recv_buf r') @ concat ds'"
    by (auto simp: secured.unread_def [OF R] secure_stream_new_def)
  have "prefix (concat ?in) (concat ?acc)" by (metis append_take_drop_id concat_append prefixI)
  then have "prefix (concat (map got os)) (concat ?acc)"
    using eq un(1) prefixI [OF eq [symmetric]] by (auto intro: prefix_order.trans)
  moreover have "concat (map got os) = concat ?acc"
    if "inboxR v = frames" "inboxR (ss_socket r') = []" "buf_bytes (ss_recv_buf r') = []"
  proof -
    have "ds' = []" using that(2) run(2) by (cases ds') (auto simp: secured.awaits_def [OF R])
    then show ?thesis using eq un all [OF that(1)] that(3) by simp
  qed
  ultimately show ?thesis using run(1) by blast
qed


theorem secure_delivery_witness:
  "\<exists>enc dec s' rs r' os.
     new_stream UnixOssl110 Aes256Gcm (replicate 32 9) Encrypt = Some enc
     \<and> new_stream NonUnix Aes256Gcm (replicate 32 9) Decrypt = Some dec
     \<and> write_run std_aead pipe_ops (secure_stream_new ([], [], 1) dec enc []) [[4], [1, 2], [3]] = Some (s', rs)
     \<and> accepted [[4], [1, 2], [3]] rs = [[1, 2], [3]]
     \<and> read_run std_aead pipe_ops (secure_stream_new (pipe_out (ss_socket s'), [], 1) dec enc []) [1, 2, 5] = Some (r', os)
     \<and> prefix (concat (map got os)) [1, 2, 3]"
proof -
  let ?k = "replicate 32 9 :: byte list" and ?ds = "[[4], [1, 2], [3]] :: byte list list"
  define c where "c = fresh_crypt Aes256Gcm ?k"
  let ?enc = "OpenSsLCrypt c" and ?dec = "RingOpen c"
  have k: "length ?k = key_size Aes256Gcm" by simp
  have e: "new_stream UnixOssl110 Aes256Gcm ?k Encrypt = Some ?enc" "new_stream NonUnix Aes256Gcm ?k Decrypt = Some ?dec"
    by (simp_all add: ring_stream_def ring_new_def c_def)
  let ?s = "secure_stream_new ([], [], 1) ?dec ?enc [] :: duplex secure_stream"
  obtain s' where w: "write_run std_aead pipe_ops ?s ?ds = Some (s', [Pending, Ready (Ok 2), Ready (Ok 1)])"
    by (simp add: secure_poll_write_def pipe_ops_def secure_stream_new_def encode_buffer_def openssl_encrypt_def
        std_aead_def Let_def)
  have "pipe_out (ss_socket s') = pipe_out ([], [], 1) @ pipe_out (ss_socket s')" by (simp add: pipe_out_def)
  with secure_delivery [OF standard.aead_axioms pipe.framed_socket_axioms pipe.framed_socket_axioms k e w, of
      "pipe_out (ss_socket s')" "(pipe_out (ss_socket s'), [], 1)" "[1, 2, 5]" ?enc "[]"]
  obtain r' os where "read_run std_aead pipe_ops (secure_stream_new (pipe_out (ss_socket s'), [], 1) ?dec ?enc []) [1, 2, 5] = Some (r', os)"
     "prefix (concat (map got os)) [1, 2, 3]"
    by (auto simp: pipe_in_def simp del: read_run.simps)
  moreover have "accepted ?ds [Pending, Ready (Ok 2), Ready (Ok 1)] = [[1, 2], [3]]" by simp
  ultimately show ?thesis using e w by blast
qed

text \<open>
  A read into a full buffer is not harmless: it does not drain what is buffered, polls the
  socket, and the next frame replaces the buffered bytes.
\<close>

lemma empty_read_discards:
  assumes "buf_bytes (ss_recv_buf s) \<noteq> []" "sk_poll_next Sk (ss_socket s) = (w, Ready (Some (Ok f)))"
    "stream_decrypt A (ss_decode_cipher s) f = Some (c, Ok d)" "d \<noteq> []"
  shows "\<exists>s'. secure_poll_read A Sk s 0 = Some (s', Ready (Ok [])) \<and> buf_bytes (ss_recv_buf s') = d"
proof -
  have "ss_drain s 0 = (s, [])"
    using assms(1) by (cases "ss_recv_buf s") (auto simp: ss_drain_def Let_def)
  moreover have "ss_drain s2 0 = (s2, [])" for s2 :: "'a secure_stream"
    by (cases "ss_recv_buf s2") (auto simp: ss_drain_def Let_def)
  ultimately show ?thesis using assms by (simp add: secure_poll_read_def decode_buffer_eq)
qed

end
