(* ===== verification/Secio_Handshake.thy ===== *)
theory Secio_Handshake
  imports Handshake_Msg Secio_Stream
begin

text \<open>
  The secio handshake (\<open>handshake/mod.rs\<close>, \<open>handshake_context.rs\<close>, \<open>procedure.rs\<close>) with its key
  agreement (\<open>dh_compat\<close>), message authentication (\<open>hmac_compat\<close>) and hashing (\<open>sha256_compat\<close>)
  wrappers. A party that completes has checked a signature of the remote key over both
  propositions and the remote ephemeral key, and has been sent back its own nonce.
\<close>

section \<open>Cryptographic primitives\<close>

text \<open>
  The primitives of the crates \<open>openssl\<close> and \<open>secp256k1\<close>. Messages, signatures and public keys
  of \<open>secp256k1\<close> are byte arrays; \<open>'e\<close> is an ephemeral private key.
\<close>

record 'e crypto_ops =
  sha256_fn :: "byte list \<Rightarrow> byte list"
  hmac_fn :: "digest \<Rightarrow> byte list \<Rightarrow> byte list \<Rightarrow> byte list"
  secp_public :: "byte list \<Rightarrow> byte list"
  secp_message :: "byte list \<Rightarrow> byte list option"
  secp_sign :: "byte list \<Rightarrow> byte list \<Rightarrow> byte list"
  secp_to_der :: "byte list \<Rightarrow> byte list"
  secp_from_der :: "byte list \<Rightarrow> byte list option"
  secp_pubkey :: "byte list \<Rightarrow> byte list option"
  secp_verify :: "byte list \<Rightarrow> byte list \<Rightarrow> byte list \<Rightarrow> bool"
  dh_public :: "key_agreement \<Rightarrow> 'e \<Rightarrow> byte list"
  dh_derive :: "key_agreement \<Rightarrow> 'e \<Rightarrow> byte list \<Rightarrow> byte list option"

text \<open>\<open>sha256_compat\<close>: a context collects what it is updated with.\<close>

definition sha_new :: "byte list" where
  "sha_new = []"

definition sha_update :: "byte list \<Rightarrow> byte list \<Rightarrow> byte list" where
  "sha_update ctx data = ctx @ data"

definition sha_finish :: "'e crypto_ops \<Rightarrow> byte list \<Rightarrow> byte list" where
  "sha_finish C ctx = sha256_fn C ctx"

text \<open>\<open>hmac_compat\<close>.\<close>

record hmac =
  h_digest :: digest
  h_key :: "byte list"

definition hmac_from_key :: "digest \<Rightarrow> byte list \<Rightarrow> hmac" where
  "hmac_from_key algorithm key = \<lparr>h_digest = algorithm, h_key = key\<rparr>"

definition hmac_sign :: "'e crypto_ops \<Rightarrow> hmac \<Rightarrow> byte list \<Rightarrow> byte list" where
  "hmac_sign C h data = hmac_fn C (h_digest h) (h_key h) data"

definition hmac_verify :: "'e crypto_ops \<Rightarrow> hmac \<Rightarrow> byte list \<Rightarrow> byte list \<Rightarrow> bool" where
  "hmac_verify C h data expected_hash =
     (let n = hmac_sign C h data in if length n \<noteq> length expected_hash then False else n = expected_hash)"

definition hmac_context :: "hmac \<Rightarrow> hmac \<times> byte list" where
  "hmac_context h = (h, [])"

fun hctx_update :: "hmac \<times> byte list \<Rightarrow> byte list \<Rightarrow> hmac \<times> byte list" where
  "hctx_update (h, acc) data = (h, acc @ data)"

fun hctx_sign :: "'e crypto_ops \<Rightarrow> hmac \<times> byte list \<Rightarrow> byte list" where
  "hctx_sign C (h, acc) = hmac_fn C (h_digest h) (h_key h) acc"

text \<open>\<open>dh_compat/openssl_impl.rs\<close>: an ephemeral key remembers its algorithm.\<close>

fun pubkey_len :: "key_agreement \<Rightarrow> nat" where
  "pubkey_len EcdhP256 = 1 + 2 * ((256 + 7) div 8)"
| "pubkey_len EcdhP384 = 1 + 2 * ((384 + 7) div 8)"
| "pubkey_len X25519 = 32"

type_synonym 'e ephemeral = "'e \<times> key_agreement"

text \<open>
  \<open>gen\<close> is what the random generator gives for the algorithm, \<open>None\<close> an error of the crate.
\<close>

definition generate_agreement :: "'e crypto_ops \<Rightarrow> (key_agreement \<Rightarrow> 'e option) \<Rightarrow> key_agreement \<Rightarrow>
    secio_error + 'e ephemeral \<times> byte list" where
  "generate_agreement C gen algorithm =
     (case gen algorithm of
        None \<Rightarrow> Err Openssl
      | Some evp_key \<Rightarrow> Ok ((evp_key, algorithm), dh_public C algorithm evp_key))"

definition agree :: "'e crypto_ops \<Rightarrow> 'e ephemeral \<Rightarrow> byte list \<Rightarrow> secio_error + byte list" where
  "agree C my_private_key other_public_key =
     (let (evp_key, al) = my_private_key in
      if length other_public_key \<noteq> pubkey_len al then Err SecretGenerationFailed
      else ok_or Openssl (dh_derive C al evp_key other_public_key))"

section \<open>Stretching the key\<close>

definition SEED :: "byte list" where
  "SEED = lit ''key expansion''"

partial_function (option) stretch_loop :: "'e crypto_ops \<Rightarrow> hmac \<Rightarrow> byte list \<Rightarrow> nat \<Rightarrow> byte list \<Rightarrow> byte list option" where
  "stretch_loop C h a j result =
     (if j < length result then
        (let b = hctx_sign C (hctx_update (hctx_update (hmac_context h) a) SEED);
             todo = min (length b) (length result - j)
         in stretch_loop C h (hctx_sign C (hctx_update (hmac_context h) a)) (j + todo)
              (take j result @ take todo b @ drop (j + todo) result))
      else Some result)"

definition stretch_key :: "'e crypto_ops \<Rightarrow> hmac \<Rightarrow> byte list \<Rightarrow> byte list option" where
  "stretch_key C h result = stretch_loop C h (hctx_sign C (hctx_update (hmac_context h) SEED)) 0 result"

section \<open>Configuration\<close>

definition MAX_FRAME_SIZE :: nat where
  "MAX_FRAME_SIZE = 1024 * 1024 * 8"

record secio_config =
  sc_key :: "byte list"
  agreements_proposal :: "str option"
  ciphers_proposal :: "str option"
  digests_proposal :: "str option"
  sc_max_frame_length :: nat

definition secio_config_new :: "byte list \<Rightarrow> secio_config" where
  "secio_config_new key_pair =
     \<lparr>sc_key = key_pair, agreements_proposal = None, ciphers_proposal = None, digests_proposal = None,
      sc_max_frame_length = MAX_FRAME_SIZE\<rparr>"

definition with_key_agreements :: "key_agreement list \<Rightarrow> secio_config \<Rightarrow> secio_config" where
  "with_key_agreements xs cfg = cfg\<lparr>agreements_proposal := Some (key_agreements_proposition xs)\<rparr>"

definition with_ciphers :: "cipher_type list \<Rightarrow> secio_config \<Rightarrow> secio_config" where
  "with_ciphers xs cfg = cfg\<lparr>ciphers_proposal := Some (ciphers_proposition xs)\<rparr>"

definition with_digests :: "digest list \<Rightarrow> secio_config \<Rightarrow> secio_config" where
  "with_digests xs cfg = cfg\<lparr>digests_proposal := Some (digests_proposition xs)\<rparr>"

definition agreements_of :: "secio_config \<Rightarrow> str" where
  "agreements_of cfg = (case agreements_proposal cfg of Some s \<Rightarrow> s | None \<Rightarrow> DEFAULT_AGREEMENTS_PROPOSITION)"

definition ciphers_of :: "secio_config \<Rightarrow> str" where
  "ciphers_of cfg = (case ciphers_proposal cfg of Some s \<Rightarrow> s | None \<Rightarrow> DEFAULT_CIPHERS_PROPOSITION)"

definition digests_of :: "secio_config \<Rightarrow> str" where
  "digests_of cfg = (case digests_proposal cfg of Some s \<Rightarrow> s | None \<Rightarrow> DEFAULT_DIGESTS_PROPOSITION)"

definition key_pair_public :: "'e crypto_ops \<Rightarrow> byte list \<Rightarrow> public_key" where
  "key_pair_public C private = Secp256k1 (secp_public C private)"

section \<open>Handshake contexts\<close>

record local_context =
  lc_nonce :: "byte list"
  lc_public_key :: "byte list"
  lc_proposition_bytes :: "byte list"

record remote_context =
  rc_local :: local_context
  rc_proposition_bytes :: "byte list"
  rc_public_key :: public_key
  rc_nonce :: "byte list"
  rc_hashes_ordering :: ordering
  rc_chosen_exchange :: key_agreement
  rc_chosen_cipher :: cipher_type
  rc_chosen_hash :: digest

definition local_proposition :: "mol_ops \<Rightarrow> 'e crypto_ops \<Rightarrow> secio_config \<Rightarrow> byte list \<Rightarrow> propose" where
  "local_proposition P C cfg nonce =
     \<lparr>p_rand = nonce, p_pubkey = pubkey_encode P (key_pair_public C (sc_key cfg)),
      p_exchange = agreements_of cfg, p_ciphers = ciphers_of cfg, p_hashes = digests_of cfg\<rparr>"

definition with_local :: "mol_ops \<Rightarrow> 'e crypto_ops \<Rightarrow> secio_config \<Rightarrow> byte list \<Rightarrow> local_context" where
  "with_local P C cfg nonce =
     \<lparr>lc_nonce = nonce, lc_public_key = pk_inner (key_pair_public C (sc_key cfg)),
      lc_proposition_bytes = propose_encode P (local_proposition P C cfg nonce)\<rparr>"

definition hashes_ordering :: "'e crypto_ops \<Rightarrow> local_context \<Rightarrow> public_key \<Rightarrow> byte list \<Rightarrow> ordering" where
  "hashes_ordering C lc public_key nonce =
     (let oh1 = sha_finish C (sha_update (sha_update sha_new (pk_inner public_key)) (lc_nonce lc));
          oh2 = sha_finish C (sha_update (sha_update sha_new (lc_public_key lc)) nonce)
      in slice_cmp oh1 oh2)"

text \<open>The outer \<open>None\<close> is a panic of a decoder.\<close>

definition with_remote :: "mol_ops \<Rightarrow> 'e crypto_ops \<Rightarrow> secio_config \<Rightarrow> local_context \<Rightarrow> byte list \<Rightarrow>
    (secio_error + remote_context) option" where
  "with_remote P C cfg lc remote_bytes =
     (case propose_decode P remote_bytes of
        None \<Rightarrow> None
      | Some None \<Rightarrow> Some (Err HandshakeParsingFailure)
      | Some (Some propose) \<Rightarrow>
     (case pubkey_decode P (p_pubkey propose) of
        None \<Rightarrow> None
      | Some None \<Rightarrow> Some (Err HandshakeParsingFailure)
      | Some (Some public_key) \<Rightarrow>
          if pk_inner public_key = lc_public_key lc then Some (Err ConnectSelf)
          else
            (let r = hashes_ordering C lc public_key (p_rand propose) in Some (
             and_then (select_agreement r (agreements_of cfg) (p_exchange propose)) (\<lambda>chosen_exchange.
             and_then (select_cipher r (ciphers_of cfg) (p_ciphers propose)) (\<lambda>chosen_cipher.
             and_then (select_digest r (digests_of cfg) (p_hashes propose)) (\<lambda>chosen_hash.
               Ok \<lparr>rc_local = lc, rc_proposition_bytes = remote_bytes, rc_public_key = public_key,
                   rc_nonce = p_rand propose, rc_hashes_ordering = r, rc_chosen_exchange = chosen_exchange,
                   rc_chosen_cipher = chosen_cipher, rc_chosen_hash = chosen_hash\<rparr>)))))))"


section \<open>The procedure\<close>

definition local_exchange :: "mol_ops \<Rightarrow> 'e crypto_ops \<Rightarrow> secio_config \<Rightarrow> remote_context \<Rightarrow> byte list \<Rightarrow>
    secio_error + byte list" where
  "local_exchange P C cfg rc tmp_pub_key =
     (let data_to_sign = lc_proposition_bytes (rc_local rc) @ rc_proposition_bytes rc @ tmp_pub_key in
      case secp_message C (sha256_fn C data_to_sign) of
        None \<Rightarrow> Err InvalidMessage
      | Some message \<Rightarrow>
          Ok (exchange_encode P
                \<lparr>e_epubkey = tmp_pub_key, e_signature = secp_to_der C (secp_sign C message (sc_key cfg))\<rparr>))"

definition verify_exchange :: "'e crypto_ops \<Rightarrow> remote_context \<Rightarrow> exchange \<Rightarrow> secio_error + unit" where
  "verify_exchange C rc ex =
     (let data_to_verify = rc_proposition_bytes rc @ lc_proposition_bytes (rc_local rc) @ e_epubkey ex in
      case secp_message C (sha256_fn C data_to_verify) of
        None \<Rightarrow> Err InvalidMessage
      | Some message \<Rightarrow>
          (case (secp_from_der C (e_signature ex), secp_pubkey C (pk_inner (rc_public_key rc))) of
             (Some signature, Some remote_public_key) \<Rightarrow>
               if secp_verify C message signature remote_public_key then Ok () else Err SignatureVerificationFailed
           | _ \<Rightarrow> Err SignatureVerificationFailed))"

text \<open>\<open>split_at\<close> panics past the end.\<close>

definition generate_stream_cipher_and_hmac :: "platform \<Rightarrow> cipher_type \<Rightarrow> crypto_mode \<Rightarrow> byte list \<Rightarrow> nat \<Rightarrow> nat \<Rightarrow>
    stream_cipher option" where
  "generate_stream_cipher_and_hmac pf t mode info key_sz iv_sz =
     (if iv_sz \<le> length info \<and> key_sz \<le> length (drop iv_sz info)
      then new_stream pf t (take key_sz (drop iv_sz info)) mode else None)"

definition split_infos :: "ordering \<Rightarrow> byte list \<Rightarrow> secio_error + byte list \<times> byte list" where
  "split_infos r longer_key =
     (let first_half = take (length longer_key div 2) longer_key; second_half = drop (length longer_key div 2) longer_key in
      case r of
        Equal \<Rightarrow> Err (InvalidProposition (lit ''equal digest of public key and nonce for local and remote''))
      | Less \<Rightarrow> Ok (second_half, first_half)
      | Greater \<Rightarrow> Ok (first_half, second_half))"

definition derive_ciphers :: "platform \<Rightarrow> 'e crypto_ops \<Rightarrow> remote_context \<Rightarrow> 'e ephemeral \<Rightarrow> byte list \<Rightarrow>
    (secio_error + stream_cipher \<times> stream_cipher) option" where
  "derive_ciphers pf C rc local_priv_key epubkey =
     (case agree C local_priv_key epubkey of
        Inl e \<Rightarrow> Some (Err e)
      | Inr key_material \<Rightarrow>
          (let chosen_cipher = rc_chosen_cipher rc; cipher_key_size = key_size chosen_cipher;
               iv_sz = iv_size chosen_cipher; key = hmac_from_key (rc_chosen_hash rc) key_material
           in Option.bind (stretch_key C key (replicate (2 * (iv_sz + cipher_key_size + 20)) 0)) (\<lambda>longer_key.
              case split_infos (rc_hashes_ordering rc) longer_key of
                Inl e \<Rightarrow> Some (Err e)
              | Inr (local_infos, remote_infos) \<Rightarrow>
                  Option.bind (generate_stream_cipher_and_hmac pf chosen_cipher Encrypt local_infos cipher_key_size iv_sz) (\<lambda>encode_cipher.
                  Option.bind (generate_stream_cipher_and_hmac pf chosen_cipher Decrypt remote_infos cipher_key_size iv_sz) (\<lambda>decode_cipher.
                    Some (Ok (encode_cipher, decode_cipher)))))))"

text \<open>
  \<open>SinkExt::send\<close> and \<open>StreamExt::next\<close> on the framed socket. The errors of the socket
  become \<open>IoError\<close>, its end an \<open>UnexpectedEof\<close>.
\<close>

definition io_result :: "('s \<times> (io_error + 'a)) option \<Rightarrow> ('s \<times> (secio_error + 'a)) option" where
  "io_result r = map_option (apsnd (map_err IoError)) r"

definition socket_send :: "'w socket_ops \<Rightarrow> byte list \<Rightarrow> ('w, secio_error, unit) fallible" where
  "socket_send Sk item =
     act_bind (\<lambda>w. io_result (await (sk_poll_ready Sk) w)) (\<lambda>_.
     act_bind (\<lambda>w. io_result (Some (sk_start_send Sk w item))) (\<lambda>_.
       (\<lambda>w. io_result (await (sk_poll_flush Sk) w))))"

definition socket_next :: "'w socket_ops \<Rightarrow> ('w, secio_error, byte list) fallible" where
  "socket_next Sk w =
     (case await (sk_poll_next Sk) w of
        None \<Rightarrow> None
      | Some (w', None) \<Rightarrow> Some (w', Err (IoError UnexpectedEof))
      | Some (w', Some r) \<Rightarrow> Some (w', map_err IoError r))"

definition act_lift :: "('e + 'a) option \<Rightarrow> ('s, 'e, 'a) fallible" where
  "act_lift r s = map_option (Pair s) r"

text \<open>Our proposition goes out, the remote's comes in.\<close>

definition exchange_propositions :: "mol_ops \<Rightarrow> 'e crypto_ops \<Rightarrow> 'w socket_ops \<Rightarrow> secio_config \<Rightarrow> byte list \<Rightarrow>
    ('w, secio_error, remote_context) fallible" where
  "exchange_propositions P C Sk cfg nonce =
     (let local = with_local P C cfg nonce in
      act_bind (socket_send Sk (lc_proposition_bytes local)) (\<lambda>_.
      act_bind (socket_next Sk) (\<lambda>p.
        act_lift (with_remote P C cfg local p))))"

text \<open>The signed ephemeral keys are exchanged, and the remote's is checked.\<close>

definition exchange_keys :: "mol_ops \<Rightarrow> 'e crypto_ops \<Rightarrow> 'w socket_ops \<Rightarrow> secio_config \<Rightarrow> (key_agreement \<Rightarrow> 'e option) \<Rightarrow>
    remote_context \<Rightarrow> ('w, secio_error, 'e ephemeral \<times> byte list \<times> exchange) fallible" where
  "exchange_keys P C Sk cfg gen rc =
     act_bind (act_lift (Some (generate_agreement C gen (rc_chosen_exchange rc)))) (\<lambda>(tmp_priv_key, tmp_pub_key).
     act_bind (act_lift (Some (local_exchange P C cfg rc tmp_pub_key))) (\<lambda>local_exchanges.
     act_bind (socket_send Sk local_exchanges) (\<lambda>_.
     act_bind (socket_next Sk) (\<lambda>raw_exchanges.
     act_bind (act_lift (map_option (ok_or HandshakeParsingFailure) (exchange_decode P raw_exchanges))) (\<lambda>remote_exchanges.
     act_bind (act_lift (Some (verify_exchange C rc remote_exchanges))) (\<lambda>_.
       act_return (tmp_priv_key, tmp_pub_key, remote_exchanges)))))))"

text \<open>The remote's nonce is sent back encrypted and ours is awaited.\<close>

definition check_nonces :: "aead_ops \<Rightarrow> 'w socket_ops \<Rightarrow> byte list \<Rightarrow> ('w secure_stream, secio_error, unit) fallible" where
  "check_nonces A Sk nonce =
     act_bind (\<lambda>st. io_result (write_all A Sk nonce st)) (\<lambda>_.
     act_bind (\<lambda>st. io_result (secure_flush Sk st)) (\<lambda>_.
       verify_nonce A Sk))"

text \<open>
  The handshake on a socket framed with the configured maximum. \<open>nonce\<close> and \<open>gen\<close> are the
  random choices.
\<close>

definition handshake :: "platform \<Rightarrow> aead_ops \<Rightarrow> mol_ops \<Rightarrow> 'e crypto_ops \<Rightarrow> (nat \<Rightarrow> 'w socket_ops) \<Rightarrow> secio_config \<Rightarrow>
    byte list \<Rightarrow> (key_agreement \<Rightarrow> 'e option) \<Rightarrow> 'w \<Rightarrow>
    (secio_error + 'w secure_stream \<times> public_key \<times> byte list) option" where
  "handshake pf A P C framed cfg nonce gen w0 =
     (let Sk = framed (sc_max_frame_length cfg) in
      case act_bind (exchange_propositions P C Sk cfg nonce) (\<lambda>rc.
           act_bind (exchange_keys P C Sk cfg gen rc) (\<lambda>(tmp_priv_key, tmp_pub_key, remote_exchanges).
           act_bind (act_lift (derive_ciphers pf C rc tmp_priv_key (e_epubkey remote_exchanges))) (\<lambda>ciphers.
             act_return (rc, tmp_pub_key, ciphers)))) w0 of
        None \<Rightarrow> None
      | Some (w, Inl e) \<Rightarrow> Some (Err e)
      | Some (w, Inr (rc, tmp_pub_key, encode_cipher, decode_cipher)) \<Rightarrow>
          (case check_nonces A Sk (rc_nonce rc)
                  (secure_stream_new w decode_cipher encode_cipher (lc_nonce (rc_local rc))) of
             None \<Rightarrow> None
           | Some (st, Inl e) \<Rightarrow> Some (Err e)
           | Some (st, Inr _) \<Rightarrow> Some (Ok (st, rc_public_key rc, tmp_pub_key))))"


section \<open>Sample primitives\<close>

text \<open>
  Primitives of the right shape to evaluate the handshake with: a key agreement modulo 251,
  and stand-ins of the right lengths for hashes and signatures.
\<close>

definition sample_crypto :: "nat crypto_ops" where
  "sample_crypto =
     \<lparr>sha256_fn = (\<lambda>x. take 32 (x @ replicate 32 0)),
      hmac_fn = (\<lambda>d k x. take (num_bytes d) (k @ x @ replicate 64 0)),
      secp_public = (\<lambda>sk. take 33 (sk @ replicate 33 0)),
      secp_message = (\<lambda>x. if length x = 32 then Some x else None),
      secp_sign = (\<lambda>m sk. take 32 m @ take 33 (sk @ replicate 33 0)),
      secp_to_der = take 72, secp_from_der = Some,
      secp_pubkey = (\<lambda>k. if length k = 33 then Some k else None),
      secp_verify = (\<lambda>m s k. s = m @ k),
      dh_public = (\<lambda>al k. nat_le (pubkey_len al) (3 ^ k mod 251)),
      dh_derive = (\<lambda>al k p. Some [of_nat (le_nat p ^ k mod 251)])\<rparr>"

lemma sample_hmac_length: "length (hmac_fn sample_crypto d k x) = num_bytes d"
  by (cases d) (simp_all add: sample_crypto_def)

section \<open>Key stretching terminates\<close>

text \<open>
  The specification is \<open>P_hash\<close> of RFC 5246: the chain \<open>A\<^sub>1 = HMAC(seed)\<close>,
  \<open>A\<^sub>i\<^sub>+\<^sub>1 = HMAC(A\<^sub>i)\<close> and the concatenated blocks \<open>HMAC(A\<^sub>i + seed)\<close>.
\<close>

definition hmac_chain :: "'e crypto_ops \<Rightarrow> hmac \<Rightarrow> byte list \<Rightarrow> nat \<Rightarrow> byte list" where
  "hmac_chain C h a i = hmac_sign C h ((hmac_sign C h ^^ i) a @ SEED)"

definition p_hash :: "'e crypto_ops \<Rightarrow> hmac \<Rightarrow> byte list \<Rightarrow> nat \<Rightarrow> byte list" where
  "p_hash C h a n = take n (concat (map (hmac_chain C h a) [0..<n]))"

lemma length_blocks:
  assumes "\<And>i. 0 < length (g i)"
  shows "n \<le> length (concat (map g [0..<n]))"
proof (induction n)
  case (Suc n)
  then show ?case using assms [of n] by (simp del: length_greater_0_conv)
qed simp

lemma take_concat_blocks:
  assumes "\<And>i. 0 < length (g i)" "n \<le> m"
  shows "take n (concat (map g [0..<m])) = take n (concat (map g [0..<n]))"
proof -
  have "n \<le> length (concat (map g [0..<n]))" by (rule length_blocks [OF assms(1)])
  moreover have "[0..<m] = [0..<n] @ [n..<m]" using upt_add_eq_append [of 0 n "m - n"] assms(2) by simp
  ultimately show ?thesis by simp
qed

lemma hmac_chain_Suc: "hmac_chain C h a (Suc i) = hmac_chain C h (hmac_sign C h a) i"
  by (simp add: hmac_chain_def funpow_swap1)

lemma p_hash_step:
  assumes "\<And>i. length (hmac_chain C h a i) = L" "0 < L" "L \<le> n"
    "\<And>i. 0 < length (hmac_chain C h (hmac_sign C h a) i)"
  shows "p_hash C h a n = hmac_chain C h a 0 @ p_hash C h (hmac_sign C h a) (n - L)"
proof -
  obtain m where n: "n = Suc m" using assms(2,3) by (cases n) auto
  have "[0..<n] = 0 # map Suc [0..<m]" by (simp add: n upt_conv_Cons map_Suc_upt del: upt_Suc)
  then have "p_hash C h a n = hmac_chain C h a 0 @ take (n - L) (concat (map (hmac_chain C h (hmac_sign C h a)) [0..<m]))"
    using assms(1,3) by (simp add: p_hash_def hmac_chain_Suc comp_def)
  also have "take (n - L) (concat (map (hmac_chain C h (hmac_sign C h a)) [0..<m])) = p_hash C h (hmac_sign C h a) (n - L)"
    unfolding p_hash_def using assms(2-4) n by (intro take_concat_blocks) auto
  finally show ?thesis .
qed

lemma length_p_hash:
  assumes "\<And>i. 0 < length (hmac_chain C h a i)"
  shows "length (p_hash C h a n) = n"
  using length_blocks [OF assms, of n] by (simp add: p_hash_def)

lemma stretch_loop_returns:
  assumes "\<And>x. length (hmac_sign C h x) = L" "0 < L" "j \<le> length result"
  shows "stretch_loop C h a j result = Some (take j result @ p_hash C h a (length result - j))"
  using assms(3)
proof (induction "length result - j" arbitrary: j a result rule: less_induct)
  case less
  let ?b = "hmac_sign C h (a @ SEED)" and ?n = "length result - j"
  let ?todo = "min L ?n" and ?a' = "hmac_sign C h a"
  have len: "length (hmac_chain C h x i) = L" for x i by (simp add: hmac_chain_def assms(1))
  show ?case
  proof (cases "j < length result")
    case True
    let ?r = "take j result @ take ?todo ?b @ drop (j + ?todo) result"
    have r: "length ?r = length result" "take (j + ?todo) ?r = take j result @ take ?todo ?b"
      using True assms(1) by auto
    have step: "stretch_loop C h a j result = stretch_loop C h ?a' (j + ?todo) ?r"
      by (subst stretch_loop.simps) (simp add: True hmac_context_def hmac_sign_def [symmetric] assms(1) Let_def)
    have call: "stretch_loop C h ?a' (j + ?todo) ?r = Some (take (j + ?todo) ?r @ p_hash C h ?a' (length ?r - (j + ?todo)))"
      by (rule less.hyps; unfold r(1)) (use True assms(2) in auto)
    have ph: "p_hash C h a ?n = take ?todo ?b @ p_hash C h ?a' (?n - ?todo)"
    proof (cases "L \<le> ?n")
      case le: True
      then show ?thesis using p_hash_step [of C h a L ?n] len assms(1,2) by (simp add: hmac_chain_def)
    next
      case False
      then have "p_hash C h a ?n = take ?n ?b"
        using True len [of a 0] by (simp add: p_hash_def hmac_chain_def upt_conv_Cons)
      with False show ?thesis by (simp add: p_hash_def)
    qed
    show ?thesis unfolding step call r ph by simp
  next
    case False
    then show ?thesis using less.prems by (subst stretch_loop.simps) (simp add: p_hash_def)
  qed
qed

lemma stretch_key_returns:
  assumes "\<And>d k x. length (hmac_fn C d k x) = num_bytes d"
  shows "stretch_key C h result = Some (p_hash C h (hmac_sign C h SEED) (length result))
    \<and> length (p_hash C h (hmac_sign C h SEED) n) = n"
proof -
  have len: "length (hmac_sign C h x) = num_bytes (h_digest h)" "0 < num_bytes (h_digest h)" for x
    using assms by (cases "h_digest h"; simp add: hmac_sign_def)+
  have "0 < length (hmac_chain C h x i)" for x i using len by (simp add: hmac_chain_def)
  moreover have "stretch_key C h result = Some (p_hash C h (hmac_sign C h SEED) (length result))"
    using stretch_loop_returns [OF len, of 0 result "hmac_sign C h SEED"]
    by (simp add: stretch_key_def hmac_context_def hmac_sign_def)
  ultimately show ?thesis by (simp add: length_p_hash)
qed

text \<open>
  C37. The key stretching loop terminates and computes \<open>P_hash\<close>. For a message authentication
  code whose tags have the digest's length, \<open>stretch_key\<close> returns for every key and every
  buffer, and overwrites the whole buffer with the first bytes of the keyed stream.
\<close>

theorem stretch_key_terminates:
  assumes "\<And>d k x. length (hmac_fn C d k x) = num_bytes d"
  shows "\<exists>out. stretch_key C h result = Some out \<and> length out = length result
    \<and> out = p_hash C h (hmac_sign C h SEED) (length result)"
  using stretch_key_returns [OF assms, of h result "length result"] by simp

theorem stretch_key_terminates_witness:
  "\<exists>out. stretch_key sample_crypto (hmac_from_key Sha512 [1, 2]) (replicate 96 0) = Some out \<and> length out = 96"
  using stretch_key_terminates [OF sample_hmac_length, of "hmac_from_key Sha512 [1, 2]" "replicate 96 0"]
  by (metis length_replicate)

section \<open>What a completed handshake has checked\<close>

lemma act_lift_eq: "act_lift r s = Some (s', x) \<longleftrightarrow> s' = s \<and> r = Some x"
  by (auto simp: act_lift_def)

lemma with_remote_Ok:
  assumes "with_remote P C cfg lc bytes = Some (Ok rc)"
  shows "rc_local rc = lc \<and> rc_proposition_bytes rc = bytes \<and> pk_inner (rc_public_key rc) \<noteq> lc_public_key lc
    \<and> (\<exists>p. propose_decode P bytes = Some (Some p) \<and> pubkey_decode P (p_pubkey p) = Some (Some (rc_public_key rc))
         \<and> rc_nonce rc = p_rand p
         \<and> rc_hashes_ordering rc = hashes_ordering C lc (rc_public_key rc) (p_rand p)
         \<and> select_agreement (rc_hashes_ordering rc) (agreements_of cfg) (p_exchange p) = Ok (rc_chosen_exchange rc)
         \<and> select_cipher (rc_hashes_ordering rc) (ciphers_of cfg) (p_ciphers p) = Ok (rc_chosen_cipher rc)
         \<and> select_digest (rc_hashes_ordering rc) (digests_of cfg) (p_hashes p) = Ok (rc_chosen_hash rc))"
  using assms
  by (auto simp: with_remote_def Let_def and_then_eq_Inr split: option.splits if_splits)

lemma verify_exchange_Ok:
  "verify_exchange C rc ex = Ok () \<longleftrightarrow>
     (\<exists>m sig key. secp_message C (sha256_fn C (rc_proposition_bytes rc @ lc_proposition_bytes (rc_local rc) @ e_epubkey ex)) = Some m
        \<and> secp_from_der C (e_signature ex) = Some sig \<and> secp_pubkey C (pk_inner (rc_public_key rc)) = Some key
        \<and> secp_verify C m sig key)"
  by (auto simp: verify_exchange_def Let_def split: option.splits if_splits)

lemma derive_ciphers_Ok:
  "derive_ciphers pf C rc k epub = Some (Ok cs) \<Longrightarrow> rc_hashes_ordering rc \<noteq> Equal"
  by (cases "rc_hashes_ordering rc")
    (auto simp: derive_ciphers_def split_infos_def Let_def bind_eq_Some_conv split: sum.splits)

lemma exchange_keys_Ok:
  assumes "exchange_keys P C Sk cfg gen rc w = Some (w', Ok (priv, pub, ex))"
  shows "verify_exchange C rc ex = Ok () \<and>
    (\<exists>raw w1 w2. socket_next Sk w1 = Some (w2, Ok raw) \<and> exchange_decode P raw = Some (Some ex))"
  using assms
  by (auto simp: exchange_keys_def act_bind_eq_Some act_lift_eq split: prod.splits)

lemma ss_drain_bounds:
  "ss_drain s n = (s', out) \<Longrightarrow> ss_nonce s' = ss_nonce s \<and> length out \<le> n"
  using ss_drain_eq [of s n] by auto

lemma poll_read_bounds:
  assumes "secure_poll_read A Sk s n = Some (s', r)"
  shows "ss_nonce s' = ss_nonce s \<and> length (got r) \<le> n"
proof -
  obtain s1 out where d: "ss_drain s n = (s1, out)" by (cases "ss_drain s n")
  obtain w q where nx: "sk_poll_next Sk (ss_socket s1) = (w, q)" by (cases "sk_poll_next Sk (ss_socket s1)")
  have dec: "ss_nonce s2 = ss_nonce t" if "decode_buffer A t f = Some (s2, x)" for t f s2 x
    using that by (auto simp: decode_buffer_eq)
  show ?thesis using assms d ss_drain_bounds [OF d] nx
    by (auto simp: secure_poll_read_def dest!: dec ss_drain_bounds
        split: if_splits poll.splits option.splits sum.splits prod.splits)
qed

lemma read_exact_Ok:
  assumes "read_exact A Sk n acc s = Some (s', Ok bs)"
  shows "length bs = length acc + n \<and> ss_nonce s' = ss_nonce s"
proof -
  have "(\<forall>bs. snd x = Ok bs \<longrightarrow> length bs = length acc + n \<and> ss_nonce (fst x) = ss_nonce s)"
    if "read_exact A Sk n acc s = Some x" for x
  proof (rule read_exact.raw_induct
      [where P = "\<lambda>A Sk n acc s x. \<forall>bs. snd x = Ok bs \<longrightarrow> length bs = length acc + n \<and> ss_nonce (fst x) = ss_nonce s",
        OF _ that], goal_cases)
    case (1 rec A Sk n acc s x)
    from 1(2) show ?case
      by (auto split: if_splits option.splits prod.splits poll.splits sum.splits
          dest!: 1(1) poll_read_bounds)
  qed
  from this [OF assms] show ?thesis by simp
qed

lemma verify_nonce_Ok:
  assumes "verify_nonce A Sk s = Some (s', Ok ())" "ss_nonce s \<noteq> []"
  shows "\<exists>s1. read_exact A Sk (length (ss_nonce s)) [] s = Some (s1, Ok (ss_nonce s))"
proof -
  from assms obtain s1 bs where r: "read_exact A Sk (length (ss_nonce s)) [] s = Some (s1, Ok bs)"
    "take (min (length bs) (length (ss_nonce s1))) bs = take (min (length bs) (length (ss_nonce s1))) (ss_nonce s1)"
    by (auto simp: verify_nonce_def Let_def split: option.splits sum.splits if_splits)
  from read_exact_Ok [OF r(1)] r(2) have "bs = ss_nonce s" by simp
  with r(1) show ?thesis by auto
qed


text \<open>Writing and flushing do not touch the reading side.\<close>

definition read_side :: "'w secure_stream \<Rightarrow> stream_cipher \<times> byte list \<times> recv_buf" where
  "read_side s = (ss_decode_cipher s, ss_nonce s, ss_recv_buf s)"

lemma poll_write_read_side: "secure_poll_write A Sk s buf = Some (s', r) \<Longrightarrow> read_side s' = read_side s"
  by (auto simp: secure_poll_write_def encode_buffer_def read_side_def
      split: prod.splits poll.splits sum.splits option.splits)

lemma write_all_read_side:
  assumes "write_all A Sk buf s = Some (s', r)"
  shows "read_side s' = read_side s"
proof -
  have "read_side (fst x) = read_side s" if "write_all A Sk buf s = Some x" for x
  proof (rule write_all.raw_induct [where P = "\<lambda>A Sk buf s x. read_side (fst x) = read_side s", OF _ that], goal_cases)
    case (1 rec A Sk buf s x)
    from 1(2) show ?case
      by (auto split: if_splits option.splits prod.splits poll.splits sum.splits dest!: 1(1) poll_write_read_side)
  qed
  from this [OF assms] show ?thesis by simp
qed

lemma secure_flush_read_side: "secure_flush Sk s = Some (s', r) \<Longrightarrow> read_side s' = read_side s"
  unfolding secure_flush_def
  by (erule await_keeps) (auto simp: secure_poll_flush_def read_side_def apfst_def map_prod_def split: prod.splits)

lemma io_result_eq: "io_result r = Some (s, Ok a) \<longleftrightarrow> r = Some (s, Ok a)"
  by (auto simp: io_result_def)

lemma check_nonces_Ok:
  assumes "check_nonces A Sk rn s = Some (s', Ok ())" "ss_nonce s \<noteq> []"
  shows "\<exists>s1 s2. ss_decode_cipher s1 = ss_decode_cipher s \<and> ss_recv_buf s1 = ss_recv_buf s
    \<and> read_exact A Sk (length (ss_nonce s)) [] s1 = Some (s2, Ok (ss_nonce s))"
proof -
  from assms(1) obtain s0 s1 where w: "write_all A Sk rn s = Some (s0, Ok ())" and f: "secure_flush Sk s0 = Some (s1, Ok ())"
    and v: "verify_nonce A Sk s1 = Some (s', Ok ())"
    by (auto simp: check_nonces_def act_bind_eq_Some io_result_eq)
  from write_all_read_side [OF w] secure_flush_read_side [OF f] have "read_side s1 = read_side s" by simp
  then show ?thesis using verify_nonce_Ok [OF v] assms(2) by (auto simp: read_side_def)
qed

text \<open>
  C6. A completed handshake is authenticated. When \<open>handshake\<close> returns a stream for a remote
  public key, then a frame of the socket decoded to the remote's proposition naming that key,
  the key is not our own, another frame decoded to an exchange whose signature verifies under
  that key for the hash of the remote's proposition, our own proposition and the remote's
  ephemeral key, the two hashes that order the parties differ, the reading cipher is the one
  derived from that ephemeral key, and through it exactly our own nonce was read back.
\<close>

theorem handshake_authenticates:
  assumes "handshake pf A P C framed cfg nonce gen w0 = Some (Ok (st, pk, epk))" "nonce \<noteq> []"
  shows "\<exists>rp prps raw ex m sig key rc priv enc dec s1 s2 w1 w2 w3 w4.
    socket_next (framed (sc_max_frame_length cfg)) w1 = Some (w2, Ok rp)
    \<and> propose_decode P rp = Some (Some prps) \<and> pubkey_decode P (p_pubkey prps) = Some (Some pk)
    \<and> pk \<noteq> key_pair_public C (sc_key cfg)
    \<and> socket_next (framed (sc_max_frame_length cfg)) w3 = Some (w4, Ok raw) \<and> exchange_decode P raw = Some (Some ex)
    \<and> secp_message C (sha256_fn C (rp @ lc_proposition_bytes (with_local P C cfg nonce) @ e_epubkey ex)) = Some m
    \<and> secp_from_der C (e_signature ex) = Some sig \<and> secp_pubkey C (pk_inner pk) = Some key \<and> secp_verify C m sig key
    \<and> hashes_ordering C (with_local P C cfg nonce) pk (p_rand prps) \<noteq> Equal
    \<and> with_remote P C cfg (with_local P C cfg nonce) rp = Some (Ok rc)
    \<and> derive_ciphers pf C rc priv (e_epubkey ex) = Some (Ok (enc, dec))
    \<and> ss_decode_cipher s1 = dec \<and> buf_bytes (ss_recv_buf s1) = []
    \<and> read_exact A (framed (sc_max_frame_length cfg)) (length nonce) [] s1 = Some (s2, Ok nonce)"
proof -
  let ?Sk = "framed (sc_max_frame_length cfg)" and ?lc = "with_local P C cfg nonce"
  from assms(1) obtain rc priv ex enc dec w w' w'' where
    n: "exchange_propositions P C ?Sk cfg nonce w0 = Some (w, Ok rc)"
    and k: "exchange_keys P C ?Sk cfg gen rc w = Some (w', Ok (priv, epk, ex))"
    and d: "derive_ciphers pf C rc priv (e_epubkey ex) = Some (Ok (enc, dec))"
    and c: "check_nonces A ?Sk (rc_nonce rc) (secure_stream_new w'' dec enc (lc_nonce (rc_local rc))) = Some (st, Ok ())"
    and pk: "pk = rc_public_key rc"
    by (auto simp: handshake_def Let_def act_bind_eq_Some act_lift_eq split: option.splits prod.splits sum.splits)
  from n obtain rp w1 w2 where r: "socket_next ?Sk w1 = Some (w2, Ok rp)" "with_remote P C cfg ?lc rp = Some (Ok rc)"
    by (auto simp: exchange_propositions_def Let_def act_bind_eq_Some act_lift_eq)
  note wr = with_remote_Ok [OF r(2)]
  from exchange_keys_Ok [OF k] obtain raw w3 w4 where
    x: "verify_exchange C rc ex = Ok ()" "socket_next ?Sk w3 = Some (w4, Ok raw)" "exchange_decode P raw = Some (Some ex)" by auto
  from x(1) wr obtain m sig key where v:
    "secp_message C (sha256_fn C (rp @ lc_proposition_bytes ?lc @ e_epubkey ex)) = Some m"
    "secp_from_der C (e_signature ex) = Some sig" "secp_pubkey C (pk_inner pk) = Some key" "secp_verify C m sig key"
    by (auto simp: verify_exchange_Ok pk)
  have ln: "lc_nonce (rc_local rc) = nonce" using wr by (simp add: with_local_def)
  from check_nonces_Ok [OF c] assms(2) obtain s1 s2 where
    e: "ss_decode_cipher s1 = dec" "buf_bytes (ss_recv_buf s1) = []"
      "read_exact A ?Sk (length nonce) [] s1 = Some (s2, Ok nonce)"
    by (auto simp: secure_stream_new_def ln)
  have "pk \<noteq> key_pair_public C (sc_key cfg)" using wr by (auto simp: pk with_local_def key_pair_public_def)
  moreover from wr obtain prps where "propose_decode P rp = Some (Some prps)" "pubkey_decode P (p_pubkey prps) = Some (Some pk)"
    "hashes_ordering C ?lc pk (p_rand prps) \<noteq> Equal" using derive_ciphers_Ok [OF d] by (auto simp: pk)
  ultimately show ?thesis using r x(2,3) v d e by blast
qed

end
