(* ===== verification/Secio_Agreement.thy ===== *)
theory Secio_Agreement
  imports Secio_Handshake
begin

text \<open>
  Two honest parties. Over working sockets the handshake completes on both sides, with the
  same algorithms and with ciphers that match crosswise: what one side seals the other opens.
\<close>

section \<open>Live sockets\<close>

text \<open>
  A socket that works: it accepts every frame up to its limit, and a poll that is pending is
  closer to being ready, for reading as long as the peer's frames are there.
\<close>

locale live_socket = framed_socket Sk inbox sent
  for Sk :: "'w socket_ops" and inbox sent +
  fixes delay :: "'w \<Rightarrow> nat"
    and limit :: nat
  assumes next_live: "sk_poll_next Sk w = (w', r) \<Longrightarrow> inbox w \<noteq> [] \<Longrightarrow>
      (\<exists>f. r = Ready (Some (Ok f))) \<or> (r = Pending \<and> delay w' < delay w)"
    and ready_live: "sk_poll_ready Sk w = (w', r1) \<Longrightarrow> r1 = Ready (Ok ()) \<or> (r1 = Pending \<and> delay w' < delay w)"
    and flush_live: "sk_poll_flush Sk w = (w', r1) \<Longrightarrow> r1 = Ready (Ok ()) \<or> (r1 = Pending \<and> delay w' < delay w)"
    and send_live: "length f \<le> limit \<Longrightarrow> \<exists>w'. sk_start_send Sk w f = (w', Ok ())"
begin

lemma await_ready: "\<exists>w'. await (sk_poll_ready Sk) w = Some (w', Ok ()) \<and> inbox w' = inbox w \<and> sent w' = sent w"
proof -
  have "\<exists>w' a. await (sk_poll_ready Sk) w = Some (w', a) \<and> (a = Ok () \<and> inbox w' = inbox w \<and> sent w' = sent w)"
    by (rule await_returns [where P = "\<lambda>v. inbox v = inbox w \<and> sent v = sent w" and delay = delay])
      (auto dest: ready_live ready_same)
  then show ?thesis by auto
qed

lemma await_flush: "\<exists>w'. await (sk_poll_flush Sk) w = Some (w', Ok ()) \<and> inbox w' = inbox w \<and> sent w' = sent w"
proof -
  have "\<exists>w' a. await (sk_poll_flush Sk) w = Some (w', a) \<and> (a = Ok () \<and> inbox w' = inbox w \<and> sent w' = sent w)"
    by (rule await_returns [where P = "\<lambda>v. inbox v = inbox w \<and> sent v = sent w" and delay = delay])
      (auto dest: flush_live flush_same)
  then show ?thesis by auto
qed

lemma send_done:
  assumes "length f \<le> limit"
  shows "\<exists>w'. socket_send Sk f w = Some (w', Ok ()) \<and> inbox w' = inbox w \<and> sent w' = sent w @ [f]"
proof -
  obtain w1 where 1: "await (sk_poll_ready Sk) w = Some (w1, Ok ())" "inbox w1 = inbox w" "sent w1 = sent w"
    using await_ready by blast
  obtain w2 where 2: "sk_start_send Sk w1 f = (w2, Ok ())" using send_live [OF assms] by blast
  obtain w3 where 3: "await (sk_poll_flush Sk) w2 = Some (w3, Ok ())" "inbox w3 = inbox w2" "sent w3 = sent w2"
    using await_flush by blast
  show ?thesis using 1 2 3 send_ok [OF 2] by (simp add: socket_send_def act_bind_def io_result_def)
qed

lemma next_done:
  assumes "inbox w = f # fs"
  shows "\<exists>w'. socket_next Sk w = Some (w', Ok f) \<and> inbox w' = fs \<and> sent w' = sent w"
proof -
  have step: "(\<exists>a. r = Ready a \<and> (a = Some (Ok f) \<and> inbox v' = fs \<and> sent v' = sent w))
      \<or> (r = Pending \<and> (inbox v' = f # fs \<and> sent v' = sent w) \<and> delay v' < delay v)"
    if "inbox v = f # fs \<and> sent v = sent w" "sk_poll_next Sk v = (v', r)" for v v' r
    using that next_live [OF that(2)] next_frame [of v v'] next_other [OF that(2)] next_sent [OF that(2)] by auto
  have "\<exists>w' a. await (sk_poll_next Sk) w = Some (w', a) \<and> (a = Some (Ok f) \<and> inbox w' = fs \<and> sent w' = sent w)"
    by (rule await_returns [where P = "\<lambda>v. inbox v = f # fs \<and> sent v = sent w" and delay = delay])
      (use assms step in auto)
  then show ?thesis by (auto simp: socket_next_def)
qed

end

text \<open>The duplex pipe is one.\<close>

lemma pipe_wait_live: "pipe_wait w = (w', r) \<Longrightarrow> r = Ready (Ok ()) \<or> (r = Pending \<and> snd (snd w') < snd (snd w))"
  by (cases w rule: pipe_wait.cases) auto

interpretation live_pipe: live_socket pipe_ops pipe_in pipe_out "\<lambda>w. snd (snd w)" limit for limit
proof
  fix w w' :: duplex and f and r :: "(io_error + byte list) option poll" and r1 :: "(io_error + unit) poll"
  show "(\<exists>f. r = Ready (Some (Ok f))) \<or> r = Pending \<and> snd (snd w') < snd (snd w)"
    if "sk_poll_next pipe_ops w = (w', r)" "pipe_in w \<noteq> []"
    using that by (cases w rule: pipe_next.cases) (auto simp: pipe_defs)
  show "r1 = Ready (Ok ()) \<or> r1 = Pending \<and> snd (snd w') < snd (snd w)" if "sk_poll_ready pipe_ops w = (w', r1)"
    using that pipe_wait_live by (auto simp: pipe_defs)
  show "r1 = Ready (Ok ()) \<or> r1 = Pending \<and> snd (snd w') < snd (snd w)" if "sk_poll_flush pipe_ops w = (w', r1)"
    using that pipe_wait_live by (auto simp: pipe_defs)
  show "\<exists>w'. sk_start_send pipe_ops w f = (w', Ok ())"
    by (cases w) (auto simp: pipe_defs)
qed


section \<open>The nonce check completes\<close>

locale live_secured = secured A seal opn Sk inbox sent + live_socket Sk inbox sent delay limit
  for A :: aead_ops and seal opn and Sk :: "'w socket_ops" and inbox sent and delay limit
begin

lemma write_all_done:
  assumes "sealer t key iv (ss_encode_cipher s)" "buf \<noteq> []" "length buf + 16 \<le> limit"
  shows "\<exists>s'. write_all A Sk buf s = Some (s', Ok ()) \<and> sealer t key (nonce_advance iv) (ss_encode_cipher s')
    \<and> sent (ss_socket s') = sent (ss_socket s) @ [seal t key (nonce_advance iv) buf]
    \<and> inbox (ss_socket s') = inbox (ss_socket s) \<and> read_side s' = read_side s"
  using assms(1)
proof (induction "delay (ss_socket s)" arbitrary: s rule: less_induct)
  case less
  obtain w r where rd: "sk_poll_ready Sk (ss_socket s) = (w, r)" by (cases "sk_poll_ready Sk (ss_socket s)")
  from ready_same [OF rd] have w: "inbox w = inbox (ss_socket s)" "sent w = sent (ss_socket s)" by auto
  from encrypt_step [OF less.prems, of buf] obtain c where
    c: "stream_encrypt A (ss_encode_cipher s) buf = Some (c, Ok (seal t key (nonce_advance iv) buf))" "sealer t key (nonce_advance iv) c"
    by auto
  have l: "length (seal t key (nonce_advance iv) buf) \<le> limit"
    using assms(3) less.prems length_seal [of key t "nonce_advance iv" buf] by (simp add: sealer_def holds_def tag_size_def)
  from ready_live [OF rd] show ?case
  proof
    assume "r = Ready (Ok ())"
    obtain w1 where st: "sk_start_send Sk w (seal t key (nonce_advance iv) buf) = (w1, Ok ())" using send_live [OF l] by blast
    obtain w2 p where fl: "sk_poll_flush Sk w1 = (w2, p)" by (cases "sk_poll_flush Sk w1")
    let ?s = "s\<lparr>ss_socket := w2, ss_encode_cipher := c\<rparr>"
    have "secure_poll_write A Sk s buf = Some (?s, Ready (Ok (length buf)))"
      using flush_live [OF fl] by (auto simp: secure_poll_write_def encode_buffer_def rd \<open>r = _\<close> c(1) st fl)
    then have "write_all A Sk buf s = Some (?s, Ok ())"
      using assms(2) by (subst write_all.simps) (simp add: write_all.simps)
    then show ?thesis using c(2) send_ok [OF st] flush_same [OF fl] w by (simp add: read_side_def)
  next
    assume p: "r = Pending \<and> delay w < delay (ss_socket s)"
    then have "write_all A Sk buf s = write_all A Sk buf (s\<lparr>ss_socket := w\<rparr>)"
      using assms(2) by (subst write_all.simps) (simp add: secure_poll_write_def rd)
    with less.hyps [of "s\<lparr>ss_socket := w\<rparr>"] p less.prems w show ?thesis by (simp add: read_side_def)
  qed
qed

lemma flush_done:
  "\<exists>w'. secure_flush Sk s = Some (s\<lparr>ss_socket := w'\<rparr>, Ok ()) \<and> inbox w' = inbox (ss_socket s) \<and> sent w' = sent (ss_socket s)"
proof -
  let ?P = "\<lambda>x. \<exists>w'. x = s\<lparr>ss_socket := w'\<rparr> \<and> inbox w' = inbox (ss_socket s) \<and> sent w' = sent (ss_socket s)"
  have "\<exists>s' a. await (secure_poll_flush Sk) s = Some (s', a) \<and> (a = Ok () \<and> ?P s')"
  proof (rule await_returns [where P = ?P and delay = "\<lambda>x. delay (ss_socket x)"])
    show "?P s" by (intro exI [of _ "ss_socket s"]) simp
  next
    fix x x' r
    assume "?P x" "secure_poll_flush Sk x = (x', r)"
    then obtain w w' where "x = s\<lparr>ss_socket := w\<rparr>" "inbox w = inbox (ss_socket s)" "sent w = sent (ss_socket s)"
      "sk_poll_flush Sk w = (w', r)" "x' = s\<lparr>ss_socket := w'\<rparr>"
      by (auto simp: secure_poll_flush_def apfst_def map_prod_def split: prod.splits)
    then show "(\<exists>a. r = Ready a \<and> (a = Ok () \<and> ?P x')) \<or> r = Pending \<and> ?P x' \<and> delay (ss_socket x') < delay (ss_socket x)"
      using flush_live [of w w' r] flush_same [of w w' r] by auto
  qed
  then show ?thesis by (auto simp: secure_flush_def)
qed

lemma read_exact_done:
  assumes "opener t key iv (ss_decode_cipher s)" "buf_bytes (ss_recv_buf s) = []"
    "inbox (ss_socket s) = seal t key (nonce_advance iv) d # fs" "d \<noteq> []"
  shows "\<exists>w' c. read_exact A Sk (length d) [] s = Some (s\<lparr>ss_socket := w', ss_decode_cipher := c\<rparr>, Ok d)
    \<and> opener t key (nonce_advance iv) c \<and> inbox w' = fs \<and> sent w' = sent (ss_socket s)"
  using assms
proof (induction "delay (ss_socket s)" arbitrary: s rule: less_induct)
  case less
  obtain w r where nx: "sk_poll_next Sk (ss_socket s) = (w, r)" by (cases "sk_poll_next Sk (ss_socket s)")
  have s1: "ss_drain s n = (s, [])" for n using less.prems(2) by (simp add: ss_drain_def)
  have "inbox (ss_socket s) \<noteq> []" using less.prems(3) by simp
  from next_live [OF nx this] show ?case
  proof (elim disjE exE)
    fix f
    assume r: "r = Ready (Some (Ok f))"
    with next_frame [of "ss_socket s" w f] nx less.prems(3) have f: "f = seal t key (nonce_advance iv) d" "inbox w = fs" by auto
    from decrypt_sealed [OF less.prems(1), of d] f obtain c where
      c: "stream_decrypt A (ss_decode_cipher s) f = Some (c, Ok d)" "opener t key (nonce_advance iv) c" by auto
    let ?s = "s\<lparr>ss_socket := w, ss_decode_cipher := c\<rparr>"
    have "secure_poll_read A Sk s (length d) = Some (?s, Ready (Ok d))"
      by (simp add: secure_poll_read_def s1 nx r decode_buffer_eq c(1))
    then have "read_exact A Sk (length d) [] s = Some (?s, Ok d)"
      using less.prems(4) by (subst read_exact.simps) (simp add: read_exact.simps)
    then show ?thesis using c(2) f(2) next_sent [OF nx] by blast
  next
    assume p: "r = Pending \<and> delay w < delay (ss_socket s)"
    then have "read_exact A Sk (length d) [] s = read_exact A Sk (length d) [] (s\<lparr>ss_socket := w\<rparr>)"
      using less.prems(4) by (subst read_exact.simps) (simp add: secure_poll_read_def s1 nx)
    moreover have "inbox w = inbox (ss_socket s)" "sent w = sent (ss_socket s)"
      using next_other [OF nx] next_sent [OF nx] p by auto
    ultimately show ?thesis using less.hyps [of "s\<lparr>ss_socket := w\<rparr>"] p less.prems by simp
  qed
qed


lemma verify_nonce_done:
  assumes "opener t key iv (ss_decode_cipher s)" "buf_bytes (ss_recv_buf s) = []" "ss_nonce s \<noteq> []"
    "inbox (ss_socket s) = seal t key (nonce_advance iv) (ss_nonce s) # fs"
  shows "\<exists>w' c. verify_nonce A Sk s = Some (s\<lparr>ss_socket := w', ss_decode_cipher := c, ss_nonce := []\<rparr>, Ok ())
    \<and> opener t key (nonce_advance iv) c \<and> inbox w' = fs \<and> sent w' = sent (ss_socket s)"
proof -
  from read_exact_done [OF assms(1,2,4,3)] obtain w' c where
    "read_exact A Sk (length (ss_nonce s)) [] s = Some (s\<lparr>ss_socket := w', ss_decode_cipher := c\<rparr>, Ok (ss_nonce s))"
    "opener t key (nonce_advance iv) c" "inbox w' = fs" "sent w' = sent (ss_socket s)" by blast
  then show ?thesis using assms(3) by (auto simp: verify_nonce_def)
qed

lemma check_nonces_done:
  assumes "sealer t k1 iv enc" "opener t k2 iv dec" "inbox w = seal t k2 (nonce_advance iv) n # fs"
    "n \<noteq> []" "rn \<noteq> []" "length rn + 16 \<le> limit"
  shows "\<exists>s'. check_nonces A Sk rn (secure_stream_new w dec enc n) = Some (s', Ok ())
    \<and> sealer t k1 (nonce_advance iv) (ss_encode_cipher s') \<and> opener t k2 (nonce_advance iv) (ss_decode_cipher s')
    \<and> sent (ss_socket s') = sent w @ [seal t k1 (nonce_advance iv) rn] \<and> inbox (ss_socket s') = fs
    \<and> buf_bytes (ss_recv_buf s') = []"
proof -
  let ?s = "secure_stream_new w dec enc n"
  from assms(1) have "sealer t k1 iv (ss_encode_cipher ?s)" by (simp add: secure_stream_new_def)
  from write_all_done [OF this assms(5,6)] obtain s1 where
    1: "write_all A Sk rn ?s = Some (s1, Ok ())" "sealer t k1 (nonce_advance iv) (ss_encode_cipher s1)"
      "sent (ss_socket s1) = sent w @ [seal t k1 (nonce_advance iv) rn]" "inbox (ss_socket s1) = inbox w"
    and rs: "read_side s1 = read_side ?s" by (auto simp: secure_stream_new_def)
  obtain w2 where 2: "secure_flush Sk s1 = Some (s1\<lparr>ss_socket := w2\<rparr>, Ok ())" "inbox w2 = inbox (ss_socket s1)"
    "sent w2 = sent (ss_socket s1)" using flush_done by blast
  from verify_nonce_done [of t k2 iv "s1\<lparr>ss_socket := w2\<rparr>" fs] assms(2-4) 1(4) 2(2) rs obtain w3 c where
    "verify_nonce A Sk (s1\<lparr>ss_socket := w2\<rparr>) = Some (s1\<lparr>ss_socket := w3, ss_decode_cipher := c, ss_nonce := []\<rparr>, Ok ())"
    "opener t k2 (nonce_advance iv) c" "inbox w3 = fs" "sent w3 = sent w2"
    by (auto simp: read_side_def secure_stream_new_def)
  with 1 2 rs show ?thesis
    by (auto simp: check_nonces_def act_bind_def io_result_def read_side_def secure_stream_new_def)
qed

lemma handshake_completes:
  assumes "framed (sc_max_frame_length cfg) = Sk"
    and rc: "with_remote P C cfg (with_local P C cfg nonce) rp = Some (Ok rc)"
    and g: "gen (rc_chosen_exchange rc) = Some k"
    and lx: "local_exchange P C cfg rc (dh_public C (rc_chosen_exchange rc) k) = Ok lx"
    and ex: "exchange_decode P rx = Some (Some ex)" "verify_exchange C rc ex = Ok ()"
    and cs: "derive_ciphers pf C rc (k, rc_chosen_exchange rc) (e_epubkey ex) = Some (Ok (enc, dec))"
    and keys: "sealer t k1 iv enc" "opener t k2 iv dec"
    and nonces: "nonce \<noteq> []" "rc_nonce rc \<noteq> []" "length (rc_nonce rc) + 16 \<le> limit"
    and lens: "length (lc_proposition_bytes (with_local P C cfg nonce)) \<le> limit" "length lx \<le> limit"
    and inb: "inbox w = [rp, rx, seal t k2 (nonce_advance iv) nonce]"
  shows "\<exists>st. handshake pf A P C framed cfg nonce gen w =
      Some (Ok (st, rc_public_key rc, dh_public C (rc_chosen_exchange rc) k))
    \<and> sealer t k1 (nonce_advance iv) (ss_encode_cipher st) \<and> opener t k2 (nonce_advance iv) (ss_decode_cipher st)
    \<and> sent (ss_socket st) = sent w @ [lc_proposition_bytes (with_local P C cfg nonce), lx, seal t k1 (nonce_advance iv) (rc_nonce rc)]
    \<and> inbox (ss_socket st) = [] \<and> buf_bytes (ss_recv_buf st) = []"
proof -
  let ?lc = "with_local P C cfg nonce" and ?pub = "dh_public C (rc_chosen_exchange rc) k"
  obtain w1 where 1: "socket_send Sk (lc_proposition_bytes ?lc) w = Some (w1, Ok ())" "inbox w1 = inbox w"
    "sent w1 = sent w @ [lc_proposition_bytes ?lc]" using send_done [OF lens(1)] by blast
  obtain w2 where 2: "socket_next Sk w1 = Some (w2, Ok rp)" "inbox w2 = [rx, seal t k2 (nonce_advance iv) nonce]" "sent w2 = sent w1"
    using next_done [of w1 rp] 1(2) inb by auto
  obtain w3 where 3: "socket_send Sk lx w2 = Some (w3, Ok ())" "inbox w3 = inbox w2" "sent w3 = sent w2 @ [lx]"
    using send_done [OF lens(2)] by blast
  obtain w4 where 4: "socket_next Sk w3 = Some (w4, Ok rx)" "inbox w4 = [seal t k2 (nonce_advance iv) nonce]" "sent w4 = sent w3"
    using next_done [of w3 rx] 3(2) 2(2) by auto
  have p: "exchange_propositions P C Sk cfg nonce w = Some (w2, Ok rc)"
    by (simp add: exchange_propositions_def Let_def act_bind_def act_lift_def 1 2 rc)
  have x: "exchange_keys P C Sk cfg gen rc w2 = Some (w4, Ok ((k, rc_chosen_exchange rc), ?pub, ex))"
    by (simp add: exchange_keys_def act_bind_def act_lift_def generate_agreement_def g lx 3 4 ex)
  have n: "lc_nonce (rc_local rc) = nonce" using with_remote_Ok [OF rc] by (simp add: with_local_def)
  from check_nonces_done [OF keys 4(2) nonces] obtain st where
    c: "check_nonces A Sk (rc_nonce rc) (secure_stream_new w4 dec enc nonce) = Some (st, Ok ())"
    "sealer t k1 (nonce_advance iv) (ss_encode_cipher st)" "opener t k2 (nonce_advance iv) (ss_decode_cipher st)"
    "sent (ss_socket st) = sent w4 @ [seal t k1 (nonce_advance iv) (rc_nonce rc)]" "inbox (ss_socket st) = []"
    "buf_bytes (ss_recv_buf st) = []" by blast
  have "handshake pf A P C framed cfg nonce gen w = Some (Ok (st, rc_public_key rc, ?pub))"
    unfolding handshake_def Let_def assms(1) by (simp add: act_bind_def act_lift_def p x cs n c(1))
  then show ?thesis using c 1 2 3 4 by simp
qed

end

interpretation std_live: live_secured std_aead std_seal std_open pipe_ops pipe_in pipe_out "\<lambda>w. snd (snd w)" limit for limit ..


section \<open>Honest parties\<close>

text \<open>
  The laws of the primitives: lengths of hashes, tags, serialized keys and signatures; signing
  and verifying; and that both ends of a key agreement derive the same secret.
\<close>

definition crypto_laws :: "'e crypto_ops \<Rightarrow> bool" where
  "crypto_laws C \<longleftrightarrow>
     (\<forall>x. length (sha256_fn C x) = 32) \<and>
     (\<forall>d k x. length (hmac_fn C d k x) = num_bytes d) \<and>
     (\<forall>sk. length (secp_public C sk) = 33) \<and>
     (\<forall>s. length (secp_to_der C s) \<le> 72) \<and>
     (\<forall>x sk. length x = 32 \<longrightarrow>
        (\<exists>m key. secp_message C x = Some m \<and> secp_pubkey C (secp_public C sk) = Some key
           \<and> secp_from_der C (secp_to_der C (secp_sign C m sk)) = Some (secp_sign C m sk)
           \<and> secp_verify C m (secp_sign C m sk) key)) \<and>
     (\<forall>al k. length (dh_public C al k) = pubkey_len al) \<and>
     (\<forall>al k1 k2. \<exists>s. dh_derive C al k1 (dh_public C al k2) = Some s \<and> dh_derive C al k2 (dh_public C al k1) = Some s)"

text \<open>A party's proposals are strings and its proposition fits into a frame.\<close>

definition party_ok :: "mol_ops \<Rightarrow> 'e crypto_ops \<Rightarrow> nat \<Rightarrow> secio_config \<Rightarrow> byte list \<Rightarrow> bool" where
  "party_ok P C limit cfg nonce \<longleftrightarrow>
     length nonce = 16 \<and> utf8_valid (agreements_of cfg) \<and> utf8_valid (ciphers_of cfg) \<and> utf8_valid (digests_of cfg) \<and>
     length (lc_proposition_bytes (with_local P C cfg nonce)) \<le> limit"

definition proposition_of :: "mol_ops \<Rightarrow> 'e crypto_ops \<Rightarrow> secio_config \<Rightarrow> byte list \<Rightarrow> byte list" where
  "proposition_of P C cfg nonce = lc_proposition_bytes (with_local P C cfg nonce)"

text \<open>The comparison party 1 makes: party 2 makes the reverse one.\<close>

definition order_of :: "'e crypto_ops \<Rightarrow> secio_config \<Rightarrow> byte list \<Rightarrow> secio_config \<Rightarrow> byte list \<Rightarrow> ordering" where
  "order_of C cfg1 n1 cfg2 n2 =
     slice_cmp (sha256_fn C (secp_public C (sc_key cfg2) @ n1)) (sha256_fn C (secp_public C (sc_key cfg1) @ n2))"

lemma order_of_reverse: "order_of C cfg2 n2 cfg1 n1 = reverse (order_of C cfg1 n1 cfg2 n2)"
  unfolding order_of_def by (rule slice_cmp_reverse)

definition remote_view :: "mol_ops \<Rightarrow> 'e crypto_ops \<Rightarrow> secio_config \<Rightarrow> byte list \<Rightarrow> secio_config \<Rightarrow> byte list \<Rightarrow>
    key_agreement \<Rightarrow> cipher_type \<Rightarrow> digest \<Rightarrow> remote_context" where
  "remote_view P C cfg1 n1 cfg2 n2 al t d =
     \<lparr>rc_local = with_local P C cfg1 n1, rc_proposition_bytes = proposition_of P C cfg2 n2,
      rc_public_key = key_pair_public C (sc_key cfg2), rc_nonce = n2, rc_hashes_ordering = order_of C cfg1 n1 cfg2 n2,
      rc_chosen_exchange = al, rc_chosen_cipher = t, rc_chosen_hash = d\<rparr>"

lemma with_remote_honest:
  assumes "mol_numbers P" "crypto_laws C" "party_ok P C limit cfg2 n2" "limit < 2 ^ 32"
    "secp_public C (sc_key cfg1) \<noteq> secp_public C (sc_key cfg2)"
    "select_agreement (order_of C cfg1 n1 cfg2 n2) (agreements_of cfg1) (agreements_of cfg2) = Ok al"
    "select_cipher (order_of C cfg1 n1 cfg2 n2) (ciphers_of cfg1) (ciphers_of cfg2) = Ok t"
    "select_digest (order_of C cfg1 n1 cfg2 n2) (digests_of cfg1) (digests_of cfg2) = Ok d"
  shows "with_remote P C cfg1 (with_local P C cfg1 n1) (proposition_of P C cfg2 n2) =
    Some (Ok (remote_view P C cfg1 n1 cfg2 n2 al t d))"
proof -
  let ?p = "local_proposition P C cfg2 n2" and ?k = "key_pair_public C (sc_key cfg2)"
  have "length (propose_encode P ?p) < 2 ^ 32" using assms(3,4) by (simp add: party_ok_def with_local_def)
  then have dec: "propose_decode P (propose_encode P ?p) = Some (Some ?p)"
    using assms(3) by (intro mol_numbers.propose_roundtrip [OF assms(1)]) (simp_all add: party_ok_def local_proposition_def)
  have "length (pubkey_encode P ?k) = 41"
    using assms(1,2) by (simp add: pubkey_encode_def PublicKey_build_def Secp256k1_build_def
        mol_numbers.length_union_build mol_numbers.length_fixvec_build key_pair_public_def crypto_laws_def)
  then have pk: "pubkey_decode P (pubkey_encode P ?k) = Some (Some ?k)"
    by (intro mol_numbers.pubkey_roundtrip [OF assms(1)]) simp
  show ?thesis
    using assms(5-8) dec pk
    by (simp add: with_remote_def proposition_of_def with_local_def local_proposition_def remote_view_def
        hashes_ordering_def sha_new_def sha_update_def sha_finish_def order_of_def key_pair_public_def Let_def)
qed


text \<open>The exchange one party makes is the one the other verifies.\<close>

lemma exchange_verifies:
  assumes "mol_numbers P" "crypto_laws C"
  shows "\<exists>sig. local_exchange P C cfg1 (remote_view P C cfg1 n1 cfg2 n2 al t d) (dh_public C al k) =
       Ok (exchange_encode P \<lparr>e_epubkey = dh_public C al k, e_signature = sig\<rparr>)
    \<and> exchange_decode P (exchange_encode P \<lparr>e_epubkey = dh_public C al k, e_signature = sig\<rparr>) =
       Some (Some \<lparr>e_epubkey = dh_public C al k, e_signature = sig\<rparr>)
    \<and> length (exchange_encode P \<lparr>e_epubkey = dh_public C al k, e_signature = sig\<rparr>) \<le> 256
    \<and> verify_exchange C (remote_view P C cfg2 n2 cfg1 n1 al t d) \<lparr>e_epubkey = dh_public C al k, e_signature = sig\<rparr> = Ok ()"
proof -
  let ?data = "proposition_of P C cfg1 n1 @ proposition_of P C cfg2 n2 @ dh_public C al k"
  obtain m key where m: "secp_message C (sha256_fn C ?data) = Some m" "secp_pubkey C (secp_public C (sc_key cfg1)) = Some key"
    "secp_from_der C (secp_to_der C (secp_sign C m (sc_key cfg1))) = Some (secp_sign C m (sc_key cfg1))"
    "secp_verify C m (secp_sign C m (sc_key cfg1)) key"
    using assms(2) unfolding crypto_laws_def by metis
  let ?sig = "secp_to_der C (secp_sign C m (sc_key cfg1))"
  let ?ex = "\<lparr>e_epubkey = dh_public C al k, e_signature = ?sig\<rparr>"
  have "length (dh_public C al k) \<le> 97" "length ?sig \<le> 72"
    using assms(2) by (cases al; simp add: crypto_laws_def)+
  then have l: "length (exchange_encode P ?ex) \<le> 256"
    by (simp add: exchange_encode_def Exchange_build_def handshake_Bytes_build_def
        mol_numbers.length_table_build [OF assms(1)] mol_numbers.length_fixvec_build [OF assms(1)])
  then have "exchange_decode P (exchange_encode P ?ex) = Some (Some ?ex)"
    by (intro mol_numbers.exchange_roundtrip [OF assms(1)]) simp
  with m l show ?thesis
    by (intro exI [of _ ?sig])
      (simp add: local_exchange_def verify_exchange_Ok remote_view_def proposition_of_def key_pair_public_def Let_def)
qed

section \<open>Matching keys\<close>

definition supports :: "platform \<Rightarrow> cipher_type \<Rightarrow> bool" where
  "supports pf t \<longleftrightarrow> pf = Wasm32 \<longrightarrow> t = ChaCha20Poly1305"

lemma new_stream_supported:
  "supports pf t \<Longrightarrow> length key = key_size t \<Longrightarrow> \<exists>sc. new_stream pf t key mode = Some sc"
  by (cases pf; cases mode) (auto simp: supports_def ring_stream_def ring_new_def wasm_new_def)

definition cipher_key :: "cipher_type \<Rightarrow> byte list \<Rightarrow> byte list" where
  "cipher_key t info = take (key_size t) (drop (iv_size t) info)"

lemma generate_cipher:
  assumes "supports pf t" "length info = iv_size t + key_size t + 20"
  shows "\<exists>sc. generate_stream_cipher_and_hmac pf t mode info (key_size t) (iv_size t) = Some sc
    \<and> new_stream pf t (cipher_key t info) mode = Some sc \<and> length (cipher_key t info) = key_size t"
proof -
  have l: "length (cipher_key t info) = key_size t" using assms(2) by (simp add: cipher_key_def)
  with new_stream_supported [OF assms(1) l] assms(2) show ?thesis
    by (auto simp: generate_stream_cipher_and_hmac_def cipher_key_def)
qed

lemma derive_honest:
  assumes "crypto_laws C" "supports pf (rc_chosen_cipher rc)"
    "dh_derive C al k epub = Some secret" "length epub = pubkey_len al"
    "longer = p_hash C (hmac_from_key (rc_chosen_hash rc) secret) (hmac_sign C (hmac_from_key (rc_chosen_hash rc) secret) SEED)
       (2 * (iv_size (rc_chosen_cipher rc) + key_size (rc_chosen_cipher rc) + 20))"
    "split_infos (rc_hashes_ordering rc) longer = Ok (loc, rem)"
  shows "\<exists>enc dec. derive_ciphers pf C rc (k, al) epub = Some (Ok (enc, dec))
    \<and> sealer (rc_chosen_cipher rc) (cipher_key (rc_chosen_cipher rc) loc) (replicate 12 0) enc
    \<and> opener (rc_chosen_cipher rc) (cipher_key (rc_chosen_cipher rc) rem) (replicate 12 0) dec"
proof -
  let ?t = "rc_chosen_cipher rc" and ?h = "hmac_from_key (rc_chosen_hash rc) secret"
  let ?n = "2 * (iv_size ?t + key_size ?t + 20)"
  have hm: "length (hmac_fn C dg key x) = num_bytes dg" for dg key x using assms(1) by (simp add: crypto_laws_def)
  have st: "stretch_key C ?h (replicate ?n 0) = Some longer \<and> length longer = ?n"
    using stretch_key_returns [OF hm, of ?h "replicate ?n 0"] assms(5) by auto
  then have "length loc = iv_size ?t + key_size ?t + 20" "length rem = iv_size ?t + key_size ?t + 20"
    using assms(6) by (auto simp: split_infos_def Let_def split: ordering.splits)
  then obtain enc dec where
    e: "generate_stream_cipher_and_hmac pf ?t Encrypt loc (key_size ?t) (iv_size ?t) = Some enc"
      "new_stream pf ?t (cipher_key ?t loc) Encrypt = Some enc" "length (cipher_key ?t loc) = key_size ?t"
    and d: "generate_stream_cipher_and_hmac pf ?t Decrypt rem (key_size ?t) (iv_size ?t) = Some dec"
      "new_stream pf ?t (cipher_key ?t rem) Decrypt = Some dec" "length (cipher_key ?t rem) = key_size ?t"
    using generate_cipher [OF assms(2), of loc Encrypt] generate_cipher [OF assms(2), of rem Decrypt] by blast
  have "derive_ciphers pf C rc (k, al) epub = Some (Ok (enc, dec))"
    using st e(1) d(1) assms(3,4,6) by (simp add: derive_ciphers_def agree_def Let_def)
  with new_stream_sealer [OF e(2,3)] new_stream_opener [OF d(2,3)] show ?thesis by blast
qed

lemma split_infos_reverse:
  "r \<noteq> Equal \<Longrightarrow> \<exists>x y. split_infos r k = Ok (x, y) \<and> split_infos (reverse r) k = Ok (y, x)"
  by (cases r) (auto simp: split_infos_def Let_def)


lemma le_nat_nat_le: "v < 256 ^ n \<Longrightarrow> le_nat (nat_le n v) = v"
  by (simp add: le_nat_def nat_le_def be_value_digits)

lemma sample_crypto_laws: "crypto_laws sample_crypto"
proof -
  have "le_nat (nat_le (pubkey_len al) (3 ^ k mod 251)) = 3 ^ k mod 251" for al k
  proof (rule le_nat_nat_le)
    have "(251 :: nat) \<le> 256 ^ 1" by simp
    also have "\<dots> \<le> 256 ^ pubkey_len al" by (rule power_increasing) (cases al; simp)+
    finally have "251 \<le> (256 :: nat) ^ pubkey_len al" .
    moreover have "(3 :: nat) ^ k mod 251 < 251" by simp
    ultimately show "(3 :: nat) ^ k mod 251 < 256 ^ pubkey_len al" by linarith
  qed
  then have "dh_derive sample_crypto al k1 (dh_public sample_crypto al k2) = Some [of_nat (3 ^ (k1 * k2) mod 251)]" for al k1 k2
    by (simp add: sample_crypto_def power_mod power_mult [symmetric] mult.commute)
  then show ?thesis
    using sample_hmac_length by (simp add: crypto_laws_def mult.commute) (simp add: sample_crypto_def min_def)
qed


section \<open>Two honest parties\<close>

lemma views_agree:
  assumes "mol_numbers P" "crypto_laws C" "party_ok P C limit cfg1 n1" "party_ok P C limit cfg2 n2" "limit < 2 ^ 32"
    "secp_public C (sc_key cfg1) \<noteq> secp_public C (sc_key cfg2)" "order_of C cfg1 n1 cfg2 n2 \<noteq> Equal"
    "select_agreement (order_of C cfg1 n1 cfg2 n2) (agreements_of cfg1) (agreements_of cfg2) = Ok al"
    "select_cipher (order_of C cfg1 n1 cfg2 n2) (ciphers_of cfg1) (ciphers_of cfg2) = Ok t"
    "select_digest (order_of C cfg1 n1 cfg2 n2) (digests_of cfg1) (digests_of cfg2) = Ok d"
  shows "with_remote P C cfg1 (with_local P C cfg1 n1) (proposition_of P C cfg2 n2) =
      Some (Ok (remote_view P C cfg1 n1 cfg2 n2 al t d))"
    "with_remote P C cfg2 (with_local P C cfg2 n2) (proposition_of P C cfg1 n1) =
      Some (Ok (remote_view P C cfg2 n2 cfg1 n1 al t d))"
proof -
  have sel: "select known (order_of C cfg2 n2 cfg1 n1) b a = select known (order_of C cfg1 n1 cfg2 n2) a b"
    for known :: "str \<Rightarrow> 'x option" and a b
    using select_flip [OF assms(7), of known b a] by (simp only: order_of_reverse [of C cfg2 n2 cfg1 n1])
  show "with_remote P C cfg1 (with_local P C cfg1 n1) (proposition_of P C cfg2 n2) =
      Some (Ok (remote_view P C cfg1 n1 cfg2 n2 al t d))"
    by (rule with_remote_honest [OF assms(1,2,4,5,6,8-10)])
  show "with_remote P C cfg2 (with_local P C cfg2 n2) (proposition_of P C cfg1 n1) =
      Some (Ok (remote_view P C cfg2 n2 cfg1 n1 al t d))"
    using assms(8-10) by (intro with_remote_honest [OF assms(1,2,3,5)]) (simp_all add: assms(6) [symmetric] selections sel)
qed

lemma ciphers_match:
  assumes "crypto_laws C" "order_of C cfg1 n1 cfg2 n2 \<noteq> Equal" "supports pf1 t" "supports pf2 t"
  shows "\<exists>key12 key21 enc1 dec1 enc2 dec2.
    derive_ciphers pf1 C (remote_view P C cfg1 n1 cfg2 n2 al t d) (k1, al) (dh_public C al k2) = Some (Ok (enc1, dec1))
    \<and> derive_ciphers pf2 C (remote_view P C cfg2 n2 cfg1 n1 al t d) (k2, al) (dh_public C al k1) = Some (Ok (enc2, dec2))
    \<and> sealer t key12 (replicate 12 0) enc1 \<and> opener t key12 (replicate 12 0) dec2
    \<and> sealer t key21 (replicate 12 0) enc2 \<and> opener t key21 (replicate 12 0) dec1"
proof -
  let ?r = "order_of C cfg1 n1 cfg2 n2"
  let ?rc1 = "remote_view P C cfg1 n1 cfg2 n2 al t d" and ?rc2 = "remote_view P C cfg2 n2 cfg1 n1 al t d"
  obtain s where S: "dh_derive C al k1 (dh_public C al k2) = Some s" "dh_derive C al k2 (dh_public C al k1) = Some s"
    "length (dh_public C al k1) = pubkey_len al" "length (dh_public C al k2) = pubkey_len al"
    using assms(1) unfolding crypto_laws_def by metis
  define longer where "longer = p_hash C (hmac_from_key d s) (hmac_sign C (hmac_from_key d s) SEED) (2 * (iv_size t + key_size t + 20))"
  obtain i1 i2 where I: "split_infos ?r longer = Ok (i1, i2)" "split_infos (reverse ?r) longer = Ok (i2, i1)"
    using split_infos_reverse [OF assms(2)] by blast
  have rc: "rc_chosen_cipher ?rc1 = t" "rc_chosen_hash ?rc1 = d" "rc_hashes_ordering ?rc1 = ?r"
    "rc_chosen_cipher ?rc2 = t" "rc_chosen_hash ?rc2 = d" "rc_hashes_ordering ?rc2 = reverse ?r"
    by (simp_all add: remote_view_def order_of_reverse [of C cfg2 n2 cfg1 n1])
  have "\<exists>enc dec. derive_ciphers pf1 C ?rc1 (k1, al) (dh_public C al k2) = Some (Ok (enc, dec))
      \<and> sealer t (cipher_key t i1) (replicate 12 0) enc \<and> opener t (cipher_key t i2) (replicate 12 0) dec"
    using derive_honest [OF assms(1), of pf1 ?rc1 al k1 "dh_public C al k2" s longer i1 i2] assms(3) S I
    by (simp add: rc longer_def)
  moreover have "\<exists>enc dec. derive_ciphers pf2 C ?rc2 (k2, al) (dh_public C al k1) = Some (Ok (enc, dec))
      \<and> sealer t (cipher_key t i2) (replicate 12 0) enc \<and> opener t (cipher_key t i1) (replicate 12 0) dec"
    using derive_honest [OF assms(1), of pf2 ?rc2 al k2 "dh_public C al k1" s longer i2 i1] assms(4) S I
    by (simp add: rc longer_def)
  ultimately show ?thesis by blast
qed

lemma parties_complete:
  assumes "aead A seal opn" "mol_numbers P" "crypto_laws C"
    "live_socket (framed1 (sc_max_frame_length cfg1)) in1 out1 d1 limit"
    "live_socket (framed2 (sc_max_frame_length cfg2)) in2 out2 d2 limit"
    "256 \<le> limit" "limit < 2 ^ 32" "party_ok P C limit cfg1 n1" "party_ok P C limit cfg2 n2"
    "secp_public C (sc_key cfg1) \<noteq> secp_public C (sc_key cfg2)" "order_of C cfg1 n1 cfg2 n2 \<noteq> Equal"
    "select_agreement (order_of C cfg1 n1 cfg2 n2) (agreements_of cfg1) (agreements_of cfg2) = Ok al"
    "select_cipher (order_of C cfg1 n1 cfg2 n2) (ciphers_of cfg1) (ciphers_of cfg2) = Ok t"
    "select_digest (order_of C cfg1 n1 cfg2 n2) (digests_of cfg1) (digests_of cfg2) = Ok d"
    "gen1 al = Some k1" "gen2 al = Some k2" "supports pf1 t" "supports pf2 t"
  shows "\<exists>f1 f2 key12 key21 iv. length f1 = 3 \<and> length f2 = 3 \<and>
    (\<forall>w1 w2. in1 w1 = f2 \<longrightarrow> in2 w2 = f1 \<longrightarrow>
       (\<exists>st1 st2.
          handshake pf1 A P C framed1 cfg1 n1 gen1 w1 = Some (Ok (st1, key_pair_public C (sc_key cfg2), dh_public C al k1))
          \<and> handshake pf2 A P C framed2 cfg2 n2 gen2 w2 = Some (Ok (st2, key_pair_public C (sc_key cfg1), dh_public C al k2))
          \<and> out1 (ss_socket st1) = out1 w1 @ f1 \<and> out2 (ss_socket st2) = out2 w2 @ f2
          \<and> sealer t key12 iv (ss_encode_cipher st1) \<and> opener t key12 iv (ss_decode_cipher st2)
          \<and> sealer t key21 iv (ss_encode_cipher st2) \<and> opener t key21 iv (ss_decode_cipher st1)))"
proof -
  define rc1 where "rc1 = remote_view P C cfg1 n1 cfg2 n2 al t d"
  define rc2 where "rc2 = remote_view P C cfg2 n2 cfg1 n1 al t d"
  have L1: "live_secured A seal opn (framed1 (sc_max_frame_length cfg1)) in1 out1 d1 limit"
    and L2: "live_secured A seal opn (framed2 (sc_max_frame_length cfg2)) in2 out2 d2 limit"
    using assms(1,4,5) by (simp_all add: live_secured_def secured_def live_socket_def)
  note R = views_agree [OF assms(2,3,8,9,7,10-14), folded rc1_def rc2_def]
  from exchange_verifies [OF assms(2,3)] obtain x1 e1 x2 e2 where
    X1: "local_exchange P C cfg1 rc1 (dh_public C al k1) = Ok x1" "exchange_decode P x1 = Some (Some e1)" "length x1 \<le> 256"
      "verify_exchange C rc2 e1 = Ok ()" "e_epubkey e1 = dh_public C al k1"
    and X2: "local_exchange P C cfg2 rc2 (dh_public C al k2) = Ok x2" "exchange_decode P x2 = Some (Some e2)" "length x2 \<le> 256"
      "verify_exchange C rc1 e2 = Ok ()" "e_epubkey e2 = dh_public C al k2"
    unfolding rc1_def rc2_def by (metis exchange.select_convs(1))
  from ciphers_match [OF assms(3,11,17,18)] obtain key12 key21 enc1 dec1 enc2 dec2 where
    C1: "derive_ciphers pf1 C rc1 (k1, al) (dh_public C al k2) = Some (Ok (enc1, dec1))"
      "sealer t key12 (replicate 12 0) enc1" "opener t key21 (replicate 12 0) dec1"
    and C2: "derive_ciphers pf2 C rc2 (k2, al) (dh_public C al k1) = Some (Ok (enc2, dec2))"
      "sealer t key21 (replicate 12 0) enc2" "opener t key12 (replicate 12 0) dec2"
    unfolding rc1_def rc2_def by blast
  have rc: "rc_chosen_exchange rc1 = al" "rc_nonce rc1 = n2" "rc_public_key rc1 = key_pair_public C (sc_key cfg2)"
    "rc_chosen_exchange rc2 = al" "rc_nonce rc2 = n1" "rc_public_key rc2 = key_pair_public C (sc_key cfg1)"
    by (simp_all add: rc1_def rc2_def remote_view_def)
  let ?iv = "nonce_advance (replicate 12 0)"
  let ?f1 = "[proposition_of P C cfg1 n1, x1, seal t key12 ?iv n2]" and ?f2 = "[proposition_of P C cfg2 n2, x2, seal t key21 ?iv n1]"
  have N: "n1 \<noteq> []" "n2 \<noteq> []" "length n1 + 16 \<le> limit" "length n2 + 16 \<le> limit"
    using assms(6,8,9) by (auto simp: party_ok_def)
  have "\<exists>st. handshake pf1 A P C framed1 cfg1 n1 gen1 w1 = Some (Ok (st, key_pair_public C (sc_key cfg2), dh_public C al k1))
      \<and> sealer t key12 ?iv (ss_encode_cipher st) \<and> opener t key21 ?iv (ss_decode_cipher st)
      \<and> out1 (ss_socket st) = out1 w1 @ ?f1" if "in1 w1 = ?f2" for w1
    using live_secured.handshake_completes [where framed = framed1, OF L1 refl R(1), of gen1 k1 x1 x2 e2 pf1 enc1 dec1 t key12 "replicate 12 0" key21 w1]
      X1 X2 C1 N assms(6,8,15) that by (auto simp: rc proposition_of_def party_ok_def)
  moreover have "\<exists>st. handshake pf2 A P C framed2 cfg2 n2 gen2 w2 = Some (Ok (st, key_pair_public C (sc_key cfg1), dh_public C al k2))
      \<and> sealer t key21 ?iv (ss_encode_cipher st) \<and> opener t key12 ?iv (ss_decode_cipher st)
      \<and> out2 (ss_socket st) = out2 w2 @ ?f2" if "in2 w2 = ?f1" for w2
    using live_secured.handshake_completes [where framed = framed2, OF L2 refl R(2), of gen2 k2 x2 x1 e1 pf2 enc2 dec2 t key21 "replicate 12 0" key12 w2]
      X1 X2 C2 N assms(6,9,16) that by (auto simp: rc proposition_of_def party_ok_def)
  moreover have "length ?f1 = 3" "length ?f2 = 3" by simp_all
  ultimately show ?thesis by blast
qed


text \<open>Two default configurations over a pipe.\<close>

definition alice :: secio_config where
  "alice = secio_config_new [1]"

definition bob :: secio_config where
  "bob = secio_config_new [2]"

abbreviation alice_nonce :: "byte list" where
  "alice_nonce \<equiv> replicate 16 5"

abbreviation bob_nonce :: "byte list" where
  "bob_nonce \<equiv> replicate 16 6"

lemma sample_order: "order_of sample_crypto alice alice_nonce bob bob_nonce = Greater"
  by (simp add: order_of_def sample_crypto_def alice_def bob_def secio_config_new_def)

lemma sample_proposals:
  assumes "cfg = secio_config_new sk"
  shows "agreements_of cfg = DEFAULT_AGREEMENTS_PROPOSITION" "ciphers_of cfg = DEFAULT_CIPHERS_PROPOSITION"
    "digests_of cfg = DEFAULT_DIGESTS_PROPOSITION"
  by (simp_all add: assms secio_config_new_def agreements_of_def ciphers_of_def digests_of_def)

lemma default_selection:
  "select_agreement Greater DEFAULT_AGREEMENTS_PROPOSITION DEFAULT_AGREEMENTS_PROPOSITION = Ok EcdhP256"
  "select_cipher Greater DEFAULT_CIPHERS_PROPOSITION DEFAULT_CIPHERS_PROPOSITION = Ok Aes128Gcm"
  "select_digest Greater DEFAULT_DIGESTS_PROPOSITION DEFAULT_DIGESTS_PROPOSITION = Ok Sha256"
  by code_simp+

lemma sample_party:
  assumes "cfg = secio_config_new sk" "length n = 16"
  shows "party_ok le_ops sample_crypto 8388608 cfg n"
proof -
  have "utf8_valid DEFAULT_AGREEMENTS_PROPOSITION" "utf8_valid DEFAULT_CIPHERS_PROPOSITION" "utf8_valid DEFAULT_DIGESTS_PROPOSITION"
    by code_simp+
  moreover have "length DEFAULT_AGREEMENTS_PROPOSITION = 18" "length DEFAULT_CIPHERS_PROPOSITION = 41" "length DEFAULT_DIGESTS_PROPOSITION = 13"
    by code_simp+
  ultimately show ?thesis
    using assms(2)
    by (simp add: party_ok_def sample_proposals [OF assms(1)] with_local_def local_proposition_def propose_encode_def
        Propose_build_def handshake_types le.length_table_build pubkey_encode_def PublicKey_build_def
        key_pair_public_def sample_crypto_def)
qed


lemma sample_conditions:
  "order_of sample_crypto alice alice_nonce bob bob_nonce \<noteq> Equal"
  "party_ok le_ops sample_crypto 8388608 alice alice_nonce" "party_ok le_ops sample_crypto 8388608 bob bob_nonce"
  "secp_public sample_crypto (sc_key alice) \<noteq> secp_public sample_crypto (sc_key bob)"
  "select_agreement (order_of sample_crypto alice alice_nonce bob bob_nonce) (agreements_of alice) (agreements_of bob) = Ok EcdhP256"
  "select_cipher (order_of sample_crypto alice alice_nonce bob bob_nonce) (ciphers_of alice) (ciphers_of bob) = Ok Aes128Gcm"
  "select_digest (order_of sample_crypto alice alice_nonce bob bob_nonce) (digests_of alice) (digests_of bob) = Ok Sha256"
  "supports UnixOssl110 Aes128Gcm" "supports NonUnix Aes128Gcm"
  by (simp_all add: sample_order sample_party [OF alice_def] sample_party [OF bob_def] sample_proposals [OF alice_def]
      sample_proposals [OF bob_def] default_selection supports_def)
    (simp add: sample_crypto_def alice_def bob_def secio_config_new_def)



theorem handshake_authenticates_witness:
  "\<exists>f2 st pk epk rp prps m sig key.
     handshake UnixOssl110 std_aead le_ops sample_crypto (\<lambda>_. pipe_ops) alice alice_nonce (\<lambda>_. Some 3) (f2, [], 2) =
       Some (Ok (st, pk, epk))
     \<and> propose_decode le_ops rp = Some (Some prps) \<and> pubkey_decode le_ops (p_pubkey prps) = Some (Some pk)
     \<and> secp_pubkey sample_crypto (pk_inner pk) = Some key \<and> secp_verify sample_crypto m sig key"
proof -
  note c = sample_conditions
  have lim: "(256 :: nat) \<le> 8388608" "(8388608 :: nat) < 2 ^ 32" by simp_all
  obtain f1 f2 where "\<forall>w1 w2. pipe_in w1 = f2 \<longrightarrow> pipe_in w2 = f1 \<longrightarrow>
     (\<exists>st1. handshake UnixOssl110 std_aead le_ops sample_crypto (\<lambda>_. pipe_ops) alice alice_nonce (\<lambda>_. Some 3) w1 =
         Some (Ok (st1, key_pair_public sample_crypto (sc_key bob), dh_public sample_crypto EcdhP256 3)))"
    using parties_complete [where ?framed1.0 = "\<lambda>_. pipe_ops" and ?framed2.0 = "\<lambda>_. pipe_ops" and ?gen1.0 = "\<lambda>_. Some 3"
        and ?gen2.0 = "\<lambda>_. Some 4" and ?cfg1.0 = alice and ?cfg2.0 = bob and ?n1.0 = alice_nonce and ?n2.0 = bob_nonce and limit = 8388608,
        OF standard.aead_axioms le.mol_numbers_axioms sample_crypto_laws live_pipe.live_socket_axioms
          live_pipe.live_socket_axioms lim c(2,3,4,1,5-7) refl refl c(8,9)] by blast
  from this [rule_format, of "(f2, [], 2)" "(f1, [], 0)"] obtain st pk epk where
    h: "handshake UnixOssl110 std_aead le_ops sample_crypto (\<lambda>_. pipe_ops) alice alice_nonce (\<lambda>_. Some 3) (f2, [], 2) =
       Some (Ok (st, pk, epk))"
    by (auto simp: pipe_in_def)
  have "alice_nonce \<noteq> []" by simp
  from handshake_authenticates [OF h this] obtain rp prps m sig key where
    "propose_decode le_ops rp = Some (Some prps)" "pubkey_decode le_ops (p_pubkey prps) = Some (Some pk)"
    "secp_pubkey sample_crypto (pk_inner pk) = Some key" "secp_verify sample_crypto m sig key" by blast
  with h show ?thesis by blast
qed

end
