(* ===== verification/Mpsc_Queue.thy ===== *)
theory Mpsc_Queue
  imports Prelude "HOL-Library.Sublist"
begin

text \<open>
  The lock-free multi-producer single-consumer queue (\<open>channel/queue.rs\<close>): a linked list of
  heap nodes with an explicit memory, so that freed nodes are gone and a use after free, a
  failed assertion or a null dereference is \<open>None\<close>. A push is two atomic steps of its thread,
  the swap of the head and the store of the link; pushes of several threads and pops
  interleave in any order.
\<close>

section \<open>The queue\<close>

record 'a qnode =
  qn_next :: "nat option"
  qn_value :: "'a option"

record 'a queue =
  q_mem :: "nat \<Rightarrow> 'a qnode option"
  q_head :: nat
  q_tail :: nat
  q_brk :: nat

datatype 'a pop_result = PopData 'a | PopEmpty | PopInconsistent

definition queue_new :: "'a queue" where
  "queue_new = \<lparr>q_mem = [0 \<mapsto> \<lparr>qn_next = None, qn_value = None\<rparr>], q_head = 0, q_tail = 0, q_brk = 1\<rparr>"

text \<open>The first half of \<open>push\<close>: a new node becomes the head; its predecessor is not linked yet.\<close>

definition push_swap :: "'a \<Rightarrow> 'a queue \<Rightarrow> 'a queue \<times> nat \<times> nat" where
  "push_swap t q =
     (let n = q_brk q in
      (q\<lparr>q_mem := (q_mem q)(n \<mapsto> \<lparr>qn_next = None, qn_value = Some t\<rparr>), q_head := n, q_brk := n + 1\<rparr>, q_head q, n))"

definition push_link :: "nat \<times> nat \<Rightarrow> 'a queue \<Rightarrow> 'a queue option" where
  "push_link l q =
     (let (prev, n) = l in
      map_option (\<lambda>nd. q\<lparr>q_mem := (q_mem q)(prev \<mapsto> nd\<lparr>qn_next := Some n\<rparr>)\<rparr>) (q_mem q prev))"

definition queue_push :: "'a \<Rightarrow> 'a queue \<Rightarrow> 'a queue option" where
  "queue_push t q = (let (q1, l) = push_swap t q in push_link l q1)"

definition queue_pop :: "'a queue \<Rightarrow> ('a queue \<times> 'a pop_result) option" where
  "queue_pop q =
     (let tail = q_tail q in
      case q_mem q tail of
        None \<Rightarrow> None
      | Some tn \<Rightarrow>
          (case qn_next tn of
             Some next \<Rightarrow>
               (case q_mem q next of
                  None \<Rightarrow> None
                | Some nn \<Rightarrow>
                    if qn_value tn \<noteq> None then None
                    else (case qn_value nn of
                            None \<Rightarrow> None
                          | Some ret \<Rightarrow>
                              Some (q\<lparr>q_mem := (q_mem q)(next \<mapsto> nn\<lparr>qn_value := None\<rparr>, tail := None), q_tail := next\<rparr>,
                                    PopData ret)))
           | None \<Rightarrow> Some (q, if q_head q = tail then PopEmpty else PopInconsistent)))"

text \<open>\<open>pop_spin\<close>; \<open>others\<close> is what the other threads do to the queue between two attempts.\<close>

partial_function (option) pop_spin :: "('a queue \<Rightarrow> 'a queue) \<Rightarrow> 'a queue \<Rightarrow> ('a queue \<times> 'a option) option" where
  "pop_spin others q =
     (case queue_pop q of
        None \<Rightarrow> None
      | Some (q', PopEmpty) \<Rightarrow> Some (q', None)
      | Some (q', PopData t) \<Rightarrow> Some (q', Some t)
      | Some (q', PopInconsistent) \<Rightarrow> pop_spin others (others q'))"

text \<open>\<open>Drop\<close>: frees the nodes along the links.\<close>

partial_function (option) free_nodes :: "(nat \<Rightarrow> 'a qnode option) \<Rightarrow> nat option \<Rightarrow> (nat \<Rightarrow> 'a qnode option) option" where
  "free_nodes mem cur =
     (case cur of
        None \<Rightarrow> Some mem
      | Some c \<Rightarrow> (case mem c of None \<Rightarrow> None | Some nd \<Rightarrow> free_nodes (mem(c := None)) (qn_next nd)))"

definition queue_drop :: "'a queue \<Rightarrow> (nat \<Rightarrow> 'a qnode option) option" where
  "queue_drop q = free_nodes (q_mem q) (Some (q_tail q))"

section \<open>The list it represents\<close>

text \<open>
  \<open>as\<close> are the nodes from the tail to the head in the order of the swaps, \<open>vs\<close> the values not
  yet popped, and \<open>pend\<close> the links that pushers in flight still have to store. Exactly these
  nodes are allocated.
\<close>

definition represents :: "'a queue \<Rightarrow> (nat \<times> nat) set \<Rightarrow> nat list \<Rightarrow> 'a list \<Rightarrow> bool" where
  "represents q pend as vs \<longleftrightarrow>
     length as = Suc (length vs) \<and> as ! 0 = q_tail q \<and> as ! length vs = q_head q \<and> distinct as \<and>
     (\<forall>a \<in> set as. a < q_brk q) \<and> dom (q_mem q) = set as \<and>
     (\<forall>i \<le> length vs. q_mem q (as ! i) =
        Some \<lparr>qn_next = (if i < length vs \<and> (as ! i, as ! Suc i) \<notin> pend then Some (as ! Suc i) else None),
              qn_value = (case i of 0 \<Rightarrow> None | Suc j \<Rightarrow> Some (vs ! j))\<rparr>) \<and>
     (\<forall>l \<in> pend. \<exists>i < length vs. l = (as ! i, as ! Suc i))"

lemma represents_node:
  assumes "represents q pend as vs" "i \<le> length vs"
  shows "q_mem q (as ! i) =
    Some \<lparr>qn_next = (if i < length vs \<and> (as ! i, as ! Suc i) \<notin> pend then Some (as ! Suc i) else None),
          qn_value = (case i of 0 \<Rightarrow> None | Suc j \<Rightarrow> Some (vs ! j))\<rparr>"
  using assms unfolding represents_def by blast

lemma represents_new: "represents queue_new {} [0] []"
  by (auto simp: represents_def queue_new_def)

lemma represents_swap:
  assumes "represents q pend as vs" "push_swap t q = (q', l)"
  shows "represents q' (insert l pend) (as @ [q_brk q]) (vs @ [t])"
proof -
  let ?n = "q_brk q"
  have q': "q' = q\<lparr>q_mem := (q_mem q)(?n \<mapsto> \<lparr>qn_next = None, qn_value = Some t\<rparr>), q_head := ?n, q_brk := ?n + 1\<rparr>"
    and l: "l = (q_head q, ?n)" using assms(2) by (auto simp: push_swap_def Let_def)
  have len: "length as = Suc (length vs)" and dist: "distinct as" and lt: "\<And>a. a \<in> set as \<Longrightarrow> a < ?n"
    and hd: "as ! length vs = q_head q"
    using assms(1) by (auto simp: represents_def)
  have fresh: "?n \<notin> set as" using lt by blast
  have ne: "as ! i \<noteq> ?n" if "i \<le> length vs" for i using that fresh len by (metis le_imp_less_Suc nth_mem)
  have inj: "as ! i = as ! length vs \<longleftrightarrow> i = length vs" if "i \<le> length vs" for i
    using that dist len by (simp add: nth_eq_iff_index_eq)
  note node = represents_node [OF assms(1)]
  have node': "q_mem q' ((as @ [?n]) ! i) =
        Some \<lparr>qn_next = (if i < length (vs @ [t]) \<and> ((as @ [?n]) ! i, (as @ [?n]) ! Suc i) \<notin> insert l pend
                then Some ((as @ [?n]) ! Suc i) else None),
              qn_value = (case i of 0 \<Rightarrow> None | Suc j \<Rightarrow> Some ((vs @ [t]) ! j))\<rparr>" if "i \<le> length (vs @ [t])" for i
  proof (cases "i \<le> length vs")
    case True
    then show ?thesis using node [OF True] ne [OF True] ne [of "Suc i"] inj [OF True] len hd
      by (auto simp: q' l nth_append Suc_le_eq split: nat.splits)
  next
    case False
    with that have "i = Suc (length vs)" by simp
    then show ?thesis using len by (simp add: q' nth_append)
  qed
  show ?thesis
    unfolding represents_def
  proof (intro conjI ballI allI impI)
    fix m assume "m \<in> insert l pend"
    then show "\<exists>i < length (vs @ [t]). m = ((as @ [?n]) ! i, (as @ [?n]) ! Suc i)"
    proof
      assume "m = l"
      then show ?thesis using len hd by (intro exI [of _ "length vs"]) (simp add: l nth_append)
    next
      assume "m \<in> pend"
      then obtain i where "i < length vs" "m = (as ! i, as ! Suc i)" using assms(1) by (auto simp: represents_def)
      then show ?thesis using len by (intro exI [of _ i]) (simp add: nth_append)
    qed
  qed (use assms(1) len dist lt fresh node' in \<open>auto simp: q' represents_def nth_append less_SucI\<close>)
qed

lemma represents_link:
  assumes "represents q pend as vs" "l \<in> pend"
  shows "\<exists>q'. push_link l q = Some q' \<and> represents q' (pend - {l}) as vs"
proof -
  obtain i where i: "i < length vs" "l = (as ! i, as ! Suc i)" using assms by (auto simp: represents_def)
  have len: "length as = Suc (length vs)" and dist: "distinct as" using assms(1) by (auto simp: represents_def)
  have inj: "as ! j = as ! k \<longleftrightarrow> j = k" if "j \<le> length vs" "k \<le> length vs" for j k
    using that dist len by (simp add: nth_eq_iff_index_eq)
  note node = represents_node [OF assms(1)]
  let ?nd = "\<lparr>qn_next = Some (as ! Suc i), qn_value = (case i of 0 \<Rightarrow> None | Suc j \<Rightarrow> Some (vs ! j))\<rparr>"
  let ?q = "q\<lparr>q_mem := (q_mem q)(as ! i \<mapsto> ?nd)\<rparr>"
  have "push_link l q = Some ?q" using node [of i] i by (simp add: push_link_def)
  moreover have "represents ?q (pend - {l}) as vs"
    using assms(1) node i inj len
    unfolding represents_def by (auto simp: Suc_le_eq split: nat.splits)
  ultimately show ?thesis by blast
qed

lemma represents_cases:
  assumes "represents q pend as vs"
  obtains (empty) a where "as = [a]" "vs = []" | (cons) a b as' v vs' where "as = a # b # as'" "vs = v # vs'"
proof (cases vs)
  case Nil
  then have "length as = 1" using assms by (simp add: represents_def)
  then show ?thesis using Nil empty by (auto simp: length_Suc_conv)
next
  case (Cons v vs')
  then have "length as = Suc (Suc (length vs'))" using assms by (simp add: represents_def)
  then show ?thesis using Cons cons by (auto simp: length_Suc_conv)
qed

lemma represents_pop_empty:
  assumes "represents q pend as []"
  shows "queue_pop q = Some (q, PopEmpty)"
  using assms by (auto simp: represents_def queue_pop_def)

lemma represents_pop_cons:
  assumes "represents q pend (a # b # as) (v # vs)"
  shows "if (a, b) \<in> pend then queue_pop q = Some (q, PopInconsistent)
    else \<exists>q'. queue_pop q = Some (q', PopData v) \<and> represents q' pend (b # as) vs"
proof -
  note node = represents_node [OF assms]
  have ends: "q_tail q = a" "q_head q = (b # as) ! length vs" and dist: "distinct (a # b # as)" and len: "length as = length vs"
    using assms by (auto simp: represents_def)
  show ?thesis
  proof (cases "(a, b) \<in> pend")
    case True
    then have "q_head q \<noteq> a" using ends(2) dist len by (metis distinct.simps(2) length_Cons lessI nth_mem)
    then show ?thesis using True node [of 0] by (simp add: queue_pop_def ends(1))
  next
    case False
    let ?nb = "\<lparr>qn_next = (if vs \<noteq> [] \<and> (b, as ! 0) \<notin> pend then Some (as ! 0) else None), qn_value = Some v\<rparr>"
    have nb: "q_mem q b = Some ?nb" using node [of 1] by simp
    let ?q = "q\<lparr>q_mem := (q_mem q)(b \<mapsto> ?nb\<lparr>qn_value := None\<rparr>, a := None), q_tail := b\<rparr>"
    have "queue_pop q = Some (?q, PopData v)"
      using False node [of 0] nb by (simp add: queue_pop_def ends(1) Let_def)
    moreover have "represents ?q pend (b # as) vs"
      unfolding represents_def
    proof (intro conjI ballI allI impI)
      fix i assume i: "i \<le> length vs"
      have "(b # as) ! i \<noteq> a" using i len dist by (metis distinct.simps(2) length_Cons le_imp_less_Suc nth_mem)
      moreover have "(b # as) ! i = b \<longleftrightarrow> i = 0" using i len dist by (cases i) (auto simp: in_set_conv_nth)
      ultimately show "q_mem ?q ((b # as) ! i) = Some \<lparr>qn_next = (if i < length vs \<and> ((b # as) ! i, (b # as) ! Suc i) \<notin> pend
          then Some ((b # as) ! Suc i) else None), qn_value = (case i of 0 \<Rightarrow> None | Suc j \<Rightarrow> Some (vs ! j))\<rparr>"
        using node [of "Suc i"] nb i by (auto split: nat.splits)
    next
      fix l assume l: "l \<in> pend"
      then obtain i where i: "i < Suc (length vs)" "l = ((a # b # as) ! i, (a # b # as) ! Suc i)"
        using assms by (auto simp: represents_def)
      then have "i \<noteq> 0" using False l by (metis nth_Cons_0 nth_Cons_Suc)
      then show "\<exists>i < length vs. l = ((b # as) ! i, (b # as) ! Suc i)" using i by (cases i) auto
    qed (use assms dist ends(2) len in \<open>auto simp: represents_def\<close>)
    ultimately show ?thesis using False by simp
  qed
qed

section \<open>One thread at a time\<close>

text \<open>Without pushes in flight the queue is a list: push appends, pop takes the first value.\<close>

lemma queue_push_represents:
  assumes "represents q {} as vs"
  shows "\<exists>q'. queue_push t q = Some q' \<and> represents q' {} (as @ [q_brk q]) (vs @ [t])"
proof -
  obtain q1 l where s: "push_swap t q = (q1, l)" by (cases "push_swap t q")
  from represents_link [OF represents_swap [OF assms s], of l] s show ?thesis by (simp add: queue_push_def)
qed

lemma pop_spin_empty: "represents q pend as [] \<Longrightarrow> pop_spin others q = Some (q, None)"
  by (subst pop_spin.simps) (simp add: represents_pop_empty)

text \<open>
  \<open>pop_spin\<close> returns the first value as soon as the push of that value is finished, whatever other
  pushes are begun and finished while it spins.
\<close>

lemma pop_spin_first:
  assumes "\<And>k. k \<le> n \<Longrightarrow> \<exists>pend as vs. represents ((others ^^ k) q) pend as (v # vs) \<and> (k = n \<longrightarrow> pend = {})"
  shows "\<exists>q' as vs pend. pop_spin others q = Some (q', Some v) \<and> represents q' pend as vs"
  using assms
proof (induction n arbitrary: q)
  case 0
  then obtain as vs where r: "represents q {} as (v # vs)" by fastforce
  then obtain a b as' where "as = a # b # as'" by (cases rule: represents_cases) auto
  with represents_pop_cons [of q "{}" a b as' v vs] r show ?case by (subst pop_spin.simps) (auto, blast)
next
  case (Suc n)
  from Suc.prems [of 0] obtain pend as vs where r: "represents q pend as (v # vs)" by auto
  then obtain a b as' where as: "as = a # b # as'" by (cases rule: represents_cases) auto
  have rest: "\<exists>q' as vs pend. pop_spin others (others q) = Some (q', Some v) \<and> represents q' pend as vs"
    using Suc.prems [of "Suc k" for k] by (intro Suc.IH) (simp add: funpow_swap1)
  from represents_pop_cons [of q pend a b as' v vs] r as rest show ?case
    by (subst pop_spin.simps) (auto split: if_splits, blast)
qed

text \<open>Dropping a queue frees every node, also those of values never popped.\<close>

lemma free_nodes_along:
  assumes "\<And>i. i < length as \<Longrightarrow> \<exists>nd. mem (as ! i) = Some nd \<and> qn_next nd = (if Suc i < length as then Some (as ! Suc i) else None)"
    and "distinct as" "as \<noteq> []"
  shows "free_nodes mem (Some (as ! 0)) = Some (mem |` (- set as))"
  using assms
proof (induction as arbitrary: mem)
  case (Cons a as)
  obtain nd where nd: "mem a = Some nd" "qn_next nd = (if as \<noteq> [] then Some (as ! 0) else None)"
    using Cons.prems(1) [of 0] by auto
  show ?case
  proof (cases "as = []")
    case True
    then show ?thesis using nd by (subst free_nodes.simps) (subst free_nodes.simps, auto simp: restrict_map_def fun_eq_iff)
  next
    case False
    have "free_nodes (mem(a := None)) (Some (as ! 0)) = Some (mem(a := None) |` (- set as))"
    proof (rule Cons.IH)
      fix i assume "i < length as"
      then show "\<exists>nd. (mem(a := None)) (as ! i) = Some nd \<and> qn_next nd = (if Suc i < length as then Some (as ! Suc i) else None)"
        using Cons.prems(1) [of "Suc i"] Cons.prems(2) by (auto dest: nth_mem)
    qed (use Cons.prems False in auto)
    then show ?thesis using nd False by (subst free_nodes.simps) (auto simp: restrict_map_def fun_eq_iff)
  qed
qed simp

lemma queue_drop_frees:
  assumes "represents q {} as vs"
  shows "queue_drop q = Some Map.empty"
proof -
  have len: "length as = Suc (length vs)" and dom: "dom (q_mem q) = set as" and "distinct as" "as ! 0 = q_tail q" "as \<noteq> []"
    using assms by (auto simp: represents_def)
  then have "queue_drop q = Some (q_mem q |` (- set as))"
    using free_nodes_along [of as "q_mem q"] represents_node [OF assms] by (auto simp: queue_drop_def less_Suc_eq_le Suc_le_eq)
  also have "q_mem q |` (- set as) = Map.empty" using dom by (auto simp: restrict_map_def fun_eq_iff domIff)
  finally show ?thesis .
qed

section \<open>Interleaved threads\<close>

text \<open>
  The runs of any number of pushing threads and the one popping thread: the queue, the links
  still to be stored, the values pushed so far in the order of their swaps, and the values
  popped so far.
\<close>

inductive queue_run :: "'a queue \<Rightarrow> (nat \<times> nat) set \<Rightarrow> 'a list \<Rightarrow> 'a list \<Rightarrow> bool" where
  run_new: "queue_run queue_new {} [] []"
| run_swap: "queue_run q pend ins outs \<Longrightarrow> push_swap t q = (q', l) \<Longrightarrow> queue_run q' (insert l pend) (ins @ [t]) outs"
| run_link: "queue_run q pend ins outs \<Longrightarrow> l \<in> pend \<Longrightarrow> push_link l q = Some q' \<Longrightarrow> queue_run q' (pend - {l}) ins outs"
| run_pop: "queue_run q pend ins outs \<Longrightarrow> queue_pop q = Some (q', PopData v) \<Longrightarrow> queue_run q' pend ins (outs @ [v])"

lemma queue_run_represents:
  assumes "queue_run q pend ins outs"
  shows "\<exists>as vs. represents q pend as vs \<and> ins = outs @ vs"
  using assms
proof induction
  case run_new
  then show ?case using represents_new by fastforce
next
  case (run_swap q pend ins outs t q' l)
  then obtain as vs where r: "represents q pend as vs" "ins = outs @ vs" by blast
  have "represents q' (insert l pend) (as @ [q_brk q]) (vs @ [t])" using represents_swap [OF r(1) run_swap.hyps(2)] .
  then show ?case using r(2) by fastforce
next
  case (run_link q pend ins outs l q')
  then obtain as vs where r: "represents q pend as vs" "ins = outs @ vs" by blast
  have "represents q' (pend - {l}) as vs" using represents_link [OF r(1) run_link.hyps(2)] run_link.hyps(3) by auto
  then show ?case using r(2) by blast
next
  case (run_pop q pend ins outs q' v)
  then obtain as vs where r: "represents q pend as vs" "ins = outs @ vs" by blast
  from r(1) show ?case
  proof (cases rule: represents_cases)
    case empty
    then show ?thesis using represents_pop_empty r(1) run_pop.hyps(2) by fastforce
  next
    case (cons a b as' w vs')
    have "represents q' pend (b # as') vs' \<and> w = v"
      using represents_pop_cons [of q pend a b as' w vs'] r(1) run_pop.hyps(2) cons by (auto split: if_splits)
    then show ?thesis using r(2) cons(2) by fastforce
  qed
qed



end
