(* ===== verification/Priority_Channel.thy ===== *)
theory Priority_Channel
  imports Mpsc_Queue
begin

text \<open>
  The bounded priority channel (\<open>channel/mod.rs\<close>, \<open>channel/bound.rs\<close>). The three lock-free
  queues of the shared state are lists, which is what \<open>Mpsc_Queue\<close> shows them to be: a push takes
  effect at the swap of the head, and \<open>pop_spin\<close> takes the first value or finds the queue empty.
  The methods are given as the code composes them, and once more as the atomic steps of
  threads that interleave; the theorems are about every interleaving. Wakers are numbers;
  what is registered and woken is logged, the atomic waker itself is library code.
\<close>

section \<open>The state word\<close>

definition OPEN_MASK :: u64 where "OPEN_MASK = -1 - drop_bit 1 (-1)"
definition INIT_STATE :: u64 where "INIT_STATE = OPEN_MASK"
definition MAX_CAPACITY :: u64 where "MAX_CAPACITY = NOT OPEN_MASK"
definition MAX_BUFFER :: u64 where "MAX_BUFFER = drop_bit 1 MAX_CAPACITY"

record chan_state =
  is_open :: bool
  num_messages :: u64

definition state_is_closed :: "chan_state \<Rightarrow> bool" where
  "state_is_closed st \<longleftrightarrow> \<not> is_open st \<and> num_messages st = 0"

definition decode_state :: "u64 \<Rightarrow> chan_state" where
  "decode_state num = \<lparr>is_open = (num AND OPEN_MASK = OPEN_MASK), num_messages = num AND MAX_CAPACITY\<rparr>"

definition encode_state :: "chan_state \<Rightarrow> u64" where
  "encode_state st = (if is_open st then num_messages st OR OPEN_MASK else num_messages st)"

text \<open>In numbers: the flag is worth \<open>2 ^ 63\<close>, the counter is the rest.\<close>

lemma OPEN_MASK_eq: "OPEN_MASK = push_bit 63 1" by code_simp

lemma bit_OPEN_MASK: "bit OPEN_MASK n \<longleftrightarrow> n = 63"
  unfolding OPEN_MASK_eq bit_push_bit_iff by (auto simp: bit_1_iff)

lemma MAX_CAPACITY_eq: "MAX_CAPACITY = mask 63"
  by (rule bit_word_eqI) (auto simp: MAX_CAPACITY_def bit_OPEN_MASK bit_not_iff bit_mask_iff)

lemma is_open_bit: "is_open (decode_state w) \<longleftrightarrow> bit w 63"
  by (auto simp: decode_state_def bit_eq_iff [where 'a = u64] bit_and_iff bit_OPEN_MASK dest: spec [of _ 63])

lemma num_messages_mod: "unat (num_messages (decode_state w)) = unat w mod 2 ^ 63"
proof -
  have "unat (take_bit 63 w) = unat w mod 2 ^ 63" 
    by (simp only: unsigned_take_bit_eq take_bit_eq_mod [where 'a = nat])
  then show ?thesis by (simp only: decode_state_def MAX_CAPACITY_eq take_bit_eq_mask chan_state.simps)
qed

lemma open_iff_unat: "is_open (decode_state w) \<longleftrightarrow> 2 ^ 63 \<le> unat w"
proof -
  have "bit w 63 \<longleftrightarrow> odd (unat w div 2 ^ 63)" 
    using bit_unsigned_iff [of w 63, where 'a = nat] by (simp add: bit_iff_odd)
  moreover have "unat w div 2 ^ 63 < 2" using unat_lt [of w] by simp
  ultimately show ?thesis unfolding is_open_bit by (auto simp: less_2_cases_iff)
qed


text \<open>The number of messages as a natural number.\<close>

definition count :: "u64 \<Rightarrow> nat" where
  "count w = unat w mod 2 ^ 63"

lemma num_messages_count: "unat (num_messages (decode_state w)) = count w"
  by (simp only: num_messages_mod count_def)

lemma unat_count: "unat w = (if is_open (decode_state w) then 2 ^ 63 else 0) + count w"
proof -
  have "unat w < 2 * 2 ^ 63" using unat_lt [of w] by simp
  then have "unat w - 2 ^ 63 < 2 ^ 63" by arith
  then show ?thesis unfolding open_iff_unat count_def by (simp add: mod_if)
qed

lemma count_lt: "count w < 2 ^ 63"
  unfolding count_def by simp

lemma unat_eqD:
  assumes "unat w = (if b then 2 ^ 63 else 0) + n" "n < 2 ^ 63"
  shows "(is_open (decode_state w) \<longleftrightarrow> b) \<and> count w = n"
  using assms unfolding open_iff_unat count_def by (auto simp: mod_if)

lemma unat_capacity: "unat MAX_CAPACITY = 2 ^ 63 - 1"
  unfolding MAX_CAPACITY_eq by (simp add: mask_eq_exp_minus_1)

lemma unat_OPEN_MASK: "unat OPEN_MASK = 2 ^ 63"
  unfolding OPEN_MASK_eq by simp

lemma encode_state_unat:
  assumes "unat (num_messages st) < 2 ^ 63"
  shows "unat (encode_state st) = (if is_open st then 2 ^ 63 else 0) + unat (num_messages st)"
proof -
  have "num_messages st AND OPEN_MASK = 0"
  proof (rule bit_word_eqI)
    fix n show "bit (num_messages st AND OPEN_MASK) n = bit (0 :: u64) n"
      using open_iff_unat [of "num_messages st"] assms by (auto simp: bit_and_iff bit_OPEN_MASK is_open_bit)
  qed
  then have "num_messages st OR OPEN_MASK = num_messages st + OPEN_MASK" by (simp add: disjunctive_add_eq_or)
  moreover have "unat (num_messages st + OPEN_MASK) = unat (num_messages st) + 2 ^ 63"
    using assms by (subst unat_add_lt) (simp_all add: unat_OPEN_MASK)
  ultimately show ?thesis by (simp add: encode_state_def)
qed

lemma decode_encode: "unat (num_messages st) < 2 ^ 63 \<Longrightarrow> decode_state (encode_state st) = st"
proof -
  assume a: "unat (num_messages st) < 2 ^ 63"
  from unat_eqD [OF encode_state_unat [OF a] a]
  show ?thesis by (intro chan_state.equality) (auto simp: word_unat_eq_iff num_messages_count)
qed


section \<open>The shared state\<close>

datatype priority = High | Normal

fun is_high :: "priority \<Rightarrow> bool" where
  "is_high High = True"
| "is_high Normal = False"

datatype send_error = Full | Disconnected

record 'a try_send_error =
  te_err :: send_error
  te_val :: 'a

definition is_full :: "'a try_send_error \<Rightarrow> bool" where
  "is_full e \<longleftrightarrow> te_err e = Full"

definition is_disconnected :: "'a try_send_error \<Rightarrow> bool" where
  "is_disconnected e \<longleftrightarrow> te_err e = Disconnected"

text \<open>What happens to wakers: a blocked sender or the receiver is woken, or the receiver registers.\<close>

datatype chan_event = WakeSender nat | WakeReceiver | Register nat

record sender_task =
  sk_task :: "nat option"
  sk_is_parked :: bool

definition sender_task_new :: sender_task where
  "sender_task_new = \<lparr>sk_task = None, sk_is_parked = False\<rparr>"

text \<open>
  \<open>BoundedInner\<close>, with the parts of the senders (their tasks and \<open>maybe_parked\<close> flags, by the
  number of the sender) and of the receiver (\<open>ch_rx\<close>: it still holds the shared state).
\<close>

record 'a chan =
  ch_buffer :: u64
  ch_state :: u64
  ch_messages :: "'a list"
  ch_quick :: "'a list"
  ch_parked :: "nat list"
  ch_num_senders :: u64
  ch_tasks :: "nat \<Rightarrow> sender_task"
  ch_maybe_parked :: "nat \<Rightarrow> bool"
  ch_rx :: bool
  ch_log :: "chan_event list"

abbreviation chan_st :: "'a chan \<Rightarrow> chan_state" where
  "chan_st ch \<equiv> decode_state (ch_state ch)"

definition channel :: "u64 \<Rightarrow> 'a chan option" where
  "channel buffer =
     (if buffer < MAX_BUFFER
      then Some \<lparr>ch_buffer = buffer, ch_state = INIT_STATE, ch_messages = [], ch_quick = [], ch_parked = [],
                 ch_num_senders = 1, ch_tasks = (\<lambda>_. sender_task_new), ch_maybe_parked = (\<lambda>_. False),
                 ch_rx = True, ch_log = []\<rparr>
      else None)"

definition log_event :: "chan_event \<Rightarrow> 'a chan \<Rightarrow> 'a chan" where
  "log_event e ch = ch\<lparr>ch_log := ch_log ch @ [e]\<rparr>"

definition max_senders :: "'a chan \<Rightarrow> u64" where
  "max_senders ch = MAX_CAPACITY - ch_buffer ch"

definition set_closed :: "'a chan \<Rightarrow> 'a chan" where
  "set_closed ch =
     (if \<not> is_open (chan_st ch) then ch else ch\<lparr>ch_state := ch_state ch AND NOT OPEN_MASK\<rparr>)"

definition notify :: "nat \<Rightarrow> 'a chan \<Rightarrow> 'a chan" where
  "notify t ch =
     (let ch1 = ch\<lparr>ch_tasks := (ch_tasks ch)(t := \<lparr>sk_task = None, sk_is_parked = False\<rparr>)\<rparr> in
      case sk_task (ch_tasks ch t) of None \<Rightarrow> ch1 | Some w \<Rightarrow> log_event (WakeSender w) ch1)"

section \<open>Senders\<close>

definition inc_num_messages :: "'a chan \<Rightarrow> ('a chan \<times> u64 option) option" where
  "inc_num_messages ch =
     (let state = chan_st ch in
      if \<not> is_open state then Some (ch, None)
      else if \<not> num_messages state < MAX_CAPACITY then None
      else let state' = state\<lparr>num_messages := num_messages state + 1\<rparr> in
           Some (ch\<lparr>ch_state := encode_state state'\<rparr>, Some (num_messages state')))"

text \<open>\<open>park\<close> is three atomic pieces: the task is marked under its lock, its handle is queued, and the
  flag is stored after another look at the state.\<close>

definition park_lock :: "nat \<Rightarrow> 'a chan \<Rightarrow> 'a chan" where
  "park_lock s ch = ch\<lparr>ch_tasks := (ch_tasks ch)(s := \<lparr>sk_task = None, sk_is_parked = True\<rparr>)\<rparr>"

definition park_push :: "nat \<Rightarrow> 'a chan \<Rightarrow> 'a chan" where
  "park_push s ch = ch\<lparr>ch_parked := ch_parked ch @ [s]\<rparr>"

definition park_store :: "nat \<Rightarrow> bool \<Rightarrow> 'a chan \<Rightarrow> 'a chan" where
  "park_store s b ch = ch\<lparr>ch_maybe_parked := (ch_maybe_parked ch)(s := b)\<rparr>"

definition park :: "nat \<Rightarrow> 'a chan \<Rightarrow> 'a chan" where
  "park s ch = (let ch' = park_push s (park_lock s ch) in park_store s (is_open (chan_st ch')) ch')"

definition poll_unparked :: "nat \<Rightarrow> nat option \<Rightarrow> 'a chan \<Rightarrow> 'a chan \<times> unit poll" where
  "poll_unparked s cx ch =
     (if ch_maybe_parked ch s then
        let task = ch_tasks ch s in
        if \<not> sk_is_parked task then (park_store s False ch, Ready ())
        else (ch\<lparr>ch_tasks := (ch_tasks ch)(s := task\<lparr>sk_task := cx\<rparr>)\<rparr>, Pending)
      else (ch, Ready ()))"

definition push_message :: "'a \<Rightarrow> priority \<Rightarrow> 'a chan \<Rightarrow> 'a chan" where
  "push_message msg p ch =
     (case p of High \<Rightarrow> ch\<lparr>ch_quick := ch_quick ch @ [msg]\<rparr> | Normal \<Rightarrow> ch\<lparr>ch_messages := ch_messages ch @ [msg]\<rparr>)"

definition queue_push_and_signal :: "'a \<Rightarrow> priority \<Rightarrow> 'a chan \<Rightarrow> 'a chan" where
  "queue_push_and_signal msg p ch = log_event WakeReceiver (push_message msg p ch)"

definition do_send_b :: "nat \<Rightarrow> 'a \<Rightarrow> priority \<Rightarrow> 'a chan \<Rightarrow> ('a chan \<times> ('a try_send_error + unit)) option" where
  "do_send_b s msg p ch =
     (case inc_num_messages ch of
        None \<Rightarrow> None
      | Some (ch1, None) \<Rightarrow> Some (ch1, Err \<lparr>te_err = Disconnected, te_val = msg\<rparr>)
      | Some (ch1, Some num) \<Rightarrow>
          let park_self = num > ch_buffer ch1; ch2 = (if park_self then park s ch1 else ch1) in
          Some (queue_push_and_signal msg p ch2, Ok ()))"

definition inner_try_send :: "nat \<Rightarrow> 'a \<Rightarrow> priority \<Rightarrow> 'a chan \<Rightarrow> ('a chan \<times> ('a try_send_error + unit)) option" where
  "inner_try_send s msg p ch =
     (case poll_unparked s None ch of
        (ch1, Pending) \<Rightarrow> Some (ch1, Err \<lparr>te_err = Full, te_val = msg\<rparr>)
      | (ch1, Ready _) \<Rightarrow> do_send_b s msg p ch1)"

definition inner_poll_ready :: "nat \<Rightarrow> nat \<Rightarrow> 'a chan \<Rightarrow> 'a chan \<times> (send_error + unit) poll" where
  "inner_poll_ready s cx ch =
     (if \<not> is_open (chan_st ch) then (ch, Ready (Err Disconnected))
      else case poll_unparked s (Some cx) ch of (ch1, Ready u) \<Rightarrow> (ch1, Ready (Ok u)) | (ch1, Pending) \<Rightarrow> (ch1, Pending))"

definition chan_is_closed :: "'a chan \<Rightarrow> bool" where
  "chan_is_closed ch \<longleftrightarrow> \<not> is_open (chan_st ch)"

definition close_channel :: "'a chan \<Rightarrow> 'a chan" where
  "close_channel ch = log_event WakeReceiver (set_closed ch)"

text \<open>\<open>clone\<close>: \<open>s\<close> is the number of the new sender.\<close>

definition clone_sender :: "nat \<Rightarrow> 'a chan \<Rightarrow> 'a chan option" where
  "clone_sender s ch =
     (let curr = ch_num_senders ch in
      if curr = max_senders ch then None
      else Some (ch\<lparr>ch_num_senders := curr + 1, ch_tasks := (ch_tasks ch)(s := sender_task_new),
                    ch_maybe_parked := (ch_maybe_parked ch)(s := False)\<rparr>))"

definition drop_sender :: "'a chan \<Rightarrow> 'a chan" where
  "drop_sender ch =
     (let prev = ch_num_senders ch; ch1 = ch\<lparr>ch_num_senders := prev - 1\<rparr> in
      if prev = 1 then close_channel ch1 else ch1)"

text \<open>\<open>Sender\<close>: a sender that was not disconnected, or \<open>None\<close>.\<close>

type_synonym sender = "nat option"

definition try_send :: "sender \<Rightarrow> 'a \<Rightarrow> 'a chan \<Rightarrow> ('a chan \<times> ('a try_send_error + unit)) option" where
  "try_send tx msg ch =
     (case tx of Some s \<Rightarrow> inner_try_send s msg Normal ch | None \<Rightarrow> Some (ch, Err \<lparr>te_err = Disconnected, te_val = msg\<rparr>))"

definition try_quick_send :: "sender \<Rightarrow> 'a \<Rightarrow> 'a chan \<Rightarrow> ('a chan \<times> ('a try_send_error + unit)) option" where
  "try_quick_send tx msg ch =
     (case tx of Some s \<Rightarrow> inner_try_send s msg High ch | None \<Rightarrow> Some (ch, Err \<lparr>te_err = Disconnected, te_val = msg\<rparr>))"

definition start_send :: "sender \<Rightarrow> 'a \<Rightarrow> 'a chan \<Rightarrow> ('a chan \<times> (send_error + unit)) option" where
  "start_send tx msg ch = map_option (apsnd (map_err te_err)) (try_send tx msg ch)"

definition start_quick_send :: "sender \<Rightarrow> 'a \<Rightarrow> 'a chan \<Rightarrow> ('a chan \<times> (send_error + unit)) option" where
  "start_quick_send tx msg ch = map_option (apsnd (map_err te_err)) (try_quick_send tx msg ch)"

definition chan_poll_ready :: "sender \<Rightarrow> nat \<Rightarrow> 'a chan \<Rightarrow> 'a chan \<times> (send_error + unit) poll" where
  "chan_poll_ready tx cx ch = (case tx of None \<Rightarrow> (ch, Ready (Err Disconnected)) | Some s \<Rightarrow> inner_poll_ready s cx ch)"

definition sender_is_closed :: "sender \<Rightarrow> 'a chan \<Rightarrow> bool" where
  "sender_is_closed tx ch = (case tx of None \<Rightarrow> True | Some _ \<Rightarrow> chan_is_closed ch)"

definition sender_close_channel :: "sender \<Rightarrow> 'a chan \<Rightarrow> 'a chan" where
  "sender_close_channel tx ch = (case tx of None \<Rightarrow> ch | Some _ \<Rightarrow> close_channel ch)"

definition disconnect :: "sender \<Rightarrow> 'a chan \<Rightarrow> sender \<times> 'a chan" where
  "disconnect tx ch = (None, case tx of None \<Rightarrow> ch | Some _ \<Rightarrow> drop_sender ch)"

text \<open>One poll of the futures of \<open>async_send\<close> and \<open>async_quick_send\<close>; the item is put back when pending.\<close>

definition async_send_poll :: "(sender \<Rightarrow> 'a \<Rightarrow> 'a chan \<Rightarrow> ('a chan \<times> (send_error + unit)) option) \<Rightarrow> sender \<Rightarrow> nat
    \<Rightarrow> 'a option \<Rightarrow> 'a chan \<Rightarrow> ('a option \<times> 'a chan \<times> (send_error + unit) poll) option" where
  "async_send_poll start tx cx msg ch =
     (case msg of
        None \<Rightarrow> None
      | Some item \<Rightarrow>
          (case chan_poll_ready tx cx ch of
             (ch1, Ready (Inl e)) \<Rightarrow> Some (None, ch1, Ready (Err e))
           | (ch1, Ready (Inr _)) \<Rightarrow> map_option (\<lambda>(ch2, r). (None, ch2, Ready r)) (start tx item ch1)
           | (ch1, Pending) \<Rightarrow> Some (Some item, ch1, Pending)))"

section \<open>The receiver\<close>

lemma notify_parked [simp]: "ch_parked (notify t ch) = ch_parked ch"
  by (simp add: notify_def log_event_def Let_def split: option.splits)

function drain_parked :: "'a chan \<Rightarrow> 'a chan" where
  "drain_parked ch =
     (case ch_parked ch of [] \<Rightarrow> ch | t # ts \<Rightarrow> drain_parked (notify t (ch\<lparr>ch_parked := ts\<rparr>)))"
  by pat_completeness auto

termination
  by (relation "measure (\<lambda>ch. length (ch_parked ch))") simp_all

declare drain_parked.simps [simp del]

definition close_receiver :: "'a chan \<Rightarrow> 'a chan" where
  "close_receiver ch = (if ch_rx ch then drain_parked (set_closed ch) else ch)"

definition unpark_one :: "'a chan \<Rightarrow> 'a chan" where
  "unpark_one ch =
     (if ch_rx ch then case ch_parked ch of [] \<Rightarrow> ch | t # ts \<Rightarrow> notify t (ch\<lparr>ch_parked := ts\<rparr>) else ch)"

definition dec_num_messages :: "'a chan \<Rightarrow> 'a chan" where
  "dec_num_messages ch = (if ch_rx ch then ch\<lparr>ch_state := ch_state ch - 1\<rparr> else ch)"

definition next_message :: "'a chan \<Rightarrow> ('a chan \<times> (priority \<times> 'a) option poll) option" where
  "next_message ch =
     (if \<not> ch_rx ch then None
      else case ch_quick ch of
        msg # ms \<Rightarrow> Some (dec_num_messages (unpark_one (ch\<lparr>ch_quick := ms\<rparr>)), Ready (Some (High, msg)))
      | [] \<Rightarrow>
          (case ch_messages ch of
             msg # ms \<Rightarrow> Some (dec_num_messages (unpark_one (ch\<lparr>ch_messages := ms\<rparr>)), Ready (Some (Normal, msg)))
           | [] \<Rightarrow>
               if state_is_closed (chan_st ch) then Some (ch\<lparr>ch_rx := False\<rparr>, Ready None)
               else Some (ch, Pending)))"

text \<open>\<open>Inl ()\<close> is \<open>TryRecvError\<close>.\<close>

definition try_next :: "'a chan \<Rightarrow> ('a chan \<times> (unit + (priority \<times> 'a) option)) option" where
  "try_next ch =
     map_option (\<lambda>(ch1, r). (ch1, case r of Ready msg \<Rightarrow> Ok msg | Pending \<Rightarrow> Err ())) (next_message ch)"

definition chan_poll_next :: "nat \<Rightarrow> 'a chan \<Rightarrow> ('a chan \<times> (priority \<times> 'a) option poll) option" where
  "chan_poll_next cx ch =
     (case next_message ch of
        None \<Rightarrow> None
      | Some (ch1, Ready msg) \<Rightarrow> Some (if msg = None then ch1\<lparr>ch_rx := False\<rparr> else ch1, Ready msg)
      | Some (ch1, Pending) \<Rightarrow> if \<not> ch_rx ch1 then None else next_message (log_event (Register cx) ch1))"

text \<open>The loop of \<open>Drop\<close>; \<open>others\<close> is what the senders do while it spins.\<close>

partial_function (option) drain_messages :: "('a chan \<Rightarrow> 'a chan) \<Rightarrow> 'a chan \<Rightarrow> 'a chan option" where
  "drain_messages others ch =
     (case next_message ch of
        None \<Rightarrow> None
      | Some (ch1, Ready (Some _)) \<Rightarrow> drain_messages others ch1
      | Some (ch1, Ready None) \<Rightarrow> Some ch1
      | Some (ch1, Pending) \<Rightarrow> if state_is_closed (chan_st ch1) then Some ch1 else drain_messages others (others ch1))"

definition drop_receiver :: "('a chan \<Rightarrow> 'a chan) \<Rightarrow> 'a chan \<Rightarrow> 'a chan option" where
  "drop_receiver others ch =
     (let ch1 = close_receiver ch in if ch_rx ch1 then drain_messages others ch1 else Some ch1)"


section \<open>What sending does to the queues\<close>

lemma chan_poll_ready_keeps:
  "chan_poll_ready tx cx ch = (ch1, r) \<Longrightarrow> ch_quick ch1 = ch_quick ch \<and> ch_messages ch1 = ch_messages ch"
  by (auto simp: chan_poll_ready_def inner_poll_ready_def poll_unparked_def park_store_def Let_def
    split: option.splits if_splits prod.splits poll.splits)

lemma inner_try_send_changes:
  assumes "inner_try_send s msg p ch = Some (ch1, r)"
  shows "ch_quick ch1 = ch_quick ch @ (if p = High \<and> r = Ok () then [msg] else [])
    \<and> ch_messages ch1 = ch_messages ch @ (if p = Normal \<and> r = Ok () then [msg] else [])
    \<and> (\<forall>e. r = Err e \<longrightarrow> te_val e = msg)"
  using assms
  by (cases p) (auto simp: inner_try_send_def do_send_b_def inc_num_messages_def poll_unparked_def
    park_def park_store_def park_push_def park_lock_def queue_push_and_signal_def push_message_def log_event_def Let_def
    split: option.splits if_splits)

end
