(* ===== verification/Channel_Threads.thy ===== *)
theory Channel_Threads
  imports Priority_Channel
begin

text \<open>
  The bounded channel under concurrency: any number of threads send, poll and close while the
  receiver receives, one atomic step at a time. A call of \<open>try_send\<close>, \<open>close_channel\<close>,
  \<open>poll_next\<close> or \<open>close\<close> is a program counter with its arguments; run without interruption the
  steps are the methods of \<open>Priority_Channel\<close>.
\<close>

section \<open>Atomic steps\<close>

datatype 'a send_call =
    Entered nat 'a priority
  | Unparked nat 'a priority
  | Counted nat 'a priority
  | Locked nat 'a priority
  | Listed nat 'a priority
  | Looked bool nat 'a priority
  | Pushing 'a priority
  | Pushed
  | Closing
  | ClosingWake
  | Returned "'a try_send_error + unit"

fun call_step :: "'a send_call \<Rightarrow> 'a chan \<Rightarrow> ('a chan \<times> 'a send_call) option" where
  "call_step (Entered s msg p) ch =
     (case poll_unparked s None ch of
        (ch1, Pending) \<Rightarrow> Some (ch1, Returned (Err \<lparr>te_err = Full, te_val = msg\<rparr>))
      | (ch1, Ready _) \<Rightarrow> Some (ch1, Unparked s msg p))"
| "call_step (Unparked s msg p) ch =
     (case inc_num_messages ch of
        None \<Rightarrow> None
      | Some (ch1, None) \<Rightarrow> Some (ch1, Returned (Err \<lparr>te_err = Disconnected, te_val = msg\<rparr>))
      | Some (ch1, Some num) \<Rightarrow> Some (ch1, if num > ch_buffer ch1 then Counted s msg p else Pushing msg p))"
| "call_step (Counted s msg p) ch = Some (park_lock s ch, Locked s msg p)"
| "call_step (Locked s msg p) ch = Some (park_push s ch, Listed s msg p)"
| "call_step (Listed s msg p) ch = Some (ch, Looked (is_open (chan_st ch)) s msg p)"
| "call_step (Looked b s msg p) ch = Some (park_store s b ch, Pushing msg p)"
| "call_step (Pushing msg p) ch = Some (push_message msg p ch, Pushed)"
| "call_step Pushed ch = Some (log_event WakeReceiver ch, Returned (Ok ()))"
| "call_step Closing ch = Some (set_closed ch, ClosingWake)"
| "call_step ClosingWake ch = Some (log_event WakeReceiver ch, Returned (Ok ()))"
| "call_step (Returned r) ch = Some (ch, Returned r)"

text \<open>The receiver: \<open>try_next\<close> looks once, \<open>poll_next\<close> a second time after registering its waker.\<close>

datatype rx_mode = Once | First nat | Second

datatype 'a rx_pc =
    Checking rx_mode
  | QuickEmpty rx_mode
  | BothEmpty rx_mode
  | Popped priority 'a
  | Notifying nat priority 'a
  | Freed priority 'a
  | Registering nat
  | Answer rx_mode "(priority \<times> 'a) option poll"
  | CloseStart
  | Draining
  | DrainNotify nat
  | RxIdle

fun rx_step :: "'a rx_pc \<Rightarrow> 'a chan \<Rightarrow> ('a chan \<times> 'a rx_pc) option" where
  "rx_step (Checking m) ch =
     (if \<not> ch_rx ch then None
      else case ch_quick ch of [] \<Rightarrow> Some (ch, QuickEmpty m) | msg # ms \<Rightarrow> Some (ch\<lparr>ch_quick := ms\<rparr>, Popped High msg))"
| "rx_step (QuickEmpty m) ch =
     (case ch_messages ch of [] \<Rightarrow> Some (ch, BothEmpty m) | msg # ms \<Rightarrow> Some (ch\<lparr>ch_messages := ms\<rparr>, Popped Normal msg))"
| "rx_step (BothEmpty m) ch =
     (if state_is_closed (chan_st ch) then Some (ch\<lparr>ch_rx := False\<rparr>, Answer m (Ready None))
      else Some (ch, case m of First cx \<Rightarrow> Registering cx | _ \<Rightarrow> Answer m Pending))"
| "rx_step (Popped p msg) ch =
     (case ch_parked ch of [] \<Rightarrow> Some (ch, Freed p msg) | t # ts \<Rightarrow> Some (ch\<lparr>ch_parked := ts\<rparr>, Notifying t p msg))"
| "rx_step (Notifying t p msg) ch = Some (notify t ch, Freed p msg)"
| "rx_step (Freed p msg) ch = Some (dec_num_messages ch, Answer Once (Ready (Some (p, msg))))"
| "rx_step (Registering cx) ch = Some (log_event (Register cx) ch, Checking Second)"
| "rx_step (Answer m r) ch = Some (ch, Answer m r)"
| "rx_step CloseStart ch = (if ch_rx ch then Some (set_closed ch, Draining) else Some (ch, RxIdle))"
| "rx_step Draining ch =
     (case ch_parked ch of [] \<Rightarrow> Some (ch, RxIdle) | t # ts \<Rightarrow> Some (ch\<lparr>ch_parked := ts\<rparr>, DrainNotify t))"
| "rx_step (DrainNotify t) ch = Some (notify t ch, Draining)"
| "rx_step RxIdle ch = Some (ch, RxIdle)"

section \<open>Uninterrupted, the steps are the methods\<close>

fun run_call :: "nat \<Rightarrow> 'a send_call \<Rightarrow> 'a chan \<Rightarrow> ('a chan \<times> 'a send_call) option" where
  "run_call 0 c ch = Some (ch, c)"
| "run_call (Suc n) c ch = (case call_step c ch of None \<Rightarrow> None | Some (ch1, c1) \<Rightarrow> run_call n c1 ch1)"

fun run_rx :: "nat \<Rightarrow> 'a rx_pc \<Rightarrow> 'a chan \<Rightarrow> ('a chan \<times> 'a rx_pc) option" where
  "run_rx 0 x ch = Some (ch, x)"
| "run_rx (Suc n) x ch = (case rx_step x ch of None \<Rightarrow> None | Some (ch1, x1) \<Rightarrow> run_rx n x1 ch1)"

lemma run_call_try_send:
  "run_call 8 (Entered s msg p) ch = map_option (\<lambda>(ch1, r). (ch1, Returned r)) (inner_try_send s msg p ch)"
  by (auto simp: eval_nat_numeral inner_try_send_def do_send_b_def park_def queue_push_and_signal_def Let_def
    split: prod.splits poll.splits option.splits)

lemma run_call_close:
  "run_call 2 Closing ch = Some (close_channel ch, Returned (Ok ()))"
  by (simp add: eval_nat_numeral close_channel_def)

lemma rx_frame [simp]:
  "ch_rx (notify t ch) = ch_rx ch" "ch_quick (notify t ch) = ch_quick ch" "ch_messages (notify t ch) = ch_messages ch"
  "ch_state (notify t ch) = ch_state ch" "ch_buffer (notify t ch) = ch_buffer ch"
  by (simp_all add: notify_def log_event_def Let_def split: option.splits)

lemma run_rx_next:
  "run_rx 6 (Checking Once) ch =
     (case next_message ch of
        None \<Rightarrow> None
      | Some (ch1, r) \<Rightarrow> Some (ch1, Answer Once r))"
  by (auto simp: eval_nat_numeral next_message_def unpark_one_def dec_num_messages_def split: list.splits)

lemma run_rx_poll:
  "case chan_poll_next cx ch of
     None \<Rightarrow> run_rx 9 (Checking (First cx)) ch = None
   | Some (ch1, r) \<Rightarrow> \<exists>m. run_rx 9 (Checking (First cx)) ch = Some (ch1, Answer m r)"
  by (auto simp: eval_nat_numeral chan_poll_next_def next_message_def unpark_one_def dec_num_messages_def log_event_def
    split: list.splits option.splits)


lemma run_rx_close:
  assumes "ch_rx ch"
  shows "\<exists>n. run_rx n Draining ch = Some (drain_parked ch, RxIdle)"
  using assms
proof (induction "ch_parked ch" arbitrary: ch)
  case Nil
  then show ?case by (intro exI [of _ 1]) (simp add: drain_parked.simps [of ch] split: list.splits)
next
  case (Cons t ts)
  let ?ch = "notify t (ch\<lparr>ch_parked := ts\<rparr>)"
  have "ts = ch_parked ?ch" by simp
  moreover have "ch_rx ?ch" using Cons.prems by simp
  ultimately obtain n where "run_rx n Draining ?ch = Some (drain_parked ?ch, RxIdle)" using Cons.hyps(1) by metis
  then show ?case using Cons.hyps(2) [symmetric]
    by (intro exI [of _ "Suc (Suc n)"]) (simp add: drain_parked.simps [of ch])
qed

section \<open>Interleavings\<close>

text \<open>
  The channel, the calls in progress, the receiver, and as history the messages pushed into
  the queues and the messages received.
\<close>

record 'a csys =
  cs_chan :: "'a chan"
  cs_calls :: "'a send_call list"
  cs_rx :: "'a rx_pc"
  cs_in :: "(priority \<times> 'a) list"
  cs_out :: "(priority \<times> 'a) list"

fun pushes :: "'a send_call \<Rightarrow> (priority \<times> 'a) list" where
  "pushes (Pushing msg p) = [(p, msg)]"
| "pushes _ = []"

fun receives :: "'a rx_pc \<Rightarrow> (priority \<times> 'a) list" where
  "receives (Freed p msg) = [(p, msg)]"
| "receives _ = []"

fun rx_idle :: "'a rx_pc \<Rightarrow> bool" where
  "rx_idle (Answer m r) = True"
| "rx_idle RxIdle = True"
| "rx_idle _ = False"

inductive csys_step :: "'a csys \<Rightarrow> 'a csys \<Rightarrow> bool" where
  cs_call: "c = Entered s msg p \<or> c = Closing \<Longrightarrow> csys_step cs (cs\<lparr>cs_calls := cs_calls cs @ [c]\<rparr>)"
| cs_step: "i < length (cs_calls cs) \<Longrightarrow> call_step (cs_calls cs ! i) (cs_chan cs) = Some (ch, c) \<Longrightarrow>
    csys_step cs (cs\<lparr>cs_chan := ch, cs_calls := (cs_calls cs)[i := c], cs_in := cs_in cs @ pushes (cs_calls cs ! i)\<rparr>)"
| cs_poll: "poll_unparked s cx (cs_chan cs) = (ch, r) \<Longrightarrow> csys_step cs (cs\<lparr>cs_chan := ch\<rparr>)"
| cs_receive: "rx_idle (cs_rx cs) \<Longrightarrow> x \<in> {Checking Once, Checking (First cx), CloseStart} \<Longrightarrow>
    csys_step cs (cs\<lparr>cs_rx := x\<rparr>)"
| cs_rx_step: "rx_step (cs_rx cs) (cs_chan cs) = Some (ch, x) \<Longrightarrow>
    csys_step cs (cs\<lparr>cs_chan := ch, cs_rx := x, cs_out := cs_out cs @ receives (cs_rx cs)\<rparr>)"

inductive csys_run :: "u64 \<Rightarrow> 'a csys \<Rightarrow> bool" for buffer where
  run_start: "channel buffer = Some ch \<Longrightarrow>
    csys_run buffer \<lparr>cs_chan = ch, cs_calls = [], cs_rx = RxIdle, cs_in = [], cs_out = []\<rparr>"
| run_next: "csys_run buffer cs \<Longrightarrow> csys_step cs cs' \<Longrightarrow> csys_run buffer cs'"

text \<open>Calls that have counted their message and not pushed it yet, and calls on their way to the parked queue.\<close>

fun counted :: "'a send_call \<Rightarrow> nat" where
  "counted (Counted _ _ _) = 1"
| "counted (Locked _ _ _) = 1"
| "counted (Listed _ _ _) = 1"
| "counted (Looked _ _ _ _) = 1"
| "counted (Pushing _ _) = 1"
| "counted _ = 0"

fun parking :: "'a send_call \<Rightarrow> nat" where
  "parking (Counted _ _ _) = 1"
| "parking (Locked _ _ _) = 1"
| "parking _ = 0"

text \<open>What the receiver has popped and not yet subtracted, and whether it has freed a parked sender for it.\<close>

fun held :: "'a rx_pc \<Rightarrow> (priority \<times> 'a) list" where
  "held (Popped p msg) = [(p, msg)]"
| "held (Notifying _ p msg) = [(p, msg)]"
| "held (Freed p msg) = [(p, msg)]"
| "held _ = []"

fun freed :: "'a rx_pc \<Rightarrow> nat" where
  "freed (Notifying _ _ _) = 1"
| "freed (Freed _ _) = 1"
| "freed _ = 0"

fun notifies :: "'a rx_pc \<Rightarrow> nat set" where
  "notifies (Notifying t _ _) = {t}"
| "notifies (DrainNotify t) = {t}"
| "notifies _ = {}"

abbreviation total_of :: "('a send_call \<Rightarrow> nat) \<Rightarrow> 'a csys \<Rightarrow> nat" where
  "total_of f cs \<equiv> sum_list (map f (cs_calls cs))"

abbreviation of_class :: "priority \<Rightarrow> (priority \<times> 'a) list \<Rightarrow> 'a list" where
  "of_class p xs \<equiv> map snd (filter (\<lambda>x. fst x = p) xs)"

fun queue_of :: "priority \<Rightarrow> 'a chan \<Rightarrow> 'a list" where
  "queue_of High ch = ch_quick ch"
| "queue_of Normal ch = ch_messages ch"

fun rx_inside :: "'a rx_pc \<Rightarrow> bool" where
  "rx_inside (Checking _) = False"
| "rx_inside CloseStart = False"
| "rx_inside x \<longleftrightarrow> \<not> rx_idle x"

fun rx_drains :: "'a rx_pc \<Rightarrow> bool" where
  "rx_drains Draining = True"
| "rx_drains (DrainNotify _) = True"
| "rx_drains _ = False"

definition rx_sound :: "'a csys \<Rightarrow> bool" where
  "rx_sound cs \<longleftrightarrow> (rx_inside (cs_rx cs) \<longrightarrow> ch_rx (cs_chan cs)) \<and> (rx_drains (cs_rx cs) \<longrightarrow> \<not> is_open (chan_st (cs_chan cs)))"

definition accounted :: "'a csys \<Rightarrow> bool" where
  "accounted cs \<longleftrightarrow>
     count (ch_state (cs_chan cs)) =
       length (ch_quick (cs_chan cs)) + length (ch_messages (cs_chan cs)) + total_of counted cs + length (held (cs_rx cs))"

definition in_order :: "'a csys \<Rightarrow> bool" where
  "in_order cs \<longleftrightarrow> (\<forall>p. of_class p (cs_in cs) = of_class p (cs_out cs) @ of_class p (held (cs_rx cs)) @ queue_of p (cs_chan cs))"

definition bounded :: "'a csys \<Rightarrow> bool" where
  "bounded cs \<longleftrightarrow>
     (is_open (chan_st (cs_chan cs)) \<longrightarrow>
      count (ch_state (cs_chan cs)) \<le>
        unat (ch_buffer (cs_chan cs)) + length (ch_parked (cs_chan cs)) + total_of parking cs + freed (cs_rx cs))"

definition tracked :: "'a csys \<Rightarrow> bool" where
  "tracked cs \<longleftrightarrow>
     (\<forall>s. sk_is_parked (ch_tasks (cs_chan cs) s) \<longrightarrow>
        s \<in> set (ch_parked (cs_chan cs)) \<or> s \<in> notifies (cs_rx cs) \<or> (\<exists>msg p. Locked s msg p \<in> set (cs_calls cs)))"


text \<open>
  The receiver is signalled: somebody is about to wake it, or woke it after it last registered.
  Something is unseen: it arrived after the second look of \<open>poll_next\<close>.
\<close>

fun is_register :: "chan_event \<Rightarrow> bool" where
  "is_register (Register _) = True"
| "is_register _ = False"

definition woken_since :: "chan_event list \<Rightarrow> bool" where
  "woken_since log \<longleftrightarrow> WakeReceiver \<in> set (takeWhile (\<lambda>e. \<not> is_register e) (rev log))"

definition signalled :: "'a csys \<Rightarrow> bool" where
  "signalled cs \<longleftrightarrow> Pushed \<in> set (cs_calls cs) \<or> ClosingWake \<in> set (cs_calls cs) \<or> woken_since (ch_log (cs_chan cs))"

fun unseen :: "'a rx_pc \<Rightarrow> 'a chan \<Rightarrow> bool" where
  "unseen (QuickEmpty Second) ch \<longleftrightarrow> ch_quick ch \<noteq> []"
| "unseen (BothEmpty Second) ch \<longleftrightarrow> ch_quick ch \<noteq> [] \<or> ch_messages ch \<noteq> []"
| "unseen (Answer Second Pending) ch \<longleftrightarrow> ch_quick ch \<noteq> [] \<or> ch_messages ch \<noteq> [] \<or> state_is_closed (chan_st ch)"
| "unseen _ _ \<longleftrightarrow> False"

definition armed :: "'a csys \<Rightarrow> bool" where
  "armed cs \<longleftrightarrow> (unseen (cs_rx cs) (cs_chan cs) \<longrightarrow> signalled cs)"

text \<open>The receiver gives up the channel only when it is closed and every message was received.\<close>

definition ended :: "'a csys \<Rightarrow> bool" where
  "ended cs \<longleftrightarrow> (\<not> ch_rx (cs_chan cs) \<longrightarrow> \<not> is_open (chan_st (cs_chan cs)) \<and> count (ch_state (cs_chan cs)) = 0)"

section \<open>What the steps change\<close>

lemma inc_num_messages_counts:
  assumes "inc_num_messages ch = Some (ch1, Some n)"
  shows "\<exists>w. ch1 = ch\<lparr>ch_state := w\<rparr> \<and> is_open (chan_st ch) \<and> is_open (decode_state w) \<and> count w = Suc (count (ch_state ch)) \<and> unat n = count w"
proof -
  let ?st = "chan_st ch"
  have o: "is_open ?st" and lt: "num_messages ?st < MAX_CAPACITY" and n: "n = num_messages ?st + 1"
    and ch1: "ch1 = ch\<lparr>ch_state := encode_state (?st\<lparr>num_messages := num_messages ?st + 1\<rparr>)\<rparr>"
    using assms by (auto simp: inc_num_messages_def Let_def split: if_splits)
  have c: "count (ch_state ch) < 2 ^ 63 - 1"
    using lt unfolding word_less_nat_alt num_messages_count unat_capacity .
  have n1: "unat (num_messages ?st + 1) = Suc (count (ch_state ch))"
    using c by (subst unat_add_lt) (simp_all add: num_messages_count)
  have "unat (encode_state (?st\<lparr>num_messages := num_messages ?st + 1\<rparr>)) = 2 ^ 63 + Suc (count (ch_state ch))"
    using c n1 by (subst encode_state_unat) (simp_all add: o)
  from unat_eqD [of _ True, unfolded if_True, OF this] c
  show ?thesis using o n n1 ch1 by auto
qed

lemma inc_num_messages_closed:
  "inc_num_messages ch = Some (ch1, None) \<Longrightarrow> ch1 = ch \<and> \<not> is_open (chan_st ch)"
  by (auto simp: inc_num_messages_def Let_def split: if_splits)

lemma set_closed_counts:
  "\<exists>w. set_closed ch = ch\<lparr>ch_state := w\<rparr> \<and> \<not> is_open (decode_state w) \<and> count w = count (ch_state ch)"
proof (cases "is_open (chan_st ch)")
  case True
  let ?w = "ch_state ch AND NOT OPEN_MASK"
  have "?w = num_messages (chan_st ch)" by (simp add: decode_state_def MAX_CAPACITY_def)
  then have "unat ?w = count (ch_state ch)" by (simp add: num_messages_count)
  with unat_eqD [of ?w False, unfolded if_False add_0, OF _ count_lt] have "\<not> is_open (decode_state ?w) \<and> count ?w = count (ch_state ch)" by metis
  then show ?thesis using True by (auto simp: set_closed_def)
next
  case False
  then show ?thesis by (intro exI [of _ "ch_state ch"]) (simp add: set_closed_def)
qed

lemma set_closed_simps [simp]:
  "\<not> is_open (chan_st (set_closed ch))" "count (ch_state (set_closed ch)) = count (ch_state ch)"
  "ch_quick (set_closed ch) = ch_quick ch" "ch_messages (set_closed ch) = ch_messages ch"
  "ch_rx (set_closed ch) = ch_rx ch"
  using set_closed_counts [of ch] by auto

lemma dec_counts:
  assumes "0 < count w"
  shows "is_open (decode_state (w - 1)) = is_open (decode_state w) \<and> count (w - 1) = count w - 1"
proof -
  have "1 \<le> w" using assms by (auto simp: count_def word_le_nat_alt Suc_le_eq intro: ccontr)
  then have "unat (w - 1) = (if is_open (decode_state w) then 2 ^ 63 else 0) + (count w - 1)"
    using assms unat_count [of w] by (simp add: unat_sub_le)
  from unat_eqD [OF this] count_lt [of w] show ?thesis by simp
qed

lemma total_update:
  "i < length xs \<Longrightarrow> sum_list (map f (xs[i := c])) + f (xs ! i) = sum_list (map f xs) + (f c :: nat)"
  by (induction xs arbitrary: i) (auto split: nat.splits simp: nth_Cons)

lemma mem_update_other: "x \<in> set xs \<Longrightarrow> i < length xs \<Longrightarrow> x \<noteq> xs ! i \<Longrightarrow> x \<in> set (xs[i := c])"
  by (induction xs arbitrary: i) (auto split: nat.splits simp: nth_Cons)

lemma poll_unparked_changes:
  assumes "poll_unparked s cx ch = (ch1, r)"
  shows "\<exists>tasks maybe. ch1 = ch\<lparr>ch_tasks := tasks, ch_maybe_parked := maybe\<rparr> \<and> (\<forall>t. sk_is_parked (tasks t) = sk_is_parked (ch_tasks ch t))"
proof (intro exI conjI allI)
  show "ch1 = ch\<lparr>ch_tasks := ch_tasks ch1, ch_maybe_parked := ch_maybe_parked ch1\<rparr>"
    using assms by (auto simp: poll_unparked_def park_store_def Let_def split: if_splits)
  fix t show "sk_is_parked (ch_tasks ch1 t) = sk_is_parked (ch_tasks ch t)"
    using assms by (auto simp: poll_unparked_def park_store_def Let_def split: if_splits)
qed

lemma notify_changes:
  "\<exists>log. notify t ch = ch\<lparr>ch_tasks := (ch_tasks ch)(t := \<lparr>sk_task = None, sk_is_parked = False\<rparr>), ch_log := ch_log ch @ log\<rparr>
     \<and> set log \<subseteq> range WakeSender"
  by (intro exI [of _ "case sk_task (ch_tasks ch t) of None \<Rightarrow> [] | Some w \<Rightarrow> [WakeSender w]"])
    (auto simp: notify_def log_event_def Let_def split: option.splits)

inductive_cases csys_stepE: "csys_step cs cs'"


section \<open>Invariants\<close>

text \<open>
  A step of a call, by the kind of change it makes: nothing relevant, the count of a message
  (with or without parking to follow), parking, the push of a message, or closing.
\<close>

lemma call_step_cases:
  assumes "call_step c ch = Some (ch1, c1)"
  obtains
    (other) tasks maybe log where "ch1 = ch\<lparr>ch_tasks := tasks, ch_maybe_parked := maybe, ch_log := log\<rparr>"
      "\<forall>t. sk_is_parked (tasks t) = sk_is_parked (ch_tasks ch t)" "counted c1 = counted c" "parking c1 = parking c" "pushes c = []"
      "\<forall>s msg p. c \<noteq> Locked s msg p" "log = ch_log ch \<or> log = ch_log ch @ [WakeReceiver]"
      "c = Pushed \<or> c = ClosingWake \<longrightarrow> log = ch_log ch @ [WakeReceiver]"
  | (count) w where "ch1 = ch\<lparr>ch_state := w\<rparr>" "is_open (chan_st ch)" "is_open (decode_state w)"
      "count w = Suc (count (ch_state ch))" "counted c = 0" "counted c1 = 1" "parking c = 0" "pushes c = []"
      "parking c1 = (if count w > unat (ch_buffer ch) then 1 else 0)" "\<forall>s msg p. c \<noteq> Locked s msg p" "c \<noteq> Pushed" "c \<noteq> ClosingWake"
  | (lock) s msg p where "c = Counted s msg p" "c1 = Locked s msg p" "ch1 = park_lock s ch"
  | (listed) s msg p where "c = Locked s msg p" "c1 = Listed s msg p" "ch1 = park_push s ch"
  | (push) msg p where "c = Pushing msg p" "c1 = Pushed" "ch1 = push_message msg p ch"
  | (close) w where "c = Closing" "c1 = ClosingWake" "ch1 = ch\<lparr>ch_state := w\<rparr>" "\<not> is_open (decode_state w)" "count w = count (ch_state ch)"
proof (cases c)
  case (Entered s msg p)
  obtain ch2 r where p: "poll_unparked s None ch = (ch2, r)" by (cases "poll_unparked s None ch")
  from poll_unparked_changes [OF p] obtain tasks maybe where
    "ch2 = ch\<lparr>ch_tasks := tasks, ch_maybe_parked := maybe\<rparr>" "\<forall>t. sk_is_parked (tasks t) = sk_is_parked (ch_tasks ch t)" by blast
  then show ?thesis using assms Entered p by (intro other [where tasks = tasks and maybe = maybe and log = "ch_log ch"]) (auto split: poll.splits)
next
  case (Unparked s msg p)
  show ?thesis
  proof (cases "inc_num_messages ch")
    case (Some a)
    show ?thesis
    proof (cases "snd a")
      case None
      then show ?thesis using assms Unparked Some inc_num_messages_closed [of ch "fst a"]
        by (intro other [where tasks = "ch_tasks ch" and maybe = "ch_maybe_parked ch" and log = "ch_log ch"]) (auto simp: prod_eq_iff split: prod.splits)
    next
      case (Some n)
      with \<open>inc_num_messages ch = Some a\<close> have inc: "inc_num_messages ch = Some (fst a, Some n)" by (simp add: prod_eq_iff)
      from inc_num_messages_counts [OF this] obtain w where "fst a = ch\<lparr>ch_state := w\<rparr>" "is_open (chan_st ch)" "is_open (decode_state w)"
        "count w = Suc (count (ch_state ch))" "unat n = count w" by blast
      then show ?thesis using assms Unparked inc by (intro count [of w]) (auto simp: word_less_nat_alt split: if_splits)
    qed
  qed (use assms Unparked in simp)
next
  case Closing
  then show ?thesis using assms close set_closed_counts [of ch] by auto
next
  case (Looked b s msg p)
  then show ?thesis using assms
    by (intro other [where tasks = "ch_tasks ch" and maybe = "(ch_maybe_parked ch)(s := b)" and log = "ch_log ch"]) (auto simp: park_store_def)
next
  case Pushed
  then show ?thesis using assms
    by (intro other [where tasks = "ch_tasks ch" and maybe = "ch_maybe_parked ch" and log = "ch_log ch @ [WakeReceiver]"]) (auto simp: log_event_def)
next
  case ClosingWake
  then show ?thesis using assms
    by (intro other [where tasks = "ch_tasks ch" and maybe = "ch_maybe_parked ch" and log = "ch_log ch @ [WakeReceiver]"]) (auto simp: log_event_def)
next
  case (Listed s msg p)
  then show ?thesis using assms by (intro other [where tasks = "ch_tasks ch" and maybe = "ch_maybe_parked ch" and log = "ch_log ch"]) auto
next
  case (Returned r)
  then show ?thesis using assms by (intro other [where tasks = "ch_tasks ch" and maybe = "ch_maybe_parked ch" and log = "ch_log ch"]) auto
qed (use assms lock listed push in auto)

lemma rx_sound_step:
  assumes "csys_step cs cs'" "rx_sound cs"
  shows "rx_sound cs'"
  using assms(1)
proof cases
  case (cs_step i ch c)
  from cs_step(3) have "ch_rx ch = ch_rx (cs_chan cs) \<and> (is_open (chan_st ch) \<longrightarrow> is_open (chan_st (cs_chan cs)))"
    by (cases rule: call_step_cases) (auto simp: park_lock_def park_push_def push_message_def split: priority.splits)
  then show ?thesis using assms(2) cs_step(1) by (auto simp: rx_sound_def)
next
  case (cs_poll s cx ch r)
  then show ?thesis using poll_unparked_changes [OF cs_poll(2)] assms(2) by (auto simp: rx_sound_def)
next
  case (cs_rx_step ch x)
  from cs_rx_step(2) assms(2) show ?thesis unfolding cs_rx_step(1)
    by (cases "cs_rx cs") (auto simp: rx_sound_def dec_num_messages_def log_event_def split: if_splits list.splits rx_mode.splits)
qed (use assms(2) in \<open>auto simp: rx_sound_def\<close>)


lemma push_message_changes [simp]:
  "ch_state (push_message msg p ch) = ch_state ch" "ch_parked (push_message msg p ch) = ch_parked ch"
  "ch_tasks (push_message msg p ch) = ch_tasks ch" "ch_buffer (push_message msg p ch) = ch_buffer ch"
  "length (ch_quick (push_message msg p ch)) + length (ch_messages (push_message msg p ch)) =
     Suc (length (ch_quick ch) + length (ch_messages ch))"
  "queue_of q (push_message msg p ch) = queue_of q ch @ (if q = p then [msg] else [])"
  "ch_log (push_message msg p ch) = ch_log ch"
  by (cases q; cases p; simp add: push_message_def)+

lemma accounted_step:
  assumes "csys_step cs cs'" "accounted cs" "rx_sound cs"
  shows "accounted cs'"
  using assms(1)
proof cases
  case (cs_call c s msg p)
  then show ?thesis using assms(2) by (auto simp: accounted_def)
next
  case (cs_step i ch c)
  note upd = total_update [OF cs_step(2), of counted c]
  from cs_step(3) show ?thesis
  proof (cases rule: call_step_cases)
    case (push msg p)
    then show ?thesis using assms(2) cs_step(1) upd push_message_changes(5) [of msg p "cs_chan cs"] by (auto simp: accounted_def)
  qed (use assms(2) cs_step(1) upd in \<open>auto simp: accounted_def park_lock_def park_push_def\<close>)
next
  case (cs_poll s cx ch r)
  then show ?thesis using poll_unparked_changes [OF cs_poll(2)] assms(2) by (auto simp: accounted_def)
next
  case (cs_receive x cx)
  then show ?thesis using assms(2) by (cases "cs_rx cs") (auto simp: accounted_def)
next
  case (cs_rx_step ch x)
  show ?thesis
  proof (cases "cs_rx cs")
    case (Freed p msg)
    then show ?thesis using assms(2,3) cs_rx_step dec_counts [of "ch_state (cs_chan cs)"]
      by (auto simp: accounted_def rx_sound_def dec_num_messages_def)
  next
    case CloseStart
    then show ?thesis using assms(2) cs_rx_step by (auto simp: accounted_def split: if_splits)
  next
    case (Answer m r)
    then have "x = Answer m r" "ch = cs_chan cs" using cs_rx_step(2) by auto
    then show ?thesis using assms(2) cs_rx_step(1) Answer by (simp add: accounted_def)
  qed (use assms(2) cs_rx_step in \<open>auto simp: accounted_def log_event_def split: if_splits list.splits rx_mode.splits\<close>)
qed

lemma call_step_queue:
  assumes "call_step c ch = Some (ch1, c1)"
  shows "queue_of q ch1 = queue_of q ch @ of_class q (pushes c)"
  using assms
proof (cases rule: call_step_cases)
  case (push msg p)
  then show ?thesis by simp
qed (cases q; simp add: park_lock_def park_push_def)+

lemma rx_step_queue:
  "rx_step x ch = Some (ch1, x1) \<Longrightarrow>
     of_class q (receives x) @ of_class q (held x1) @ queue_of q ch1 = of_class q (held x) @ queue_of q ch"
  by (cases x; cases q)
    (auto simp: log_event_def dec_num_messages_def set_closed_def split: if_splits list.splits rx_mode.splits)

lemma in_order_step:
  assumes "csys_step cs cs'" "in_order cs"
  shows "in_order cs'"
  using assms(1)
proof cases
  case (cs_call c s msg p)
  then show ?thesis using assms(2) by (auto simp: in_order_def)
next
  case (cs_step i ch c)
  then show ?thesis using assms(2) call_step_queue [OF cs_step(3)] by (simp add: in_order_def)
next
  case (cs_poll s cx ch r)
  then have "queue_of q ch = queue_of q (cs_chan cs)" for q using poll_unparked_changes [OF cs_poll(2)] by (cases q) auto
  then show ?thesis using cs_poll(1) assms(2) by (auto simp: in_order_def)
next
  case (cs_receive x cx)
  then show ?thesis using assms(2) by (cases "cs_rx cs") (auto simp: in_order_def)
next
  case (cs_rx_step ch x)
  then show ?thesis using rx_step_queue [OF cs_rx_step(2)] assms(2) by (simp add: in_order_def)
qed

lemma bounded_step:
  assumes "csys_step cs cs'" "bounded cs" "accounted cs" "rx_sound cs"
  shows "bounded cs'"
  using assms(1)
proof cases
  case (cs_call c s msg p)
  then show ?thesis using assms(2) by (auto simp: bounded_def)
next
  case (cs_step i ch c)
  note upd = total_update [OF cs_step(2), of parking c]
  from cs_step(3) show ?thesis
    by (cases rule: call_step_cases) (use assms(2) cs_step(1) upd in \<open>auto simp: bounded_def park_lock_def park_push_def split: if_splits\<close>)
next
  case (cs_poll s cx ch r)
  then show ?thesis using poll_unparked_changes [OF cs_poll(2)] assms(2) by (auto simp: bounded_def)
next
  case (cs_receive x cx)
  then show ?thesis using assms(2) by (cases "cs_rx cs") (auto simp: bounded_def)
next
  case (cs_rx_step ch x)
  show ?thesis
  proof (cases "cs_rx cs")
    case (Freed p msg)
    then show ?thesis using assms(2,3,4) cs_rx_step dec_counts [of "ch_state (cs_chan cs)"]
      by (auto simp: bounded_def accounted_def rx_sound_def dec_num_messages_def)
  qed (use assms(2,4) cs_rx_step in \<open>auto simp: bounded_def rx_sound_def log_event_def split: if_splits list.splits rx_mode.splits\<close>)
qed

lemma tracked_call:
  assumes "tracked cs" "i < length (cs_calls cs)"
    and "\<And>t. sk_is_parked (ch_tasks ch t) \<Longrightarrow> sk_is_parked (ch_tasks (cs_chan cs) t) \<or> (\<exists>msg p. c = Locked t msg p)"
    and "set (ch_parked (cs_chan cs)) \<subseteq> set (ch_parked ch)"
    and "\<And>s msg p. cs_calls cs ! i = Locked s msg p \<Longrightarrow> s \<in> set (ch_parked ch)"
  shows "tracked (cs\<lparr>cs_chan := ch, cs_calls := (cs_calls cs)[i := c], cs_in := xs\<rparr>)"
proof -
  have "t \<in> set (ch_parked ch) \<or> t \<in> notifies (cs_rx cs) \<or> (\<exists>msg p. Locked t msg p \<in> set ((cs_calls cs)[i := c]))"
    if t: "sk_is_parked (ch_tasks ch t)" for t
  proof (cases "\<exists>msg p. c = Locked t msg p")
    case True
    then show ?thesis using set_update_memI [OF assms(2), of c] by blast
  next
    case False
    then have "sk_is_parked (ch_tasks (cs_chan cs) t)" using assms(3) t by blast
    then show ?thesis using assms(1,4,5) mem_update_other [OF _ assms(2), of _ c] unfolding tracked_def by (metis subsetD)
  qed
  then show ?thesis by (simp add: tracked_def)
qed

lemma tracked_step:
  assumes "csys_step cs cs'" "tracked cs"
  shows "tracked cs'"
  using assms(1)
proof cases
  case (cs_call c s msg p)
  then show ?thesis using assms(2) by (auto simp: tracked_def)
next
  case (cs_step i ch c)
  show ?thesis unfolding cs_step(1)
  proof (rule tracked_call [OF assms(2) cs_step(2)])
    show "sk_is_parked (ch_tasks (cs_chan cs) t) \<or> (\<exists>msg p. c = Locked t msg p)" if "sk_is_parked (ch_tasks ch t)" for t
      using cs_step(3) that by (cases rule: call_step_cases) (auto simp: park_lock_def park_push_def split: if_splits)
    show "set (ch_parked (cs_chan cs)) \<subseteq> set (ch_parked ch)"
      using cs_step(3) by (cases rule: call_step_cases) (auto simp: park_lock_def park_push_def)
    show "s \<in> set (ch_parked ch)" if "cs_calls cs ! i = Locked s msg p" for s msg p
      using cs_step(3) that by (auto simp: park_push_def)
  qed
next
  case (cs_poll s cx ch r)
  then show ?thesis using poll_unparked_changes [OF cs_poll(2)] assms(2) by (auto simp: tracked_def)
next
  case (cs_receive x cx)
  then show ?thesis using assms(2) by (cases "cs_rx cs") (auto simp: tracked_def)
next
  case (cs_rx_step ch x)
  show ?thesis
  proof (cases "cs_rx cs")
    case (Notifying t p msg)
    then show ?thesis using assms(2) cs_rx_step notify_changes [of t "cs_chan cs"] by (auto simp: tracked_def split: if_splits)
  next
    case (DrainNotify t)
    then show ?thesis using assms(2) cs_rx_step notify_changes [of t "cs_chan cs"] by (auto simp: tracked_def split: if_splits)
  qed (use assms(2) cs_rx_step in \<open>auto simp: tracked_def log_event_def set_closed_def dec_num_messages_def split: if_splits list.splits rx_mode.splits\<close>)
qed


lemma state_is_closed_count: "state_is_closed (decode_state w) \<longleftrightarrow> \<not> is_open (decode_state w) \<and> count w = 0"
  by (simp add: state_is_closed_def num_messages_count [symmetric] unat_eq_0)

lemma woken_since_simps [simp]:
  "woken_since (log @ [WakeReceiver])" "woken_since (log @ [WakeSender w]) = woken_since log"
  by (simp_all add: woken_since_def)

lemma woken_since_senders: "set ws \<subseteq> range WakeSender \<Longrightarrow> woken_since (log @ ws) = woken_since log"
  by (induction ws arbitrary: log rule: rev_induct) (auto simp flip: append_assoc)

lemma signalled_call:
  assumes "signalled cs" "i < length (cs_calls cs)" "call_step (cs_calls cs ! i) (cs_chan cs) = Some (ch, c)"
  shows "signalled (cs\<lparr>cs_chan := ch, cs_calls := (cs_calls cs)[i := c], cs_in := xs\<rparr>)"
proof (cases "cs_calls cs ! i = Pushed \<or> cs_calls cs ! i = ClosingWake")
  case True
  then show ?thesis using assms(3) by (auto simp: signalled_def log_event_def)
next
  case False
  have "woken_since (ch_log (cs_chan cs)) \<Longrightarrow> woken_since (ch_log ch)"
    using assms(3) by (cases rule: call_step_cases) (auto simp: park_lock_def park_push_def)
  then show ?thesis using assms(1) False mem_update_other [OF _ assms(2), of _ c] unfolding signalled_def by auto
qed

lemma unseen_call:
  assumes "call_step c ch = Some (ch1, c1)" "unseen x ch1"
  shows "unseen x ch \<or> c1 = Pushed \<or> c1 = ClosingWake"
  using assms by (cases rule: call_step_cases; cases "(x, ch)" rule: unseen.cases)
    (auto simp: park_lock_def park_push_def state_is_closed_count)

lemma unseen_iff:
  "unseen (QuickEmpty m) ch \<longleftrightarrow> m = Second \<and> ch_quick ch \<noteq> []"
  "unseen (BothEmpty m) ch \<longleftrightarrow> m = Second \<and> (ch_quick ch \<noteq> [] \<or> ch_messages ch \<noteq> [])"
  by (cases m; simp)+

lemma armed_step:
  assumes "csys_step cs cs'" "armed cs"
  shows "armed cs'"
  using assms(1)
proof cases
  case (cs_call c s msg p)
  then show ?thesis using assms(2) by (auto simp: armed_def signalled_def)
next
  case (cs_step i ch c)
  show ?thesis
  proof (cases "c = Pushed \<or> c = ClosingWake")
    case True
    then show ?thesis using set_update_memI [OF cs_step(2), of c] unfolding cs_step(1) armed_def signalled_def by auto
  next
    case False
    then have "unseen (cs_rx cs) ch \<Longrightarrow> unseen (cs_rx cs) (cs_chan cs)" using unseen_call [OF cs_step(3)] by blast
    then show ?thesis using assms(2) signalled_call [OF _ cs_step(2,3)] unfolding cs_step(1) armed_def by simp
  qed
next
  case (cs_poll s cx ch r)
  then have "unseen (cs_rx cs) ch = unseen (cs_rx cs) (cs_chan cs)" "ch_log ch = ch_log (cs_chan cs)"
    using poll_unparked_changes [OF cs_poll(2)] by (cases "(cs_rx cs, ch)" rule: unseen.cases; auto)+
  then show ?thesis using cs_poll(1) assms(2) by (simp add: armed_def signalled_def)
next
  case (cs_receive x cx)
  then show ?thesis using assms(2) by (auto simp: armed_def)
next
  case (cs_rx_step ch x)
  have "unseen x ch \<Longrightarrow> unseen (cs_rx cs) (cs_chan cs) \<and> ch_log ch = ch_log (cs_chan cs)"
    using cs_rx_step(2) by (cases "cs_rx cs") (auto simp: unseen_iff split: if_splits list.splits rx_mode.splits)
  then show ?thesis using assms(2) cs_rx_step(1) by (auto simp: armed_def signalled_def)
qed

lemma ended_step:
  assumes "csys_step cs cs'" "ended cs" "accounted cs"
  shows "ended cs'"
  using assms(1)
proof cases
  case (cs_step i ch c)
  from cs_step(3) show ?thesis unfolding cs_step(1)
    by (cases rule: call_step_cases)
      (use assms(2) in \<open>auto simp: ended_def park_lock_def park_push_def push_message_def split: priority.splits\<close>)
next
  case (cs_poll s cx ch r)
  then show ?thesis using poll_unparked_changes [OF cs_poll(2)] assms(2) by (auto simp: ended_def)
next
  case (cs_rx_step ch x)
  then show ?thesis using assms(2,3)
    by (cases "cs_rx cs")
      (auto simp: ended_def accounted_def state_is_closed_count log_event_def dec_num_messages_def split: if_splits list.splits rx_mode.splits)
qed (use assms(2) in \<open>auto simp: ended_def\<close>)


lemmas chan_invariants = rx_sound_step accounted_step in_order_step bounded_step tracked_step armed_step ended_step

lemma csys_run_invariants:
  assumes "csys_run buffer cs"
  shows "rx_sound cs \<and> accounted cs \<and> in_order cs \<and> bounded cs \<and> tracked cs \<and> armed cs \<and> ended cs \<and> ch_buffer (cs_chan cs) = buffer"
  using assms
proof induction
  case (run_start ch)
  have "queue_of p ch = []" for p using run_start by (cases p) (auto simp: channel_def split: if_splits)
  moreover have "count INIT_STATE = 0" using unat_OPEN_MASK unfolding count_def INIT_STATE_def by simp
  ultimately show ?case using run_start
    by (auto simp: channel_def rx_sound_def accounted_def in_order_def bounded_def tracked_def armed_def ended_def sender_task_new_def
      split: if_splits)
next
  case (run_next cs cs')
  have "ch_buffer (cs_chan cs') = ch_buffer (cs_chan cs)"
    using run_next.hyps(2)
  proof cases
    case (cs_step i ch c)
    from cs_step(3) show ?thesis unfolding cs_step(1)
      by (cases rule: call_step_cases) (auto simp: park_lock_def park_push_def)
  next
    case (cs_poll s cx ch r)
    then show ?thesis using poll_unparked_changes [OF cs_poll(2)] by auto
  next
    case (cs_rx_step ch x)
    then show ?thesis
      by (cases "cs_rx cs") (auto simp: set_closed_def log_event_def dec_num_messages_def split: if_splits list.splits)
  qed simp_all
  then show ?case using chan_invariants [OF run_next.hyps(2)] run_next.IH by simp
qed

section \<open>Schedules\<close>

text \<open>An interleaving given as a list of operations, to run it.\<close>

datatype 'a cs_op = DoSend nat 'a priority | DoClose | DoStep nat | DoPoll nat nat | DoNext | DoPollNext nat | DoCloseRx | DoRx

fun exec_op :: "'a cs_op \<Rightarrow> 'a csys \<Rightarrow> 'a csys option" where
  "exec_op (DoSend s msg p) cs = Some (cs\<lparr>cs_calls := cs_calls cs @ [Entered s msg p]\<rparr>)"
| "exec_op DoClose cs = Some (cs\<lparr>cs_calls := cs_calls cs @ [Closing]\<rparr>)"
| "exec_op (DoStep i) cs =
     (if i < length (cs_calls cs) then
        case call_step (cs_calls cs ! i) (cs_chan cs) of
          None \<Rightarrow> None
        | Some (ch, c) \<Rightarrow> Some (cs\<lparr>cs_chan := ch, cs_calls := (cs_calls cs)[i := c], cs_in := cs_in cs @ pushes (cs_calls cs ! i)\<rparr>)
      else None)"
| "exec_op (DoPoll s cx) cs = Some (cs\<lparr>cs_chan := fst (poll_unparked s (Some cx) (cs_chan cs))\<rparr>)"
| "exec_op DoNext cs = (if rx_idle (cs_rx cs) then Some (cs\<lparr>cs_rx := Checking Once\<rparr>) else None)"
| "exec_op (DoPollNext cx) cs = (if rx_idle (cs_rx cs) then Some (cs\<lparr>cs_rx := Checking (First cx)\<rparr>) else None)"
| "exec_op DoCloseRx cs = (if rx_idle (cs_rx cs) then Some (cs\<lparr>cs_rx := CloseStart\<rparr>) else None)"
| "exec_op DoRx cs =
     (case rx_step (cs_rx cs) (cs_chan cs) of
        None \<Rightarrow> None
      | Some (ch, x) \<Rightarrow> Some (cs\<lparr>cs_chan := ch, cs_rx := x, cs_out := cs_out cs @ receives (cs_rx cs)\<rparr>))"

primrec exec :: "'a cs_op list \<Rightarrow> 'a csys \<Rightarrow> 'a csys option" where
  "exec [] cs = Some cs"
| "exec (op # ops) cs = Option.bind (exec_op op cs) (exec ops)"

lemma exec_op_step: "exec_op op cs = Some cs' \<Longrightarrow> csys_step cs cs'"
proof (cases op)
  case (DoPoll s cx)
  assume "exec_op op cs = Some cs'"
  then show ?thesis using DoPoll cs_poll [of s "Some cx" cs "fst (poll_unparked s (Some cx) (cs_chan cs))"] by (auto simp: prod_eq_iff)
qed (auto intro: csys_step.intros split: if_splits option.splits)

definition chan_start :: "u64 \<Rightarrow> 'a csys option" where
  "chan_start buffer =
     map_option (\<lambda>ch. \<lparr>cs_chan = ch, cs_calls = [], cs_rx = RxIdle, cs_in = [], cs_out = []\<rparr>) (channel buffer)"

lemma exec_run: "csys_run buffer cs \<Longrightarrow> exec ops cs = Some cs' \<Longrightarrow> csys_run buffer cs'"
  by (induction ops arbitrary: cs) (auto simp: bind_eq_Some_conv, blast intro: run_next exec_op_step)

lemma exec_start: "Option.bind (chan_start buffer) (exec ops) = Some cs \<Longrightarrow> csys_run buffer cs"
  by (auto simp: bind_eq_Some_conv chan_start_def intro: exec_run run_start)

definition sample_schedule :: "nat cs_op list" where
  "sample_schedule = [DoSend 0 7 Normal, DoStep 0, DoStep 0, DoStep 0, DoSend 0 8 High]
     @ replicate 8 (DoStep 1) @ [DoStep 0, DoPollNext 5] @ replicate 5 DoRx"

lemma sample_run:
  "case Option.bind (chan_start 1) (exec sample_schedule) of
     None \<Rightarrow> False
   | Some cs \<Rightarrow> cs_out cs = [(High, 8)] \<and> cs_in cs = [(Normal, 7), (High, 8)] \<and> ch_messages (cs_chan cs) = [7]
       \<and> is_open (chan_st (cs_chan cs))"
  by code_simp

lemma sample_reached:
  "\<exists>cs. csys_run 1 cs \<and> cs_out cs = [(High, 8)] \<and> cs_in cs = [(Normal, 7), (High, 8)] \<and> ch_messages (cs_chan cs) = [7 :: nat]
     \<and> is_open (chan_st (cs_chan cs))"
  using sample_run exec_start [of 1 sample_schedule] by (auto split: option.splits)

lemma parked_run:
  "case Option.bind (chan_start 1) (exec (take 13 sample_schedule)) of
     None \<Rightarrow> False
   | Some cs \<Rightarrow> sk_is_parked (ch_tasks (cs_chan cs) 0) \<and> cs_rx cs = RxIdle \<and> cs_calls cs = [Pushed, Returned (Ok ())]"
  by code_simp

lemma parked_reached:
  "\<exists>cs :: nat csys. csys_run 1 cs \<and> sk_is_parked (ch_tasks (cs_chan cs) 0) \<and> cs_rx cs = RxIdle \<and> cs_calls cs = [Pushed, Returned (Ok ())]"
  using parked_run exec_start [of 1 "take 13 sample_schedule"] by (auto split: option.splits)

section \<open>What the channel promises\<close>

text \<open>
  C3. Nothing is lost, duplicated or reordered, in every interleaving of senders and receiver: what
  was received of each priority is a prefix of what was pushed; the message counter is the
  number of messages queued or on their way, so it never underflows; and once the receiver has seen the end of the
  stream, everything that was ever accepted has been received and nothing more will be.
\<close>

theorem channel_delivers:
  assumes "csys_run buffer cs"
  shows "prefix (of_class p (cs_out cs)) (of_class p (cs_in cs))
    \<and> count (ch_state (cs_chan cs)) =
        length (ch_quick (cs_chan cs)) + length (ch_messages (cs_chan cs)) + total_of counted cs + length (held (cs_rx cs))
    \<and> (\<not> ch_rx (cs_chan cs) \<longrightarrow>
         of_class p (cs_out cs) = of_class p (cs_in cs) \<and> total_of counted cs = 0 \<and> inc_num_messages (cs_chan cs) = Some (cs_chan cs, None))"
proof -
  note inv = csys_run_invariants [OF assms]
  have order: "of_class p (cs_in cs) = of_class p (cs_out cs) @ of_class p (held (cs_rx cs)) @ queue_of p (cs_chan cs)"
    using inv by (simp add: in_order_def)
  show ?thesis
  proof (intro conjI impI)
    show "prefix (of_class p (cs_out cs)) (of_class p (cs_in cs))" unfolding order by simp
    show count: "count (ch_state (cs_chan cs)) =
        length (ch_quick (cs_chan cs)) + length (ch_messages (cs_chan cs)) + total_of counted cs + length (held (cs_rx cs))"
      using inv by (simp add: accounted_def)
    assume "\<not> ch_rx (cs_chan cs)"
    then have c0: "\<not> is_open (chan_st (cs_chan cs))" "count (ch_state (cs_chan cs)) = 0" using inv by (simp_all add: ended_def)
    then have "ch_quick (cs_chan cs) = []" "ch_messages (cs_chan cs) = []" "held (cs_rx cs) = []" using count by simp_all
    then show "of_class p (cs_out cs) = of_class p (cs_in cs)" unfolding order by (cases p) simp_all
    show "total_of counted cs = 0" using c0 count by simp
    show "inc_num_messages (cs_chan cs) = Some (cs_chan cs, None)" using c0 by (simp add: inc_num_messages_def)
  qed
qed

theorem channel_delivers_witness:
  "\<exists>cs :: nat csys. csys_run 1 cs \<and> cs_out cs = [(High, 8)] \<and> prefix (of_class High (cs_out cs)) (of_class High (cs_in cs))
     \<and> count (ch_state (cs_chan cs)) =
        length (ch_quick (cs_chan cs)) + length (ch_messages (cs_chan cs)) + total_of counted cs + length (held (cs_rx cs))"
  using sample_reached channel_delivers [of 1 _ High] by metis



text \<open>
  C23. No wake-up is lost: a parked sender has its handle in the parked queue, or is just being
  parked or notified, so the next receive or the close of the receiver reaches it; and when \<open>poll_next\<close> has answered \<open>Pending\<close>
  and a message or the end of the stream is there after all, the receiver has been woken since it registered or is about to be.
\<close>

theorem no_lost_wakeup:
  assumes "csys_run buffer cs"
  shows "(sk_is_parked (ch_tasks (cs_chan cs) s) \<longrightarrow>
      s \<in> set (ch_parked (cs_chan cs)) \<or> s \<in> notifies (cs_rx cs) \<or> (\<exists>msg p. Locked s msg p \<in> set (cs_calls cs)))
    \<and> (cs_rx cs = Answer Second Pending
        \<and> (ch_quick (cs_chan cs) \<noteq> [] \<or> ch_messages (cs_chan cs) \<noteq> [] \<or> state_is_closed (chan_st (cs_chan cs)))
       \<longrightarrow> signalled cs)"
  using csys_run_invariants [OF assms] by (auto simp: tracked_def armed_def)

theorem no_lost_wakeup_witness:
  "\<exists>cs :: nat csys. csys_run 1 cs \<and> sk_is_parked (ch_tasks (cs_chan cs) 0) \<and> 0 \<in> set (ch_parked (cs_chan cs))"
proof -
  obtain cs :: "nat csys" where "csys_run 1 cs" "sk_is_parked (ch_tasks (cs_chan cs) 0)" "cs_rx cs = RxIdle" "cs_calls cs = [Pushed, Returned (Ok ())]"
    using parked_reached by blast
  with no_lost_wakeup [of 1 cs 0] show ?thesis by auto
qed

end
