(* ===== verification/Unbounded_Channel.thy ===== *)
theory Unbounded_Channel
  imports Priority_Channel
begin

text \<open>
  The unbounded priority channel (\<open>channel/unbound.rs\<close>) and the sink adapters
  (\<open>channel/sink_impl.rs\<close>). The unbounded channel is shown to be a bounded one that never
  parks: every operation commutes with reading it as a bounded channel with the largest capacity.
\<close>

section \<open>The unbounded channel\<close>

record 'a unb =
  ub_state :: u64
  ub_messages :: "'a list"
  ub_quick :: "'a list"
  ub_num_senders :: u64
  ub_rx :: bool
  ub_log :: "chan_event list"

definition unbounded :: "'a unb" where
  "unbounded = \<lparr>ub_state = INIT_STATE, ub_messages = [], ub_quick = [], ub_num_senders = 1, ub_rx = True, ub_log = []\<rparr>"

definition ub_wake :: "chan_event \<Rightarrow> 'a unb \<Rightarrow> 'a unb" where
  "ub_wake e u = u\<lparr>ub_log := ub_log u @ [e]\<rparr>"

definition ub_set_closed :: "'a unb \<Rightarrow> 'a unb" where
  "ub_set_closed u =
     (if \<not> is_open (decode_state (ub_state u)) then u else u\<lparr>ub_state := ub_state u AND NOT OPEN_MASK\<rparr>)"

definition poll_ready_nb :: "'a unb \<Rightarrow> (send_error + unit) poll" where
  "poll_ready_nb u = (if is_open (decode_state (ub_state u)) then Ready (Ok ()) else Ready (Err Disconnected))"

definition ub_push_and_signal :: "'a \<Rightarrow> priority \<Rightarrow> 'a unb \<Rightarrow> 'a unb" where
  "ub_push_and_signal msg p u =
     ub_wake WakeReceiver
       (case p of High \<Rightarrow> u\<lparr>ub_quick := ub_quick u @ [msg]\<rparr> | Normal \<Rightarrow> u\<lparr>ub_messages := ub_messages u @ [msg]\<rparr>)"

definition ub_inc_num_messages :: "'a unb \<Rightarrow> ('a unb \<times> u64 option) option" where
  "ub_inc_num_messages u =
     (let state = decode_state (ub_state u) in
      if \<not> is_open state then Some (u, None)
      else if \<not> num_messages state < MAX_CAPACITY then None
      else let state' = state\<lparr>num_messages := num_messages state + 1\<rparr> in
           Some (u\<lparr>ub_state := encode_state state'\<rparr>, Some (num_messages state')))"

definition ub_is_closed :: "'a unb \<Rightarrow> bool" where
  "ub_is_closed u \<longleftrightarrow> \<not> is_open (decode_state (ub_state u))"

definition ub_close_channel :: "'a unb \<Rightarrow> 'a unb" where
  "ub_close_channel u = ub_wake WakeReceiver (ub_set_closed u)"

definition ub_clone_sender :: "'a unb \<Rightarrow> 'a unb option" where
  "ub_clone_sender u =
     (let curr = ub_num_senders u in if curr = MAX_BUFFER then None else Some (u\<lparr>ub_num_senders := curr + 1\<rparr>))"

definition ub_drop_sender :: "'a unb \<Rightarrow> 'a unb" where
  "ub_drop_sender u =
     (let prev = ub_num_senders u; u1 = u\<lparr>ub_num_senders := prev - 1\<rparr> in if prev = 1 then ub_close_channel u1 else u1)"

text \<open>\<open>UnboundedSender\<close>: \<open>True\<close> while it is connected.\<close>

definition ub_poll_ready :: "bool \<Rightarrow> 'a unb \<Rightarrow> (send_error + unit) poll" where
  "ub_poll_ready tx u = (if tx then poll_ready_nb u else Ready (Err Disconnected))"

definition ub_sender_is_closed :: "bool \<Rightarrow> 'a unb \<Rightarrow> bool" where
  "ub_sender_is_closed tx u = (if tx then ub_is_closed u else True)"

definition ub_sender_close :: "bool \<Rightarrow> 'a unb \<Rightarrow> 'a unb" where
  "ub_sender_close tx u = (if tx then ub_close_channel u else u)"

definition ub_disconnect :: "bool \<Rightarrow> 'a unb \<Rightarrow> bool \<times> 'a unb" where
  "ub_disconnect tx u = (False, if tx then ub_drop_sender u else u)"

definition ub_len :: "bool \<Rightarrow> 'a unb \<Rightarrow> u64 option" where
  "ub_len tx u =
     (if tx then let state = decode_state (ub_state u) in if is_open state then Some (num_messages state) else None
      else None)"

definition do_send_nb :: "bool \<Rightarrow> 'a \<Rightarrow> priority \<Rightarrow> 'a unb \<Rightarrow> ('a unb \<times> ('a try_send_error + unit)) option" where
  "do_send_nb tx msg p u =
     (let disconnected = (\<lambda>u. Some (u, Err \<lparr>te_err = Disconnected, te_val = msg\<rparr>)) in
      if tx then
        case ub_inc_num_messages u of
          None \<Rightarrow> None
        | Some (u1, Some _) \<Rightarrow> Some (ub_push_and_signal msg p u1, Ok ())
        | Some (u1, None) \<Rightarrow> disconnected u1
      else disconnected u)"

definition unbounded_send :: "bool \<Rightarrow> 'a \<Rightarrow> 'a unb \<Rightarrow> ('a unb \<times> ('a try_send_error + unit)) option" where
  "unbounded_send tx msg u = do_send_nb tx msg Normal u"

definition unbounded_quick_send :: "bool \<Rightarrow> 'a \<Rightarrow> 'a unb \<Rightarrow> ('a unb \<times> ('a try_send_error + unit)) option" where
  "unbounded_quick_send tx msg u = do_send_nb tx msg High u"

definition ub_start_send :: "bool \<Rightarrow> 'a \<Rightarrow> 'a unb \<Rightarrow> ('a unb \<times> (send_error + unit)) option" where
  "ub_start_send tx msg u = map_option (apsnd (map_err te_err)) (do_send_nb tx msg Normal u)"

definition ub_start_quick_send :: "bool \<Rightarrow> 'a \<Rightarrow> 'a unb \<Rightarrow> ('a unb \<times> (send_error + unit)) option" where
  "ub_start_quick_send tx msg u = map_option (apsnd (map_err te_err)) (do_send_nb tx msg High u)"

definition ub_async_send_poll :: "(bool \<Rightarrow> 'a \<Rightarrow> 'a unb \<Rightarrow> ('a unb \<times> (send_error + unit)) option) \<Rightarrow> bool
    \<Rightarrow> 'a option \<Rightarrow> 'a unb \<Rightarrow> ('a option \<times> 'a unb \<times> (send_error + unit) poll) option" where
  "ub_async_send_poll start tx msg u =
     (case msg of
        None \<Rightarrow> None
      | Some item \<Rightarrow>
          (case ub_poll_ready tx u of
             Ready (Inl e) \<Rightarrow> Some (None, u, Ready (Err e))
           | Ready (Inr _) \<Rightarrow> map_option (\<lambda>(u1, r). (None, u1, Ready r)) (start tx item u)
           | Pending \<Rightarrow> Some (Some item, u, Pending)))"

definition ub_close :: "'a unb \<Rightarrow> 'a unb" where
  "ub_close u = (if ub_rx u then ub_set_closed u else u)"

definition ub_dec_num_messages :: "'a unb \<Rightarrow> 'a unb" where
  "ub_dec_num_messages u = (if ub_rx u then u\<lparr>ub_state := ub_state u - 1\<rparr> else u)"

definition ub_next_message :: "'a unb \<Rightarrow> ('a unb \<times> (priority \<times> 'a) option poll) option" where
  "ub_next_message u =
     (if \<not> ub_rx u then None
      else case ub_quick u of
        msg # ms \<Rightarrow> Some (ub_dec_num_messages (u\<lparr>ub_quick := ms\<rparr>), Ready (Some (High, msg)))
      | [] \<Rightarrow>
          (case ub_messages u of
             msg # ms \<Rightarrow> Some (ub_dec_num_messages (u\<lparr>ub_messages := ms\<rparr>), Ready (Some (Normal, msg)))
           | [] \<Rightarrow>
               if state_is_closed (decode_state (ub_state u)) then Some (u\<lparr>ub_rx := False\<rparr>, Ready None)
               else Some (u, Pending)))"

definition ub_try_next :: "'a unb \<Rightarrow> ('a unb \<times> (unit + (priority \<times> 'a) option)) option" where
  "ub_try_next u =
     map_option (\<lambda>(u1, r). (u1, case r of Ready msg \<Rightarrow> Ok msg | Pending \<Rightarrow> Err ())) (ub_next_message u)"

definition ub_poll_next :: "nat \<Rightarrow> 'a unb \<Rightarrow> ('a unb \<times> (priority \<times> 'a) option poll) option" where
  "ub_poll_next cx u =
     (case ub_next_message u of
        None \<Rightarrow> None
      | Some (u1, Ready msg) \<Rightarrow> Some (if msg = None then u1\<lparr>ub_rx := False\<rparr> else u1, Ready msg)
      | Some (u1, Pending) \<Rightarrow> if \<not> ub_rx u1 then None else ub_next_message (ub_wake (Register cx) u1))"

partial_function (option) ub_drain_messages :: "('a unb \<Rightarrow> 'a unb) \<Rightarrow> 'a unb \<Rightarrow> 'a unb option" where
  "ub_drain_messages others u =
     (case ub_next_message u of
        None \<Rightarrow> None
      | Some (u1, Ready (Some _)) \<Rightarrow> ub_drain_messages others u1
      | Some (u1, Ready None) \<Rightarrow> Some u1
      | Some (u1, Pending) \<Rightarrow>
          if state_is_closed (decode_state (ub_state u1)) then Some u1 else ub_drain_messages others (others u1))"

definition ub_drop_receiver :: "('a unb \<Rightarrow> 'a unb) \<Rightarrow> 'a unb \<Rightarrow> 'a unb option" where
  "ub_drop_receiver others u = (let u1 = ub_close u in if ub_rx u1 then ub_drain_messages others u1 else Some u1)"

section \<open>It is a bounded channel that never parks\<close>

definition as_bounded :: "'a unb \<Rightarrow> 'a chan" where
  "as_bounded u = \<lparr>ch_buffer = MAX_CAPACITY, ch_state = ub_state u, ch_messages = ub_messages u, ch_quick = ub_quick u,
     ch_parked = [], ch_num_senders = ub_num_senders u, ch_tasks = (\<lambda>_. sender_task_new), ch_maybe_parked = (\<lambda>_. False),
     ch_rx = ub_rx u, ch_log = ub_log u\<rparr>"

lemma as_bounded_set_closed: "as_bounded (ub_set_closed u) = set_closed (as_bounded u)"
  by (simp add: as_bounded_def ub_set_closed_def set_closed_def)

lemma as_bounded_inc:
  "map_option (apfst as_bounded) (ub_inc_num_messages u) = inc_num_messages (as_bounded u)"
  by (simp add: as_bounded_def ub_inc_num_messages_def inc_num_messages_def Let_def)

lemma inc_le_capacity: "ub_inc_num_messages u = Some (u1, Some n) \<Longrightarrow> \<not> MAX_CAPACITY < n"
  by (auto simp: ub_inc_num_messages_def Let_def not_less split: if_splits intro: inc_le)

lemma as_bounded_send:
  "map_option (apfst as_bounded) (do_send_nb tx msg p u) =
     (if tx then inner_try_send s msg p (as_bounded u) else Some (as_bounded u, Err \<lparr>te_err = Disconnected, te_val = msg\<rparr>))"
proof (cases tx)
  case True
  have "poll_unparked s None (as_bounded u) = (as_bounded u, Ready ())" by (simp add: poll_unparked_def as_bounded_def)
  then show ?thesis
    using True inc_le_capacity [of u]
    by (auto simp: inner_try_send_def do_send_b_def do_send_nb_def as_bounded_inc [symmetric] Let_def
      queue_push_and_signal_def push_message_def ub_push_and_signal_def ub_wake_def log_event_def
      split: option.splits priority.splits) (auto simp: as_bounded_def)
qed (simp add: do_send_nb_def)


lemma as_bounded_next:
  "map_option (apfst as_bounded) (ub_next_message u) = next_message (as_bounded u)"
  by (auto simp: ub_next_message_def next_message_def as_bounded_def ub_dec_num_messages_def dec_num_messages_def unpark_one_def
    split: list.splits)

lemma as_bounded_wake: "as_bounded (ub_wake e u) = log_event e (as_bounded u)"
  by (simp add: as_bounded_def ub_wake_def log_event_def)

lemma as_bounded_poll_next:
  "map_option (apfst as_bounded) (ub_poll_next cx u) = chan_poll_next cx (as_bounded u)"
proof -
  have rx: "ch_rx (as_bounded v) = ub_rx v" "(as_bounded v)\<lparr>ch_rx := b\<rparr> = as_bounded (v\<lparr>ub_rx := b\<rparr>)" for v :: "'a unb" and b
    by (simp_all add: as_bounded_def)
  show ?thesis
    unfolding ub_poll_next_def chan_poll_next_def as_bounded_next [symmetric]
    by (auto simp: rx as_bounded_wake [symmetric] as_bounded_next [symmetric] split: option.splits poll.splits)
qed

lemma as_bounded_close: "as_bounded (ub_close u) = close_receiver (as_bounded u)"
proof -
  have "ch_parked (set_closed (as_bounded u)) = []" by (simp add: set_closed_def as_bounded_def)
  then have "drain_parked (set_closed (as_bounded u)) = set_closed (as_bounded u)" by (simp add: drain_parked.simps)
  then show ?thesis by (simp add: ub_close_def close_receiver_def as_bounded_set_closed) (simp add: as_bounded_def)
qed

lemma as_bounded_drop_sender: "as_bounded (ub_drop_sender u) = drop_sender (as_bounded u)"
  by (simp add: ub_drop_sender_def drop_sender_def ub_close_channel_def close_channel_def as_bounded_wake as_bounded_set_closed Let_def)
    (simp add: as_bounded_def)

text \<open>
  C24. The unbounded channel is the bounded one with the largest capacity: sending, receiving, polling,
  closing and dropping a sender commute with reading its state as the state of a bounded channel on
  which nobody is ever parked, so no send is refused as full.
\<close>

theorem unbounded_refines:
  "map_option (apfst as_bounded) (do_send_nb True msg p u) = inner_try_send s msg p (as_bounded u)
   \<and> map_option (apfst as_bounded) (ub_next_message u) = next_message (as_bounded u)
   \<and> map_option (apfst as_bounded) (ub_poll_next cx u) = chan_poll_next cx (as_bounded u)
   \<and> as_bounded (ub_close u) = close_receiver (as_bounded u)
   \<and> as_bounded (ub_close_channel u) = close_channel (as_bounded u)
   \<and> as_bounded (ub_drop_sender u) = drop_sender (as_bounded u)
   \<and> inner_poll_ready s cx (as_bounded u) = (as_bounded u, poll_ready_nb u)"
  using as_bounded_send [of True msg p u s] as_bounded_next [of u] as_bounded_poll_next [of cx u] as_bounded_close [of u]
    as_bounded_drop_sender [of u]
  by (simp add: ub_close_channel_def close_channel_def as_bounded_wake as_bounded_set_closed)
    (simp add: inner_poll_ready_def poll_ready_nb_def poll_unparked_def as_bounded_def)

section \<open>Sinks\<close>

definition sink_poll_ready :: "sender \<Rightarrow> nat \<Rightarrow> 'a chan \<Rightarrow> 'a chan \<times> (send_error + unit) poll" where
  "sink_poll_ready tx cx ch = chan_poll_ready tx cx ch"

definition sink_start_send :: "sender \<Rightarrow> 'a \<Rightarrow> 'a chan \<Rightarrow> ('a chan \<times> (send_error + unit)) option" where
  "sink_start_send tx msg ch = start_send tx msg ch"

definition sink_poll_flush :: "sender \<Rightarrow> nat \<Rightarrow> 'a chan \<Rightarrow> 'a chan \<times> (send_error + unit) poll" where
  "sink_poll_flush tx cx ch =
     (case chan_poll_ready tx cx ch of
        (ch1, Ready (Inl Disconnected)) \<Rightarrow> (ch1, Ready (Ok ()))
      | x \<Rightarrow> x)"

definition sink_poll_close :: "sender \<Rightarrow> 'a chan \<Rightarrow> (sender \<times> 'a chan) \<times> (send_error + unit) poll" where
  "sink_poll_close tx ch = (disconnect tx ch, Ready (Ok ()))"

definition ub_sink_poll_close :: "bool \<Rightarrow> 'a unb \<Rightarrow> (bool \<times> 'a unb) \<times> (send_error + unit) poll" where
  "ub_sink_poll_close tx u = (ub_disconnect tx u, Ready (Ok ()))"

text \<open>The sink of a shared reference closes the channel instead of disconnecting.\<close>

definition ub_ref_poll_close :: "bool \<Rightarrow> 'a unb \<Rightarrow> 'a unb \<times> (send_error + unit) poll" where
  "ub_ref_poll_close tx u = (ub_sender_close tx u, Ready (Ok ()))"

text \<open>One poll of the future \<open>QuickSend\<close> over any sink.\<close>

definition quick_send_poll :: "('s \<Rightarrow> 's \<times> ('e + unit) poll) \<Rightarrow> ('a \<Rightarrow> 's \<Rightarrow> ('s \<times> ('e + unit)) option)
    \<Rightarrow> ('s \<Rightarrow> 's \<times> ('e + unit) poll) \<Rightarrow> 'a option \<times> 's \<Rightarrow> (('a option \<times> 's) \<times> ('e + unit) poll) option" where
  "quick_send_poll ready start flush x =
     (let flushing = (\<lambda>s. case flush s of (s1, r) \<Rightarrow> Some ((None, s1), r)) in
      case x of
        (Some item, s) \<Rightarrow>
          (case ready s of
             (s1, Ready (Inr _)) \<Rightarrow>
               (case start item s1 of
                  None \<Rightarrow> None
                | Some (s2, Inl e) \<Rightarrow> Some ((None, s2), Ready (Err e))
                | Some (s2, Inr _) \<Rightarrow> flushing s2)
           | (s1, Ready (Inl e)) \<Rightarrow> Some ((None, s1), Ready (Err e))
           | (s1, Pending) \<Rightarrow> Some ((Some item, s1), Pending))
      | (None, s) \<Rightarrow> flushing s)"

text \<open>A quick send pushes its item once: before the push it only waits, afterwards it only flushes.\<close>

lemma sink_poll_flush_queues:
  assumes "sink_poll_flush tx cx ch = (ch1, r)"
  shows "ch_quick ch1 = ch_quick ch \<and> ch_messages ch1 = ch_messages ch"
  using assms chan_poll_ready_keeps [of tx cx ch]
  by (auto simp: sink_poll_flush_def split: prod.splits poll.splits sum.splits send_error.splits)

lemma start_quick_send_queues:
  assumes "start_quick_send tx msg ch = Some (ch1, r)"
  shows "ch_messages ch1 = ch_messages ch \<and> ch_quick ch1 = ch_quick ch @ (if r = Ok () then [msg] else [])"
  using assms
  by (auto simp: start_quick_send_def try_quick_send_def dest: inner_try_send_changes split: option.splits)


lemma quick_send_once:
  assumes "quick_send_poll (chan_poll_ready tx cx) (start_quick_send tx) (sink_poll_flush tx cx) (item, ch) = Some ((item1, ch1), r)"
  shows "ch_messages ch1 = ch_messages ch \<and>
    (case item of
       None \<Rightarrow> item1 = None \<and> ch_quick ch1 = ch_quick ch
     | Some msg \<Rightarrow>
         item1 = Some msg \<and> r = Pending \<and> ch_quick ch1 = ch_quick ch
         \<or> item1 = None \<and> ch_quick ch1 = ch_quick ch @ [msg]
         \<or> item1 = None \<and> ch_quick ch1 = ch_quick ch \<and> (\<exists>e. r = Ready (Err e)))"
  using assms chan_poll_ready_keeps [of tx cx ch] sink_poll_flush_queues [of tx cx] start_quick_send_queues [of tx]
  by (fastforce simp: quick_send_poll_def Let_def split: option.splits prod.splits poll.splits sum.splits)

end
