(* ===== verification/Send_Buffer.thy ===== *)
theory Send_Buffer
  imports Priority_Channel
begin

text \<open>
  The buffers in front of a channel (\<open>buffer.rs\<close>): \<open>PriorityBuffer\<close> over the priority channel
  of this repository, \<open>Buffer\<close> over the channel of the crate \<open>futures\<close>, whose two sending operations
  are a parameter. What a client of a sender relies on is the interface \<open>sending_half\<close>.
\<close>

section \<open>The loop over a buffer\<close>

datatype send_result = SendOk | SendPending | SendDisconnect

record ('c, 'a) tx_ops =
  tx_ready :: "'c \<Rightarrow> 'c \<times> (send_error + unit) poll"
  tx_send :: "'a \<Rightarrow> 'c \<Rightarrow> ('c \<times> ('a try_send_error + unit)) option"

text \<open>
  One of the three \<open>while let\<close> loops of \<open>try_send\<close>: the channel and the rest of the buffer, and the
  result when the loop returns early; \<open>SendDisconnect\<close> has cleared the buffer.
\<close>

fun send_loop :: "('c, 'a) tx_ops \<Rightarrow> 'a list \<Rightarrow> 'c \<Rightarrow> ('c \<times> 'a list \<times> send_result option) option" where
  "send_loop X [] c = Some (c, [], None)"
| "send_loop X (event # rest) c =
     (case tx_ready X c of
        (c1, Ready (Inr _)) \<Rightarrow>
          (case tx_send X event c1 of
             None \<Rightarrow> None
           | Some (c2, Inr _) \<Rightarrow> send_loop X rest c2
           | Some (c2, Inl e) \<Rightarrow>
               if is_full e then Some (c2, te_val e # rest, Some SendPending)
               else Some (c2, [], Some SendDisconnect))
      | (c1, Pending) \<Rightarrow> Some (c1, event # rest, Some SendPending)
      | (c1, Ready (Inl _)) \<Rightarrow> Some (c1, [], Some SendDisconnect))"

section \<open>The sending half of a channel\<close>

text \<open>
  \<open>queued\<close> is everything accepted so far: polling accepts nothing, a send that succeeds appends its
  message, and one that fails gives the message back.
\<close>

locale sending_half =
  fixes X :: "('c, 'a) tx_ops"
    and queued :: "'c \<Rightarrow> 'a list"
  assumes ready_queued: "tx_ready X c = (c1, r) \<Longrightarrow> queued c1 = queued c"
    and send_ok: "tx_send X m c = Some (c1, Ok u) \<Longrightarrow> queued c1 = queued c @ [m]"
    and send_err: "tx_send X m c = Some (c1, Err e) \<Longrightarrow> queued c1 = queued c \<and> te_val e = m"
begin

lemma send_loop_keeps:
  assumes "send_loop X b c = Some (c1, b1, r)"
  shows "case r of
     None \<Rightarrow> b1 = [] \<and> queued c1 = queued c @ b
   | Some SendPending \<Rightarrow> b1 \<noteq> [] \<and> queued c1 @ b1 = queued c @ b
   | Some SendDisconnect \<Rightarrow> b1 = [] \<and> (\<exists>k < length b. queued c1 = queued c @ take k b)
   | Some SendOk \<Rightarrow> False"
  using assms
proof (induction b arbitrary: c)
  case (Cons event rest)
  obtain c2 p where p: "tx_ready X c = (c2, p)" by (cases "tx_ready X c")
  note q = ready_queued [OF p]
  show ?case
  proof (cases p)
    case Pending
    then show ?thesis using Cons.prems p q by auto
  next
    case (Ready s)
    show ?thesis
    proof (cases s)
      case (Inl e)
      then show ?thesis using Cons.prems p q Ready by auto
    next
      case (Inr u)
      then obtain c3 t where t: "tx_send X event c2 = Some (c3, t)"
        using Cons.prems p Ready by (auto split: option.splits)
      show ?thesis
      proof (cases t)
        case (Inl e)
        with send_err [of event c2 c3 e] t have "queued c3 = queued c2 \<and> te_val e = event" by blast
        then show ?thesis using Cons.prems p q Ready Inr t Inl by (auto split: if_splits)
      next
        case ok: (Inr v)
        with send_ok [of event c2 c3 v] t have s: "queued c3 = queued c @ [event]" using q by simp
        have "send_loop X rest c3 = Some (c1, b1, r)" using Cons.prems p Ready Inr t ok by simp
        from Cons.IH [OF this] s show ?thesis
          by (cases r) (auto split: send_result.splits intro: exI [of _ "Suc k" for k])
      qed
    qed
  qed
qed simp

end

text \<open>The priority channel provides the interface, for each of its two priorities.\<close>

definition priority_tx :: "priority \<Rightarrow> sender \<Rightarrow> nat \<Rightarrow> ('a chan, 'a) tx_ops" where
  "priority_tx p tx cx =
     \<lparr>tx_ready = chan_poll_ready tx cx, tx_send = (case p of High \<Rightarrow> try_quick_send tx | Normal \<Rightarrow> try_send tx)\<rparr>"

interpretation quick: sending_half "priority_tx High tx cx" ch_quick
  by unfold_locales
    (auto simp: priority_tx_def try_quick_send_def dest: chan_poll_ready_keeps inner_try_send_changes split: option.splits)

interpretation normal: sending_half "priority_tx Normal tx cx" ch_messages
  by unfold_locales
    (auto simp: priority_tx_def try_send_def dest: chan_poll_ready_keeps inner_try_send_changes split: option.splits)


lemma send_loop_frame:
  assumes "send_loop X b c = Some (c1, b1, r)"
    and "\<And>c c1 r. tx_ready X c = (c1, r) \<Longrightarrow> f c1 = f c" "\<And>m c c1 r. tx_send X m c = Some (c1, r) \<Longrightarrow> f c1 = f c"
  shows "f c1 = f c"
  using assms(1)
proof (induction b arbitrary: c)
  case (Cons event rest)
  obtain c2 p where p: "tx_ready X c = (c2, p)" by (cases "tx_ready X c")
  show ?case using Cons.prems p assms(2) [OF p] assms(3) [of event c2] Cons.IH
    by (auto split: poll.splits sum.splits option.splits if_splits)
qed simp

section \<open>The priority buffer\<close>

record 'a pbuf =
  pb_sender :: sender
  pb_high :: "'a list"
  pb_normal :: "'a list"

definition pb_new :: "sender \<Rightarrow> 'a pbuf" where
  "pb_new tx = \<lparr>pb_sender = tx, pb_high = [], pb_normal = []\<rparr>"

definition push_high :: "'a \<Rightarrow> 'a pbuf \<Rightarrow> 'a pbuf" where
  "push_high item b = b\<lparr>pb_high := pb_high b @ [item]\<rparr>"

definition push_normal :: "'a \<Rightarrow> 'a pbuf \<Rightarrow> 'a pbuf" where
  "push_normal item b = b\<lparr>pb_normal := pb_normal b @ [item]\<rparr>"

definition pb_len :: "'a pbuf \<Rightarrow> nat" where
  "pb_len b = length (pb_high b) + length (pb_normal b)"

definition pb_is_empty :: "'a pbuf \<Rightarrow> bool" where
  "pb_is_empty b \<longleftrightarrow> pb_high b = [] \<and> pb_normal b = []"

definition pb_clear :: "'a pbuf \<Rightarrow> 'a pbuf" where
  "pb_clear b = b\<lparr>pb_high := [], pb_normal := []\<rparr>"

definition pb_try_send :: "nat \<Rightarrow> 'a pbuf \<Rightarrow> 'a chan \<Rightarrow> ('a chan \<times> 'a pbuf \<times> send_result) option" where
  "pb_try_send cx b ch =
     (case send_loop (priority_tx High (pb_sender b) cx) (pb_high b) ch of
        None \<Rightarrow> None
      | Some (ch1, h, Some SendDisconnect) \<Rightarrow> Some (ch1, pb_clear b, SendDisconnect)
      | Some (ch1, h, Some r) \<Rightarrow> Some (ch1, b\<lparr>pb_high := h\<rparr>, r)
      | Some (ch1, h, None) \<Rightarrow>
          (let b1 = b\<lparr>pb_high := h\<rparr> in
           case send_loop (priority_tx Normal (pb_sender b) cx) (pb_normal b1) ch1 of
             None \<Rightarrow> None
           | Some (ch2, n, Some SendDisconnect) \<Rightarrow> Some (ch2, pb_clear b1, SendDisconnect)
           | Some (ch2, n, Some r) \<Rightarrow> Some (ch2, b1\<lparr>pb_normal := n\<rparr>, r)
           | Some (ch2, n, None) \<Rightarrow> Some (ch2, b1\<lparr>pb_normal := n\<rparr>, SendOk)))"

text \<open>\<open>clone\<close>: the new buffer has the cloned sender and nothing buffered.\<close>

definition pb_clone :: "nat \<Rightarrow> 'a pbuf \<Rightarrow> 'a chan \<Rightarrow> ('a pbuf \<times> 'a chan) option" where
  "pb_clone s b ch =
     (case pb_sender b of
        None \<Rightarrow> Some (pb_new None, ch)
      | Some _ \<Rightarrow> map_option (\<lambda>ch1. (pb_new (Some s), ch1)) (clone_sender s ch))"

lemma send_loop_other_class:
  "send_loop (priority_tx High tx cx) b ch = Some (ch1, b1, r) \<Longrightarrow> ch_messages ch1 = ch_messages ch"
  "send_loop (priority_tx Normal tx cx) b ch = Some (ch1, b1, r) \<Longrightarrow> ch_quick ch1 = ch_quick ch"
  by (auto elim!: send_loop_frame simp: priority_tx_def try_send_def try_quick_send_def
    dest!: chan_poll_ready_keeps inner_try_send_changes split: option.splits)

text \<open>
  The priority buffer loses and reorders nothing: when the channel is full, what was sent and what is
  still buffered are together what was there before, and normal messages go only after all urgent ones; when it
  answers \<open>Ok\<close> everything is in the channel; only a disconnected channel clears it.
\<close>

lemma priority_buffer_in_order:
  assumes "pb_try_send cx b ch = Some (ch1, b1, r)"
  shows "case r of
     SendOk \<Rightarrow> pb_is_empty b1 \<and> ch_quick ch1 = ch_quick ch @ pb_high b \<and> ch_messages ch1 = ch_messages ch @ pb_normal b
   | SendPending \<Rightarrow> ch_quick ch1 @ pb_high b1 = ch_quick ch @ pb_high b \<and> ch_messages ch1 @ pb_normal b1 = ch_messages ch @ pb_normal b
       \<and> \<not> pb_is_empty b1 \<and> (pb_high b1 = [] \<or> ch_messages ch1 = ch_messages ch)
   | SendDisconnect \<Rightarrow> pb_is_empty b1"
proof -
  obtain c h e where q: "send_loop (priority_tx High (pb_sender b) cx) (pb_high b) ch = Some (c, h, e)"
    using assms by (auto simp: pb_try_send_def split: option.splits)
  note q1 = quick.send_loop_keeps [OF q] and q2 = send_loop_other_class(1) [OF q]
  show ?thesis
  proof (cases e)
    case (Some e')
    then show ?thesis using assms q q1 q2
      by (cases e') (auto simp: pb_try_send_def pb_clear_def pb_is_empty_def)
  next
    case None
    then obtain c' n e' where n: "send_loop (priority_tx Normal (pb_sender b) cx) (pb_normal b) c = Some (c', n, e')"
      using assms q by (auto simp: pb_try_send_def Let_def split: option.splits)
    note n1 = normal.send_loop_keeps [OF n] and n2 = send_loop_other_class(2) [OF n]
    show ?thesis using assms q q1 q2 n n1 n2 None
      by (cases e') (auto simp: pb_try_send_def pb_clear_def pb_is_empty_def Let_def split: send_result.splits)
  qed
qed

text \<open>Only a closed channel, or a disconnected sender, makes the buffer forget messages.\<close>

lemma poll_unparked_state: "poll_unparked s w ch = (ch1, r) \<Longrightarrow> ch_state ch1 = ch_state ch"
  by (auto simp: poll_unparked_def park_store_def Let_def split: if_splits)

lemma inner_poll_ready_closed:
  "inner_poll_ready s cx ch = (ch1, r) \<Longrightarrow> chan_is_closed ch1 = chan_is_closed ch \<and> (\<forall>e. r = Ready (Err e) \<longrightarrow> chan_is_closed ch)"
  by (auto simp: inner_poll_ready_def chan_is_closed_def dest!: poll_unparked_state split: if_splits prod.splits poll.splits)

lemma try_send_counter_closed:
  assumes "inc_num_messages ch = Some (ch1, r)"
  shows "chan_is_closed ch1 = chan_is_closed ch \<and> (r = None \<longrightarrow> chan_is_closed ch)"
proof (cases "is_open (chan_st ch)")
  case True
  let ?st = "(chan_st ch)\<lparr>num_messages := num_messages (chan_st ch) + 1\<rparr>"
  from True assms have lt: "num_messages (chan_st ch) < MAX_CAPACITY" and r: "ch1 = ch\<lparr>ch_state := encode_state ?st\<rparr>" "r \<noteq> None"
    by (auto simp: inc_num_messages_def Let_def split: if_splits)
  have "unat (num_messages (chan_st ch)) < 2 ^ 63 - 1" using lt unfolding word_less_nat_alt unat_capacity .
  then have "unat (num_messages ?st) < 2 ^ 63" by (simp add: unat_word_ariths)
  from decode_encode [OF this] r True show ?thesis by (simp add: chan_is_closed_def)
qed (use assms in \<open>auto simp: inc_num_messages_def chan_is_closed_def\<close>)

lemma park_closed [simp]: "chan_is_closed (park s ch) = chan_is_closed ch"
  by (simp add: park_def park_push_def park_lock_def park_store_def Let_def chan_is_closed_def)

lemma push_closed [simp]: "chan_is_closed (queue_push_and_signal m p ch) = chan_is_closed ch"
  by (simp add: queue_push_and_signal_def push_message_def log_event_def chan_is_closed_def split: priority.splits)

lemma inner_try_send_closed:
  assumes "inner_try_send s m p ch = Some (ch1, r)"
  shows "chan_is_closed ch1 = chan_is_closed ch \<and> (\<forall>e. r = Err e \<and> \<not> is_full e \<longrightarrow> chan_is_closed ch)"
proof -
  obtain c q where q: "poll_unparked s None ch = (c, q)" by (cases "poll_unparked s None ch")
  then have c: "chan_is_closed c = chan_is_closed ch" using poll_unparked_state [OF q] by (simp add: chan_is_closed_def)
  show ?thesis using assms q c
    by (auto simp: inner_try_send_def do_send_b_def is_full_def Let_def dest!: try_send_counter_closed
      split: poll.splits option.splits if_splits)
qed

lemma send_loop_disconnect:
  "send_loop (priority_tx p (Some t) cx) b ch = Some (ch1, b1, r) \<Longrightarrow>
     chan_is_closed ch1 = chan_is_closed ch \<and> (r = Some SendDisconnect \<longrightarrow> chan_is_closed ch)"
proof (induction b arbitrary: ch)
  case (Cons m b)
  obtain c q where q: "inner_poll_ready t cx ch = (c, q)" by (cases "inner_poll_ready t cx ch")
  note qc = inner_poll_ready_closed [OF q]
  show ?case
  proof (cases "inner_try_send t m p c")
    case None
    then show ?thesis using Cons.prems q qc
      by (cases p) (auto simp: priority_tx_def chan_poll_ready_def try_send_def try_quick_send_def split: poll.splits sum.splits)
  next
    case (Some x)
    obtain c' e where x: "x = (c', e)" by (cases x)
    note sc = inner_try_send_closed [OF Some [unfolded x]]
    show ?thesis using Cons.prems Cons.IH q qc Some x sc
      by (cases p) (auto simp: priority_tx_def chan_poll_ready_def try_send_def try_quick_send_def
        split: poll.splits sum.splits if_splits)
  qed
qed simp

lemma pb_try_send_disconnect:
  assumes "pb_try_send cx b ch = Some (ch1, b1, SendDisconnect)"
  shows "sender_is_closed (pb_sender b) ch"
proof (cases "pb_sender b")
  case (Some t)
  then show ?thesis using assms
    by (auto simp: pb_try_send_def sender_is_closed_def Let_def dest!: send_loop_disconnect split: option.splits send_result.splits)
qed (simp add: sender_is_closed_def)

section \<open>The plain buffer\<close>

record 'a buf = bf_buffer :: "'a list"

definition bf_new :: "'a buf" where "bf_new = \<lparr>bf_buffer = []\<rparr>"
definition bf_push :: "'a \<Rightarrow> 'a buf \<Rightarrow> 'a buf" where "bf_push item b = b\<lparr>bf_buffer := bf_buffer b @ [item]\<rparr>"
definition bf_len :: "'a buf \<Rightarrow> nat" where "bf_len b = length (bf_buffer b)"
definition bf_is_empty :: "'a buf \<Rightarrow> bool" where "bf_is_empty b \<longleftrightarrow> bf_buffer b = []"
definition bf_clear :: "'a buf \<Rightarrow> 'a buf" where "bf_clear b = b\<lparr>bf_buffer := []\<rparr>"
definition bf_take :: "'a buf \<Rightarrow> 'a list \<times> 'a buf" where "bf_take b = (bf_buffer b, b\<lparr>bf_buffer := []\<rparr>)"

definition bf_try_send :: "('c, 'a) tx_ops \<Rightarrow> 'a buf \<Rightarrow> 'c \<Rightarrow> ('c \<times> 'a buf \<times> send_result) option" where
  "bf_try_send X b c =
     map_option (\<lambda>(c1, rest, r). (c1, b\<lparr>bf_buffer := rest\<rparr>, case r of Some r' \<Rightarrow> r' | None \<Rightarrow> SendOk))
       (send_loop X (bf_buffer b) c)"

lemma buffer_in_order:
  assumes "sending_half X queued" "bf_try_send X b c = Some (c1, b1, r)"
  shows "case r of
     SendOk \<Rightarrow> bf_is_empty b1 \<and> queued c1 = queued c @ bf_buffer b
   | SendPending \<Rightarrow> \<not> bf_is_empty b1 \<and> queued c1 @ bf_buffer b1 = queued c @ bf_buffer b
   | SendDisconnect \<Rightarrow> bf_is_empty b1"
  using sending_half.send_loop_keeps [OF assms(1), of "bf_buffer b" c] assms(2)
  by (fastforce simp: bf_try_send_def bf_is_empty_def split: option.splits send_result.splits)

text \<open>The run of the unit test of \<open>buffer.rs\<close>: capacity one, four urgent and two normal messages.\<close>

definition sample_buffer :: "nat pbuf" where
  "sample_buffer = push_normal 6 (push_normal 5 (push_high 4 (push_high 3 (push_high 2 (push_high 1 (pb_new (Some 0)))))))"

lemma sample_buffer_sends:
  "case Option.bind (channel 1) (pb_try_send 0 sample_buffer) of
     None \<Rightarrow> False
   | Some (ch, b, r) \<Rightarrow> pb_high b = [3, 4] \<and> pb_normal b = [5, 6] \<and> ch_quick ch = [1, 2] \<and> r = SendPending"
  by code_simp

end
