(* ===== verification/Session_Events.thy ===== *)
theory Session_Events
  imports Session_Context Secio_Support Send_Buffer "HOL-Library.Monad_Syntax"
begin

text \<open>
  What the tasks of a connection exchange: the shared session context (\<open>context.rs\<close>), the events between
  a protocol stream and its session (\<open>substream.rs\<close>), and the events to the protocol handlers
  (\<open>protocol_handle_stream.rs\<close>). Identifiers are machine words; a duration is a number of milliseconds.
\<close>

type_synonym usize = u64

section \<open>The session context\<close>

record ses_ctx =
  cx_id :: usize
  cx_address :: multiaddr
  cx_ty :: session_kind
  cx_pubkey :: "public_key option"
  cx_closed :: bool
  cx_pending :: usize

definition ses_ctx_new :: "usize \<Rightarrow> multiaddr \<Rightarrow> session_kind \<Rightarrow> public_key option \<Rightarrow> ses_ctx" where
  "ses_ctx_new i address ty pubkey =
     \<lparr>cx_id = i, cx_address = address, cx_ty = ty, cx_pubkey = pubkey, cx_closed = False, cx_pending = 0\<rparr>"

definition incr_pending_data_size :: "usize \<Rightarrow> ses_ctx \<Rightarrow> ses_ctx" where
  "incr_pending_data_size n cx = cx\<lparr>cx_pending := cx_pending cx + n\<rparr>"

definition decr_pending_data_size :: "usize \<Rightarrow> ses_ctx \<Rightarrow> ses_ctx" where
  "decr_pending_data_size n cx = cx\<lparr>cx_pending := cx_pending cx - n\<rparr>"

section \<open>Configuration\<close>

record session_config =
  sg_window :: u32
  sg_send_buffer :: usize
  sg_recv_buffer :: usize
  sg_channel :: usize

definition MAX_BUF_SIZE :: usize where "MAX_BUF_SIZE = 24 * 1024 * 1024"

definition default_session_config :: session_config where
  "default_session_config =
     \<lparr>sg_window = 256 * 1024, sg_send_buffer = MAX_BUF_SIZE, sg_recv_buffer = MAX_BUF_SIZE, sg_channel = 128\<rparr>"

text \<open>A window of zero is a division by zero.\<close>

definition recv_event_size :: "session_config \<Rightarrow> usize option" where
  "recv_event_size g = (if sg_window g = 0 then None else Some (sg_recv_buffer g div ucast (sg_window g) + 1))"

definition send_event_size :: "session_config \<Rightarrow> usize option" where
  "send_event_size g = (if sg_window g = 0 then None else Some (sg_send_buffer g div ucast (sg_window g) + 1))"

section \<open>Events\<close>

text \<open>\<open>'h\<close> is the framed substream that a selected protocol continues on.\<close>

datatype 'h protocol_event =
    PeOpen str 'h str
  | PeClose usize usize
  | PeMessage "byte list"
  | PeSelectError "str option"
  | PeError usize io_error
  | PeTimeoutCheck

datatype service_proto_event =
    SvInit
  | SvConnected ses_ctx str
  | SvDisconnected usize
  | SvReceived usize "byte list"
  | SvSetNotify nat u64
  | SvRemoveNotify u64
  | SvNotify u64
  | SvUpdate "multiaddr list"

datatype session_proto_event =
    SsOpened str
  | SsClosed
  | SsDisconnected
  | SsReceived "byte list"
  | SsNotify u64
  | SsSetNotify nat u64
  | SsRemoveNotify u64
  | SsUpdate "multiaddr list"

text \<open>The kinds of errors (\<open>error.rs\<close>); the texts that \<open>thiserror\<close> prints are not modelled.\<close>

datatype transport_error = TeIo io_error | TeNotSupported multiaddr | TeDnsResolver multiaddr io_error

datatype protocol_handle_error = AbnormallyClosed "usize option"

datatype handshake_error = HsTimeout str | HsSecio secio_error

datatype ses_state = RemoteClose | LocalClose | NormalState | Abnormal

text \<open>
  \<open>SessionEvent\<close> of \<open>session.rs\<close>: \<open>'y\<close> is a yamux stream, \<open>'k\<close> a raw connection, \<open>'i\<close> a listener's stream of
  incoming connections.
\<close>

datatype ('y, 'k, 'i) session_event =
    SeSessionClose usize
  | SeListenStart multiaddr 'i
  | SeHandshakeSuccess 'k "public_key option" multiaddr session_kind "multiaddr option"
  | SeHandshakeError multiaddr session_kind handshake_error
  | SeDialError multiaddr transport_error
  | SeListenError multiaddr transport_error
  | SeProtocolMessage usize "byte list"
  | SeProtocolOpen usize
  | SeProtocolClose usize
  | SeStreamStart 'y
  | SeChangeState usize ses_state "io_error option"
  | SeProtocolSelectError usize "str option"
  | SeSessionTimeout usize
  | SeProtocolError usize usize io_error
  | SeMuxerError usize io_error
  | SeProtocolHandleError protocol_handle_error usize

text \<open>The kinds of errors that mean the connection is gone (matched in \<open>substream.rs\<close> and \<open>session.rs\<close>).\<close>

fun connection_gone :: "io_error \<Rightarrow> bool" where
  "connection_gone BrokenPipe = True"
| "connection_gone ConnectionAborted = True"
| "connection_gone ConnectionReset = True"
| "connection_gone NotConnected = True"
| "connection_gone UnexpectedEof = True"
| "connection_gone _ = False"

end
