(* ===== verification/Proto_Substream.thy ===== *)
theory Proto_Substream
  imports Session_Events
begin

text \<open>
  One opened protocol of a session (\<open>substream.rs\<close>): it moves messages of the session to the framed
  yamux stream and frames of the stream to the protocol handlers. The framed stream and the
  channels of the crate \<open>futures\<close> are parameters over a state \<open>'w\<close>; the channel from the session is
  the modelled priority channel. Spawned tasks that send the last events are recorded.
\<close>

section \<open>State\<close>

record 'w io_ops =
  io_ready :: "'w \<Rightarrow> 'w \<times> (io_error + unit) poll"
  io_send :: "byte list \<Rightarrow> 'w \<Rightarrow> 'w \<times> (io_error + unit)"
  io_flush :: "'w \<Rightarrow> 'w \<times> (io_error + unit) poll"
  io_next :: "'w \<Rightarrow> 'w \<times> (io_error + byte list) option poll"
  io_shutdown :: "'w \<Rightarrow> 'w \<times> (io_error + unit) poll"

record ('w, 'h) sub_env =
  se_io :: "'w io_ops"
  se_events :: "('w, 'h protocol_event) tx_ops"
  se_service :: "('w, service_proto_event) tx_ops"
  se_session :: "('w, session_proto_event) tx_ops"

datatype 'h sub_task =
    ServiceTask "service_proto_event list"
  | SessionTask "session_proto_event list"
  | OwnerTask "'h protocol_event list"

record ('w, 'h) substream =
  sb_io :: 'w
  sb_id :: usize
  sb_proto :: usize
  sb_ctx :: ses_ctx
  sb_config :: session_config
  sb_high :: "byte list list"
  sb_write :: "byte list list"
  sb_dead :: bool
  sb_keep :: bool
  sb_events :: "'h protocol_event buf"
  sb_chan :: "'h protocol_event chan"
  sb_service :: "service_proto_event buf option"
  sb_session :: "session_proto_event buf option"
  sb_before :: "(byte list \<Rightarrow> io_error + byte list) option"
  sb_spawned :: "'h sub_task list"

text \<open>\<open>SubstreamBuilder\<close>: its setters and \<open>build\<close>.\<close>

definition sub_build :: "'w \<Rightarrow> usize \<Rightarrow> usize \<Rightarrow> ses_ctx \<Rightarrow> session_config \<Rightarrow> bool \<Rightarrow> 'h protocol_event chan
    \<Rightarrow> service_proto_event buf option \<Rightarrow> session_proto_event buf option \<Rightarrow> (byte list \<Rightarrow> io_error + byte list) option
    \<Rightarrow> ('w, 'h) substream" where
  "sub_build w i pid cx g keep ch service session before =
     \<lparr>sb_io = w, sb_id = i, sb_proto = pid, sb_ctx = cx, sb_config = g, sb_high = [], sb_write = [], sb_dead = False,
      sb_keep = keep, sb_events = bf_new, sb_chan = ch, sb_service = service, sb_session = session, sb_before = before,
      sb_spawned = []\<rparr>"

definition proto_open :: "str \<Rightarrow> ('w, 'h) substream \<Rightarrow> ('w, 'h) substream" where
  "proto_open version s =
     s\<lparr>sb_service := map_option (bf_push (SvConnected (sb_ctx s) version)) (sb_service s),
       sb_session := map_option (bf_push (SsOpened version)) (sb_session s)\<rparr>"

section \<open>Writing\<close>

definition sub_push_front :: "priority \<Rightarrow> byte list \<Rightarrow> ('w, 'h) substream \<Rightarrow> ('w, 'h) substream" where
  "sub_push_front p frame s = (if is_high p then s\<lparr>sb_high := frame # sb_high s\<rparr> else s\<lparr>sb_write := frame # sb_write s\<rparr>)"

definition sub_push_back :: "priority \<Rightarrow> byte list \<Rightarrow> ('w, 'h) substream \<Rightarrow> ('w, 'h) substream" where
  "sub_push_back p frame s = (if is_high p then s\<lparr>sb_high := sb_high s @ [frame]\<rparr> else s\<lparr>sb_write := sb_write s @ [frame]\<rparr>)"

definition sub_poll_complete :: "('w, 'h) sub_env \<Rightarrow> ('w, 'h) substream \<Rightarrow> ('w, 'h) substream \<times> (io_error + bool)" where
  "sub_poll_complete E s =
     (case io_flush (se_io E) (sb_io s) of
        (w, Pending) \<Rightarrow> (s\<lparr>sb_io := w\<rparr>, Ok True)
      | (w, Ready (Inr _)) \<Rightarrow> (s\<lparr>sb_io := w\<rparr>, Ok False)
      | (w, Ready (Inl e)) \<Rightarrow> (s\<lparr>sb_io := w\<rparr>, Err e))"

definition send_inner :: "('w, 'h) sub_env \<Rightarrow> byte list \<Rightarrow> priority \<Rightarrow> ('w, 'h) substream
    \<Rightarrow> ('w, 'h) substream \<times> (io_error + bool)" where
  "send_inner E frame p s =
     (let data_size = of_nat (length frame) in
      case io_ready (se_io E) (sb_io s) of
        (w, Ready (Inl e)) \<Rightarrow> (s\<lparr>sb_io := w\<rparr>, Err e)
      | (w, Ready (Inr _)) \<Rightarrow>
          (case io_send (se_io E) frame w of
             (w1, Inl e) \<Rightarrow> (s\<lparr>sb_io := w1\<rparr>, Err e)
           | (w1, Inr _) \<Rightarrow> (s\<lparr>sb_io := w1, sb_ctx := decr_pending_data_size data_size (sb_ctx s)\<rparr>, Ok False))
      | (w, Pending) \<Rightarrow>
          (case sub_poll_complete E (sub_push_front p frame (s\<lparr>sb_io := w\<rparr>)) of
             (s1, Inl e) \<Rightarrow> (s1, Err e)
           | (s1, Inr _) \<Rightarrow> (s1, Ok True)))"

text \<open>One of the two \<open>while let\<close> loops of \<open>sub_send_data\<close>; \<open>Ok True\<close> when the socket is full.\<close>

definition set_queue :: "priority \<Rightarrow> byte list list \<Rightarrow> ('w, 'h) substream \<Rightarrow> ('w, 'h) substream" where
  "set_queue p fs s = (if is_high p then s\<lparr>sb_high := fs\<rparr> else s\<lparr>sb_write := fs\<rparr>)"

fun send_queue :: "('w, 'h) sub_env \<Rightarrow> priority \<Rightarrow> byte list list \<Rightarrow> ('w, 'h) substream
    \<Rightarrow> ('w, 'h) substream \<times> (io_error + bool)" where
  "send_queue E p [] s = (s, Ok False)"
| "send_queue E p (frame # fs) s =
     (case send_inner E frame p (set_queue p fs s) of
        (s1, Inl e) \<Rightarrow> (s1, Err e)
      | (s1, Inr True) \<Rightarrow> (s1, Ok True)
      | (s1, Inr False) \<Rightarrow> send_queue E p fs s1)"

definition sub_send_data :: "('w, 'h) sub_env \<Rightarrow> ('w, 'h) substream \<Rightarrow> ('w, 'h) substream \<times> (io_error + unit)" where
  "sub_send_data E s =
     (case send_queue E High (sb_high s) s of
        (s1, Inl e) \<Rightarrow> (s1, Err e)
      | (s1, Inr True) \<Rightarrow> (s1, Ok ())
      | (s1, Inr False) \<Rightarrow>
          (case send_queue E Normal (sb_write s1) s1 of
             (s2, Inl e) \<Rightarrow> (s2, Err e)
           | (s2, Inr True) \<Rightarrow> (s2, Ok ())
           | (s2, Inr False) \<Rightarrow>
               (case sub_poll_complete E s2 of (s3, Inl e) \<Rightarrow> (s3, Err e) | (s3, Inr _) \<Rightarrow> (s3, Ok ()))))"

section \<open>Events\<close>

definition sub_output :: "('w, 'h) sub_env \<Rightarrow> ('w, 'h) substream \<Rightarrow> ('w, 'h) substream option" where
  "sub_output E s =
     map_option (\<lambda>(w, b, r). s\<lparr>sb_io := w, sb_events := b, sb_dead := (sb_dead s \<or> r = SendDisconnect)\<rparr>)
       (bf_try_send (se_events E) (sb_events s) (sb_io s))"

definition sub_output_event :: "('w, 'h) sub_env \<Rightarrow> 'h protocol_event \<Rightarrow> ('w, 'h) substream \<Rightarrow> ('w, 'h) substream option" where
  "sub_output_event E event s = sub_output E (s\<lparr>sb_events := bf_push event (sb_events s)\<rparr>)"

text \<open>One of the two buffers to the handlers.\<close>

definition hand_out :: "('w, 'e) tx_ops \<Rightarrow> 'e buf option \<Rightarrow> 'w \<Rightarrow> ('w \<times> 'e buf option \<times> bool) option" where
  "hand_out X buffer w =
     (case buffer of
        None \<Rightarrow> Some (w, None, False)
      | Some b \<Rightarrow> map_option (\<lambda>(w1, b1, r). (w1, Some b1, r = SendDisconnect)) (bf_try_send X b w))"

definition distribute_to_user_level :: "('w, 'h) sub_env \<Rightarrow> ('w, 'h) substream \<Rightarrow> ('w, 'h) substream option" where
  "distribute_to_user_level E s = do {
     (w1, service, d1) \<leftarrow> hand_out (se_service E) (sb_service s) (sb_io s);
     (w2, session, d2) \<leftarrow> hand_out (se_session E) (sb_session s) w1;
     let s1 = s\<lparr>sb_io := w2, sb_service := service, sb_session := session, sb_dead := (sb_dead s \<or> d1 \<or> d2)\<rparr>;
     if sb_dead s1 then sub_output E s1 else Some s1
   }"

definition close_proto_stream :: "('w, 'h) sub_env \<Rightarrow> ('w, 'h) substream \<Rightarrow> ('w, 'h) substream option" where
  "close_proto_stream E s =
     (let s1 = s\<lparr>sb_chan := close_receiver (sb_chan s), sb_io := fst (io_shutdown (se_io E) (sb_io s))\<rparr>;
          s2 = (if \<not> sb_keep s1 then s1\<lparr>sb_events := bf_clear (sb_events s1)\<rparr> else s1);
          s3 = (case sb_service s2 of
                  None \<Rightarrow> s2
                | Some b \<Rightarrow> s2\<lparr>sb_service := Some (snd (bf_take b)),
                    sb_spawned := sb_spawned s2 @ [ServiceTask (fst (bf_take b) @ [SvDisconnected (cx_id (sb_ctx s2))])]\<rparr>);
          s4 = (case sb_session s3 of
                  None \<Rightarrow> s3
                | Some b \<Rightarrow> s3\<lparr>sb_session := Some (snd (bf_take b)),
                    sb_spawned := sb_spawned s3 @ [SessionTask (fst (bf_take b) @ [SsClosed]
                      @ (if cx_closed (sb_ctx s3) then [SsDisconnected] else []))]\<rparr>) in
      if \<not> cx_closed (sb_ctx s4) then
        Some (s4\<lparr>sb_events := snd (bf_take (sb_events s4)),
                sb_spawned := sb_spawned s4 @ [OwnerTask (fst (bf_take (sb_events s4)) @ [PeClose (sb_id s4) (sb_proto s4)])]\<rparr>)
      else sub_output E s4)"

definition error_close :: "('w, 'h) sub_env \<Rightarrow> io_error \<Rightarrow> ('w, 'h) substream \<Rightarrow> ('w, 'h) substream option" where
  "error_close E error s =
     (let s1 = s\<lparr>sb_dead := True\<rparr> in
      if connection_gone error then Some s1
      else close_proto_stream E (s1\<lparr>sb_events := bf_push (PeError (sb_proto s1) error) (sb_events s1)\<rparr>))"

definition handle_proto_event :: "('w, 'h) sub_env \<Rightarrow> 'h protocol_event \<Rightarrow> priority \<Rightarrow> ('w, 'h) substream
    \<Rightarrow> ('w, 'h) substream option" where
  "handle_proto_event E event p s =
     (case event of
        PeMessage data \<Rightarrow>
          (case sub_send_data E (sub_push_back p data s) of
             (s1, Inr _) \<Rightarrow> Some s1
           | (s1, Inl err) \<Rightarrow> map_option (\<lambda>s2. s2\<lparr>sb_dead := True\<rparr>) (sub_output_event E (PeError (sb_proto s1) err) s1))
      | PeClose _ _ \<Rightarrow> Some (s\<lparr>sb_write := [], sb_dead := True\<rparr>)
      | _ \<Rightarrow> Some s)"

definition sub_recv_event :: "('w, 'h) sub_env \<Rightarrow> nat \<Rightarrow> ('w, 'h) substream \<Rightarrow> (('w, 'h) substream \<times> unit option poll) option" where
  "sub_recv_event E cx s =
     (if sb_dead s then Some (s, Ready None)
      else do {
        limit \<leftarrow> send_event_size (sb_config s);
        if length (sb_write s) > unat limit then Some (s, Pending)
        else do {
          (ch, r) \<leftarrow> chan_poll_next cx (sb_chan s);
          let s1 = s\<lparr>sb_chan := ch\<rparr>;
          case r of
            Ready (Some (p, event)) \<Rightarrow> map_option (\<lambda>s2. (s2, Ready (Some ()))) (handle_proto_event E event p s1)
          | Ready None \<Rightarrow> Some (s1\<lparr>sb_dead := True, sb_io := fst (io_shutdown (se_io E) (sb_io s1))\<rparr>, Ready None)
          | Pending \<Rightarrow> Some (s1, Pending)
        }
      })"

definition buf_len_or0 :: "'e buf option \<Rightarrow> nat" where
  "buf_len_or0 b = (case b of None \<Rightarrow> 0 | Some b' \<Rightarrow> bf_len b')"

definition sub_received :: "byte list \<Rightarrow> ('w, 'h) substream \<Rightarrow> ('w, 'h) substream" where
  "sub_received data s =
     s\<lparr>sb_session := map_option (bf_push (SsReceived data)) (sb_session s),
       sb_service := map_option (bf_push (SvReceived (cx_id (sb_ctx s)) data)) (sb_service s)\<rparr>"

definition recv_frame :: "('w, 'h) sub_env \<Rightarrow> ('w, 'h) substream \<Rightarrow> (('w, 'h) substream \<times> unit option poll) option" where
  "recv_frame E s =
     (if sb_dead s then Some (s, Ready None)
      else do {
        limit \<leftarrow> recv_event_size (sb_config s);
        if buf_len_or0 (sb_service s) > unat limit \<or> buf_len_or0 (sb_session s) > unat limit then Some (s, Pending)
        else case io_next (se_io E) (sb_io s) of
          (w, Ready (Some (Inr data))) \<Rightarrow>
            (case (case sb_before s of Some function \<Rightarrow> function data | None \<Rightarrow> Ok data) of
               Inl err \<Rightarrow> map_option (\<lambda>s1. (s1, Ready None)) (error_close E err (s\<lparr>sb_io := w\<rparr>))
             | Inr data' \<Rightarrow>
                 map_option (\<lambda>s1. (s1, Ready (Some ()))) (distribute_to_user_level E (sub_received data' (s\<lparr>sb_io := w\<rparr>))))
        | (w, Ready None) \<Rightarrow> Some (s\<lparr>sb_io := w, sb_dead := True\<rparr>, Ready None)
        | (w, Pending) \<Rightarrow> Some (s\<lparr>sb_io := w\<rparr>, Pending)
        | (w, Ready (Some (Inl err))) \<Rightarrow> map_option (\<lambda>s1. (s1, Ready None)) (error_close E err (s\<lparr>sb_io := w\<rparr>))
      })"

definition buf_empty_or :: "'e buf option \<Rightarrow> bool" where
  "buf_empty_or b = (case b of None \<Rightarrow> True | Some b' \<Rightarrow> bf_is_empty b')"

definition sub_flush :: "('w, 'h) sub_env \<Rightarrow> ('w, 'h) substream \<Rightarrow> (('w, 'h) substream \<times> (io_error + unit)) option" where
  "sub_flush E s =
     (case sub_poll_complete E s of
        (s1, Inl e) \<Rightarrow> Some (s1, Err e)
      | (s1, Inr _) \<Rightarrow> do {
          s2 \<leftarrow> (if \<not> buf_empty_or (sb_service s1) \<or> \<not> buf_empty_or (sb_session s1)
                  then distribute_to_user_level E s1 else Some s1);
          if \<not> bf_is_empty (sb_events s2) \<or> sb_write s2 \<noteq> [] \<or> sb_high s2 \<noteq> []
          then map_option (sub_send_data E) (sub_output E s2)
          else Some (s2, Ok ())
        })"

text \<open>\<open>poll_next\<close>; \<open>proceed\<close> is the answer of the runtime's cooperative budget.\<close>

definition sub_poll_next :: "('w, 'h) sub_env \<Rightarrow> nat \<Rightarrow> bool \<Rightarrow> ('w, 'h) substream
    \<Rightarrow> (('w, 'h) substream \<times> unit option poll) option" where
  "sub_poll_next E cx proceed s =
     (if sb_dead s \<or> cx_closed (sb_ctx s) then map_option (\<lambda>s1. (s1, Ready None)) (close_proto_stream E s)
      else do {
        (s1, r) \<leftarrow> sub_flush E s;
        case r of
          Inl err \<Rightarrow> map_option (\<lambda>s2. (s2, Ready None)) (error_close E err s1)
        | Inr _ \<Rightarrow>
            if \<not> proceed then Some (s1, Pending)
            else do {
              (s2, r2) \<leftarrow> recv_frame E s1;
              (s3, r3) \<leftarrow> sub_recv_event E cx s2;
              Some (s3, if r2 = Pending \<and> r3 = Pending then Pending else Ready (Some ()))
            }
      })"


section \<open>Frames reach the socket in order\<close>

definition sub_queue :: "priority \<Rightarrow> ('w, 'h) substream \<Rightarrow> byte list list" where
  "sub_queue p s = (if is_high p then sb_high s else sb_write s)"

lemma set_queue_same: "sub_queue p s = fs \<Longrightarrow> set_queue p fs s = s"
  by (auto simp: sub_queue_def set_queue_def)

lemma decr_pending_0 [simp]: "decr_pending_data_size 0 cx = cx"
  by (simp add: decr_pending_data_size_def)

definition frames_len :: "byte list list \<Rightarrow> nat" where
  "frames_len fs = sum_list (map length fs)"

text \<open>
  What the substream relies on of the framed stream: \<open>start_send\<close> takes the frame or fails, and
  nothing else takes frames. \<open>written\<close> are the frames taken so far.
\<close>

locale frame_sink =
  fixes I :: "'w io_ops"
    and written :: "'w \<Rightarrow> byte list list"
  assumes ready_written: "io_ready I w = (w1, r) \<Longrightarrow> written w1 = written w"
    and send_written: "io_send I f w = (w1, Ok u) \<Longrightarrow> written w1 = written w @ [f]"
    and send_failed: "io_send I f w = (w1, Err e) \<Longrightarrow> written w1 = written w"
    and flush_written: "io_flush I w = (w1, r') \<Longrightarrow> written w1 = written w"
begin

lemma sub_poll_complete_written:
  assumes "se_io E = I" "sub_poll_complete E s = (s1, r)"
  shows "\<exists>w. s1 = s\<lparr>sb_io := w\<rparr> \<and> written w = written (sb_io s)"
  using assms flush_written
  by (auto simp: sub_poll_complete_def split: prod.splits poll.splits sum.splits)

lemma send_inner_cases:
  assumes "se_io E = I" "send_inner E f p s = (s1, r)"
  obtains
    (sent) w where "r = Ok False" "s1 = s\<lparr>sb_io := w, sb_ctx := decr_pending_data_size (of_nat (length f)) (sb_ctx s)\<rparr>"
      "written w = written (sb_io s) @ [f]"
  | (full) w where "r = Ok True" "s1 = sub_push_front p f (s\<lparr>sb_io := w\<rparr>)" "written w = written (sb_io s)"
  | (failed) w e where "r = Err e" "s1 = s\<lparr>sb_io := w\<rparr> \<or> s1 = sub_push_front p f (s\<lparr>sb_io := w\<rparr>)" "written w = written (sb_io s)"
proof -
  obtain w0 a where a: "io_ready I (sb_io s) = (w0, a)" by (cases "io_ready I (sb_io s)")
  note w0 = ready_written [OF a]
  show ?thesis
  proof (cases a)
    case (Ready b)
    show ?thesis
    proof (cases b)
      case (Inl e)
      then show ?thesis using assms a w0 Ready by (intro failed [of e w0]) (auto simp: send_inner_def Let_def)
    next
      case (Inr u)
      obtain w1 c where c: "io_send I f w0 = (w1, c)" by (cases "io_send I f w0")
      show ?thesis
      proof (cases c)
        case (Inl e)
        then show ?thesis using assms a w0 Ready Inr c send_failed [of f w0 w1 e]
          by (intro failed [of e w1]) (auto simp: send_inner_def Let_def)
      next
        case (Inr v)
        then show ?thesis using assms a w0 Ready \<open>b = Ok u\<close> c send_written [of f w0 w1 v]
          by (intro sent [of w1]) (auto simp: send_inner_def Let_def)
      qed
    qed
  next
    case Pending
    obtain s2 c where c: "sub_poll_complete E (sub_push_front p f (s\<lparr>sb_io := w0\<rparr>)) = (s2, c)"
      by (cases "sub_poll_complete E (sub_push_front p f (s\<lparr>sb_io := w0\<rparr>))")
    from sub_poll_complete_written [OF assms(1) c] obtain w1 where
      w1: "s2 = (sub_push_front p f (s\<lparr>sb_io := w0\<rparr>))\<lparr>sb_io := w1\<rparr>" "written w1 = written w0"
      by (auto simp: sub_push_front_def split: if_splits)
    then have s2: "s2 = sub_push_front p f (s\<lparr>sb_io := w1\<rparr>)" by (simp add: sub_push_front_def)
    show ?thesis
    proof (cases c)
      case (Inl e)
      then show ?thesis using assms a Pending c s2 w0 w1(2) by (intro failed [of e w1]) (auto simp: send_inner_def Let_def)
    next
      case (Inr v)
      then show ?thesis using assms a Pending c s2 w0 w1(2) by (intro full [of w1]) (auto simp: send_inner_def Let_def)
    qed
  qed
qed

text \<open>A run of one queue takes a prefix of it; when it fails, at most the frame it failed on is lost.\<close>

lemma send_queue_prefix:
  assumes E: "se_io E = I"
  shows "send_queue E p fs s = (s1, r) \<Longrightarrow> sub_queue p s = fs \<Longrightarrow>
    \<exists>k w. k \<le> length fs \<and> written w = written (sb_io s) @ take k fs
      \<and> (\<exists>fs'. s1 = set_queue p fs' (s\<lparr>sb_io := w, sb_ctx := decr_pending_data_size (of_nat (frames_len (take k fs))) (sb_ctx s)\<rparr>)
           \<and> (case r of
                Inr False \<Rightarrow> k = length fs \<and> fs' = []
              | Inr True \<Rightarrow> k < length fs \<and> fs' = drop k fs
              | Inl _ \<Rightarrow> k < length fs \<and> (fs' = drop k fs \<or> fs' = drop (Suc k) fs)))"
proof (induction fs arbitrary: s)
  case Nil
  then show ?case
    by (intro exI [of _ 0] exI [of _ "sb_io s"]) (auto intro!: exI [of _ "[]"] simp: frames_len_def set_queue_same)
next
  case (Cons f fs)
  obtain s2 r2 where i: "send_inner E f p (set_queue p fs s) = (s2, r2)" by (cases "send_inner E f p (set_queue p fs s)")
  have io: "sb_io (set_queue p fs s) = sb_io s" by (simp add: set_queue_def)
  from E i show ?case
  proof (cases rule: send_inner_cases)
    case (full w)
    then have "s1 = s2" "r = Ok True" using Cons.prems i by auto
    then show ?thesis using full io
      by (intro exI [of _ 0] exI [of _ w])
        (auto intro!: exI [of _ "f # fs"] simp: set_queue_def sub_push_front_def frames_len_def)
  next
    case (failed w e)
    then have s1: "s1 = s2" "r = Err e" using Cons.prems i by auto
    from failed(2) show ?thesis
    proof
      assume "s2 = (set_queue p fs s)\<lparr>sb_io := w\<rparr>"
      then have "s1 = set_queue p fs (s\<lparr>sb_io := w, sb_ctx := decr_pending_data_size (of_nat (frames_len (take 0 (f # fs)))) (sb_ctx s)\<rparr>)"
        using s1 by (simp add: set_queue_def frames_len_def)
      then show ?thesis using failed(3) io s1 by (intro exI [of _ 0] exI [of _ w] exI [of _ fs] conjI) simp_all
    next
      assume "s2 = sub_push_front p f ((set_queue p fs s)\<lparr>sb_io := w\<rparr>)"
      then have "s1 = set_queue p (f # fs) (s\<lparr>sb_io := w, sb_ctx := decr_pending_data_size (of_nat (frames_len (take 0 (f # fs)))) (sb_ctx s)\<rparr>)"
        using s1 by (simp add: set_queue_def sub_push_front_def frames_len_def)
      then show ?thesis using failed(3) io s1 by (intro exI [of _ 0] exI [of _ w] exI [of _ "f # fs"] conjI) simp_all
    qed
  next
    case (sent w)
    then have step: "send_queue E p fs s2 = (s1, r)" using Cons.prems i by auto
    have q: "sub_queue p s2 = fs" using sent(2) by (simp add: set_queue_def sub_queue_def)
    from Cons.IH [OF step q] obtain k w' fs' where k: "k \<le> length fs" "written w' = written (sb_io s2) @ take k fs"
      "s1 = set_queue p fs' (s2\<lparr>sb_io := w', sb_ctx := decr_pending_data_size (of_nat (frames_len (take k fs))) (sb_ctx s2)\<rparr>)"
      "case r of Inr False \<Rightarrow> k = length fs \<and> fs' = [] | Inr True \<Rightarrow> k < length fs \<and> fs' = drop k fs
         | Inl _ \<Rightarrow> k < length fs \<and> (fs' = drop k fs \<or> fs' = drop (Suc k) fs)" by blast
    have "s1 = set_queue p fs' (s\<lparr>sb_io := w', sb_ctx := decr_pending_data_size (of_nat (frames_len (take (Suc k) (f # fs)))) (sb_ctx s)\<rparr>)"
      using k(3) sent(2) by (simp add: set_queue_def decr_pending_data_size_def frames_len_def diff_diff_eq)
    then show ?thesis using k sent(2,3) io
      by (intro exI [of _ "Suc k"] exI [of _ w']) (auto intro!: exI [of _ fs'] split: sum.splits bool.splits)
  qed
qed

lemma send_data_prefix:
  assumes "se_io E = I" "sub_send_data E s = (s1, r)"
  shows "\<exists>k \<le> length (sb_high s @ sb_write s). \<exists>w high write.
    s1 = s\<lparr>sb_io := w, sb_ctx := decr_pending_data_size (of_nat (frames_len (take k (sb_high s @ sb_write s)))) (sb_ctx s),
           sb_high := high, sb_write := write\<rparr>
    \<and> written w = written (sb_io s) @ take k (sb_high s @ sb_write s)
    \<and> (r = Ok () \<longrightarrow> high @ write = drop k (sb_high s @ sb_write s))"
proof -
  obtain s2 r2 where h: "send_queue E High (sb_high s) s = (s2, r2)" by (cases "send_queue E High (sb_high s) s")
  from send_queue_prefix [OF assms(1) h] obtain k w fs where k: "k \<le> length (sb_high s)"
    "written w = written (sb_io s) @ take k (sb_high s)"
    "s2 = s\<lparr>sb_io := w, sb_ctx := decr_pending_data_size (of_nat (frames_len (take k (sb_high s)))) (sb_ctx s), sb_high := fs\<rparr>"
    "case r2 of Inr False \<Rightarrow> k = length (sb_high s) \<and> fs = [] | Inr True \<Rightarrow> k < length (sb_high s) \<and> fs = drop k (sb_high s)
      | Inl _ \<Rightarrow> k < length (sb_high s) \<and> (fs = drop k (sb_high s) \<or> fs = drop (Suc k) (sb_high s))"
    by (auto simp: sub_queue_def set_queue_def)
  show ?thesis
  proof (cases "r2 = Ok False")
    case False
    then have "s1 = s2" "r = Ok () \<Longrightarrow> r2 = Ok True" using assms(2) h by (auto simp: sub_send_data_def split: sum.splits bool.splits)
    moreover have "k < length (sb_high s)" using k(4) False by (auto split: sum.splits bool.splits)
    moreover have "r = Ok () \<Longrightarrow> fs = drop k (sb_high s)" using k(4) calculation(2) by auto
    ultimately show ?thesis using k(1-3)
      by (intro exI [of _ k] conjI exI [of _ w] exI [of _ fs] exI [of _ "sb_write s"]) simp_all
  next
    case True
    with k(4) have kl: "k = length (sb_high s)" "fs = []" by auto
    have wr: "sb_write s2 = sb_write s" "sb_io s2 = w" "sub_queue Normal s2 = sb_write s" using k(3) by (simp_all add: sub_queue_def)
    obtain s3 r3 where n: "send_queue E Normal (sb_write s) s2 = (s3, r3)" by (cases "send_queue E Normal (sb_write s) s2")
    from send_queue_prefix [OF assms(1) n wr(3), unfolded wr(2)] obtain j v gs where j: "j \<le> length (sb_write s)"
      "written v = written w @ take j (sb_write s)"
      "s3 = set_queue Normal gs (s2\<lparr>sb_io := v, sb_ctx := decr_pending_data_size (of_nat (frames_len (take j (sb_write s)))) (sb_ctx s2)\<rparr>)"
      "case r3 of Inr False \<Rightarrow> j = length (sb_write s) \<and> gs = [] | Inr True \<Rightarrow> j < length (sb_write s) \<and> gs = drop j (sb_write s)
        | Inl _ \<Rightarrow> j < length (sb_write s) \<and> (gs = drop j (sb_write s) \<or> gs = drop (Suc j) (sb_write s))"
      by blast
    have s3: "s3 = s\<lparr>sb_io := v, sb_ctx := decr_pending_data_size (of_nat (frames_len (take (k + j) (sb_high s @ sb_write s)))) (sb_ctx s),
        sb_high := [], sb_write := gs\<rparr>"
      using k(3) j(3) kl by (simp add: set_queue_def decr_pending_data_size_def frames_len_def diff_diff_eq)
    have w: "written v = written (sb_io s) @ take (k + j) (sb_high s @ sb_write s)" using k(2) j(2) kl by simp
    have "\<exists>v'. s1 = s3\<lparr>sb_io := v'\<rparr> \<and> written v' = written v \<and> (r = Ok () \<longrightarrow> (\<exists>b. r3 = Ok b))"
    proof (cases "r3 = Ok False")
      case True
      obtain s4 r4 where c: "sub_poll_complete E s3 = (s4, r4)" by (cases "sub_poll_complete E s3")
      from sub_poll_complete_written [OF assms(1) c] s3 obtain v' where "s4 = s3\<lparr>sb_io := v'\<rparr>" "written v' = written v" by auto
      moreover have "s1 = s4" using assms(2) h n [folded wr(1)] c True \<open>r2 = Ok False\<close> by (auto simp: sub_send_data_def split: sum.splits)
      ultimately show ?thesis using True by auto
    next
      case False
      then have "s1 = s3" "r = Ok () \<Longrightarrow> r3 = Ok True"
        using assms(2) h n [folded wr(1)] \<open>r2 = Ok False\<close> by (auto simp: sub_send_data_def split: sum.splits bool.splits)
      then show ?thesis using s3 by (intro exI [of _ v]) auto
    qed
    then obtain v' where v': "s1 = s3\<lparr>sb_io := v'\<rparr>" "written v' = written v" "r = Ok () \<longrightarrow> (\<exists>b. r3 = Ok b)" by blast
    have "gs = drop j (sb_write s)" if "r = Ok ()" using v'(3) j(4) that by (auto split: bool.splits)
    then have "r = Ok () \<longrightarrow> [] @ gs = drop (k + j) (sb_high s @ sb_write s)" using kl by simp
    moreover have "s1 = s\<lparr>sb_io := v', sb_ctx := decr_pending_data_size (of_nat (frames_len (take (k + j) (sb_high s @ sb_write s)))) (sb_ctx s),
        sb_high := [], sb_write := gs\<rparr>" using v'(1) s3 by simp
    ultimately show ?thesis using v'(2) w kl(1) j(1)
      by (intro exI [of _ "k + j"] conjI exI [of _ v'] exI [of _ "[]"] exI [of _ gs]) simp_all
  qed
qed

end


section \<open>Frames reach the handlers\<close>

definition tx_keeps :: "('c, 'a) tx_ops \<Rightarrow> ('c \<Rightarrow> 'b) \<Rightarrow> bool" where
  "tx_keeps X f \<longleftrightarrow> (\<forall>c c1 r. tx_ready X c = (c1, r) \<longrightarrow> f c1 = f c) \<and> (\<forall>m c c1 r. tx_send X m c = Some (c1, r) \<longrightarrow> f c1 = f c)"

lemma bf_try_send_keeps:
  assumes "tx_keeps X f" "bf_try_send X b c = Some (c1, b1, r)"
  shows "f c1 = f c"
proof -
  obtain rest e where l: "send_loop X (bf_buffer b) c = Some (c1, rest, e)" using assms(2) by (auto simp: bf_try_send_def)
  from assms(1) show ?thesis unfolding tx_keeps_def by (intro send_loop_frame [OF l, of f]) blast+
qed

text \<open>What a handler has been given, and what is still buffered for it.\<close>

definition handed :: "('w \<Rightarrow> 'e list) \<Rightarrow> 'w \<Rightarrow> 'e buf option \<Rightarrow> 'e list option" where
  "handed queued w b = map_option (\<lambda>b'. queued w @ bf_buffer b') b"

lemma hand_out_keeps: "tx_keeps X f \<Longrightarrow> hand_out X b w = Some (w1, b1, d) \<Longrightarrow> f w1 = f w"
  by (auto simp: hand_out_def dest: bf_try_send_keeps split: option.splits)

lemma hand_out_handed:
  assumes "sending_half X q" "hand_out X b w = Some (w1, b1, False)"
  shows "handed q w1 b1 = handed q w b"
proof (cases b)
  case None
  then show ?thesis using assms(2) by (auto simp: hand_out_def handed_def)
next
  case (Some b')
  then obtain c r where r: "bf_try_send X b' w = Some (w1, c, r)" "b1 = Some c" "r \<noteq> SendDisconnect"
    using assms(2) by (auto simp: hand_out_def)
  from buffer_in_order [OF assms(1) r(1)] r(3) have "q w1 @ bf_buffer c = q w @ bf_buffer b'"
    by (cases r) (auto simp: bf_is_empty_def)
  then show ?thesis using Some r(2) by (simp add: handed_def)
qed

lemma handed_cong: "q w = q v \<Longrightarrow> handed q w b = handed q v b"
  by (cases b) (simp_all add: handed_def)

text \<open>The two channels to the handlers are independent of each other, of the stream and of the session.\<close>

locale handler_ends = sv: sending_half "se_service E" sv_q + ss: sending_half "se_session E" ss_q
  for E :: "('w, 'h) sub_env" and sv_q :: "'w \<Rightarrow> service_proto_event list" and ss_q :: "'w \<Rightarrow> session_proto_event list" +
  assumes next_keeps: "io_next (se_io E) w = (w1, r) \<Longrightarrow> sv_q w1 = sv_q w \<and> ss_q w1 = ss_q w"
    and service_keeps: "tx_keeps (se_service E) ss_q"
    and session_keeps: "tx_keeps (se_session E) sv_q"
begin

lemma distribute_handed:
  assumes "distribute_to_user_level E s = Some s1" "\<not> sb_dead s1"
  shows "handed sv_q (sb_io s1) (sb_service s1) = handed sv_q (sb_io s) (sb_service s)
    \<and> handed ss_q (sb_io s1) (sb_session s1) = handed ss_q (sb_io s) (sb_session s)"
proof -
  obtain w1 b1 d1 w2 b2 d2 where h: "hand_out (se_service E) (sb_service s) (sb_io s) = Some (w1, b1, d1)"
    "hand_out (se_session E) (sb_session s) w1 = Some (w2, b2, d2)"
    using assms(1) by (auto simp: distribute_to_user_level_def bind_eq_Some_conv)
  have d: "\<not> d1 \<and> \<not> d2 \<and> s1 = s\<lparr>sb_io := w2, sb_service := b1, sb_session := b2, sb_dead := False\<rparr>"
    using assms h by (auto simp: distribute_to_user_level_def sub_output_def Let_def split: if_splits)
  have "sv_q w2 = sv_q w1" "ss_q w1 = ss_q (sb_io s)"
    using hand_out_keeps [OF session_keeps h(2)] hand_out_keeps [OF service_keeps h(1)] by auto
  then show ?thesis
    using d h hand_out_handed [OF sv.sending_half_axioms, of "sb_service s" "sb_io s" w1 b1]
      hand_out_handed [OF ss.sending_half_axioms, of "sb_session s" w1 w2 b2]
      handed_cong [of sv_q w2 w1 b1] handed_cong [of ss_q w1 "sb_io s" "sb_session s"]
    by simp
qed

lemma recv_frame_handed:
  assumes "recv_frame E s = Some (s1, Ready (Some ()))" "\<not> sb_dead s1"
  shows "\<exists>w data data'. io_next (se_io E) (sb_io s) = (w, Ready (Some (Ok data)))
    \<and> (case sb_before s of Some f \<Rightarrow> f data | None \<Rightarrow> Ok data) = Ok data'
    \<and> handed sv_q (sb_io s1) (sb_service s1)
        = map_option (\<lambda>q. q @ [SvReceived (cx_id (sb_ctx s)) data']) (handed sv_q (sb_io s) (sb_service s))
    \<and> handed ss_q (sb_io s1) (sb_session s1)
        = map_option (\<lambda>q. q @ [SsReceived data']) (handed ss_q (sb_io s) (sb_session s))"
proof -
  obtain w r where n: "io_next (se_io E) (sb_io s) = (w, r)" by (cases "io_next (se_io E) (sb_io s)")
  obtain data data' where d: "r = Ready (Some (Ok data))" "(case sb_before s of Some f \<Rightarrow> f data | None \<Rightarrow> Ok data) = Ok data'"
      "distribute_to_user_level E (sub_received data' (s\<lparr>sb_io := w\<rparr>)) = Some s1"
    using assms(1) n by (auto simp: recv_frame_def bind_eq_Some_conv split: if_splits poll.splits option.splits sum.splits)
  note h = distribute_handed [OF d(3) assms(2)]
  have "handed sv_q w (sb_service (sub_received data' (s\<lparr>sb_io := w\<rparr>)))
      = map_option (\<lambda>q. q @ [SvReceived (cx_id (sb_ctx s)) data']) (handed sv_q (sb_io s) (sb_service s))"
    "handed ss_q w (sb_session (sub_received data' (s\<lparr>sb_io := w\<rparr>)))
      = map_option (\<lambda>q. q @ [SsReceived data']) (handed ss_q (sb_io s) (sb_session s))"
    using next_keeps [OF n] by (simp_all add: handed_def sub_received_def bf_push_def map_option.compositionality comp_def)
  then show ?thesis using n d h by (intro exI [of _ w] exI [of _ data] exI [of _ data']) (simp add: sub_received_def)
qed

end

section \<open>The end of a substream\<close>

text \<open>The tasks that report the end of the substream to its handlers and to the session.\<close>

definition closing_tasks :: "('w, 'h) substream \<Rightarrow> 'h sub_task list" where
  "closing_tasks s =
     (case sb_service s of None \<Rightarrow> [] | Some b \<Rightarrow> [ServiceTask (bf_buffer b @ [SvDisconnected (cx_id (sb_ctx s))])])
     @ (case sb_session s of None \<Rightarrow> []
        | Some b \<Rightarrow> [SessionTask (bf_buffer b @ SsClosed # (if cx_closed (sb_ctx s) then [SsDisconnected] else []))])
     @ (if cx_closed (sb_ctx s) then []
        else [OwnerTask ((if sb_keep s then bf_buffer (sb_events s) else []) @ [PeClose (sb_id s) (sb_proto s)])])"

definition sub_ends :: "('w, 'h) substream \<Rightarrow> 'h sub_task list \<times> usize \<times> usize \<times> bool \<times> usize \<times> bool \<times> bool \<times> bool" where
  "sub_ends s = (sb_spawned s, sb_id s, sb_proto s, sb_keep s, cx_id (sb_ctx s), cx_closed (sb_ctx s),
     sb_service s = None, sb_session s = None)"

lemma sub_ends_simps [simp]:
  "sub_ends (s\<lparr>sb_io := w\<rparr>) = sub_ends s" "sub_ends (s\<lparr>sb_events := b\<rparr>) = sub_ends s" "sub_ends (s\<lparr>sb_dead := d\<rparr>) = sub_ends s"
  "sub_ends (s\<lparr>sb_high := fs\<rparr>) = sub_ends s" "sub_ends (s\<lparr>sb_write := fs\<rparr>) = sub_ends s" "sub_ends (s\<lparr>sb_chan := ch\<rparr>) = sub_ends s"
  "sub_ends (sub_push_front p f s) = sub_ends s" "sub_ends (sub_push_back p f s) = sub_ends s" "sub_ends (set_queue p fs s) = sub_ends s"
  "sub_ends (s\<lparr>sb_ctx := decr_pending_data_size n (sb_ctx s)\<rparr>) = sub_ends s"
  by (simp_all add: sub_ends_def sub_push_front_def sub_push_back_def set_queue_def decr_pending_data_size_def)

lemma sub_output_ends: "sub_output E s = Some s1 \<Longrightarrow> sub_ends s1 = sub_ends s"
  by (auto simp: sub_output_def)

lemma poll_complete_ends: "sub_poll_complete E s = (s1, r) \<Longrightarrow> sub_ends s1 = sub_ends s"
  by (auto simp: sub_poll_complete_def split: prod.splits poll.splits sum.splits)

lemma send_inner_ends: "send_inner E f p s = (s1, r) \<Longrightarrow> sub_ends s1 = sub_ends s"
  by (auto simp: send_inner_def Let_def dest!: poll_complete_ends split: prod.splits poll.splits sum.splits)
    (simp add: sub_ends_def decr_pending_data_size_def)

lemma send_queue_ends: "send_queue E p fs s = (s1, r) \<Longrightarrow> sub_ends s1 = sub_ends s"
proof (induction fs arbitrary: s)
  case (Cons f fs)
  obtain s2 r2 where i: "send_inner E f p (set_queue p fs s) = (s2, r2)" by (cases "send_inner E f p (set_queue p fs s)")
  show ?case using Cons i send_inner_ends [OF i] by (auto split: sum.splits bool.splits)
qed simp

lemma send_data_ends:
  assumes "sub_send_data E s = (s1, r)"
  shows "sub_ends s1 = sub_ends s"
proof -
  obtain s2 r2 where q: "send_queue E High (sb_high s) s = (s2, r2)" by (cases "send_queue E High (sb_high s) s")
  obtain s3 r3 where n: "send_queue E Normal (sb_write s2) s2 = (s3, r3)" by (cases "send_queue E Normal (sb_write s2) s2")
  obtain s4 r4 where c: "sub_poll_complete E s3 = (s4, r4)" by (cases "sub_poll_complete E s3")
  show ?thesis using assms q n c send_queue_ends [OF q] send_queue_ends [OF n] poll_complete_ends [OF c]
    by (auto simp: sub_send_data_def split: sum.splits bool.splits)
qed

lemma hand_out_None: "hand_out X b w = Some (w1, b1, d) \<Longrightarrow> b1 = None \<longleftrightarrow> b = None"
  by (auto simp: hand_out_def split: option.splits)

lemma distribute_ends: "distribute_to_user_level E s = Some s1 \<Longrightarrow> sub_ends s1 = sub_ends s"
  by (auto simp: distribute_to_user_level_def bind_eq_Some_conv Let_def dest!: sub_output_ends hand_out_None split: if_splits)
    (auto simp: sub_ends_def)

lemma sub_flush_ends:
  assumes "sub_flush E s = Some (s1, r)"
  shows "sub_ends s1 = sub_ends s"
proof -
  obtain s2 r2 where c: "sub_poll_complete E s = (s2, r2)" by (cases "sub_poll_complete E s")
  show ?thesis
  proof (cases r2)
    case (Inr x)
    then obtain s3 where s3: "s3 = s2 \<or> distribute_to_user_level E s2 = Some s3"
        "s1 = s3 \<or> (\<exists>s4. sub_output E s3 = Some s4 \<and> sub_send_data E s4 = (s1, r))"
      using assms c by (auto simp: sub_flush_def bind_eq_Some_conv split: if_splits)
    then have "sub_ends s1 = sub_ends s3" by (metis sub_output_ends send_data_ends)
    then show ?thesis using poll_complete_ends [OF c] s3(1) distribute_ends by metis
  qed (use assms c poll_complete_ends [OF c] in \<open>simp add: sub_flush_def\<close>)
qed

lemma close_proto_stream_tasks:
  "close_proto_stream E s = Some s1 \<Longrightarrow> sb_spawned s1 = sb_spawned s @ closing_tasks s \<and> (sb_dead s \<longrightarrow> sb_dead s1)"
  by (auto simp: close_proto_stream_def closing_tasks_def bf_take_def bf_clear_def Let_def sub_output_def
    split: option.splits if_splits)

lemma closing_tasks_open: "sub_ends t = sub_ends s \<Longrightarrow> \<not> cx_closed (sb_ctx s) \<Longrightarrow> closing_tasks t \<noteq> []"
  by (simp add: closing_tasks_def sub_ends_def)

lemma error_close_tasks:
  fixes s :: "('w, 'h) substream"
  assumes "error_close E e s = Some s1"
  shows "sb_dead s1 \<and> (if connection_gone e then sb_spawned s1 = sb_spawned s
    else \<exists>t :: ('w, 'h) substream. sub_ends t = sub_ends s \<and> sb_spawned s1 = sb_spawned s @ closing_tasks t)"
proof (cases "connection_gone e")
  case True
  then show ?thesis using assms by (auto simp: error_close_def)
next
  case False
  let ?t = "s\<lparr>sb_dead := True, sb_events := bf_push (PeError (sb_proto s) e) (sb_events s)\<rparr>"
  have "close_proto_stream E ?t = Some s1" using assms False by (simp add: error_close_def)
  from close_proto_stream_tasks [OF this] False show ?thesis by (auto intro!: exI [of _ ?t])
qed

lemma handle_event_ends: "handle_proto_event E ev p s = Some s1 \<Longrightarrow> sub_ends s1 = sub_ends s"
  by (auto simp: handle_proto_event_def sub_output_event_def dest!: send_data_ends sub_output_ends
    split: protocol_event.splits sum.splits prod.splits)

lemma recv_event_ends: "sub_recv_event E cx s = Some (s1, r) \<Longrightarrow> sub_ends s1 = sub_ends s"
proof (cases "sb_dead s")
  case False
  assume a: "sub_recv_event E cx s = Some (s1, r)"
  show ?thesis
  proof (cases "chan_poll_next cx (sb_chan s)")
    case None
    then show ?thesis using a False by (auto simp: sub_recv_event_def bind_eq_Some_conv split: if_splits)
  next
    case (Some x)
    then show ?thesis using a False
      by (cases x) (auto simp: sub_recv_event_def bind_eq_Some_conv Let_def dest!: handle_event_ends split: if_splits poll.splits option.splits)
  qed
qed (simp add: sub_recv_event_def)

lemma recv_frame_tasks:
  fixes s :: "('w, 'h) substream"
  assumes "recv_frame E s = Some (s1, r)"
  shows "sb_spawned s1 = sb_spawned s \<or> (sb_dead s1 \<and> (\<exists>t :: ('w, 'h) substream. sub_ends t = sub_ends s \<and> sb_spawned s1 = sb_spawned s @ closing_tasks t))"
proof -
  have ec: "sb_dead s1 \<and> (sb_spawned s1 = sb_spawned s \<or> (\<exists>t :: ('w, 'h) substream. sub_ends t = sub_ends s \<and> sb_spawned s1 = sb_spawned s @ closing_tasks t))"
    if "error_close E e (s\<lparr>sb_io := w\<rparr>) = Some s1" for e w
    using error_close_tasks [OF that] by (auto split: if_splits)
  have di: "sb_spawned s1 = sb_spawned s" if "distribute_to_user_level E (sub_received d (s\<lparr>sb_io := w\<rparr>)) = Some s1" for d w
    using distribute_ends [OF that] by (simp add: sub_ends_def sub_received_def)
  obtain w n where n: "io_next (se_io E) (sb_io s) = (w, n)" by (cases "io_next (se_io E) (sb_io s)")
  from assms n consider "sb_spawned s1 = sb_spawned s" | e v where "error_close E e (s\<lparr>sb_io := v\<rparr>) = Some s1"
    | d v where "distribute_to_user_level E (sub_received d (s\<lparr>sb_io := v\<rparr>)) = Some s1"
    by (auto simp: recv_frame_def bind_eq_Some_conv split: if_splits poll.splits option.splits sum.splits)
  then show ?thesis using ec di by cases blast+
qed

text \<open>
  C28. How a substream ends. A poll of a dead substream, or of a closed session, ends the stream and
  reports it to both handlers and to the session, after everything that was still buffered for the handlers.
  Otherwise a poll either reports nothing or leaves the substream dead; and the stream ends without a report
  only when flushing failed because the connection is gone.
\<close>

theorem substream_end_reported:
  fixes s :: "('w, 'h) substream"
  assumes "sub_poll_next E cx proceed s = Some (s1, r)"
  shows "if sb_dead s \<or> cx_closed (sb_ctx s) then r = Ready None \<and> sb_spawned s1 = sb_spawned s @ closing_tasks s
    else (sb_spawned s1 = sb_spawned s
          \<or> (sb_dead s1 \<and> (\<exists>t :: ('w, 'h) substream. sub_ends t = sub_ends s \<and> sb_spawned s1 = sb_spawned s @ closing_tasks t)))
      \<and> (r = Ready None \<and> sb_spawned s1 = sb_spawned s \<longrightarrow> (\<exists>s2 e. sub_flush E s = Some (s2, Err e) \<and> connection_gone e))"
proof (cases "sb_dead s \<or> cx_closed (sb_ctx s)")
  case True
  then show ?thesis using assms close_proto_stream_tasks [of E s s1] by (auto simp: sub_poll_next_def)
next
  case live: False
  obtain s2 q where f: "sub_flush E s = Some (s2, q)"
    using assms live by (auto simp: sub_poll_next_def bind_eq_Some_conv)
  note e = sub_flush_ends [OF f]
  then have sp: "sb_spawned s2 = sb_spawned s" by (simp add: sub_ends_def)
  show ?thesis
  proof (cases q)
    case (Inl err)
    then have "error_close E err s2 = Some s1" "r = Ready None" using assms live f by (auto simp: sub_poll_next_def)
    with error_close_tasks [OF this(1)] e sp live f Inl show ?thesis
      by (auto split: if_splits dest: closing_tasks_open)
  next
    case (Inr u)
    show ?thesis
    proof (cases proceed)
      case False
      then show ?thesis using assms live f sp Inr by (auto simp: sub_poll_next_def)
    next
      case True
      then obtain s3 q3 q1 where n: "recv_frame E s2 = Some (s3, q3)" "sub_recv_event E cx s3 = Some (s1, q1)" "r \<noteq> Ready None"
        using assms live f Inr by (auto simp: sub_poll_next_def bind_eq_Some_conv split: if_splits)
      have "sb_spawned s1 = sb_spawned s3" "sb_dead s3 \<Longrightarrow> sb_dead s1"
        using recv_event_ends [OF n(2)] n(2) by (auto simp: sub_ends_def sub_recv_event_def)
      then show ?thesis using recv_frame_tasks [OF n(1)] n(3) live e sp by auto
    qed
  qed
qed

text \<open>
  C29. A substream writes its frames in order and once: what \<open>sub_send_data\<close> gives to the framed stream is a
  prefix of the urgent frames followed by the normal ones, the bytes of exactly these frames leave the pending
  count of the session, and without an error the rest stays queued in order.
\<close>

theorem substream_sends_in_order:
  assumes "frame_sink (se_io E) written" "sub_send_data E s = (s1, r)"
  shows "\<exists>k \<le> length (sb_high s @ sb_write s).
    written (sb_io s1) = written (sb_io s) @ take k (sb_high s @ sb_write s)
    \<and> cx_pending (sb_ctx s1) = cx_pending (sb_ctx s) - of_nat (frames_len (take k (sb_high s @ sb_write s)))
    \<and> (r = Ok () \<longrightarrow> sb_high s1 @ sb_write s1 = drop k (sb_high s @ sb_write s))"
  using frame_sink.send_data_prefix [OF assms(1) refl assms(2)] by (auto simp: decr_pending_data_size_def)

text \<open>
  C30. A received frame that passes the filter of the protocol is given to the handler of the service and to
  the handler of the session, each once and after everything received before; a full handler only delays it.
\<close>

theorem frame_reaches_handlers:
  assumes "handler_ends E sv_q ss_q" "recv_frame E s = Some (s1, Ready (Some ()))" "\<not> sb_dead s1"
  shows "\<exists>w data data'. io_next (se_io E) (sb_io s) = (w, Ready (Some (Ok data)))
    \<and> (case sb_before s of Some f \<Rightarrow> f data | None \<Rightarrow> Ok data) = Ok data'
    \<and> handed sv_q (sb_io s1) (sb_service s1)
        = map_option (\<lambda>q. q @ [SvReceived (cx_id (sb_ctx s)) data']) (handed sv_q (sb_io s) (sb_service s))
    \<and> handed ss_q (sb_io s1) (sb_session s1)
        = map_option (\<lambda>q. q @ [SsReceived data']) (handed ss_q (sb_io s) (sb_session s))"
  by (rule handler_ends.recv_frame_handed [OF assms])

section \<open>A framed pipe\<close>

text \<open>
  The documented behaviour of \<open>Framed\<close>: frames are collected in a buffer that \<open>poll_ready\<close> flushes from
  a boundary on, and flushing moves to the wire what it takes. The three channels are bounded queues.
\<close>

record pipe =
  pp_wire :: "byte list list"
  pp_buffered :: "byte list list"
  pp_boundary :: nat
  pp_room :: nat
  pp_in :: "(io_error + byte list) list"
  pp_broken :: "io_error option"
  pp_cap :: nat
  pp_events :: "unit protocol_event list"
  pp_service :: "service_proto_event list"
  pp_session :: "session_proto_event list"

definition pipe_flush :: "pipe \<Rightarrow> pipe \<times> (io_error + unit) poll" where
  "pipe_flush w =
     (case pp_broken w of
        Some e \<Rightarrow> (w, Ready (Err e))
      | None \<Rightarrow>
          (w\<lparr>pp_wire := pp_wire w @ take (pp_room w) (pp_buffered w), pp_buffered := drop (pp_room w) (pp_buffered w),
             pp_room := pp_room w - length (pp_buffered w)\<rparr>,
           if length (pp_buffered w) \<le> pp_room w then Ready (Ok ()) else Pending))"

definition pipe_io :: "pipe io_ops" where
  "pipe_io =
     \<lparr>io_ready = (\<lambda>w. if length (pp_buffered w) \<ge> pp_boundary w then pipe_flush w else (w, Ready (Ok ()))),
      io_send = (\<lambda>f w. (w\<lparr>pp_buffered := pp_buffered w @ [f]\<rparr>, Ok ())),
      io_flush = pipe_flush,
      io_next = (\<lambda>w. case pp_in w of [] \<Rightarrow> (w, Pending) | x # xs \<Rightarrow> (w\<lparr>pp_in := xs\<rparr>, Ready (Some x))),
      io_shutdown = (\<lambda>w. (w, Ready (Ok ())))\<rparr>"

definition pipe_tx :: "(pipe \<Rightarrow> 'e list) \<Rightarrow> ('e list \<Rightarrow> pipe \<Rightarrow> pipe) \<Rightarrow> (pipe, 'e) tx_ops" where
  "pipe_tx get put =
     \<lparr>tx_ready = (\<lambda>w. (w, if length (get w) < pp_cap w then Ready (Ok ()) else Pending)),
      tx_send = (\<lambda>m w. if length (get w) < pp_cap w then Some (put (get w @ [m]) w, Ok ())
                       else Some (w, Err \<lparr>te_err = Full, te_val = m\<rparr>))\<rparr>"

definition pipe_env :: "(pipe, unit) sub_env" where
  "pipe_env =
     \<lparr>se_io = pipe_io,
      se_events = pipe_tx pp_events (\<lambda>q w. w\<lparr>pp_events := q\<rparr>),
      se_service = pipe_tx pp_service (\<lambda>q w. w\<lparr>pp_service := q\<rparr>),
      se_session = pipe_tx pp_session (\<lambda>q w. w\<lparr>pp_session := q\<rparr>)\<rparr>"

definition pipe_written :: "pipe \<Rightarrow> byte list list" where
  "pipe_written w = pp_wire w @ pp_buffered w"

interpretation pipe_frames: frame_sink pipe_io pipe_written
  by unfold_locales
    (auto simp: pipe_io_def pipe_written_def pipe_flush_def split: if_splits option.splits)

interpretation pipe_handlers: handler_ends pipe_env pp_service pp_session
  by unfold_locales
    (auto simp: pipe_env_def pipe_io_def pipe_tx_def tx_keeps_def split: if_splits list.splits)

text \<open>A substream with both handlers, one urgent and two normal frames queued, and one frame to receive.\<close>

definition sample_pipe :: pipe where
  "sample_pipe = \<lparr>pp_wire = [], pp_buffered = [], pp_boundary = 1, pp_room = 1, pp_in = [Ok [7]], pp_broken = None, pp_cap = 2,
     pp_events = [], pp_service = [], pp_session = []\<rparr>"

definition sample_substream :: "pipe \<Rightarrow> (pipe, unit) substream" where
  "sample_substream w =
     (sub_build w 3 1 (ses_ctx_new 5 \<lparr>ma_bytes = []\<rparr> Inbound None) default_session_config False
        (the (channel 4))
        (Some bf_new) (Some bf_new) None)
     \<lparr>sb_high := [[1]], sb_write := [[2, 3], [4]]\<rparr>"

lemma sample_sends:
  "case sub_send_data pipe_env (sample_substream sample_pipe) of
     (s1, r) \<Rightarrow> r = Ok () \<and> pipe_written (sb_io s1) = [[1], [2, 3]] \<and> sb_write s1 = [[4]] \<and> cx_pending (sb_ctx s1) = - 3"
  by code_simp

theorem substream_sends_in_order_witness:
  "\<exists>s1 k. sub_send_data pipe_env (sample_substream sample_pipe) = (s1, Ok ())
     \<and> pipe_written (sb_io s1) = take k [[1], [2, 3], [4]] \<and> sb_high s1 @ sb_write s1 = drop k [[1], [2, 3], [4]]"
proof -
  obtain s1 where s1: "sub_send_data pipe_env (sample_substream sample_pipe) = (s1, Ok ())"
    using sample_sends by (auto split: prod.splits)
  have "se_io pipe_env = pipe_io" by (simp add: pipe_env_def)
  with substream_sends_in_order [OF _ s1, of pipe_written] pipe_frames.frame_sink_axioms s1 show ?thesis
    by (auto simp: sample_substream_def sub_build_def sample_pipe_def pipe_written_def)
qed

lemma sample_receives:
  "case recv_frame pipe_env (sample_substream sample_pipe) of
     None \<Rightarrow> False
   | Some (s1, r) \<Rightarrow> r = Ready (Some ()) \<and> \<not> sb_dead s1 \<and> pp_session (sb_io s1) = [SsReceived [7]]"
  by code_simp

theorem frame_reaches_handlers_witness:
  "\<exists>s1. recv_frame pipe_env (sample_substream sample_pipe) = Some (s1, Ready (Some ()))
     \<and> handed pp_service (sb_io s1) (sb_service s1) = Some [SvReceived 5 [7]]
     \<and> handed pp_session (sb_io s1) (sb_session s1) = Some [SsReceived [7]]"
proof -
  obtain s1 where s1: "recv_frame pipe_env (sample_substream sample_pipe) = Some (s1, Ready (Some ()))" "\<not> sb_dead s1"
    using sample_receives by (auto split: option.splits)
  from frame_reaches_handlers [OF pipe_handlers.handler_ends_axioms s1] s1(1) show ?thesis
    by (auto simp: sample_substream_def sub_build_def sample_pipe_def pipe_env_def pipe_io_def handed_def bf_new_def
      ses_ctx_new_def)
qed

lemma sample_ends:
  "case sub_poll_next pipe_env 0 True ((sample_substream sample_pipe)\<lparr>sb_dead := True\<rparr>) of
     None \<Rightarrow> False
   | Some (s1, r) \<Rightarrow> r = Ready None"
  by code_simp

theorem substream_end_reported_witness:
  "\<exists>s1. sub_poll_next pipe_env 0 True ((sample_substream sample_pipe)\<lparr>sb_dead := True\<rparr>) = Some (s1, Ready None)
     \<and> sb_spawned s1 = [ServiceTask [SvDisconnected 5], SessionTask [SsClosed], OwnerTask [PeClose 3 1]]"
proof -
  obtain s1 where s1: "sub_poll_next pipe_env 0 True ((sample_substream sample_pipe)\<lparr>sb_dead := True\<rparr>) = Some (s1, Ready None)"
    using sample_ends by (auto split: option.splits)
  from substream_end_reported [OF this] this show ?thesis
    by (auto simp: sample_substream_def sub_build_def ses_ctx_new_def closing_tasks_def bf_new_def)
qed

text \<open>
  A frame that cannot be decoded: the poll that finds it and the poll after it both report the end, and the error that
  \<open>error_close\<close> queues for the session is cleared before it is sent.
\<close>

lemma decode_error_reported_twice:
  "case sub_poll_next pipe_env 0 True (sample_substream (sample_pipe\<lparr>pp_in := [Err InvalidData]\<rparr>)) of
     None \<Rightarrow> False
   | Some (s1, r) \<Rightarrow> r = Ready (Some ())
       \<and> sb_spawned s1 = [ServiceTask [SvDisconnected 5], SessionTask [SsClosed], OwnerTask [PeClose 3 1]]
       \<and> (case sub_poll_next pipe_env 0 True s1 of
            None \<Rightarrow> False
          | Some (s2, r2) \<Rightarrow> r2 = Ready None \<and> sb_spawned s2 = sb_spawned s1 @ sb_spawned s1)"
  by code_simp

text \<open>A broken connection found while flushing ends the stream with no report at all.\<close>

lemma broken_flush_not_reported:
  "case sub_poll_next pipe_env 0 True (sample_substream (sample_pipe\<lparr>pp_broken := Some BrokenPipe\<rparr>)) of
     None \<Rightarrow> False
   | Some (s1, r) \<Rightarrow> r = Ready None \<and> sb_spawned s1 = []"
  by code_simp

end
