(* ===== verification/Proto_Write_Part.thy ===== *)
theory Proto_Write_Part
  imports Proto_Substream
begin

text \<open>
  A protocol opened with its reading half handed to the user (\<open>substream.rs\<close>, read-write separation):
  \<open>SubstreamWritePart\<close> keeps the writing and the events of the session, \<open>SubstreamReadPart\<close> is the
  stream of received frames. The write part is shown to be the substream with no handlers that never receives.
\<close>

section \<open>The write part\<close>

record ('w, 'h) write_part =
  wp_io :: 'w
  wp_id :: usize
  wp_proto :: usize
  wp_dead :: bool
  wp_config :: session_config
  wp_high :: "byte list list"
  wp_write :: "byte list list"
  wp_events :: "'h protocol_event buf"
  wp_chan :: "'h protocol_event chan"
  wp_ctx :: ses_ctx
  wp_spawned :: "'h sub_task list"

definition wp_build :: "'w \<Rightarrow> usize \<Rightarrow> usize \<Rightarrow> ses_ctx \<Rightarrow> session_config \<Rightarrow> 'h protocol_event chan \<Rightarrow> ('w, 'h) write_part" where
  "wp_build w i pid cx g ch =
     \<lparr>wp_io = w, wp_id = i, wp_proto = pid, wp_dead = False, wp_config = g, wp_high = [], wp_write = [],
      wp_events = bf_new, wp_chan = ch, wp_ctx = cx, wp_spawned = []\<rparr>"

definition wp_push_front :: "priority \<Rightarrow> byte list \<Rightarrow> ('w, 'h) write_part \<Rightarrow> ('w, 'h) write_part" where
  "wp_push_front p frame s = (if is_high p then s\<lparr>wp_high := frame # wp_high s\<rparr> else s\<lparr>wp_write := frame # wp_write s\<rparr>)"

definition wp_push_back :: "priority \<Rightarrow> byte list \<Rightarrow> ('w, 'h) write_part \<Rightarrow> ('w, 'h) write_part" where
  "wp_push_back p frame s = (if is_high p then s\<lparr>wp_high := wp_high s @ [frame]\<rparr> else s\<lparr>wp_write := wp_write s @ [frame]\<rparr>)"

definition wp_poll_complete :: "('w, 'h) sub_env \<Rightarrow> ('w, 'h) write_part \<Rightarrow> ('w, 'h) write_part \<times> (io_error + bool)" where
  "wp_poll_complete E s =
     (case io_flush (se_io E) (wp_io s) of
        (w, Pending) \<Rightarrow> (s\<lparr>wp_io := w\<rparr>, Ok True)
      | (w, Ready (Inr _)) \<Rightarrow> (s\<lparr>wp_io := w\<rparr>, Ok False)
      | (w, Ready (Inl e)) \<Rightarrow> (s\<lparr>wp_io := w\<rparr>, Err e))"

definition wp_send_inner :: "('w, 'h) sub_env \<Rightarrow> byte list \<Rightarrow> priority \<Rightarrow> ('w, 'h) write_part
    \<Rightarrow> ('w, 'h) write_part \<times> (io_error + bool)" where
  "wp_send_inner E frame p s =
     (let data_size = of_nat (length frame) in
      case io_ready (se_io E) (wp_io s) of
        (w, Ready (Inl e)) \<Rightarrow> (s\<lparr>wp_io := w\<rparr>, Err e)
      | (w, Ready (Inr _)) \<Rightarrow>
          (case io_send (se_io E) frame w of
             (w1, Inl e) \<Rightarrow> (s\<lparr>wp_io := w1\<rparr>, Err e)
           | (w1, Inr _) \<Rightarrow> (s\<lparr>wp_io := w1, wp_ctx := decr_pending_data_size data_size (wp_ctx s)\<rparr>, Ok False))
      | (w, Pending) \<Rightarrow>
          (case wp_poll_complete E (wp_push_front p frame (s\<lparr>wp_io := w\<rparr>)) of
             (s1, Inl e) \<Rightarrow> (s1, Err e)
           | (s1, Inr _) \<Rightarrow> (s1, Ok True)))"

definition wp_set_queue :: "priority \<Rightarrow> byte list list \<Rightarrow> ('w, 'h) write_part \<Rightarrow> ('w, 'h) write_part" where
  "wp_set_queue p fs s = (if is_high p then s\<lparr>wp_high := fs\<rparr> else s\<lparr>wp_write := fs\<rparr>)"

fun wp_send_queue :: "('w, 'h) sub_env \<Rightarrow> priority \<Rightarrow> byte list list \<Rightarrow> ('w, 'h) write_part
    \<Rightarrow> ('w, 'h) write_part \<times> (io_error + bool)" where
  "wp_send_queue E p [] s = (s, Ok False)"
| "wp_send_queue E p (frame # fs) s =
     (case wp_send_inner E frame p (wp_set_queue p fs s) of
        (s1, Inl e) \<Rightarrow> (s1, Err e)
      | (s1, Inr True) \<Rightarrow> (s1, Ok True)
      | (s1, Inr False) \<Rightarrow> wp_send_queue E p fs s1)"

definition wp_send_data :: "('w, 'h) sub_env \<Rightarrow> ('w, 'h) write_part \<Rightarrow> ('w, 'h) write_part \<times> (io_error + unit)" where
  "wp_send_data E s =
     (case wp_send_queue E High (wp_high s) s of
        (s1, Inl e) \<Rightarrow> (s1, Err e)
      | (s1, Inr True) \<Rightarrow> (s1, Ok ())
      | (s1, Inr False) \<Rightarrow>
          (case wp_send_queue E Normal (wp_write s1) s1 of
             (s2, Inl e) \<Rightarrow> (s2, Err e)
           | (s2, Inr True) \<Rightarrow> (s2, Ok ())
           | (s2, Inr False) \<Rightarrow>
               (case wp_poll_complete E s2 of (s3, Inl e) \<Rightarrow> (s3, Err e) | (s3, Inr _) \<Rightarrow> (s3, Ok ()))))"

definition wp_output :: "('w, 'h) sub_env \<Rightarrow> ('w, 'h) write_part \<Rightarrow> ('w, 'h) write_part option" where
  "wp_output E s =
     map_option (\<lambda>(w, b, r). s\<lparr>wp_io := w, wp_events := b, wp_dead := (wp_dead s \<or> r = SendDisconnect)\<rparr>)
       (bf_try_send (se_events E) (wp_events s) (wp_io s))"

definition wp_output_event :: "('w, 'h) sub_env \<Rightarrow> 'h protocol_event \<Rightarrow> ('w, 'h) write_part \<Rightarrow> ('w, 'h) write_part option" where
  "wp_output_event E event s = wp_output E (s\<lparr>wp_events := bf_push event (wp_events s)\<rparr>)"

definition wp_flush :: "('w, 'h) sub_env \<Rightarrow> ('w, 'h) write_part \<Rightarrow> (('w, 'h) write_part \<times> (io_error + unit)) option" where
  "wp_flush E s =
     (case wp_poll_complete E s of
        (s1, Inl e) \<Rightarrow> Some (s1, Err e)
      | (s1, Inr _) \<Rightarrow>
          if \<not> bf_is_empty (wp_events s1) \<or> wp_write s1 \<noteq> [] \<or> wp_high s1 \<noteq> []
          then map_option (wp_send_data E) (wp_output E s1)
          else Some (s1, Ok ()))"

definition wp_handle_proto_event :: "('w, 'h) sub_env \<Rightarrow> 'h protocol_event \<Rightarrow> priority \<Rightarrow> ('w, 'h) write_part
    \<Rightarrow> ('w, 'h) write_part option" where
  "wp_handle_proto_event E event p s =
     (case event of
        PeMessage data \<Rightarrow>
          (case wp_send_data E (wp_push_back p data s) of
             (s1, Inr _) \<Rightarrow> Some s1
           | (s1, Inl err) \<Rightarrow> map_option (\<lambda>s2. s2\<lparr>wp_dead := True\<rparr>) (wp_output_event E (PeError (wp_proto s1) err) s1))
      | PeClose _ _ \<Rightarrow> Some (s\<lparr>wp_write := [], wp_dead := True\<rparr>)
      | _ \<Rightarrow> Some s)"

definition wp_recv_event :: "('w, 'h) sub_env \<Rightarrow> nat \<Rightarrow> ('w, 'h) write_part \<Rightarrow> (('w, 'h) write_part \<times> unit option poll) option" where
  "wp_recv_event E cx s =
     (if wp_dead s then Some (s, Ready None)
      else do {
        limit \<leftarrow> send_event_size (wp_config s);
        if length (wp_write s) > unat limit then Some (s, Pending)
        else do {
          (ch, r) \<leftarrow> chan_poll_next cx (wp_chan s);
          let s1 = s\<lparr>wp_chan := ch\<rparr>;
          case r of
            Ready (Some (p, event)) \<Rightarrow> map_option (\<lambda>s2. (s2, Ready (Some ()))) (wp_handle_proto_event E event p s1)
          | Ready None \<Rightarrow> Some (s1\<lparr>wp_dead := True, wp_io := fst (io_shutdown (se_io E) (wp_io s1))\<rparr>, Ready None)
          | Pending \<Rightarrow> Some (s1, Pending)
        }
      })"

definition wp_close_proto_stream :: "('w, 'h) sub_env \<Rightarrow> ('w, 'h) write_part \<Rightarrow> ('w, 'h) write_part option" where
  "wp_close_proto_stream E s =
     (let s1 = s\<lparr>wp_chan := close_receiver (wp_chan s), wp_io := fst (io_shutdown (se_io E) (wp_io s))\<rparr> in
      if \<not> cx_closed (wp_ctx s1) then
        Some (s1\<lparr>wp_events := snd (bf_take (wp_events s1)),
                wp_spawned := wp_spawned s1 @ [OwnerTask (fst (bf_take (wp_events s1)) @ [PeClose (wp_id s1) (wp_proto s1)])]\<rparr>)
      else wp_output E s1)"

definition wp_error_close :: "('w, 'h) sub_env \<Rightarrow> io_error \<Rightarrow> ('w, 'h) write_part \<Rightarrow> ('w, 'h) write_part option" where
  "wp_error_close E error s =
     (let s1 = s\<lparr>wp_dead := True\<rparr> in
      if connection_gone error then Some s1
      else wp_close_proto_stream E (s1\<lparr>wp_events := bf_push (PeError (wp_proto s1) error) (wp_events s1)\<rparr>))"

definition wp_poll_next :: "('w, 'h) sub_env \<Rightarrow> nat \<Rightarrow> bool \<Rightarrow> ('w, 'h) write_part
    \<Rightarrow> (('w, 'h) write_part \<times> unit option poll) option" where
  "wp_poll_next E cx proceed s =
     (if wp_dead s \<or> cx_closed (wp_ctx s) then map_option (\<lambda>s1. (s1, Ready None)) (wp_close_proto_stream E s)
      else do {
        (s1, r) \<leftarrow> wp_flush E s;
        case r of
          Inl err \<Rightarrow> map_option (\<lambda>s2. (s2, Ready None)) (wp_error_close E err s1)
        | Inr _ \<Rightarrow>
            if \<not> proceed then Some (s1, Pending)
            else do {
              (s2, r2) \<leftarrow> wp_recv_event E cx s1;
              Some (s2, if r2 = Pending then Pending else Ready (Some ()))
            }
      })"

section \<open>The read part\<close>

record 'w read_part =
  rp_io :: 'w
  rp_before :: "(byte list \<Rightarrow> io_error + byte list) option"
  rp_proto :: usize
  rp_stream :: usize
  rp_version :: str

definition rp_poll_next :: "'w io_ops \<Rightarrow> bool \<Rightarrow> 'w read_part \<Rightarrow> 'w read_part \<times> (io_error + byte list) option poll" where
  "rp_poll_next I proceed s =
     (if \<not> proceed then (s, Pending)
      else case io_next I (rp_io s) of
        (w, Ready (Some (Inr data))) \<Rightarrow>
          (s\<lparr>rp_io := w\<rparr>, Ready (Some (case rp_before s of Some function \<Rightarrow> function data | None \<Rightarrow> Ok data)))
      | (w, r) \<Rightarrow> (s\<lparr>rp_io := w\<rparr>, r))"

text \<open>\<open>drop\<close>: the event that the spawned task sends through a clone of the sender to the write part.\<close>

definition rp_drop :: "'w read_part \<Rightarrow> 'h protocol_event" where
  "rp_drop s = PeClose (rp_stream s) (rp_proto s)"

section \<open>The write part is a substream\<close>

definition as_substream :: "('w, 'h) write_part \<Rightarrow> ('w, 'h) substream" where
  "as_substream s =
     \<lparr>sb_io = wp_io s, sb_id = wp_id s, sb_proto = wp_proto s, sb_ctx = wp_ctx s, sb_config = wp_config s,
      sb_high = wp_high s, sb_write = wp_write s, sb_dead = wp_dead s, sb_keep = True, sb_events = wp_events s,
      sb_chan = wp_chan s, sb_service = None, sb_session = None, sb_before = None, sb_spawned = wp_spawned s\<rparr>"

definition write_only :: "('w, 'h) sub_env \<Rightarrow> ('w, 'h) sub_env" where
  "write_only E = E\<lparr>se_io := (se_io E)\<lparr>io_next := (\<lambda>w. (w, Pending))\<rparr>\<rparr>"

abbreviation lift_part :: "('w, 'h) write_part \<times> 'r \<Rightarrow> ('w, 'h) substream \<times> 'r" where
  "lift_part x \<equiv> (as_substream (fst x), snd x)"

lemma write_only_sel [simp]:
  "se_events (write_only E) = se_events E" "io_ready (se_io (write_only E)) = io_ready (se_io E)"
  "io_send (se_io (write_only E)) = io_send (se_io E)" "io_flush (se_io (write_only E)) = io_flush (se_io E)"
  "io_shutdown (se_io (write_only E)) = io_shutdown (se_io E)" "io_next (se_io (write_only E)) w = (w, Pending)"
  by (simp_all add: write_only_def)

lemma as_substream_sel [simp]:
  "sb_io (as_substream s) = wp_io s" "sb_id (as_substream s) = wp_id s" "sb_proto (as_substream s) = wp_proto s"
  "sb_ctx (as_substream s) = wp_ctx s" "sb_config (as_substream s) = wp_config s" "sb_high (as_substream s) = wp_high s"
  "sb_write (as_substream s) = wp_write s" "sb_dead (as_substream s) = wp_dead s" "sb_keep (as_substream s)"
  "sb_events (as_substream s) = wp_events s" "sb_chan (as_substream s) = wp_chan s" "sb_service (as_substream s) = None"
  "sb_session (as_substream s) = None" "sb_spawned (as_substream s) = wp_spawned s"
  by (simp_all add: as_substream_def)

text \<open>Every update of the write part is the update of the substream.\<close>

lemma as_substream_upd [simp]:
  "(as_substream s)\<lparr>sb_io := w\<rparr> = as_substream (s\<lparr>wp_io := w\<rparr>)"
  "(as_substream s)\<lparr>sb_ctx := cx\<rparr> = as_substream (s\<lparr>wp_ctx := cx\<rparr>)"
  "(as_substream s)\<lparr>sb_high := fs\<rparr> = as_substream (s\<lparr>wp_high := fs\<rparr>)"
  "(as_substream s)\<lparr>sb_write := fs\<rparr> = as_substream (s\<lparr>wp_write := fs\<rparr>)"
  "(as_substream s)\<lparr>sb_dead := d\<rparr> = as_substream (s\<lparr>wp_dead := d\<rparr>)"
  "(as_substream s)\<lparr>sb_events := b\<rparr> = as_substream (s\<lparr>wp_events := b\<rparr>)"
  "(as_substream s)\<lparr>sb_chan := ch\<rparr> = as_substream (s\<lparr>wp_chan := ch\<rparr>)"
  "(as_substream s)\<lparr>sb_spawned := ts\<rparr> = as_substream (s\<lparr>wp_spawned := ts\<rparr>)"
  by (simp_all add: as_substream_def)

lemma poll_complete_part [simp]: "sub_poll_complete (write_only E) (as_substream s) = lift_part (wp_poll_complete E s)"
  by (auto simp: sub_poll_complete_def wp_poll_complete_def split: prod.splits poll.splits sum.splits)

lemma push_part [simp]:
  "sub_push_front p f (as_substream s) = as_substream (wp_push_front p f s)"
  "sub_push_back p f (as_substream s) = as_substream (wp_push_back p f s)"
  "set_queue p fs (as_substream s) = as_substream (wp_set_queue p fs s)"
  by (simp_all add: sub_push_front_def wp_push_front_def sub_push_back_def wp_push_back_def set_queue_def wp_set_queue_def)

lemma send_inner_part [simp]: "send_inner (write_only E) f p (as_substream s) = lift_part (wp_send_inner E f p s)"
  by (auto simp: send_inner_def wp_send_inner_def Let_def split: prod.splits poll.splits sum.splits)

lemma send_queue_part [simp]: "send_queue (write_only E) p fs (as_substream s) = lift_part (wp_send_queue E p fs s)"
  by (induction fs arbitrary: s) (auto split: prod.splits sum.splits bool.splits)

lemma send_data_part [simp]: "sub_send_data (write_only E) (as_substream s) = lift_part (wp_send_data E s)"
  by (auto simp: sub_send_data_def wp_send_data_def split: prod.splits sum.splits bool.splits)

lemma output_part [simp]: "sub_output (write_only E) (as_substream s) = map_option as_substream (wp_output E s)"
  by (auto simp: sub_output_def wp_output_def option.map_comp comp_def case_prod_unfold)

lemma flush_part [simp]: "sub_flush (write_only E) (as_substream s) = map_option lift_part (wp_flush E s)"
  by (auto simp: sub_flush_def wp_flush_def buf_empty_or_def option.map_comp comp_def split: prod.splits sum.splits)

lemma handle_event_part [simp]:
  "handle_proto_event (write_only E) ev p (as_substream s) = map_option as_substream (wp_handle_proto_event E ev p s)"
  by (auto simp: handle_proto_event_def wp_handle_proto_event_def sub_output_event_def wp_output_event_def option.map_comp comp_def
    split: protocol_event.splits prod.splits sum.splits)

lemma recv_event_part [simp]:
  "sub_recv_event (write_only E) cx (as_substream s) = map_option lift_part (wp_recv_event E cx s)"
  by (auto simp: sub_recv_event_def wp_recv_event_def Let_def option.map_comp comp_def
    split: prod.splits poll.splits option.splits Option.bind_split)

lemma close_part [simp]:
  "close_proto_stream (write_only E) (as_substream s) = map_option as_substream (wp_close_proto_stream E s)"
  by (auto simp: close_proto_stream_def wp_close_proto_stream_def Let_def)

lemma error_close_part [simp]:
  "error_close (write_only E) e (as_substream s) = map_option as_substream (wp_error_close E e s)"
  by (auto simp: error_close_def wp_error_close_def Let_def)

text \<open>
  C31. A protocol with a separated reading half behaves, poll by poll, like the protocol with no handlers that keeps its
  events when it closes and whose stream never yields a frame.
\<close>

theorem write_part_refines:
  "sub_poll_next (write_only E) cx proceed (as_substream s) = map_option lift_part (wp_poll_next E cx proceed s)"
proof -
  have quiet: "recv_frame (write_only E) (as_substream t) =
      (if wp_dead t then Some (as_substream t, Ready None)
       else map_option (\<lambda>_. (as_substream t, Pending)) (recv_event_size (wp_config t)))" for t
    by (cases "recv_event_size (wp_config t)") (auto simp: recv_frame_def buf_len_or0_def)
  have window: "send_event_size g = None \<longleftrightarrow> recv_event_size g = None" for g
    by (simp add: send_event_size_def recv_event_size_def)
  have events: "(do {(s2, r2) \<leftarrow> recv_frame (write_only E) (as_substream t); (s3, r3) \<leftarrow> sub_recv_event (write_only E) cx s2;
        Some (s3, if r2 = Pending \<and> r3 = Pending then Pending else Ready (Some ()))})
      = map_option lift_part (do {(s2, r2) \<leftarrow> wp_recv_event E cx t; Some (s2, if r2 = Pending then Pending else Ready (Some ()))})"
    (is "?l t = ?r t") for t
  proof (cases "\<not> wp_dead t \<and> recv_event_size (wp_config t) = None")
    case True
    then show ?thesis using window [of "wp_config t"] by (simp add: quiet wp_recv_event_def)
  next
    case False
    then show ?thesis
      by (cases "wp_recv_event E cx t") (auto simp: quiet wp_recv_event_def split: if_splits)
  qed
  show ?thesis
    by (cases "wp_flush E s") (auto simp: sub_poll_next_def wp_poll_next_def events option.map_comp comp_def split: sum.splits)
qed

end
