(* ===== verification/Proto_Handles.thy ===== *)
theory Proto_Handles
  imports Session_Events
begin

text \<open>
  The tasks that run the user's protocol handlers (\<open>protocol_handle_stream.rs\<close>). The user's callbacks
  are recorded in the order they are made; a callback may panic, which unwinds the task. The shared flags (a session
  is closed, the service shuts down) are arguments, one for each time the code reads them. A hash map is the
  list of its bindings in iteration order.
\<close>

section \<open>Callbacks\<close>

datatype handler_call =
    HcInit
  | HcConnected usize str
  | HcDisconnected usize
  | HcReceived usize "byte list"
  | HcNotify u64

text \<open>The part of a stream that both kinds of handlers share; \<open>hs_timers\<close> are the timers handed to the task manager.\<close>

record handler_state =
  hs_proto :: usize
  hs_listens :: "multiaddr list"
  hs_notify :: "(u64 \<times> nat) list"
  hs_need_poll :: bool
  hs_calls :: "handler_call list"
  hs_timers :: "(nat \<times> u64) list"

text \<open>A call: \<open>Inl\<close> when it panics. \<open>returns\<close> is the user's code, judged by the calls made so far.\<close>

definition invoke :: "(handler_call list \<Rightarrow> bool) \<Rightarrow> handler_call \<Rightarrow> 's handler_state_scheme \<Rightarrow> 's handler_state_scheme + 's handler_state_scheme" where
  "invoke returns c s =
     (let s1 = s\<lparr>hs_calls := hs_calls s @ [c]\<rparr> in if returns (hs_calls s1) then Ok s1 else Err s1)"

definition hs_set_notify :: "u64 \<Rightarrow> 's handler_state_scheme \<Rightarrow> 's handler_state_scheme" where
  "hs_set_notify token s =
     (case map_of (hs_notify s) token of
        Some interval \<Rightarrow> s\<lparr>hs_timers := hs_timers s @ [(interval, token)]\<rparr>
      | None \<Rightarrow> s)"

text \<open>\<open>entry(token).or_insert(interval)\<close>, and \<open>remove\<close>.\<close>

definition or_insert :: "'k \<Rightarrow> 'v \<Rightarrow> ('k \<times> 'v) list \<Rightarrow> ('k \<times> 'v) list" where
  "or_insert k v m = (if map_of m k = None then m @ [(k, v)] else m)"

definition remove_key :: "'k \<Rightarrow> ('k \<times> 'v) list \<Rightarrow> ('k \<times> 'v) list" where
  "remove_key k m = filter (\<lambda>(k', _). k' \<noteq> k) m"

definition insert_key :: "'k \<Rightarrow> 'v \<Rightarrow> ('k \<times> 'v) list \<Rightarrow> ('k \<times> 'v) list" where
  "insert_key k v m = remove_key k m @ [(k, v)]"

lemma map_of_remove_key [simp]: "map_of (remove_key k m) k' = (if k' = k then None else map_of m k')"
  by (induction m) (auto simp: remove_key_def)

lemma dom_remove_key [simp]: "dom (map_of (remove_key k m)) = dom (map_of m) - {k}"
  by (auto simp: dom_def)

lemma map_of_insert_key [simp]: "map_of (insert_key k v m) k' = (if k' = k then Some v else map_of m k')"
  by (auto simp: insert_key_def map_add_def split: option.splits)

section \<open>The handler of the service\<close>

datatype current_task = Idle | Run "usize option"

record service_stream = handler_state +
  sv_sessions :: "(usize \<times> ses_ctx) list"
  sv_task :: current_task

definition run_with_id :: "usize \<Rightarrow> service_stream \<Rightarrow> service_stream" where
  "run_with_id i s = s\<lparr>sv_task := Run (Some i)\<rparr>"

definition task_run :: "service_stream \<Rightarrow> service_stream" where
  "task_run s = s\<lparr>sv_task := Run None\<rparr>"

definition task_idle :: "service_stream \<Rightarrow> service_stream" where
  "task_idle s = s\<lparr>sv_task := Idle\<rparr>"

definition service_stream_new :: "usize \<Rightarrow> multiaddr list \<Rightarrow> service_stream" where
  "service_stream_new pid listens =
     \<lparr>hs_proto = pid, hs_listens = listens, hs_notify = [], hs_need_poll = True, hs_calls = [], hs_timers = [],
      sv_sessions = [], sv_task = Idle\<rparr>"

text \<open>The loop that drops the sessions found closed.\<close>

fun sweep :: "(handler_call list \<Rightarrow> bool) \<Rightarrow> usize list \<Rightarrow> service_stream \<Rightarrow> service_stream + service_stream" where
  "sweep returns [] s = Ok s"
| "sweep returns (i # is') s =
     (case map_of (sv_sessions s) i of
        None \<Rightarrow> sweep returns is' s
      | Some _ \<Rightarrow>
          and_then (invoke returns (HcDisconnected i) (s\<lparr>sv_sessions := remove_key i (sv_sessions s)\<rparr>)) (sweep returns is'))"

definition sv_dispatch :: "(handler_call list \<Rightarrow> bool) \<Rightarrow> (usize \<Rightarrow> bool) \<Rightarrow> bool \<Rightarrow> service_proto_event \<Rightarrow> service_stream
    \<Rightarrow> service_stream + service_stream" where
  "sv_dispatch returns closed shutdown event s =
     (case event of
        SvInit \<Rightarrow> invoke returns HcInit (task_run s)
      | SvConnected session version \<Rightarrow>
          and_then (invoke returns (HcConnected (cx_id session) version) (run_with_id (cx_id session) s))
            (\<lambda>s1. Ok (s1\<lparr>sv_sessions := insert_key (cx_id session) session (sv_sessions s1)\<rparr>))
      | SvDisconnected i \<Rightarrow>
          (let s1 = run_with_id i s in
           case map_of (sv_sessions s1) i of
             None \<Rightarrow> Ok s1
           | Some _ \<Rightarrow> invoke returns (HcDisconnected i) (s1\<lparr>sv_sessions := remove_key i (sv_sessions s1)\<rparr>))
      | SvReceived i data \<Rightarrow>
          (let s1 = run_with_id i s in
           case map_of (sv_sessions s1) i of
             None \<Rightarrow> Ok s1
           | Some _ \<Rightarrow> if \<not> closed i \<and> \<not> shutdown then invoke returns (HcReceived i data) s1 else Ok s1)
      | SvNotify token \<Rightarrow> and_then (invoke returns (HcNotify token) (task_run s)) (\<lambda>s1. Ok (hs_set_notify token s1))
      | SvSetNotify interval token \<Rightarrow>
          (let s1 = task_run s in Ok (hs_set_notify token (s1\<lparr>hs_notify := or_insert token interval (hs_notify s1)\<rparr>)))
      | SvRemoveNotify token \<Rightarrow> (let s1 = task_run s in Ok (s1\<lparr>hs_notify := remove_key token (hs_notify s1)\<rparr>))
      | SvUpdate listen_addrs \<Rightarrow> Ok ((task_run s)\<lparr>hs_listens := listen_addrs\<rparr>))"

text \<open>The flags as they are read: at the start, in the sweep, and when a message is delivered.\<close>

record read_flags =
  fl_shutdown :: bool
  fl_closed :: "usize \<Rightarrow> bool"
  fl_shutdown2 :: bool
  fl_closed2 :: "usize \<Rightarrow> bool"

definition sv_handle_event :: "(handler_call list \<Rightarrow> bool) \<Rightarrow> read_flags \<Rightarrow> service_proto_event \<Rightarrow> service_stream
    \<Rightarrow> service_stream + service_stream" where
  "sv_handle_event returns fl event s =
     (if fl_shutdown fl \<and> (case event of SvDisconnected _ \<Rightarrow> False | _ \<Rightarrow> True) then Ok s
      else
        and_then (sweep returns (map fst (filter (\<lambda>(i, _). fl_closed fl i) (sv_sessions s))) s)
          (\<lambda>s1. and_then (sv_dispatch returns (fl_closed2 fl) (fl_shutdown2 fl) event s1) (\<lambda>s2. Ok (task_idle s2))))"

text \<open>One iteration of \<open>run\<close>: the branch that \<open>select!\<close> took; the boolean tells whether the loop goes on.\<close>

datatype 'e branch = GotEvent "'e option" | GotNotify u64 | Polled bool | Stopped | NoBranch

definition sv_run_step :: "(handler_call list \<Rightarrow> bool) \<Rightarrow> bool \<Rightarrow> read_flags \<Rightarrow> service_proto_event branch \<Rightarrow> service_stream
    \<Rightarrow> service_stream + service_stream \<times> bool" where
  "sv_run_step returns shutdown fl b s =
     (if shutdown then Ok (task_idle s, False)
      else case b of
        GotEvent (Some event) \<Rightarrow> and_then (sv_handle_event returns fl event s) (\<lambda>s1. Ok (s1, True))
      | GotEvent None \<Rightarrow> Ok (task_idle s, False)
      | GotNotify token \<Rightarrow> and_then (sv_handle_event returns fl (SvNotify token) s) (\<lambda>s1. Ok (s1, True))
      | Polled again \<Rightarrow> Ok (if hs_need_poll s then s\<lparr>hs_need_poll := again\<rparr> else s, True)
      | Stopped \<Rightarrow> Ok (s, False)
      | NoBranch \<Rightarrow> Ok (s, False))"

fun sv_run :: "(handler_call list \<Rightarrow> bool) \<Rightarrow> (bool \<times> read_flags \<times> service_proto_event branch) list \<Rightarrow> service_stream
    \<Rightarrow> service_stream + service_stream" where
  "sv_run returns [] s = Ok s"
| "sv_run returns ((shutdown, fl, b) # bs) s =
     (case sv_run_step returns shutdown fl b s of
        Inl s1 \<Rightarrow> Err s1
      | Inr (s1, go) \<Rightarrow> if go then sv_run returns bs s1 else Ok s1)"

text \<open>\<open>drop\<close>: what is reported to the service when the task ends or unwinds.\<close>

definition sv_drop :: "bool \<Rightarrow> service_stream \<Rightarrow> ('y, 'k, 'i) session_event option" where
  "sv_drop shutdown s =
     (if \<not> shutdown then
        (case sv_task s of
           Run i \<Rightarrow> Some (SeProtocolHandleError (AbnormallyClosed i) (hs_proto s))
         | Idle \<Rightarrow> None)
      else None)"

section \<open>The handler of a session\<close>

record session_stream = handler_state +
  ss_ctx :: usize
  ss_busy :: bool
  ss_closed :: bool

definition session_stream_new :: "usize \<Rightarrow> multiaddr list \<Rightarrow> usize \<Rightarrow> session_stream" where
  "session_stream_new pid listens i =
     \<lparr>hs_proto = pid, hs_listens = listens, hs_notify = [], hs_need_poll = True, hs_calls = [], hs_timers = [],
      ss_ctx = i, ss_busy = False, ss_closed = False\<rparr>"

definition ss_close :: "session_stream \<Rightarrow> session_stream" where
  "ss_close s = s\<lparr>ss_closed := True, ss_busy := False\<rparr>"

definition ss_dispatch :: "(handler_call list \<Rightarrow> bool) \<Rightarrow> session_proto_event \<Rightarrow> session_stream
    \<Rightarrow> session_stream + session_stream" where
  "ss_dispatch returns event s =
     (case event of
        SsOpened version \<Rightarrow> invoke returns (HcConnected (ss_ctx s) version) s
      | SsClosed \<Rightarrow> invoke returns (HcDisconnected (ss_ctx s)) s
      | SsDisconnected \<Rightarrow> Ok (ss_close s)
      | SsReceived data \<Rightarrow> invoke returns (HcReceived (ss_ctx s) data) s
      | SsNotify token \<Rightarrow> and_then (invoke returns (HcNotify token) s) (\<lambda>s1. Ok (hs_set_notify token s1))
      | SsSetNotify interval token \<Rightarrow> Ok (hs_set_notify token (s\<lparr>hs_notify := or_insert token interval (hs_notify s)\<rparr>))
      | SsRemoveNotify token \<Rightarrow> Ok (s\<lparr>hs_notify := remove_key token (hs_notify s)\<rparr>)
      | SsUpdate listen_addrs \<Rightarrow> Ok (s\<lparr>hs_listens := listen_addrs\<rparr>))"

definition ss_handle_event :: "(handler_call list \<Rightarrow> bool) \<Rightarrow> bool \<Rightarrow> bool \<Rightarrow> session_proto_event \<Rightarrow> session_stream
    \<Rightarrow> session_stream + session_stream" where
  "ss_handle_event returns shutdown closed event s =
     (let s1 = s\<lparr>ss_busy := True\<rparr> in
      if shutdown \<and> event \<noteq> SsDisconnected \<and> event \<noteq> SsClosed then Ok (s1\<lparr>ss_busy := False\<rparr>)
      else and_then (ss_dispatch returns (if closed then SsDisconnected else event) s1) (\<lambda>s2. Ok (s2\<lparr>ss_busy := False\<rparr>)))"

definition ss_run_step :: "(handler_call list \<Rightarrow> bool) \<Rightarrow> bool \<Rightarrow> bool \<Rightarrow> session_proto_event branch \<Rightarrow> session_stream
    \<Rightarrow> session_stream + session_stream \<times> bool" where
  "ss_run_step returns shutdown closed b s =
     (case b of
        GotEvent (Some event) \<Rightarrow> and_then (ss_handle_event returns shutdown closed event s) (\<lambda>s1. Ok (s1, True))
      | GotEvent None \<Rightarrow> Ok (ss_close s, False)
      | GotNotify token \<Rightarrow> and_then (ss_handle_event returns shutdown closed (SsNotify token) s) (\<lambda>s1. Ok (s1, True))
      | Polled again \<Rightarrow> Ok (if hs_need_poll s then s\<lparr>hs_need_poll := again\<rparr> else s, True)
      | Stopped \<Rightarrow> Ok (s, False)
      | NoBranch \<Rightarrow> Ok (s, False))"

fun ss_run :: "(handler_call list \<Rightarrow> bool) \<Rightarrow> (bool \<times> bool \<times> session_proto_event branch) list \<Rightarrow> session_stream
    \<Rightarrow> session_stream + session_stream" where
  "ss_run returns [] s = Ok s"
| "ss_run returns ((shutdown, closed, b) # bs) s =
     (case ss_run_step returns shutdown closed b s of
        Inl s1 \<Rightarrow> Err s1
      | Inr (s1, go) \<Rightarrow> if go then ss_run returns bs s1 else Ok s1)"

definition ss_drop :: "bool \<Rightarrow> session_stream \<Rightarrow> ('y, 'k, 'i) session_event option" where
  "ss_drop shutdown s =
     (if \<not> shutdown \<and> ss_busy s then Some (SeProtocolHandleError (AbnormallyClosed (Some (ss_ctx s))) (hs_proto s)) else None)"

section \<open>Calls of the service handler\<close>

fun open_after :: "usize set \<Rightarrow> handler_call list \<Rightarrow> usize set" where
  "open_after f [] = f"
| "open_after f (HcConnected i v # cs) = open_after (insert i f) cs"
| "open_after f (HcDisconnected i # cs) = open_after (f - {i}) cs"
| "open_after f (c # cs) = open_after f cs"

fun bracketed :: "usize set \<Rightarrow> handler_call list \<Rightarrow> bool" where
  "bracketed f [] = True"
| "bracketed f (HcConnected i v # cs) = bracketed (insert i f) cs"
| "bracketed f (HcDisconnected i # cs) = (i \<in> f \<and> bracketed (f - {i}) cs)"
| "bracketed f (HcReceived i data # cs) = (i \<in> f \<and> bracketed f cs)"
| "bracketed f (c # cs) = bracketed f cs"

lemma open_after_append: "open_after f (xs @ ys) = open_after (open_after f xs) ys"
  by (induction f xs rule: open_after.induct) simp_all

lemma bracketed_append: "bracketed f (xs @ ys) \<longleftrightarrow> bracketed f xs \<and> bracketed (open_after f xs) ys"
  by (induction f xs rule: bracketed.induct) simp_all

definition calls_ok :: "service_stream \<Rightarrow> bool" where
  "calls_ok s \<longleftrightarrow> bracketed {} (hs_calls s)
     \<and> open_after {} (hs_calls s) = dom (map_of (sv_sessions s))"

text \<open>What holds of a result: all of it when the call returned, the calls alone when it panicked.\<close>

definition res_ok :: "service_stream + service_stream \<Rightarrow> bool" where
  "res_ok r \<longleftrightarrow> (case r of Inl s \<Rightarrow> bracketed {} (hs_calls s) | Inr s \<Rightarrow> calls_ok s)"

lemma res_ok_and_then:
  "res_ok r \<Longrightarrow> (\<And>s. r = Ok s \<Longrightarrow> calls_ok s \<Longrightarrow> res_ok (f s)) \<Longrightarrow> res_ok (and_then r f)"
  by (cases r) (auto simp: res_ok_def)

lemma sweep_ok: "calls_ok s \<Longrightarrow> res_ok (sweep returns is' s)"
proof (induction is' arbitrary: s)
  case (Cons i is')
  show ?case
  proof (cases "map_of (sv_sessions s) i")
    case None
    then show ?thesis using Cons by simp
  next
    case (Some cx)
    then have "res_ok (invoke returns (HcDisconnected i) (s\<lparr>sv_sessions := remove_key i (sv_sessions s)\<rparr>))"
      using Cons.prems by (auto simp: invoke_def res_ok_def calls_ok_def bracketed_append open_after_append Let_def)
    then show ?thesis using Some Cons.IH by (simp add: res_ok_and_then)
  qed
qed (simp add: res_ok_def)

lemma task_calls_ok [simp]:
  "calls_ok (run_with_id i s) = calls_ok s" "calls_ok (task_run s) = calls_ok s" "calls_ok (task_idle s) = calls_ok s"
  "calls_ok (hs_set_notify token s) = calls_ok s" "calls_ok (s\<lparr>hs_notify := m\<rparr>) = calls_ok s" "calls_ok (s\<lparr>hs_listens := ls\<rparr>) = calls_ok s"
  "calls_ok (s\<lparr>hs_need_poll := b\<rparr>) = calls_ok s"
  by (simp_all add: run_with_id_def task_run_def task_idle_def hs_set_notify_def calls_ok_def split: option.splits)

lemma dispatch_ok:
  assumes "calls_ok s"
  shows "res_ok (sv_dispatch returns closed shutdown event s)"
proof (cases event)
  case (SvConnected cx v)
  then show ?thesis using assms
    by (auto simp: sv_dispatch_def invoke_def res_ok_def calls_ok_def bracketed_append open_after_append Let_def run_with_id_def)
next
  case (SvNotify token)
  have "res_ok (invoke returns (HcNotify token) (task_run s))"
    using assms by (auto simp: invoke_def res_ok_def calls_ok_def bracketed_append open_after_append Let_def task_run_def)
  then show ?thesis using SvNotify by (auto simp: sv_dispatch_def intro!: res_ok_and_then) (simp add: res_ok_def)
next
  case SvInit
  then show ?thesis using assms
    by (auto simp: sv_dispatch_def invoke_def res_ok_def calls_ok_def bracketed_append open_after_append Let_def task_run_def)
next
  case (SvDisconnected i)
  then show ?thesis using assms
    by (auto simp: sv_dispatch_def invoke_def res_ok_def calls_ok_def bracketed_append open_after_append Let_def run_with_id_def
      split: option.splits)
next
  case (SvReceived i data)
  then show ?thesis using assms
    by (auto simp: sv_dispatch_def invoke_def res_ok_def calls_ok_def bracketed_append open_after_append Let_def run_with_id_def
      split: option.splits)
qed (use assms in \<open>simp_all add: sv_dispatch_def res_ok_def Let_def\<close>)

lemma handle_event_ok:
  assumes "calls_ok s"
  shows "res_ok (sv_handle_event returns fl event s)"
  using assms unfolding sv_handle_event_def
  by (auto intro!: res_ok_and_then sweep_ok dispatch_ok simp: res_ok_def [of "Ok x" for x])


section \<open>Panics\<close>

fun call_session :: "handler_call \<Rightarrow> usize option" where
  "call_session (HcConnected i v) = Some i"
| "call_session (HcDisconnected i) = Some i"
| "call_session (HcReceived i data) = Some i"
| "call_session c = None"

lemma invoke_Err: "invoke returns c s = Err s1 \<Longrightarrow> s1 = s\<lparr>hs_calls := hs_calls s @ [c]\<rparr>"
  by (auto simp: invoke_def Let_def split: if_splits)

lemma invoke_Ok: "invoke returns c s = Ok s1 \<Longrightarrow> s1 = s\<lparr>hs_calls := hs_calls s @ [c]\<rparr>"
  by (auto simp: invoke_def Let_def split: if_splits)

lemma and_then_Err: "and_then r f = Err e \<longleftrightarrow> r = Err e \<or> (\<exists>x. r = Ok x \<and> f x = Err e)"
  by (cases r) auto

lemma sweep_frame:
  "sweep returns is' s = Ok s1 \<Longrightarrow> sv_task s1 = sv_task s \<and> hs_proto s1 = hs_proto s"
  "sweep returns is' s = Err s1 \<Longrightarrow> sv_task s1 = sv_task s \<and> hs_proto s1 = hs_proto s \<and> (\<exists>i \<in> set is'. last (hs_calls s1) = HcDisconnected i)"
proof (induction is' arbitrary: s)
  case (Cons i is')
  { case 1
    then show ?case using Cons.IH(1)
      by (cases "invoke returns (HcDisconnected i) (s\<lparr>sv_sessions := remove_key i (sv_sessions s)\<rparr>)")
        (fastforce split: option.splits dest: invoke_Ok)+ }
  { case 2
    then show ?case using Cons.IH(2)
      by (cases "invoke returns (HcDisconnected i) (s\<lparr>sv_sessions := remove_key i (sv_sessions s)\<rparr>)")
        (fastforce split: option.splits dest: invoke_Ok invoke_Err)+ }
qed simp_all

lemma dispatch_panic:
  "sv_dispatch returns closed shutdown event s = Err s1 \<Longrightarrow>
     sv_task s1 = Run (call_session (last (hs_calls s1))) \<and> hs_proto s1 = hs_proto s"
  by (auto simp: sv_dispatch_def and_then_Err Let_def run_with_id_def task_run_def dest!: invoke_Err
    split: service_proto_event.splits option.splits if_splits)

text \<open>
  A panic in a callback is reported to the service with the protocol and, for a callback of one session,
  that session - unless it happens in \<open>disconnected\<close> for a session found closed before the event is handled; a
  shutdown reports nothing.
\<close>

theorem handler_panic_reported:
  assumes "sv_task s = Idle" "sv_handle_event returns fl event s = Err s1"
  shows "sv_drop True s1 = (None :: ('y, 'k, 'i) session_event option)
    \<and> (sv_drop False s1 = Some (SeProtocolHandleError (AbnormallyClosed (call_session (last (hs_calls s1)))) (hs_proto s)
         :: ('y, 'k, 'i) session_event)
       \<or> (\<exists>i. last (hs_calls s1) = HcDisconnected i \<and> fl_closed fl i \<and> i \<in> fst ` set (sv_sessions s)
            \<and> sv_drop False s1 = (None :: ('y, 'k, 'i) session_event option)))"
proof -
  from assms(2) consider (swept) "sweep returns (map fst (filter (\<lambda>(i, _). fl_closed fl i) (sv_sessions s))) s = Err s1"
    | (ran) s2 where "sweep returns (map fst (filter (\<lambda>(i, _). fl_closed fl i) (sv_sessions s))) s = Ok s2"
        "sv_dispatch returns (fl_closed2 fl) (fl_shutdown2 fl) event s2 = Err s1"
    by (auto simp: sv_handle_event_def and_then_Err split: if_splits)
  then show ?thesis
  proof cases
    case swept
    from sweep_frame(2) [OF swept] assms(1) show ?thesis by (force simp: sv_drop_def)
  next
    case ran
    from dispatch_panic [OF ran(2)] sweep_frame(1) [OF ran(1)] show ?thesis by (auto simp: sv_drop_def)
  qed
qed

theorem handler_panic_reported_witness:
  "\<exists>s1. sv_handle_event (\<lambda>_. False) \<lparr>fl_shutdown = False, fl_closed = (\<lambda>_. False), fl_shutdown2 = False, fl_closed2 = (\<lambda>_. False)\<rparr>
       (SvConnected (ses_ctx_new 4 \<lparr>ma_bytes = []\<rparr> Inbound None) []) (service_stream_new 7 []) = Err s1
     \<and> sv_drop False s1 = Some (SeProtocolHandleError (AbnormallyClosed (Some 4)) 7 :: (unit, unit, unit) session_event)"
proof -
  let ?fl = "\<lparr>fl_shutdown = False, fl_closed = (\<lambda>_. False), fl_shutdown2 = False, fl_closed2 = (\<lambda>_. False)\<rparr>"
  let ?s = "service_stream_new 7 []"
  obtain s1 where e: "sv_handle_event (\<lambda>_. False) ?fl (SvConnected (ses_ctx_new 4 \<lparr>ma_bytes = []\<rparr> Inbound None) []) ?s = Err s1"
    "last (hs_calls s1) = HcConnected 4 []"
    by (simp add: sv_handle_event_def service_stream_new_def sv_dispatch_def invoke_def Let_def ses_ctx_new_def run_with_id_def)
  have "sv_task ?s = Idle" "hs_proto ?s = 7" by (simp_all add: service_stream_new_def)
  with handler_panic_reported [OF this(1) e(1)] e show ?thesis by auto
qed

text \<open>A session handler is not called once its session is closed: the end of the session is seen only as \<open>Disconnected\<close>.\<close>

lemma closed_session_not_called:
  "ss_handle_event returns shutdown True event s = Ok s1 \<Longrightarrow> hs_calls s1 = hs_calls s"
  by (auto simp: ss_handle_event_def ss_dispatch_def ss_close_def Let_def split: if_splits)

lemma closed_session_closes:
  "\<not> shutdown \<Longrightarrow> \<exists>s1. ss_handle_event returns shutdown True event s = Ok s1 \<and> ss_closed s1 \<and> \<not> ss_busy s1"
  by (simp add: ss_handle_event_def ss_dispatch_def ss_close_def Let_def)

lemma session_panic_reported:
  "ss_handle_event returns shutdown closed event s = Err s1 \<Longrightarrow>
     ss_drop False s1 = Some (SeProtocolHandleError (AbnormallyClosed (Some (ss_ctx s))) (hs_proto s))"
  by (auto simp: ss_handle_event_def ss_dispatch_def ss_drop_def and_then_Err Let_def dest!: invoke_Err
    split: if_splits session_proto_event.splits)

end
