(* ===== verification/Session_Task.thy ===== *)
theory Session_Task
  imports Proto_Write_Part Proto_Handles Protocol_Select
begin

text \<open>
  The task of one connection (\<open>session.rs\<close>): it opens protocols on yamux streams, routes messages of the
  service to their substreams and events of the substreams to the service, and closes them all. The channels of
  the crate \<open>futures\<close>, join handles and framed streams are parameters over a state \<open>'w\<close>; what the code spawns is
  recorded in order. A hash map is the list of its bindings in iteration order.
\<close>

section \<open>State\<close>

record 'h proto_meta =
  pm_id :: usize
  pm_name :: "usize \<Rightarrow> str"
  pm_versions :: "str list"
  pm_select :: "select_fn option"
  pm_before :: "(byte list \<Rightarrow> io_error + byte list) option"
  pm_reframe :: "'h \<Rightarrow> 'h"
  pm_spawn :: bool

datatype ('h, 'y, 'k, 'i) ses_spawn =
    ClientSelectTask protocol_info
  | ServerSelectTask 'y "str \<Rightarrow> (protocol_info \<times> select_fn option) option"
  | SubstreamTask "('h, 'h) substream"
  | WritePartTask "('h, 'h) write_part"
  | ReadPartTask "'h read_part"
  | CloseTask "('y, 'k, 'i) session_event list"
  | ControlCloseTask

record ('w, 'h, 'y, 'k, 'i) ses_env =
  ev_recv :: "'w \<Rightarrow> 'w \<times> 'h protocol_event option poll"
  ev_recv_close :: "'w \<Rightarrow> 'w"
  ev_service :: "('w, ('y, 'k, 'i) session_event) tx_ops"
  ev_signal :: "nat \<Rightarrow> 'w \<Rightarrow> 'w"
  ev_join :: "nat \<Rightarrow> 'w \<Rightarrow> 'w \<times> unit poll"
  ev_split :: "'h \<Rightarrow> 'h \<times> 'h"

type_synonym 'h sub_entry = "'h protocol_event pbuf \<times> 'h protocol_event chan"

record ('w, 'h, 'y, 'k, 'i) session_task =
  sk_w :: 'w
  sk_by_name :: "(str \<times> 'h proto_meta) list"
  sk_by_id :: "(usize \<times> 'h proto_meta) list"
  sk_config :: session_config
  sk_keep :: bool
  sk_state :: ses_state
  sk_ctx :: ses_ctx
  sk_next :: usize
  sk_substreams :: "(usize \<times> 'h sub_entry) list"
  sk_protos :: "(usize \<times> usize) list"
  sk_service :: "('y, 'k, 'i) session_event buf"
  sk_receiver :: "('y, 'k, 'i) session_event chan"
  sk_sv_senders :: "usize list"
  sk_ss_senders :: "usize list"
  sk_wait :: "(bool \<times> nat) list"
  sk_spawned :: "('h, 'y, 'k, 'i) ses_spawn list"

text \<open>\<open>Session::new\<close> from a \<open>SessionMeta\<close>; the task of the muxer and the timer are \<open>InnerSocket\<close> and \<open>TimeoutCheck\<close> below.\<close>

record 'h session_meta =
  me_config :: session_config
  me_by_name :: "(str \<times> 'h proto_meta) list"
  me_by_id :: "(usize \<times> 'h proto_meta) list"
  me_ctx :: ses_ctx
  me_keep :: bool
  me_sv_senders :: "usize list"
  me_ss_senders :: "usize list"
  me_handles :: "(bool \<times> nat) list"

definition session_meta_new :: "ses_ctx \<Rightarrow> 'h session_meta" where
  "session_meta_new cx =
     \<lparr>me_config = default_session_config, me_by_name = [], me_by_id = [], me_ctx = cx, me_keep = False,
      me_sv_senders = [], me_ss_senders = [], me_handles = []\<rparr>"

definition ses_new :: "'w \<Rightarrow> ('y, 'k, 'i) session_event chan \<Rightarrow> 'h session_meta \<Rightarrow> ('w, 'h, 'y, 'k, 'i) session_task" where
  "ses_new w rx meta =
     \<lparr>sk_w = w, sk_by_name = me_by_name meta, sk_by_id = me_by_id meta, sk_config = me_config meta, sk_keep = me_keep meta,
      sk_state = NormalState, sk_ctx = me_ctx meta, sk_next = 0, sk_substreams = [], sk_protos = [], sk_service = bf_new,
      sk_receiver = rx, sk_sv_senders = me_sv_senders meta, sk_ss_senders = me_ss_senders meta, sk_wait = me_handles meta,
      sk_spawned = []\<rparr>"

section \<open>Opening protocols\<close>

text \<open>The event that the task of \<open>select_procedure\<close> sends back; \<open>None\<close> is the timeout.\<close>

definition select_event :: "(io_error + 'h \<times> str \<times> str option) option \<Rightarrow> 'h protocol_event" where
  "select_event res =
     (case res of
        Some (Inr (handle, name, Some version)) \<Rightarrow> PeOpen name handle version
      | Some (Inr (handle, name, None)) \<Rightarrow> PeSelectError (Some name)
      | Some (Inl _) \<Rightarrow> PeSelectError None
      | None \<Rightarrow> PeSelectError None)"

definition sk_spawn :: "('h, 'y, 'k, 'i) ses_spawn \<Rightarrow> ('w, 'h, 'y, 'k, 'i) session_task \<Rightarrow> ('w, 'h, 'y, 'k, 'i) session_task" where
  "sk_spawn t s = s\<lparr>sk_spawned := sk_spawned s @ [t]\<rparr>"

text \<open>A name without configuration panics.\<close>

definition open_proto_stream :: "str \<Rightarrow> ('w, 'h, 'y, 'k, 'i) session_task \<Rightarrow> ('w, 'h, 'y, 'k, 'i) session_task option" where
  "open_proto_stream name s =
     map_option (\<lambda>m. sk_spawn (ClientSelectTask \<lparr>pi_name = name, pi_versions = pm_versions m\<rparr>) s) (map_of (sk_by_name s) name)"

definition handle_substream :: "'y \<Rightarrow> ('w, 'h, 'y, 'k, 'i) session_task \<Rightarrow> ('w, 'h, 'y, 'k, 'i) session_task" where
  "handle_substream stream s =
     (let metas = map (\<lambda>(_, m). let name = pm_name m (pm_id m) in
            (name, (\<lparr>pi_name = name, pi_versions = pm_versions m\<rparr>, pm_select m))) (sk_by_name s) in
      sk_spawn (ServerSelectTask stream (map_of (rev metas))) s)"

definition sk_output :: "('w, 'h, 'y, 'k, 'i) ses_env \<Rightarrow> ('w, 'h, 'y, 'k, 'i) session_task
    \<Rightarrow> ('w, 'h, 'y, 'k, 'i) session_task option" where
  "sk_output E s =
     map_option (\<lambda>(w, b, r).
        if r = SendDisconnect then s\<lparr>sk_w := w, sk_service := bf_clear b, sk_state := Abnormal\<rparr>
        else s\<lparr>sk_w := w, sk_service := b\<rparr>)
       (bf_try_send (ev_service E) (sk_service s) (sk_w s))"

definition event_output :: "('w, 'h, 'y, 'k, 'i) ses_env \<Rightarrow> ('y, 'k, 'i) session_event \<Rightarrow> ('w, 'h, 'y, 'k, 'i) session_task
    \<Rightarrow> ('w, 'h, 'y, 'k, 'i) session_task option" where
  "event_output E event s = sk_output E (s\<lparr>sk_service := bf_push event (sk_service s)\<rparr>)"

text \<open>The loop over the buffers; the entry that is still full, if one is.\<close>

fun ses_distribute_loop :: "nat \<Rightarrow> (usize \<times> 'h sub_entry) list \<Rightarrow> ((usize \<times> 'h sub_entry) list \<times> usize option) option" where
  "ses_distribute_loop cx [] = Some ([], None)"
| "ses_distribute_loop cx ((i, b, ch) # rest) =
     (if pb_is_empty b then map_option (apfst ((#) (i, b, ch))) (ses_distribute_loop cx rest)
      else case pb_try_send cx b ch of
        None \<Rightarrow> None
      | Some (ch1, b1, SendPending) \<Rightarrow> Some ((i, b1, ch1) # rest, Some i)
      | Some (ch1, b1, _) \<Rightarrow> map_option (apfst ((#) (i, b1, ch1))) (ses_distribute_loop cx rest))"

definition clear_entry :: "usize \<Rightarrow> (usize \<times> 'h sub_entry) list \<Rightarrow> (usize \<times> 'h sub_entry) list" where
  "clear_entry i m = map (\<lambda>(j, b, ch). (j, if j = i then pb_clear b else b, ch)) m"

definition ses_distribute :: "('w, 'h, 'y, 'k, 'i) ses_env \<Rightarrow> nat \<Rightarrow> ('w, 'h, 'y, 'k, 'i) session_task
    \<Rightarrow> ('w, 'h, 'y, 'k, 'i) session_task option" where
  "ses_distribute E cx s = do {
     (subs, full) \<leftarrow> ses_distribute_loop cx (sk_substreams s);
     let s1 = s\<lparr>sk_substreams := subs\<rparr>;
     case full of
       None \<Rightarrow> Some s1
     | Some i \<Rightarrow>
         if cx_pending (sk_ctx s1) > sg_send_buffer (sk_config s1)
         then event_output E (SeChangeState (cx_id (sk_ctx s1)) Abnormal None)
                (s1\<lparr>sk_state := Abnormal, sk_substreams := clear_entry i subs\<rparr>)
         else Some s1
   }"

text \<open>The stream with no user reader: a \<open>Substream\<close> over the reframed stream; otherwise a write and a read part.\<close>

definition spawn_protocol :: "('w, 'h, 'y, 'k, 'i) ses_env \<Rightarrow> 'h proto_meta \<Rightarrow> str \<Rightarrow> 'h \<Rightarrow> 'h protocol_event chan
    \<Rightarrow> ('w, 'h, 'y, 'k, 'i) session_task \<Rightarrow> ('w, 'h, 'y, 'k, 'i) session_task" where
  "spawn_protocol E m version h ch s =
     (if pm_spawn m then
        (let (r, w) = ev_split E h in
         sk_spawn (ReadPartTask \<lparr>rp_io = pm_reframe m r, rp_before = pm_before m, rp_proto = pm_id m, rp_stream = sk_next s,
                                rp_version = version\<rparr>)
           (sk_spawn (WritePartTask (wp_build (pm_reframe m w) (sk_next s) (pm_id m) (sk_ctx s) (sk_config s) ch)) s))
      else
        sk_spawn (SubstreamTask (proto_open version
          (sub_build (pm_reframe m h) (sk_next s) (pm_id m) (sk_ctx s) (sk_config s) (sk_keep s) ch
             (if pm_id m \<in> set (sk_sv_senders s) then Some bf_new else None)
             (if pm_id m \<in> set (sk_ss_senders s) then Some bf_new else None) (pm_before m)))) s)"

definition open_protocol :: "('w, 'h, 'y, 'k, 'i) ses_env \<Rightarrow> str \<Rightarrow> str \<Rightarrow> 'h \<Rightarrow> ('w, 'h, 'y, 'k, 'i) session_task
    \<Rightarrow> ('w, 'h, 'y, 'k, 'i) session_task option" where
  "open_protocol E name version h s =
     (case map_of (sk_by_name s) name of
        None \<Rightarrow> event_output E (SeProtocolSelectError (cx_id (sk_ctx s)) None) (s\<lparr>sk_state := Abnormal\<rparr>)
      | Some m \<Rightarrow>
          if map_of (sk_protos s) (pm_id m) \<noteq> None then Some s
          else do {
            ch0 \<leftarrow> channel (sg_channel (sk_config s));
            ch1 \<leftarrow> clone_sender 1 ch0;
            let ch = (if pm_spawn m then ch1 else drop_sender ch1);
            let s1 = s\<lparr>sk_substreams := insert_key (sk_next s) (pb_new (Some 1), ch) (sk_substreams s),
                       sk_protos := insert_key (pm_id m) (sk_next s) (sk_protos s)\<rparr>;
            let s2 = spawn_protocol E m version h ch s1;
            Some (s2\<lparr>sk_next := sk_next s2 + 1\<rparr>)
          })"

section \<open>Closing\<close>

definition sk_clean :: "('w, 'h, 'y, 'k, 'i) ses_env \<Rightarrow> ('w, 'h, 'y, 'k, 'i) session_task \<Rightarrow> ('w, 'h, 'y, 'k, 'i) session_task" where
  "sk_clean E s =
     sk_spawn ControlCloseTask
       (s\<lparr>sk_substreams := [], sk_receiver := close_receiver (sk_receiver s), sk_w := ev_recv_close E (sk_w s)\<rparr>)"

definition close_session :: "('w, 'h, 'y, 'k, 'i) ses_env \<Rightarrow> ('w, 'h, 'y, 'k, 'i) session_task \<Rightarrow> ('w, 'h, 'y, 'k, 'i) session_task" where
  "close_session E s =
     (let s1 = s\<lparr>sk_ctx := (sk_ctx s)\<lparr>cx_closed := True\<rparr>\<rparr>;
          (events, b) = bf_take (sk_service s1) in
      sk_clean E (sk_spawn (CloseTask (events @ [SeSessionClose (cx_id (sk_ctx s1))])) (s1\<lparr>sk_service := b\<rparr>)))"

fun close_each :: "nat \<Rightarrow> (usize \<times> 'h sub_entry) list \<Rightarrow> (usize \<times> 'h sub_entry) list option" where
  "close_each cx [] = Some []"
| "close_each cx ((i, b, ch) # rest) = do {
     (ch1, b1, r) \<leftarrow> pb_try_send cx (push_high (PeClose i 0) b) ch;
     rest1 \<leftarrow> close_each cx rest;
     Some ((i, b1, ch1) # rest1)
   }"

definition close_all_proto :: "('w, 'h, 'y, 'k, 'i) ses_env \<Rightarrow> nat \<Rightarrow> ('w, 'h, 'y, 'k, 'i) session_task
    \<Rightarrow> ('w, 'h, 'y, 'k, 'i) session_task option" where
  "close_all_proto E cx s =
     (if cx_closed (sk_ctx s) then Some (close_session E s)
      else do {
        subs \<leftarrow> close_each cx (sk_substreams s);
        Some (s\<lparr>sk_substreams := subs, sk_ctx := (sk_ctx s)\<lparr>cx_closed := True\<rparr>\<rparr>)
      })"

text \<open>The loop of \<open>wait_handle_poll\<close>: the handles that are still pending, their signal sent.\<close>

fun join_all :: "('w, 'h, 'y, 'k, 'i) ses_env \<Rightarrow> (bool \<times> nat) list \<Rightarrow> 'w \<Rightarrow> 'w \<times> (bool \<times> nat) list" where
  "join_all E [] w = (w, [])"
| "join_all E ((sender, j) # hs) w =
     (case ev_join E j (if sender then ev_signal E j w else w) of
        (w1, Pending) \<Rightarrow> apsnd ((#) (False, j)) (join_all E hs w1)
      | (w1, Ready _) \<Rightarrow> join_all E hs w1)"

definition wait_handle_poll :: "('w, 'h, 'y, 'k, 'i) ses_env \<Rightarrow> ('w, 'h, 'y, 'k, 'i) session_task
    \<Rightarrow> ('w, 'h, 'y, 'k, 'i) session_task \<times> unit option poll" where
  "wait_handle_poll E s =
     (let (w, hs) = join_all E (sk_wait s) (sk_w s) in
      (s\<lparr>sk_w := w, sk_wait := hs\<rparr>, if hs = [] then Ready None else Pending))"

section \<open>Events\<close>

definition handle_stream_event :: "('w, 'h, 'y, 'k, 'i) ses_env \<Rightarrow> 'h protocol_event \<Rightarrow> ('w, 'h, 'y, 'k, 'i) session_task
    \<Rightarrow> ('w, 'h, 'y, 'k, 'i) session_task option" where
  "handle_stream_event E event s =
     (case event of
        PeOpen name h version \<Rightarrow> open_protocol E name version h s
      | PeClose i pid \<Rightarrow>
          Some (if map_of (sk_substreams s) i \<noteq> None
                then s\<lparr>sk_substreams := remove_key i (sk_substreams s), sk_protos := remove_key pid (sk_protos s)\<rparr> else s)
      | PeMessage _ \<Rightarrow> None
      | PeSelectError name \<Rightarrow> event_output E (SeProtocolSelectError (cx_id (sk_ctx s)) name) s
      | PeError pid error \<Rightarrow> event_output E (SeProtocolError (cx_id (sk_ctx s)) pid error) s
      | PeTimeoutCheck \<Rightarrow>
          if sk_substreams s = []
          then map_option (\<lambda>s1. s1\<lparr>sk_state := LocalClose\<rparr>) (event_output E (SeSessionTimeout (cx_id (sk_ctx s))) s)
          else Some s)"

text \<open>Push an event to the substream of a protocol and try to send; nothing when the protocol is not open.\<close>

definition to_substream :: "nat \<Rightarrow> (usize \<Rightarrow> 'h protocol_event pbuf \<Rightarrow> 'h protocol_event pbuf) \<Rightarrow> usize
    \<Rightarrow> ('w, 'h, 'y, 'k, 'i) session_task \<Rightarrow> ('w, 'h, 'y, 'k, 'i) session_task option" where
  "to_substream cx put pid s =
     (case map_of (sk_protos s) pid of
        None \<Rightarrow> Some s
      | Some i \<Rightarrow>
          (case map_of (sk_substreams s) i of
             None \<Rightarrow> Some s
           | Some (b, ch) \<Rightarrow>
               map_option (\<lambda>(ch1, b1, r). s\<lparr>sk_substreams := map (\<lambda>(j, e). (j, if j = i then (b1, ch1) else e)) (sk_substreams s)\<rparr>)
                 (pb_try_send cx (put i b) ch)))"

definition handle_session_event :: "('w, 'h, 'y, 'k, 'i) ses_env \<Rightarrow> nat \<Rightarrow> ('y, 'k, 'i) session_event \<Rightarrow> priority
    \<Rightarrow> ('w, 'h, 'y, 'k, 'i) session_task \<Rightarrow> ('w, 'h, 'y, 'k, 'i) session_task option" where
  "handle_session_event E cx event p s =
     (case event of
        SeProtocolMessage pid data \<Rightarrow>
          to_substream cx (\<lambda>_. if is_high p then push_high (PeMessage data) else push_normal (PeMessage data)) pid s
      | SeSessionClose _ \<Rightarrow>
          if sk_substreams s = [] then Some (close_session E s)
          else close_all_proto E cx (s\<lparr>sk_state := LocalClose\<rparr>)
      | SeProtocolOpen pid \<Rightarrow>
          if map_of (sk_protos s) pid \<noteq> None then Some s
          else (case map_of (sk_by_id s) pid of
                  None \<Rightarrow> Some s
                | Some m \<Rightarrow> open_proto_stream (pm_name m (pm_id m)) s)
      | SeProtocolClose pid \<Rightarrow> to_substream cx (\<lambda>i. push_high (PeClose i pid)) pid s
      | SeStreamStart stream \<Rightarrow> Some (handle_substream stream s)
      | SeChangeState i state error \<Rightarrow>
          if sk_state s = NormalState then
            (let s1 = s\<lparr>sk_state := state\<rparr> in
             case error of
               None \<Rightarrow> Some s1
             | Some err \<Rightarrow>
                 event_output E (SeMuxerError i err)
                   (if \<not> sk_keep s1 then s1\<lparr>sk_service := bf_clear (sk_service s1)\<rparr> else s1))
          else Some s
      | _ \<Rightarrow> Some s)"

definition recv_substreams :: "('w, 'h, 'y, 'k, 'i) ses_env \<Rightarrow> ('w, 'h, 'y, 'k, 'i) session_task
    \<Rightarrow> (('w, 'h, 'y, 'k, 'i) session_task \<times> unit option poll) option" where
  "recv_substreams E s =
     (case ev_recv E (sk_w s) of
        (w, Ready (Some event)) \<Rightarrow>
          if sk_state s \<noteq> LocalClose
          then map_option (\<lambda>s1. (s1, Ready (Some ()))) (handle_stream_event E event (s\<lparr>sk_w := w\<rparr>))
          else Some (s\<lparr>sk_w := w\<rparr>, Ready None)
      | (w, Ready None) \<Rightarrow> Some (s\<lparr>sk_w := w, sk_state := LocalClose\<rparr>, Ready None)
      | (w, Pending) \<Rightarrow> Some (s\<lparr>sk_w := w\<rparr>, Pending))"

definition recv_service :: "('w, 'h, 'y, 'k, 'i) ses_env \<Rightarrow> nat \<Rightarrow> ('w, 'h, 'y, 'k, 'i) session_task
    \<Rightarrow> (('w, 'h, 'y, 'k, 'i) session_task \<times> unit option poll) option" where
  "recv_service E cx s = do {
     (ch, r) \<leftarrow> chan_poll_next cx (sk_receiver s);
     let s1 = s\<lparr>sk_receiver := ch\<rparr>;
     case r of
       Ready (Some (p, event)) \<Rightarrow>
         if sk_state s1 \<noteq> NormalState then Some (s1, Ready None)
         else map_option (\<lambda>s2. (s2, Ready (Some ()))) (handle_session_event E cx event p s1)
     | Ready None \<Rightarrow> Some (sk_clean E (s1\<lparr>sk_state := LocalClose\<rparr>), Ready None)
     | Pending \<Rightarrow> Some (s1, Pending)
   }"

definition ses_flush :: "('w, 'h, 'y, 'k, 'i) ses_env \<Rightarrow> nat \<Rightarrow> ('w, 'h, 'y, 'k, 'i) session_task
    \<Rightarrow> ('w, 'h, 'y, 'k, 'i) session_task option" where
  "ses_flush E cx s = do {
     s1 \<leftarrow> ses_distribute E cx s;
     if \<not> bf_is_empty (sk_service s1) then sk_output E s1 else Some s1
   }"

text \<open>The end of \<open>poll_next\<close>: what the state asks for.\<close>

definition ses_finish :: "('w, 'h, 'y, 'k, 'i) ses_env \<Rightarrow> nat \<Rightarrow> bool \<Rightarrow> ('w, 'h, 'y, 'k, 'i) session_task
    \<Rightarrow> (('w, 'h, 'y, 'k, 'i) session_task \<times> unit option poll) option" where
  "ses_finish E cx is_pending s =
     (let more = (if is_pending then Pending else Ready (Some ())) in
      if sk_state s = LocalClose \<or> sk_state s = Abnormal
      then Some (wait_handle_poll E (close_session E (s\<lparr>sk_protos := []\<rparr>)))
      else if sk_state s = RemoteClose then
        (if sk_protos s = [] then Some (wait_handle_poll E (close_session E s))
         else map_option (\<lambda>s1. (s1, more)) (close_all_proto E cx s))
      else Some (s, more))"

definition ses_poll_next :: "('w, 'h, 'y, 'k, 'i) ses_env \<Rightarrow> nat \<Rightarrow> bool \<Rightarrow> ('w, 'h, 'y, 'k, 'i) session_task
    \<Rightarrow> (('w, 'h, 'y, 'k, 'i) session_task \<times> unit option poll) option" where
  "ses_poll_next E cx proceed s =
     (if sk_state s = LocalClose then Some (s, Ready None)
      else do {
        s1 \<leftarrow> ses_flush E cx s;
        if \<not> proceed then Some (s1, Pending)
        else do {
          (s2, r2) \<leftarrow> recv_substreams E s1;
          (s3, r3) \<leftarrow> recv_service E cx s2;
          ses_finish E cx (r2 = Pending \<and> r3 = Pending) s3
        }
      })"

section \<open>The muxer's task\<close>

text \<open>\<open>InnerSocket::poll_next\<close>: what the yamux session yields, and the event a task quickly sends to the session.\<close>

definition inner_socket_poll :: "usize \<Rightarrow> (io_error + 'y) option poll \<Rightarrow> ('y, 'k, 'i) session_event option \<times> unit option poll" where
  "inner_socket_poll i r =
     (case r of
        Ready (Some (Inr stream)) \<Rightarrow> (Some (SeStreamStart stream), Ready (Some ()))
      | Ready None \<Rightarrow> (Some (SeChangeState i RemoteClose None), Ready None)
      | Pending \<Rightarrow> (None, Pending)
      | Ready (Some (Inl err)) \<Rightarrow>
          (Some (if connection_gone err then SeChangeState i RemoteClose None else SeChangeState i Abnormal (Some err)), Ready None))"

section \<open>How a session develops\<close>

definition evolves :: "('w, 'h, 'y, 'k, 'i) session_task \<Rightarrow> ('w, 'h, 'y, 'k, 'i) session_task \<Rightarrow> bool" where
  "evolves s s1 \<longleftrightarrow> (sk_state s \<noteq> NormalState \<longrightarrow> sk_state s1 \<noteq> NormalState) \<and> (cx_closed (sk_ctx s) \<longrightarrow> cx_closed (sk_ctx s1))
     \<and> cx_id (sk_ctx s1) = cx_id (sk_ctx s) \<and> (\<exists>ts. sk_spawned s1 = sk_spawned s @ ts)"

lemma evolves_refl [simp]: "evolves s s"
  by (simp add: evolves_def)

lemma evolves_trans: "evolves s s1 \<Longrightarrow> evolves s1 s2 \<Longrightarrow> evolves s s2"
  by (auto simp: evolves_def)

lemma evolves_upd [simp]:
  "evolves s (s1\<lparr>sk_w := w\<rparr>) = evolves s s1" "evolves s (s1\<lparr>sk_service := b\<rparr>) = evolves s s1"
  "evolves s (s1\<lparr>sk_substreams := m\<rparr>) = evolves s s1" "evolves s (s1\<lparr>sk_protos := m'\<rparr>) = evolves s s1"
  "evolves s (s1\<lparr>sk_receiver := ch\<rparr>) = evolves s s1" "evolves s (s1\<lparr>sk_next := n\<rparr>) = evolves s s1" "evolves s (s1\<lparr>sk_wait := h\<rparr>) = evolves s s1"
  "evolves (s\<lparr>sk_w := w\<rparr>) s1 = evolves s s1" "evolves (s\<lparr>sk_service := b\<rparr>) s1 = evolves s s1"
  "evolves (s\<lparr>sk_substreams := m\<rparr>) s1 = evolves s s1" "evolves (s\<lparr>sk_protos := m'\<rparr>) s1 = evolves s s1"
  "evolves (s\<lparr>sk_receiver := ch\<rparr>) s1 = evolves s s1"
  by (simp_all add: evolves_def)

lemma evolves_state: "evolves s s1 \<Longrightarrow> st \<noteq> NormalState \<Longrightarrow> evolves s (s1\<lparr>sk_state := st\<rparr>)"
  by (simp add: evolves_def)

lemma evolves_state_before: "evolves (s\<lparr>sk_state := st\<rparr>) s1 \<Longrightarrow> st \<noteq> NormalState \<Longrightarrow> evolves s s1"
  by (simp add: evolves_def)

lemma evolves_spawn: "evolves s s1 \<Longrightarrow> evolves s (sk_spawn t s1)"
  by (auto simp: evolves_def sk_spawn_def)

lemma evolves_closed: "evolves s s1 \<Longrightarrow> evolves s (s1\<lparr>sk_ctx := (sk_ctx s1)\<lparr>cx_closed := True\<rparr>\<rparr>)"
  by (simp add: evolves_def)

lemma sk_output_evolves: "sk_output E s = Some s1 \<Longrightarrow> evolves s s1"
  by (auto simp: sk_output_def evolves_state split: if_splits)

lemma event_output_evolves: "event_output E e s = Some s1 \<Longrightarrow> evolves s s1"
  by (auto simp: event_output_def dest: sk_output_evolves)

lemma distribute_cases:
  assumes "ses_distribute E cx s = Some s1"
  obtains (sent) subs full where "ses_distribute_loop cx (sk_substreams s) = Some (subs, full)" "s1 = s\<lparr>sk_substreams := subs\<rparr>"
      "full \<noteq> None \<longrightarrow> cx_pending (sk_ctx s) \<le> sg_send_buffer (sk_config s)"
    | (killed) subs i where "ses_distribute_loop cx (sk_substreams s) = Some (subs, Some i)" "cx_pending (sk_ctx s) > sg_send_buffer (sk_config s)"
      "event_output E (SeChangeState (cx_id (sk_ctx s)) Abnormal None) (s\<lparr>sk_state := Abnormal, sk_substreams := clear_entry i subs\<rparr>) = Some s1"
proof -
  obtain subs full where l: "ses_distribute_loop cx (sk_substreams s) = Some (subs, full)"
    using assms by (auto simp: ses_distribute_def bind_eq_Some_conv)
  show ?thesis using assms l sent killed
    by (cases full) (auto simp: ses_distribute_def Let_def not_less split: if_splits)
qed

lemma distribute_evolves: "ses_distribute E cx s = Some s1 \<Longrightarrow> evolves s s1"
  by (erule distribute_cases) (auto dest!: event_output_evolves intro: evolves_state_before)

lemma clean_evolves: "evolves s s1 \<Longrightarrow> evolves s (sk_clean E s1)"
  by (auto simp: sk_clean_def intro!: evolves_spawn)

lemma close_session_evolves: "evolves s s1 \<Longrightarrow> evolves s (close_session E s1)"
  by (auto simp: close_session_def Let_def bf_take_def intro!: clean_evolves evolves_spawn evolves_closed)

lemma close_all_evolves: "close_all_proto E cx s = Some s1 \<Longrightarrow> evolves s s1"
  by (auto simp: close_all_proto_def bind_eq_Some_conv intro: close_session_evolves split: if_splits)
    (simp add: evolves_def)

lemma spawn_protocol_evolves: "evolves s s1 \<Longrightarrow> evolves s (spawn_protocol E m v h ch s1)"
  by (auto simp: spawn_protocol_def intro!: evolves_spawn split: prod.splits)

lemma open_protocol_evolves: "open_protocol E name v h s = Some s1 \<Longrightarrow> evolves s s1"
  by (auto simp: open_protocol_def bind_eq_Some_conv Let_def intro: evolves_state_before intro!: spawn_protocol_evolves
    dest!: event_output_evolves split: if_splits option.splits)

lemma stream_event_evolves: "handle_stream_event E e s = Some s1 \<Longrightarrow> evolves s s1"
  by (auto simp: handle_stream_event_def dest: open_protocol_evolves event_output_evolves intro!: evolves_state
    split: protocol_event.splits if_splits)

lemma to_substream_evolves: "to_substream cx put pid s = Some s1 \<Longrightarrow> evolves s s1"
  by (auto simp: to_substream_def split: option.splits)

lemma recv_substreams_evolves: "recv_substreams E s = Some (s1, r) \<Longrightarrow> evolves s s1"
  by (auto simp: recv_substreams_def intro!: evolves_state dest!: stream_event_evolves split: prod.splits poll.splits option.splits if_splits)

lemma flush_evolves: "ses_flush E cx s = Some s1 \<Longrightarrow> evolves s s1"
  by (auto simp: ses_flush_def bind_eq_Some_conv dest!: distribute_evolves sk_output_evolves intro: evolves_trans split: if_splits)

text \<open>Only a normal session handles the events of the service.\<close>

lemma recv_service_closing:
  assumes "recv_service E cx s = Some (s1, r)" "sk_state s \<noteq> NormalState"
  shows "evolves s s1 \<and> sk_state s1 \<noteq> NormalState"
proof -
  obtain ch q where c: "chan_poll_next cx (sk_receiver s) = Some (ch, q)"
    using assms(1) by (auto simp: recv_service_def bind_eq_Some_conv)
  show ?thesis using assms c
    by (auto simp: recv_service_def sk_clean_def Let_def intro!: evolves_spawn evolves_state split: poll.splits option.splits)
      (simp_all add: sk_spawn_def)
qed

lemma open_stream_evolves: "open_proto_stream name s = Some s1 \<Longrightarrow> evolves s s1"
  by (auto simp: open_proto_stream_def intro: evolves_spawn)

lemma session_event_evolves:
  assumes "handle_session_event E cx e p s = Some s1" "sk_state s = NormalState"
  shows "evolves s s1"
proof -
  have n: "evolves s s2" if "evolves (s\<lparr>sk_state := st\<rparr>) s2" for st s2
    using that assms(2) by (simp add: evolves_def)
  show ?thesis using assms
    by (cases e) (auto simp: handle_session_event_def handle_substream_def Let_def evolves_spawn n [OF evolves_refl] close_session_evolves
      intro: n dest!: to_substream_evolves open_stream_evolves close_all_evolves event_output_evolves
      split: if_splits option.splits)
qed

lemma recv_service_evolves:
  assumes "recv_service E cx s = Some (s1, r)"
  shows "evolves s s1"
proof (cases "sk_state s = NormalState")
  case True
  obtain ch q where c: "chan_poll_next cx (sk_receiver s) = Some (ch, q)"
    using assms by (auto simp: recv_service_def bind_eq_Some_conv)
  show ?thesis using assms c True
    by (auto simp: recv_service_def sk_clean_def Let_def intro!: evolves_spawn evolves_state dest!: session_event_evolves
      split: poll.splits option.splits)
qed (use assms recv_service_closing in blast)

definition reported :: "('w, 'h, 'y, 'k, 'i) session_task \<Rightarrow> ('w, 'h, 'y, 'k, 'i) session_task \<Rightarrow> bool" where
  "reported s s1 \<longleftrightarrow> (\<exists>ts es. sk_spawned s1 = sk_spawned s @ ts \<and> CloseTask (es @ [SeSessionClose (cx_id (sk_ctx s))]) \<in> set ts)
     \<and> sk_substreams s1 = [] \<and> cx_closed (sk_ctx s1)"

lemma close_session_reported: "evolves s s1 \<Longrightarrow> reported s (close_session E s1)"
  by (auto simp: reported_def evolves_def close_session_def sk_clean_def sk_spawn_def bf_take_def Let_def)

lemma wait_handle_reported: "reported s s1 \<Longrightarrow> reported s (fst (wait_handle_poll E s1))"
  by (auto simp: reported_def wait_handle_poll_def Let_def split: prod.splits)

text \<open>The end of a poll that closes: reported, or the protocols are told to close and the session is marked closed.\<close>

lemma finish_closing:
  assumes "ses_finish E cx pending s = Some (s1, r)" "sk_state s \<noteq> NormalState" "evolves s0 s"
  shows "reported s0 s1 \<or> (r \<noteq> Ready None \<and> \<not> cx_closed (sk_ctx s) \<and> cx_closed (sk_ctx s1) \<and> sk_state s1 = RemoteClose \<and> evolves s0 s1)"
proof (cases "sk_state s = RemoteClose \<and> sk_protos s \<noteq> []")
  case False
  then have "s1 = fst (wait_handle_poll E (close_session E (s\<lparr>sk_protos := []\<rparr>))) \<or> s1 = fst (wait_handle_poll E (close_session E s))"
    using assms by (cases "sk_state s") (auto simp: ses_finish_def Let_def dest: arg_cong [where f = fst])
  then obtain s2 where "evolves s0 s2" "s1 = fst (wait_handle_poll E (close_session E s2))"
    using assms(3) by (metis evolves_upd(4))
  then show ?thesis using close_session_reported wait_handle_reported by blast
next
  case True
  then have c: "close_all_proto E cx s = Some s1" "r \<noteq> Ready None"
    using assms(1) by (auto simp: ses_finish_def Let_def split: if_splits)
  show ?thesis
  proof (cases "cx_closed (sk_ctx s)")
    case closed: True
    then have "s1 = close_session E s" using c by (simp add: close_all_proto_def)
    then show ?thesis using close_session_reported [OF assms(3)] by blast
  next
    case False
    then have "sk_state s1 = RemoteClose" "cx_closed (sk_ctx s1)"
      using c True by (auto simp: close_all_proto_def bind_eq_Some_conv)
    then show ?thesis using False c close_all_evolves [OF c(1)] assms(3) by (blast intro: evolves_trans)
  qed
qed

lemma poll_closing:
  assumes "ses_poll_next E cx True s = Some (s1, r)" "sk_state s = RemoteClose \<or> sk_state s = Abnormal" "evolves s0 s"
  shows "reported s0 s1 \<or> (r \<noteq> Ready None \<and> \<not> cx_closed (sk_ctx s) \<and> cx_closed (sk_ctx s1) \<and> sk_state s1 = RemoteClose \<and> evolves s0 s1)"
proof -
  obtain s2 s3 s4 q2 q3 where p: "ses_flush E cx s = Some s2" "recv_substreams E s2 = Some (s3, q2)"
      "recv_service E cx s3 = Some (s4, q3)" "ses_finish E cx (q2 = Pending \<and> q3 = Pending) s4 = Some (s1, r)"
    using assms(1,2) by (auto simp: ses_poll_next_def bind_eq_Some_conv)
  have e: "evolves s s3" using flush_evolves [OF p(1)] recv_substreams_evolves [OF p(2)] by (rule evolves_trans)
  then have n: "sk_state s3 \<noteq> NormalState" using assms(2) by (auto simp: evolves_def)
  note c = recv_service_closing [OF p(3) n]
  then have e4: "evolves s s4" using e by (blast intro: evolves_trans)
  then have "evolves s0 s4" using assms(3) by (blast intro: evolves_trans)
  from finish_closing [OF p(4) _ this] c e4 show ?thesis by (auto simp: evolves_def)
qed


text \<open>
  A session never ends silently: a poll that ends the stream of a session that is not already closed locally
  has sent \<open>SessionClose\<close> to the service.
\<close>

theorem session_end_reported:
  assumes "ses_poll_next E cx proceed s = Some (s1, Ready None)" "sk_state s \<noteq> LocalClose"
  shows "reported s s1"
proof -
  obtain s2 s3 s4 q2 q3 where p: "ses_flush E cx s = Some s2" "recv_substreams E s2 = Some (s3, q2)"
      "recv_service E cx s3 = Some (s4, q3)" "ses_finish E cx (q2 = Pending \<and> q3 = Pending) s4 = Some (s1, Ready None)"
    using assms by (auto simp: ses_poll_next_def bind_eq_Some_conv split: if_splits)
  have "evolves s s4"
    using flush_evolves [OF p(1)] recv_substreams_evolves [OF p(2)] recv_service_evolves [OF p(3)] by (blast intro: evolves_trans)
  moreover have "sk_state s4 \<noteq> NormalState" using p(4) by (auto simp: ses_finish_def Let_def split: if_splits)
  ultimately show ?thesis using finish_closing [OF p(4)] by blast
qed

text \<open>Asked to close by the service, a session reports its end in the same poll.\<close>

lemma local_close_reported:
  assumes "handle_session_event E cx (SeSessionClose j) p s = Some s1" "sk_state s = NormalState" "ses_finish E cx is_pending s1 = Some (s2, r)"
  shows "reported s s2"
proof (cases "sk_substreams s = []")
  case True
  then have s1: "s1 = close_session E s" using assms(1) by (simp add: handle_session_event_def)
  then have "sk_state s1 = NormalState" using assms(2) by (simp add: close_session_def sk_clean_def sk_spawn_def bf_take_def Let_def)
  then show ?thesis using assms(3) s1 close_session_reported [of s s E] by (simp add: ses_finish_def Let_def)
next
  case False
  then have c: "close_all_proto E cx (s\<lparr>sk_state := LocalClose\<rparr>) = Some s1" using assms(1) by (simp add: handle_session_event_def)
  have "evolves s s1" using close_all_evolves [OF c] assms(2) by (simp add: evolves_def)
  moreover have "sk_state s1 = LocalClose" "cx_closed (sk_ctx s1)"
    using c by (auto simp: close_all_proto_def close_session_def sk_clean_def sk_spawn_def bf_take_def Let_def bind_eq_Some_conv split: if_splits)
  ultimately show ?thesis using finish_closing [OF assms(3), of s] by simp
qed

section \<open>Routing\<close>

text \<open>What a substream will see of one priority: what is in its channel, then what is buffered for it.\<close>

definition stream_queue :: "priority \<Rightarrow> 'h sub_entry \<Rightarrow> 'h protocol_event list" where
  "stream_queue p e = (case p of High \<Rightarrow> ch_quick (snd e) @ pb_high (fst e) | Normal \<Rightarrow> ch_messages (snd e) @ pb_normal (fst e))"

lemma try_send_queue:
  assumes "pb_try_send cx b ch = Some (ch1, b1, r)" "r \<noteq> SendDisconnect"
  shows "stream_queue p (b1, ch1) = stream_queue p (b, ch)"
  using priority_buffer_in_order [OF assms(1)] assms(2)
  by (cases r; cases p) (auto simp: stream_queue_def pb_is_empty_def)

lemma map_of_replace:
  "map_of (map (\<lambda>(j, e). (j, if j = i then x else e)) m) k = (if k = i then map_option (\<lambda>_. x) (map_of m k) else map_of m k)"
  by (induction m) auto

lemma message_routing:
  assumes "handle_session_event E cx (SeProtocolMessage pid data) p s = Some s1"
  shows "case Option.bind (map_of (sk_protos s) pid) (map_of (sk_substreams s)) of
     None \<Rightarrow> s1 = s
   | Some e \<Rightarrow> \<exists>e1. map_of (sk_substreams s1) (the (map_of (sk_protos s) pid)) = Some e1
       \<and> (sender_is_closed (pb_sender (fst e)) (snd e)
          \<or> stream_queue p e1 = stream_queue p e @ [PeMessage data] \<and> (\<forall>q. q \<noteq> p \<longrightarrow> stream_queue q e1 = stream_queue q e))
       \<and> (\<forall>j. j \<noteq> the (map_of (sk_protos s) pid) \<longrightarrow> map_of (sk_substreams s1) j = map_of (sk_substreams s) j)
       \<and> s1 = s\<lparr>sk_substreams := sk_substreams s1\<rparr>"
proof (cases "Option.bind (map_of (sk_protos s) pid) (map_of (sk_substreams s))")
  case None
  then show ?thesis using assms
    by (auto simp: handle_session_event_def to_substream_def bind_eq_None_conv split: option.splits)
next
  case (Some e)
  then obtain i where i: "map_of (sk_protos s) pid = Some i" "map_of (sk_substreams s) i = Some e" by (auto simp: bind_eq_Some_conv)
  obtain b ch where e: "e = (b, ch)" by (cases e)
  let ?put = "if is_high p then push_high (PeMessage data) b else push_normal (PeMessage data) b"
  obtain ch1 b1 r where t: "pb_try_send cx ?put ch = Some (ch1, b1, r)"
      "s1 = s\<lparr>sk_substreams := map (\<lambda>(j, e). (j, if j = i then (b1, ch1) else e)) (sk_substreams s)\<rparr>"
    using assms i e by (auto simp: handle_session_event_def to_substream_def split: if_splits)
  have q: "sender_is_closed (pb_sender b) ch \<or> stream_queue p (b1, ch1) = stream_queue p e @ [PeMessage data]
      \<and> (\<forall>q. q \<noteq> p \<longrightarrow> stream_queue q (b1, ch1) = stream_queue q e)"
  proof (cases "r = SendDisconnect")
    case True
    then show ?thesis using pb_try_send_disconnect [OF t(1) [unfolded True]]
      by (simp add: push_high_def push_normal_def split: if_splits)
  next
    case False
    then show ?thesis using try_send_queue [OF t(1), of High] try_send_queue [OF t(1), of Normal] e
      by (cases p) (auto simp: stream_queue_def push_high_def push_normal_def split: priority.splits)
  qed
  show ?thesis using i e t q by (auto simp: map_of_replace)
qed

text \<open>
  A message of the service reaches the substream of its protocol and no other: it is appended to what that
  substream has still to be sent in the priority the service chose, unless the substream's channel is closed; the
  other substreams and the rest of the session are untouched. For a protocol that is not open it is dropped.
\<close>

theorem session_routes_message:
  assumes "handle_session_event E cx (SeProtocolMessage pid data) p s = Some s1"
  shows "case Option.bind (map_of (sk_protos s) pid) (map_of (sk_substreams s)) of
     None \<Rightarrow> s1 = s
   | Some e \<Rightarrow> \<exists>e1. map_of (sk_substreams s1) (the (map_of (sk_protos s) pid)) = Some e1
       \<and> (sender_is_closed (pb_sender (fst e)) (snd e)
          \<or> stream_queue p e1 = stream_queue p e @ [PeMessage data] \<and> (\<forall>q. q \<noteq> p \<longrightarrow> stream_queue q e1 = stream_queue q e))
       \<and> (\<forall>j. j \<noteq> the (map_of (sk_protos s) pid) \<longrightarrow> map_of (sk_substreams s1) j = map_of (sk_substreams s) j)
       \<and> s1 = s\<lparr>sk_substreams := sk_substreams s1\<rparr>"
  by (rule message_routing [OF assms])

section \<open>Protocols and their substreams\<close>

definition ses_ok :: "('w, 'h, 'y, 'k, 'i) session_task \<Rightarrow> bool" where
  "ses_ok s \<longleftrightarrow> distinct (map fst (sk_substreams s)) \<and> distinct (map fst (sk_protos s)) \<and> distinct (map snd (sk_protos s))
     \<and> set (map fst (sk_substreams s)) \<subseteq> set (map snd (sk_protos s))
     \<and> (sk_state s = NormalState \<longrightarrow> set (map snd (sk_protos s)) \<subseteq> set (map fst (sk_substreams s)))
     \<and> (\<forall>i \<in> set (map snd (sk_protos s)). unat i < unat (sk_next s))"

definition same_shape :: "('w, 'h, 'y, 'k, 'i) session_task \<Rightarrow> ('w, 'h, 'y, 'k, 'i) session_task \<Rightarrow> bool" where
  "same_shape s s1 \<longleftrightarrow> map fst (sk_substreams s1) = map fst (sk_substreams s) \<and> sk_protos s1 = sk_protos s \<and> sk_next s1 = sk_next s
     \<and> (sk_state s1 = NormalState \<longrightarrow> sk_state s = NormalState)"

lemma same_shape_ok: "same_shape s s1 \<Longrightarrow> ses_ok s \<Longrightarrow> ses_ok s1"
  by (simp add: same_shape_def ses_ok_def)

lemma same_shape_refl [simp]: "same_shape s s"
  by (simp add: same_shape_def)

lemma same_shape_trans: "same_shape s s1 \<Longrightarrow> same_shape s1 s2 \<Longrightarrow> same_shape s s2"
  by (simp add: same_shape_def)

lemma sk_output_shape: "sk_output E s = Some s1 \<Longrightarrow> same_shape s s1"
  by (auto simp: sk_output_def same_shape_def split: if_splits)

lemma event_output_shape: "event_output E e s = Some s1 \<Longrightarrow> same_shape s s1"
  by (auto simp: event_output_def same_shape_def dest!: sk_output_shape)

lemma distribute_loop_keys: "ses_distribute_loop cx m = Some (m1, full) \<Longrightarrow> map fst m1 = map fst m"
  by (induction m arbitrary: m1 rule: ses_distribute_loop.induct)
    (auto split: if_splits option.splits prod.splits send_result.splits)

lemma distribute_shape: "ses_distribute E cx s = Some s1 \<Longrightarrow> same_shape s s1"
  by (erule distribute_cases)
    (auto simp: same_shape_def clear_entry_def case_prod_unfold comp_def dest!: event_output_shape distribute_loop_keys)

lemma ses_flush_shape: "ses_flush E cx s = Some s1 \<Longrightarrow> same_shape s s1"
  by (auto simp: ses_flush_def bind_eq_Some_conv dest!: distribute_shape sk_output_shape intro: same_shape_trans split: if_splits)

lemma to_substream_shape: "to_substream cx put pid s = Some s1 \<Longrightarrow> same_shape s s1"
  by (auto simp: to_substream_def same_shape_def comp_def case_prod_unfold split: option.splits)

lemma close_each_keys: "close_each cx m = Some m1 \<Longrightarrow> map fst m1 = map fst m"
  by (induction m arbitrary: m1 rule: close_each.induct) (auto simp: bind_eq_Some_conv)

lemma remove_key_fst [simp]: "map fst (remove_key k m) = filter (\<lambda>j. j \<noteq> k) (map fst m)"
  by (induction m) (auto simp: remove_key_def)

lemma insert_key_fresh: "k \<notin> set (map fst m) \<Longrightarrow> insert_key k v m = m @ [(k, v)]"
  by (induction m) (auto simp: insert_key_def remove_key_def)

lemma open_protocol_ok:
  assumes "ses_ok s" "open_protocol E name version h s = Some s1" "unat (sk_next s) + 1 < 2 ^ 64"
  shows "ses_ok s1"
proof (cases "map_of (sk_by_name s) name")
  case None
  then have "event_output E (SeProtocolSelectError (cx_id (sk_ctx s)) None) (s\<lparr>sk_state := Abnormal\<rparr>) = Some s1"
    using assms(2) by (simp add: open_protocol_def)
  from event_output_shape [OF this] have "same_shape s s1" by (auto simp: same_shape_def)
  then show ?thesis using assms(1) by (rule same_shape_ok)
next
  case (Some m)
  show ?thesis
  proof (cases "map_of (sk_protos s) (pm_id m)")
    case free: None
    have nx: "unat (sk_next s + 1) = unat (sk_next s) + 1"
      using assms(3) by (simp add: unat_word_ariths)
    have fresh: "sk_next s \<notin> set (map snd (sk_protos s))"
      using assms(1) unfolding ses_ok_def by blast
    then have fresh': "sk_next s \<notin> set (map fst (sk_substreams s))"
      using assms(1) unfolding ses_ok_def by blast
    have pid: "pm_id m \<notin> set (map fst (sk_protos s))" using free by (simp add: map_of_eq_None_iff)
    obtain e where s1: "sk_substreams s1 = sk_substreams s @ [(sk_next s, e)]" "sk_protos s1 = sk_protos s @ [(pm_id m, sk_next s)]"
        "sk_next s1 = sk_next s + 1" "sk_state s1 = sk_state s"
      using assms(2) Some free insert_key_fresh [OF fresh'] insert_key_fresh [OF pid]
      by (auto simp: open_protocol_def bind_eq_Some_conv Let_def spawn_protocol_def sk_spawn_def split: prod.splits if_splits)
    have "\<forall>i \<in> set (map snd (sk_protos s)). unat i < unat (sk_next s) + 1" using assms(1) by (auto simp: ses_ok_def)
    then show ?thesis using assms(1) fresh fresh' pid s1 nx unfolding ses_ok_def by auto
  qed (use assms Some in \<open>simp add: open_protocol_def\<close>)
qed

lemma close_protocol_ok:
  assumes "ses_ok s" "map_of (sk_protos s) pid = Some i" "map_of (sk_substreams s) i \<noteq> None"
  shows "ses_ok (s\<lparr>sk_substreams := remove_key i (sk_substreams s), sk_protos := remove_key pid (sk_protos s)\<rparr>)"
proof -
  have d: "distinct (map snd (remove_key pid (sk_protos s)))"
    using assms(1) by (auto simp: ses_ok_def remove_key_def distinct_map inj_on_def)
  have mem: "(pid, i) \<in> set (sk_protos s)" using assms(2) by (rule map_of_SomeD)
  have inj: "inj_on fst (set (sk_protos s))" "inj_on snd (set (sk_protos s))" using assms(1) by (simp_all add: ses_ok_def distinct_map)
  have eq: "fst x \<noteq> pid \<longleftrightarrow> snd x \<noteq> i" if "x \<in> set (sk_protos s)" for x
    using inj_onD [OF inj(1) _ that mem] inj_onD [OF inj(2) _ that mem] by (metis fst_conv snd_conv)
  have "set (remove_key pid (sk_protos s)) = {x \<in> set (sk_protos s). snd x \<noteq> i}"
    using eq unfolding remove_key_def by (auto simp: case_prod_unfold)
  then have "set (map snd (remove_key pid (sk_protos s))) = set (map snd (sk_protos s)) - {i}" by auto
  then show ?thesis using assms(1) d by (auto simp: ses_ok_def)
qed

text \<open>A substream that reports its end names the protocol it was opened for.\<close>

definition truthful :: "('w, 'h, 'y, 'k, 'i) ses_env \<Rightarrow> ('w, 'h, 'y, 'k, 'i) session_task \<Rightarrow> bool" where
  "truthful E s \<longleftrightarrow> (\<forall>w w1 i pid. ev_recv E w = (w1, Ready (Some (PeClose i pid))) \<longrightarrow> i \<in> set (map fst (sk_substreams s))
     \<longrightarrow> map_of (sk_protos s) pid = Some i)"

lemma spawn_ok [simp]: "ses_ok (sk_spawn t s) = ses_ok s"
  by (simp add: sk_spawn_def ses_ok_def)

lemma clean_ok: "ses_ok s \<Longrightarrow> sk_state s \<noteq> NormalState \<or> sk_substreams s = [] \<Longrightarrow> ses_ok (sk_clean E s)"
  by (auto simp: sk_clean_def sk_spawn_def ses_ok_def)

lemma close_session_ok:
  assumes "ses_ok s" "sk_state s \<noteq> NormalState \<or> sk_substreams s = []"
  shows "ses_ok (close_session E s)"
proof -
  have "ses_ok (sk_spawn t (s\<lparr>sk_ctx := cx, sk_service := b\<rparr>))" for t cx b
    using assms(1) by (simp add: ses_ok_def sk_spawn_def)
  then show ?thesis using assms(2)
    by (auto simp: close_session_def Let_def bf_take_def intro!: clean_ok) (simp_all add: sk_spawn_def)
qed

lemma close_all_ok:
  assumes "ses_ok s" "sk_state s \<noteq> NormalState" "close_all_proto E cx s = Some s1"
  shows "ses_ok s1"
proof (cases "cx_closed (sk_ctx s)")
  case False
  then have "same_shape s s1" using assms(3)
    by (auto simp: close_all_proto_def bind_eq_Some_conv same_shape_def dest: close_each_keys)
  then show ?thesis using assms(1) by (rule same_shape_ok)
qed (use assms in \<open>auto simp: close_all_proto_def close_session_ok\<close>)

lemma stream_event_ok:
  assumes "ses_ok s" "handle_stream_event E ev s = Some s1" "unat (sk_next s) + 1 < 2 ^ 64"
    and "\<And>i pid. ev = PeClose i pid \<Longrightarrow> i \<in> set (map fst (sk_substreams s)) \<Longrightarrow> map_of (sk_protos s) pid = Some i"
  shows "ses_ok s1"
proof (cases ev)
  case (PeClose i pid)
  then show ?thesis using assms(1,2) assms(4) [OF PeClose] close_protocol_ok [of s pid i]
    by (auto simp: handle_stream_event_def map_of_eq_None_iff split: if_splits)
next
  case PeTimeoutCheck
  then show ?thesis using assms(1,2)
    by (auto simp: handle_stream_event_def split: if_splits dest!: event_output_shape) (auto simp: same_shape_def ses_ok_def)
qed (use assms in \<open>auto simp: handle_stream_event_def dest: open_protocol_ok same_shape_ok [OF event_output_shape]\<close>)

lemma session_event_ok:
  assumes "ses_ok s" "handle_session_event E cx ev p s = Some s1"
  shows "ses_ok s1"
proof (cases ev)
  case (SeSessionClose i)
  have "ses_ok (s\<lparr>sk_state := LocalClose\<rparr>)" using assms(1) by (simp add: ses_ok_def)
  then show ?thesis using assms SeSessionClose close_all_ok [of "s\<lparr>sk_state := LocalClose\<rparr>" E cx s1] close_session_ok [of s E]
    by (auto simp: handle_session_event_def split: if_splits)
next
  case (SeChangeState i st err)
  have "same_shape (s\<lparr>sk_state := st\<rparr>) s1 \<or> s1 = s" if "sk_state s = NormalState"
    using assms(2) SeChangeState that
    by (auto simp: handle_session_event_def Let_def split: option.splits if_splits dest!: event_output_shape)
      (auto simp: same_shape_def)
  moreover have "ses_ok (s\<lparr>sk_state := st\<rparr>)" if "sk_state s = NormalState" using assms(1) that by (simp add: ses_ok_def)
  ultimately show ?thesis using assms SeChangeState
    by (cases "sk_state s = NormalState") (auto dest: same_shape_ok simp: handle_session_event_def)
next
  case (SeProtocolOpen pid)
  then show ?thesis using assms
    by (auto simp: handle_session_event_def open_proto_stream_def split: if_splits option.splits)
next
  case (SeStreamStart y)
  then show ?thesis using assms by (auto simp: handle_session_event_def handle_substream_def Let_def)
qed (use assms in \<open>auto simp: handle_session_event_def dest: same_shape_ok [OF to_substream_shape]\<close>)


section \<open>A session with one protocol\<close>

record ses_world =
  sw_events :: "unit protocol_event list"
  sw_closed :: bool
  sw_cap :: nat
  sw_queue :: "(unit, unit, unit) session_event list"

definition world_env :: "(ses_world, unit, unit, unit, unit) ses_env" where
  "world_env =
     \<lparr>ev_recv = (\<lambda>w. case sw_events w of
          [] \<Rightarrow> (w, if sw_closed w then Ready None else Pending) | e # es \<Rightarrow> (w\<lparr>sw_events := es\<rparr>, Ready (Some e))),
      ev_recv_close = (\<lambda>w. w\<lparr>sw_closed := True\<rparr>),
      ev_service = \<lparr>tx_ready = (\<lambda>w. (w, if length (sw_queue w) < sw_cap w then Ready (Ok ()) else Pending)),
        tx_send = (\<lambda>m w. if length (sw_queue w) < sw_cap w then Some (w\<lparr>sw_queue := sw_queue w @ [m]\<rparr>, Ok ())
                         else Some (w, Err \<lparr>te_err = Full, te_val = m\<rparr>))\<rparr>,
      ev_signal = (\<lambda>_ w. w),
      ev_join = (\<lambda>_ w. (w, Ready ())),
      ev_split = (\<lambda>h. (h, h))\<rparr>"

definition sample_meta :: "unit proto_meta" where
  "sample_meta = \<lparr>pm_id = 1, pm_name = (\<lambda>_. [112]), pm_versions = [[49]], pm_select = None, pm_before = None,
     pm_reframe = (\<lambda>h. h), pm_spawn = False\<rparr>"

definition sample_ses :: "unit protocol_event list \<Rightarrow> (ses_world, unit, unit, unit, unit) session_task" where
  "sample_ses es =
     ses_new \<lparr>sw_events = es, sw_closed = False, sw_cap = 4, sw_queue = []\<rparr> (the (channel 8))
       ((session_meta_new (ses_ctx_new 5 \<lparr>ma_bytes = []\<rparr> Inbound None))\<lparr>me_by_name := [([112], sample_meta)], me_by_id := [(1, sample_meta)]\<rparr>)"

definition sample_ses_open :: "(ses_world, unit, unit, unit, unit) session_task" where
  "sample_ses_open = (sample_ses [])\<lparr>sk_substreams := [(0, pb_new (Some 0), the (channel 8))], sk_protos := [(1, 0)], sk_next := 1\<rparr>"

lemma sample_opens:
  "case ses_poll_next world_env 0 True (sample_ses [PeOpen [112] () [49]]) of
     None \<Rightarrow> False | Some (s1, r) \<Rightarrow> sk_protos s1 = [(1, 0)] \<and> map fst (sk_substreams s1) = [0] \<and> r = Ready (Some ())"
  by code_simp


lemma sample_message:
  "case handle_session_event world_env 0 (SeProtocolMessage 1 [9]) Normal sample_ses_open of
     None \<Rightarrow> False | Some s1 \<Rightarrow> map fst (sk_substreams s1) = [0]"
  by code_simp

theorem session_routes_message_witness:
  "\<exists>s1 e1. handle_session_event world_env 0 (SeProtocolMessage 1 [9]) Normal sample_ses_open = Some s1
     \<and> map_of (sk_substreams s1) 0 = Some e1 \<and> stream_queue Normal e1 = [PeMessage [9]]"
proof -
  obtain s1 where s1: "handle_session_event world_env 0 (SeProtocolMessage 1 [9]) Normal sample_ses_open = Some s1"
    using sample_message by (auto split: option.splits)
  have "\<not> sender_is_closed (pb_sender (pb_new (Some 0))) (the (channel 8) :: unit protocol_event chan)"
    "stream_queue Normal (pb_new (Some 0), the (channel 8) :: unit protocol_event chan) = []"
    by code_simp+
  with session_routes_message [OF s1] s1 show ?thesis by (auto simp: sample_ses_open_def)
qed

lemma sample_closes:
  "case ses_poll_next world_env 0 True (sample_ses_open\<lparr>sk_state := RemoteClose\<rparr>) of
     None \<Rightarrow> False
   | Some (s1, r) \<Rightarrow> (case ses_poll_next world_env 0 True s1 of None \<Rightarrow> False | Some (s2, r2) \<Rightarrow> True)"
  by code_simp


lemma sample_fails:
  "case ses_poll_next world_env 0 True (sample_ses_open\<lparr>sk_state := Abnormal\<rparr>) of None \<Rightarrow> False | Some (s1, r) \<Rightarrow> r = Ready None"
  by code_simp

theorem session_end_reported_witness:
  "\<exists>s1. ses_poll_next world_env 0 True (sample_ses_open\<lparr>sk_state := Abnormal\<rparr>) = Some (s1, Ready None)
     \<and> reported (sample_ses_open\<lparr>sk_state := Abnormal\<rparr>) s1"
proof -
  obtain s1 where "ses_poll_next world_env 0 True (sample_ses_open\<lparr>sk_state := Abnormal\<rparr>) = Some (s1, Ready None)"
    using sample_fails by (auto split: option.splits)
  with session_end_reported [OF this] show ?thesis by auto
qed

text \<open>
  A session asked to close while no protocol is open reports its end at once and again at the next poll, which finds the
  receiver closed.
\<close>

lemma closes_twice:
  "case handle_session_event world_env 0 (SeSessionClose 5) Normal (sample_ses []) of
     None \<Rightarrow> False
   | Some s1 \<Rightarrow>
       (case ses_poll_next world_env 0 True s1 of
          None \<Rightarrow> False
        | Some (s2, r) \<Rightarrow> r = Ready None \<and> length (filter (\<lambda>t. case t of CloseTask _ \<Rightarrow> True | _ \<Rightarrow> False) (sk_spawned s2)) = 2)"
  by code_simp

end
