(* ===== verification/Service_Events.thy ===== *)
theory Service_Events
  imports Session_Task
begin

text \<open>
  What the service exchanges with the user and its tasks: errors, events and tasks (\<open>error.rs\<close>,
  \<open>service/event.rs\<close>), targets and the state of the service (\<open>service/config.rs\<close>), the handle to send tasks
  (\<open>service/control.rs\<close>), listeners and handshakes (\<open>service/helper.rs\<close>) and the manager of background
  tasks (\<open>service/future_task.rs\<close>).
\<close>

section \<open>Errors and events\<close>

datatype dialer_error =
    DeIo io_error
  | DePeerIdNotMatch
  | DeRepeatedConnection usize
  | DeHandshake handshake_error
  | DeTransport transport_error

datatype listen_error = LeIo io_error | LeRepeatedConnection usize | LeTransport transport_error

datatype service_error =
    VeDialer multiaddr dialer_error
  | VeListen multiaddr listen_error
  | VeProtocolSelect "str option" ses_ctx
  | VeProtocol usize usize io_error
  | VeSessionTimeout ses_ctx
  | VeMuxer ses_ctx io_error
  | VeProtocolHandle usize protocol_handle_error
  | VeSessionBlocked ses_ctx

datatype service_event = VvSessionClose ses_ctx | VvSessionOpen ses_ctx | VvListenClose multiaddr | VvListenStarted multiaddr

datatype service_output = OutEvent service_event | OutError service_error | OutUpdate "multiaddr list"

section \<open>Targets\<close>

datatype target_protocol = TpAll | TpSingle usize | TpFilter "usize \<Rightarrow> bool"

text \<open>The filter is an \<open>FnMut\<close>: it is given the sessions it was asked for before.\<close>

datatype target_session = TsAll | TsSingle usize | TsMulti "usize list" | TsFilter "usize list \<Rightarrow> usize \<Rightarrow> bool"

section \<open>The state of the service\<close>

datatype service_state = Running usize | Forever | PreShutdown

definition state_new :: "bool \<Rightarrow> service_state" where
  "state_new forever = (if forever then Forever else Running 0)"

fun is_shutdown :: "service_state \<Rightarrow> bool" where
  "is_shutdown (Running num) = (num = 0)"
| "is_shutdown PreShutdown = True"
| "is_shutdown Forever = False"

definition pre_shutdown :: "service_state \<Rightarrow> service_state" where
  "pre_shutdown _ = PreShutdown"

fun increase :: "service_state \<Rightarrow> service_state" where
  "increase (Running num) = Running (num + 1)"
| "increase st = st"

fun decrease :: "service_state \<Rightarrow> service_state" where
  "decrease (Running num) = Running (num - 1)"
| "decrease st = st"

fun state_into_inner :: "service_state \<Rightarrow> usize option" where
  "state_into_inner (Running num) = Some num"
| "state_into_inner _ = None"

section \<open>Tasks\<close>

text \<open>\<open>'t\<close> is a future of the user.\<close>

datatype 't service_task =
    TkProtocolMessage target_session usize "byte list"
  | TkProtocolOpen usize target_protocol
  | TkProtocolClose usize usize
  | TkSetProtocolNotify usize nat u64
  | TkRemoveProtocolNotify usize u64
  | TkSetProtocolSessionNotify usize usize nat u64
  | TkRemoveProtocolSessionNotify usize usize u64
  | TkFutureTask 't
  | TkDisconnect usize
  | TkDial multiaddr target_protocol
  | TkListen multiaddr
  | TkShutdown bool

text \<open>The methods of \<open>ServiceControl\<close> and \<open>ServiceAsyncControl\<close>: the task each sends, and on which channel.\<close>

datatype 't control_call =
    CallListen multiaddr
  | CallDial multiaddr target_protocol
  | CallDisconnect usize
  | CallSendMessageTo usize usize "byte list"
  | CallQuickSendMessageTo usize usize "byte list"
  | CallFilterBroadcast target_session usize "byte list"
  | CallQuickFilterBroadcast target_session usize "byte list"
  | CallFutureTask 't
  | CallOpenProtocol usize usize
  | CallOpenProtocols usize target_protocol
  | CallCloseProtocol usize usize
  | CallSetServiceNotify usize nat u64
  | CallRemoveServiceNotify usize u64
  | CallSetSessionNotify usize usize nat u64
  | CallRemoveSessionNotify usize usize u64
  | CallClose
  | CallShutdown

fun control_task :: "'t control_call \<Rightarrow> priority \<times> 't service_task" where
  "control_task (CallListen address) = (High, TkListen address)"
| "control_task (CallDial address target) = (High, TkDial address target)"
| "control_task (CallDisconnect i) = (High, TkDisconnect i)"
| "control_task (CallSendMessageTo i pid data) = (Normal, TkProtocolMessage (TsSingle i) pid data)"
| "control_task (CallQuickSendMessageTo i pid data) = (High, TkProtocolMessage (TsSingle i) pid data)"
| "control_task (CallFilterBroadcast target pid data) = (Normal, TkProtocolMessage target pid data)"
| "control_task (CallQuickFilterBroadcast target pid data) = (High, TkProtocolMessage target pid data)"
| "control_task (CallFutureTask task) = (Normal, TkFutureTask task)"
| "control_task (CallOpenProtocol i pid) = (High, TkProtocolOpen i (TpSingle pid))"
| "control_task (CallOpenProtocols i target) = (High, TkProtocolOpen i target)"
| "control_task (CallCloseProtocol i pid) = (High, TkProtocolClose i pid)"
| "control_task (CallSetServiceNotify pid interval token) = (Normal, TkSetProtocolNotify pid interval token)"
| "control_task (CallRemoveServiceNotify pid token) = (Normal, TkRemoveProtocolNotify pid token)"
| "control_task (CallSetSessionNotify i pid interval token) = (Normal, TkSetProtocolSessionNotify i pid interval token)"
| "control_task (CallRemoveSessionNotify i pid token) = (Normal, TkRemoveProtocolSessionNotify i pid token)"
| "control_task CallClose = (High, TkShutdown False)"
| "control_task CallShutdown = (High, TkShutdown True)"

datatype send_error_kind = SkBrokenPipe | SkWouldBlock

text \<open>\<open>ServiceControl::send\<close> and \<open>quick_send\<close> on the channel to the service; \<open>closed\<close> is the shutdown flag as read.\<close>

definition control_send :: "bool \<Rightarrow> sender \<Rightarrow> priority \<Rightarrow> 'm \<Rightarrow> 'm chan \<Rightarrow> ('m chan \<times> (send_error_kind + unit)) option" where
  "control_send closed tx p event ch =
     (if closed then Some (ch, Err SkBrokenPipe)
      else map_option (apsnd (map_err (\<lambda>e. if is_full e then SkWouldBlock else SkBrokenPipe)))
        (case p of High \<Rightarrow> try_quick_send tx event ch | Normal \<Rightarrow> try_send tx event ch))"

text \<open>One poll of \<open>ServiceAsyncControl::send\<close> and \<open>quick_send\<close> after the flag was read as false; the item is put back while pending.\<close>

definition async_control_poll :: "sender \<Rightarrow> nat \<Rightarrow> priority \<Rightarrow> 'm option \<Rightarrow> 'm chan
    \<Rightarrow> ('m option \<times> 'm chan \<times> (send_error_kind + unit) poll) option" where
  "async_control_poll tx cx p item ch =
     map_option (\<lambda>(item1, ch1, r). (item1, ch1, case r of Pending \<Rightarrow> Pending | Ready q \<Rightarrow> Ready (map_err (\<lambda>_. SkBrokenPipe) q)))
       (async_send_poll (case p of High \<Rightarrow> start_quick_send | Normal \<Rightarrow> start_send) tx cx item ch)"

section \<open>Handshakes and listeners\<close>

text \<open>
  \<open>HandshakeContext::handshake\<close>: the event sent back. Without a key the socket is used as it is; otherwise \<open>None\<close>
  is the timeout (with its text) and \<open>Some\<close> the result of the secio handshake.
\<close>

definition handshake_event :: "bool \<Rightarrow> session_kind \<Rightarrow> multiaddr \<Rightarrow> multiaddr option \<Rightarrow> 'k
    \<Rightarrow> str + (secio_error + 'k \<times> public_key) \<Rightarrow> ('y, 'k, 'i) session_event" where
  "handshake_event has_key ty remote listen socket res =
     (if has_key then
        (case res of
           Inl text \<Rightarrow> SeHandshakeError remote ty (HsTimeout text)
         | Inr (Inr (handle, key)) \<Rightarrow> SeHandshakeSuccess handle (Some key) remote ty listen
         | Inr (Inl error) \<Rightarrow> SeHandshakeError remote ty (HsSecio error))
      else SeHandshakeSuccess socket None remote ty listen)"

datatype ('y, 'k, 'i) listener_task =
    LtHandshake session_kind multiaddr "multiaddr option" 'k
  | LtReport "('y, 'k, 'i) session_event"

definition listener_close :: "multiaddr \<Rightarrow> io_error \<Rightarrow> ('y, 'k, 'i) listener_task" where
  "listener_close listen_addr e = LtReport (SeListenError listen_addr (TeIo e))"

text \<open>\<open>Listener::poll_next\<close>: the task it spawns and what it yields, by what the incoming stream yields.\<close>

definition listener_poll :: "multiaddr \<Rightarrow> (io_error + multiaddr \<times> 'k) option poll \<Rightarrow> ('y, 'k, 'i) listener_task option \<times> unit option poll" where
  "listener_poll listen_addr r =
     (case r of
        Ready (Some (Inr (remote, socket))) \<Rightarrow> (Some (LtHandshake Inbound remote (Some listen_addr) socket), Ready (Some ()))
      | Ready None \<Rightarrow> (Some (listener_close listen_addr BrokenPipe), Ready None)
      | Pending \<Rightarrow> (None, Pending)
      | Ready (Some (Inl err)) \<Rightarrow> (Some (listener_close listen_addr err), Ready None))"

section \<open>Fresh numbers\<close>

text \<open>
  The loop that both \<open>generate_next_session\<close> and \<open>add_task\<close> run: count up, with wrap-around, until a number is
  not in use. It does not return when all are.
\<close>

partial_function (option) next_free :: "usize list \<Rightarrow> usize \<Rightarrow> usize option" where
  "next_free used n = (let n1 = n + 1 in if n1 \<in> set used then next_free used n1 else Some n1)"

declare next_free.simps [code]

lemma next_free_not_used:
  assumes "next_free used n = Some m"
  shows "m \<notin> set used"
  by (rule next_free.raw_induct [OF _ assms]) (auto simp: Let_def split: if_splits)

lemma next_free_skip:
  assumes "\<forall>j < k. n + 1 + of_nat j \<in> set used"
  shows "next_free used n = next_free used (n + of_nat k)"
  using assms
proof (induction k)
  case (Suc k)
  then have "next_free used n = next_free used (n + of_nat k)" by simp
  also have "n + of_nat k + 1 \<in> set used" using Suc.prems by (auto dest: spec [of _ k] simp: ac_simps)
  then have "next_free used (n + of_nat k) = next_free used (n + of_nat k + 1)"
    by (subst next_free.simps) (simp add: Let_def)
  finally show ?case by (simp add: ac_simps)
qed simp

text \<open>While fewer than \<open>2 ^ 64\<close> numbers are in use the loop ends.\<close>

lemma next_free_first:
  assumes "length used < 2 ^ 64"
  obtains k where "next_free used n = Some (n + 1 + of_nat k)" "n + 1 + of_nat k \<notin> set used" "\<forall>j < k. n + 1 + of_nat j \<in> set used"
proof -
  have "\<exists>j. n + 1 + of_nat j \<notin> set used"
  proof (rule ccontr)
    assume "\<nexists>j. n + 1 + of_nat j \<notin> set used"
    then have all: "n + 1 + of_nat j \<in> set used" for j by blast
    have "x \<in> set used" for x :: usize
    proof -
      have "x = n + 1 + of_nat (unat (x - (n + 1)))" by simp
      then show ?thesis using all [of "unat (x - (n + 1))"] by simp
    qed
    then have "set used = UNIV" by blast
    then have "card (UNIV :: usize set) \<le> length used" using card_length [of used] by simp
    then show False using assms by (simp add: card_word)
  qed
  then obtain j where j: "n + 1 + of_nat j \<notin> set used" "\<forall>i < j. n + 1 + of_nat i \<in> set used"
    using exists_least_iff [of "\<lambda>j. n + 1 + of_nat j \<notin> set used"] by auto
  from next_free_skip [OF j(2)] have "next_free used n = next_free used (n + of_nat j)" .
  also have "\<dots> = Some (n + 1 + of_nat j)" using j(1) by (subst next_free.simps) (simp add: Let_def ac_simps)
  finally show ?thesis using that j by blast
qed

section \<open>Background tasks\<close>

record 't task_manager =
  tm_signals :: "usize list"
  tm_next :: usize
  tm_spawned :: "(usize \<times> 't) list"

definition manager_new :: "'t task_manager" where
  "manager_new = \<lparr>tm_signals = [], tm_next = 0, tm_spawned = []\<rparr>"

definition add_task :: "'t \<Rightarrow> 't task_manager \<Rightarrow> 't task_manager option" where
  "add_task task m =
     map_option (\<lambda>i. m\<lparr>tm_next := i, tm_signals := i # tm_signals m, tm_spawned := tm_spawned m @ [(i, task)]\<rparr>)
       (next_free (tm_signals m) (tm_next m))"

definition remove_task :: "usize \<Rightarrow> 't task_manager \<Rightarrow> 't task_manager" where
  "remove_task i m = m\<lparr>tm_signals := filter (\<lambda>j. j \<noteq> i) (tm_signals m)\<rparr>"

text \<open>\<open>drop\<close>: the tasks that are told to stop.\<close>

definition manager_drop :: "'t task_manager \<Rightarrow> usize list" where
  "manager_drop m = tm_signals m"

text \<open>\<open>poll_next\<close>: the shutdown flag as read at both ends, and what the two receivers yield.\<close>

definition manager_poll :: "bool \<Rightarrow> bool \<Rightarrow> 't option poll \<Rightarrow> usize option poll \<Rightarrow> bool \<Rightarrow> 't task_manager
    \<Rightarrow> ('t task_manager \<times> unit option poll) option" where
  "manager_poll shutdown proceed task finished shutdown2 m =
     (if shutdown then Some (m, Ready None)
      else if \<not> proceed then Some (m, Pending)
      else case task of
        Ready None \<Rightarrow> Some (m, Ready None)
      | _ \<Rightarrow> do {
          m1 \<leftarrow> (case task of Ready (Some t) \<Rightarrow> add_task t m | _ \<Rightarrow> Some m);
          case finished of
            Ready None \<Rightarrow> Some (m1, Ready None)
          | _ \<Rightarrow>
              let m2 = (case finished of Ready (Some i) \<Rightarrow> remove_task i m1 | _ \<Rightarrow> m1) in
              Some (m2, if shutdown2 then Ready None else if task = Pending \<and> finished = Pending then Pending else Ready (Some ()))
        })"

end
