(* ===== verification/Service_Build.thy ===== *)
theory Service_Build
  imports Service_Events
begin

text \<open>
  Configuring a service (\<open>builder.rs\<close>, \<open>ServiceConfig\<close> of \<open>service/config.rs\<close>): the builder of the service and the
  builder of a protocol. \<open>None\<close> is a failed assertion. Of the yamux configuration the service looks at the window only;
  the socket options of the transports are not kept.
\<close>

section \<open>Protocols\<close>

text \<open>\<open>vm_service\<close>, \<open>vm_session\<close>: whether there is a callback handle of that level.\<close>

record 'h service_meta =
  vm_inner :: "'h proto_meta"
  vm_service :: bool
  vm_session :: bool
  vm_before_send :: "(byte list \<Rightarrow> byte list) option"

type_synonym 'h meta_builder = "'h service_meta"

definition meta_builder_default :: "'h meta_builder" where
  "meta_builder_default =
     \<lparr>vm_inner = \<lparr>pm_id = 0, pm_name = (\<lambda>i. [47, 112, 50, 112, 47] @ show_radix 10 (unat i)),
        pm_versions = [[48, 46, 48, 46, 49]], pm_select = None, pm_before = None, pm_reframe = (\<lambda>h. h), pm_spawn = False\<rparr>,
      vm_service = False, vm_session = False, vm_before_send = None\<rparr>"

abbreviation on_inner :: "('h proto_meta \<Rightarrow> 'h proto_meta) \<Rightarrow> 'h meta_builder \<Rightarrow> 'h meta_builder" where
  "on_inner f b \<equiv> b\<lparr>vm_inner := f (vm_inner b)\<rparr>"

definition mb_id :: "usize \<Rightarrow> 'h meta_builder \<Rightarrow> 'h meta_builder" where
  "mb_id i = on_inner (pm_id_update (\<lambda>_. i))"

definition mb_name :: "(usize \<Rightarrow> str) \<Rightarrow> 'h meta_builder \<Rightarrow> 'h meta_builder" where
  "mb_name name = on_inner (pm_name_update (\<lambda>_. name))"

definition mb_support_versions :: "str list \<Rightarrow> 'h meta_builder \<Rightarrow> 'h meta_builder" where
  "mb_support_versions versions = on_inner (pm_versions_update (\<lambda>_. versions))"

definition mb_codec :: "('h \<Rightarrow> 'h) \<Rightarrow> 'h meta_builder \<Rightarrow> 'h meta_builder" where
  "mb_codec codec = on_inner (pm_reframe_update (\<lambda>_. codec))"

definition mb_service_handle :: "bool \<Rightarrow> 'h meta_builder \<Rightarrow> 'h meta_builder" where
  "mb_service_handle callback b = b\<lparr>vm_service := callback\<rparr>"

definition mb_session_handle :: "bool \<Rightarrow> 'h meta_builder \<Rightarrow> 'h meta_builder" where
  "mb_session_handle callback b = b\<lparr>vm_session := callback\<rparr>"

definition mb_protocol_spawn :: "'h meta_builder \<Rightarrow> 'h meta_builder" where
  "mb_protocol_spawn = on_inner (pm_spawn_update (\<lambda>_. True))"

definition mb_select_version :: "select_fn option \<Rightarrow> 'h meta_builder \<Rightarrow> 'h meta_builder" where
  "mb_select_version f = on_inner (pm_select_update (\<lambda>_. f))"

definition mb_before_send :: "(byte list \<Rightarrow> byte list) \<Rightarrow> 'h meta_builder \<Rightarrow> 'h meta_builder" where
  "mb_before_send f b = b\<lparr>vm_before_send := Some f\<rparr>"

definition mb_before_receive :: "(byte list \<Rightarrow> io_error + byte list) option \<Rightarrow> 'h meta_builder \<Rightarrow> 'h meta_builder" where
  "mb_before_receive f = on_inner (pm_before_update (\<lambda>_. f))"

definition mb_build :: "'h meta_builder \<Rightarrow> 'h service_meta option" where
  "mb_build b = (if pm_spawn (vm_inner b) \<and> (vm_service b \<or> vm_session b) then None else Some b)"

definition meta_name :: "'h service_meta \<Rightarrow> str" where
  "meta_name m = pm_name (vm_inner m) (pm_id (vm_inner m))"

section \<open>The service\<close>

record service_config =
  vc_timeout :: nat
  vc_session :: session_config
  vc_max_frame :: usize
  vc_keep :: bool
  vc_max_conn :: usize

definition default_service_config :: service_config where
  "default_service_config =
     \<lparr>vc_timeout = 10000, vc_session = default_session_config, vc_max_frame = 1024 * 1024 * 8, vc_keep = False, vc_max_conn = 65535\<rparr>"

record ('h, 'q) service_builder =
  bl_protos :: "(usize \<times> 'h service_meta) list"
  bl_key :: "'q option"
  bl_forever :: bool
  bl_config :: service_config

definition service_builder_new :: "('h, 'q) service_builder" where
  "service_builder_new = \<lparr>bl_protos = [], bl_key = None, bl_forever = False, bl_config = default_service_config\<rparr>"

text \<open>The setters, each as the call of a chain.\<close>

datatype ('h, 'q) setter =
    InsertProtocol "'h service_meta"
  | KeyPair 'q
  | SetForever bool
  | Timeout nat
  | YamuxConfig u32
  | MaxFrameLength usize
  | ChannelSize usize
  | SendBufferSize usize
  | RecvBufferSize usize
  | KeepBuffer bool
  | MaxConnectionNumber usize
  | ClearProtocols

abbreviation on_session :: "(session_config \<Rightarrow> session_config) \<Rightarrow> service_config \<Rightarrow> service_config" where
  "on_session f g \<equiv> g\<lparr>vc_session := f (vc_session g)\<rparr>"

text \<open>The assertions compare after \<open>as u32\<close>, which keeps the low 32 bits.\<close>

definition set_yamux_config :: "u32 \<Rightarrow> service_config \<Rightarrow> service_config option" where
  "set_yamux_config window g =
     (if window \<le> ucast (vc_max_frame g) then Some (on_session (sg_window_update (\<lambda>_. window)) g) else None)"

definition set_max_frame_length :: "usize \<Rightarrow> service_config \<Rightarrow> service_config option" where
  "set_max_frame_length n g = (if sg_window (vc_session g) \<le> ucast n then Some (g\<lparr>vc_max_frame := n\<rparr>) else None)"

fun set_config :: "('h, 'q) setter \<Rightarrow> service_config \<Rightarrow> service_config option" where
  "set_config (Timeout t) g = Some (g\<lparr>vc_timeout := t\<rparr>)"
| "set_config (YamuxConfig window) g = set_yamux_config window g"
| "set_config (MaxFrameLength n) g = set_max_frame_length n g"
| "set_config (ChannelSize n) g = Some (on_session (sg_channel_update (\<lambda>_. n)) g)"
| "set_config (SendBufferSize n) g = Some (on_session (sg_send_buffer_update (\<lambda>_. n)) g)"
| "set_config (RecvBufferSize n) g = Some (on_session (sg_recv_buffer_update (\<lambda>_. n)) g)"
| "set_config (KeepBuffer keep) g = Some (g\<lparr>vc_keep := keep\<rparr>)"
| "set_config (MaxConnectionNumber n) g = Some (g\<lparr>vc_max_conn := n\<rparr>)"
| "set_config _ g = Some g"

definition set_builder :: "('h, 'q) setter \<Rightarrow> ('h, 'q) service_builder \<Rightarrow> ('h, 'q) service_builder option" where
  "set_builder c b =
     map_option
       (\<lambda>g. let b1 = b\<lparr>bl_config := g\<rparr> in
         case c of
           InsertProtocol m \<Rightarrow> b1\<lparr>bl_protos := insert_key (pm_id (vm_inner m)) m (bl_protos b1)\<rparr>
         | KeyPair k \<Rightarrow> b1\<lparr>bl_key := Some k\<rparr>
         | SetForever f \<Rightarrow> b1\<lparr>bl_forever := f\<rparr>
         | ClearProtocols \<Rightarrow> b1\<lparr>bl_protos := []\<rparr>
         | _ \<Rightarrow> b1)
       (set_config c (bl_config b))"

fun set_all :: "('h, 'q) setter list \<Rightarrow> ('h, 'q) service_builder \<Rightarrow> ('h, 'q) service_builder option" where
  "set_all [] b = Some b"
| "set_all (c # cs) b = do { b1 \<leftarrow> set_builder c b; set_all cs b1 }"

section \<open>What a finished builder guarantees\<close>

lemma keys_remove_key [simp]: "map fst (remove_key k m) = filter (\<lambda>j. j \<noteq> k) (map fst m)"
  by (induction m) (auto simp: remove_key_def)

lemma keys_insert_key [simp]: "map fst (insert_key k v m) = filter (\<lambda>j. j \<noteq> k) (map fst m) @ [k]"
  by (simp add: insert_key_def)

lemma set_remove_key: "set (remove_key k m) = {(j, v) \<in> set m. j \<noteq> k}"
  by (auto simp: remove_key_def)

lemma set_insert_key: "set (insert_key k v m) = {(j, v) \<in> set m. j \<noteq> k} \<union> {(k, v)}"
  by (auto simp: insert_key_def set_remove_key)

definition builder_ok :: "('h, 'q) service_builder \<Rightarrow> bool" where
  "builder_ok b \<longleftrightarrow> sg_window (vc_session (bl_config b)) \<le> ucast (vc_max_frame (bl_config b))
     \<and> distinct (map fst (bl_protos b)) \<and> (\<forall>(i, m) \<in> set (bl_protos b). pm_id (vm_inner m) = i)"

lemma builder_new_ok: "builder_ok service_builder_new"
proof -
  have "(256 * 1024 :: u32) \<le> ucast (1024 * 1024 * 8 :: usize)" by code_simp
  then show ?thesis by (simp add: builder_ok_def service_builder_new_def default_service_config_def default_session_config_def)
qed

lemma set_config_window:
  assumes "set_config c g = Some g1" "sg_window (vc_session g) \<le> ucast (vc_max_frame g)"
  shows "sg_window (vc_session g1) \<le> ucast (vc_max_frame g1)"
  using assms by (cases c) (auto simp: set_yamux_config_def set_max_frame_length_def split: if_splits)

lemma set_builder_ok:
  assumes "builder_ok b" "set_builder c b = Some b1"
  shows "builder_ok b1"
  using assms set_config_window [of c "bl_config b"]
  by (cases c) (auto simp: builder_ok_def set_builder_def set_insert_key split: if_splits)

lemma set_all_ok: "builder_ok b \<Longrightarrow> set_all cs b = Some b1 \<Longrightarrow> builder_ok b1"
  by (induction cs arbitrary: b) (auto simp: bind_eq_Some_conv dest: set_builder_ok)

text \<open>
  The assertion on the frame length looks at the low 32 bits only: a length of \<open>2 ^ 32\<close> is refused although it is
  larger than every window.
\<close>

lemma large_frame_length_refused: "set_max_frame_length (2 ^ 32) default_service_config = None"
proof -
  have "\<not> (256 * 1024 :: u32) \<le> ucast (2 ^ 32 :: usize)" by code_simp
  then show ?thesis by (simp add: set_max_frame_length_def default_service_config_def default_session_config_def)
qed

text \<open>A window of zero passes the assertion; the sizes of the event queues then divide by it.\<close>

lemma zero_window_accepted:
  "\<exists>g. set_yamux_config 0 default_service_config = Some g \<and> recv_event_size (vc_session g) = None"
  by (simp add: set_yamux_config_def recv_event_size_def)

end
