(* ===== verification/Service_Loop.thy ===== *)
theory Service_Loop
  imports Service_Build
begin

text \<open>
  The service (\<open>service.rs\<close>): the loop that opens and closes sessions, routes messages and control tasks to them,
  keeps the listening addresses and decides when to stop. Transports and the tasks of the user are parameters. A message
  that is sent and awaited is recorded in \<open>iv_out\<close> in the order it is sent; what the code spawns is recorded there too.
\<close>

section \<open>State\<close>

datatype ('w, 'h, 'y, 'k, 'i, 't) svc_out =
    ToUser service_output
  | ToSession usize priority "('y, 'k, 'i) session_event"
  | ToServiceProto usize service_proto_event
  | ToSessionProto usize usize session_proto_event
  | SpawnListen multiaddr
  | SpawnDial multiaddr
  | SpawnHandshake session_kind multiaddr "multiaddr option" 'k
  | SpawnListener multiaddr 'i
  | SpawnSession "('w, 'h, 'y, 'k, 'i) session_task"
  | SpawnSessionHandler usize usize
  | SpawnServiceHandler usize
  | SpawnFuture 't
  | ShutdownConn 'k

text \<open>
  \<open>sn_listen\<close>, \<open>sn_dial\<close>: the transports' synchronous checks; \<open>sn_world\<close>: the muxer over a connection;
  \<open>sn_sv_alive\<close>, \<open>sn_ss_alive\<close>: whether the task of a handler still receives.
\<close>

record ('w, 'k) svc_env =
  sn_V :: varint_ops
  sn_B :: buf_ops
  sn_sha :: "byte list \<Rightarrow> byte list"
  sn_listen :: "multiaddr \<Rightarrow> transport_error + unit"
  sn_dial :: "multiaddr \<Rightarrow> transport_error + unit"
  sn_world :: "'k \<Rightarrow> 'w"
  sn_sv_alive :: "usize \<Rightarrow> bool"
  sn_ss_alive :: "usize \<Rightarrow> usize \<Rightarrow> bool"

record ('w, 'h, 'y, 'k, 'i, 't) service =
  iv_protos :: "(usize \<times> 'h service_meta) list"
  iv_sessions :: "(usize \<times> ses_ctx) list"
  iv_listens :: "multiaddr list"
  iv_ctx_listens :: "multiaddr list"
  iv_dials :: "(multiaddr \<times> target_protocol) list"
  iv_config :: service_config
  iv_has_key :: bool
  iv_state :: service_state
  iv_next :: usize
  iv_before_sends :: "(usize \<times> (byte list \<Rightarrow> byte list)) list"
  iv_sv_handles :: "usize list"
  iv_ss_handles :: "(usize \<times> usize) list"
  iv_rx_closed :: bool
  iv_shutdown :: bool
  iv_user_closed :: bool
  iv_out :: "('w, 'h, 'y, 'k, 'i, 't) svc_out list"

type_synonym ('w, 'h, 'y, 'k, 'i, 't) svc_step = "('w, 'h, 'y, 'k, 'i, 't) service \<Rightarrow> ('w, 'h, 'y, 'k, 'i, 't) service"

definition service_new :: "(usize \<times> 'h service_meta) list \<Rightarrow> bool \<Rightarrow> bool \<Rightarrow> service_config \<Rightarrow> ('w, 'h, 'y, 'k, 'i, 't) service" where
  "service_new protos has_key forever g =
     \<lparr>iv_protos = protos, iv_sessions = [], iv_listens = [], iv_ctx_listens = [], iv_dials = [], iv_config = g, iv_has_key = has_key,
      iv_state = state_new forever, iv_next = 0, iv_before_sends = [], iv_sv_handles = [], iv_ss_handles = [],
      iv_rx_closed = False, iv_shutdown = False, iv_user_closed = False, iv_out = []\<rparr>"

text \<open>\<open>ServiceBuilder::build\<close>, and the two setters of a built service, which repeat those of the builder.\<close>

definition service_build :: "('h, 'q) service_builder \<Rightarrow> ('w, 'h, 'y, 'k, 'i, 't) service" where
  "service_build b = service_new (bl_protos b) (bl_key b \<noteq> None) (bl_forever b) (bl_config b)"

definition service_yamux_config :: "u32 \<Rightarrow> ('w, 'h, 'y, 'k, 'i, 't) service \<Rightarrow> ('w, 'h, 'y, 'k, 'i, 't) service option" where
  "service_yamux_config window s = map_option (\<lambda>g. s\<lparr>iv_config := g\<rparr>) (set_yamux_config window (iv_config s))"

definition service_max_frame_length :: "usize \<Rightarrow> ('w, 'h, 'y, 'k, 'i, 't) service \<Rightarrow> ('w, 'h, 'y, 'k, 'i, 't) service option" where
  "service_max_frame_length n s = map_option (\<lambda>g. s\<lparr>iv_config := g\<rparr>) (set_max_frame_length n (iv_config s))"

definition emit :: "('w, 'h, 'y, 'k, 'i, 't) svc_out \<Rightarrow> ('w, 'h, 'y, 'k, 'i, 't) svc_step" where
  "emit x s = s\<lparr>iv_out := iv_out s @ [x]\<rparr>"

abbreviation to_user :: "service_output \<Rightarrow> ('w, 'h, 'y, 'k, 'i, 't) svc_step" where
  "to_user o' \<equiv> emit (ToUser o')"

section \<open>Listening and dialling\<close>

definition spawn_listener :: "'i \<Rightarrow> multiaddr \<Rightarrow> ('w, 'h, 'y, 'k, 'i, 't) svc_step" where
  "spawn_listener incoming address s = emit (SpawnListener address incoming) s"

definition listen_inner :: "('w, 'k) svc_env \<Rightarrow> multiaddr \<Rightarrow> ('w, 'h, 'y, 'k, 'i, 't) service
    \<Rightarrow> ('w, 'h, 'y, 'k, 'i, 't) service \<times> (transport_error + unit)" where
  "listen_inner E address s =
     (case sn_listen E address of
        Inl e \<Rightarrow> (s, Err e)
      | Inr _ \<Rightarrow> let s1 = emit (SpawnListen address) s in (s1\<lparr>iv_state := increase (iv_state s1)\<rparr>, Ok ()))"

text \<open>The event of the task that \<open>listen_inner\<close> spawns.\<close>

definition listen_result :: "multiaddr \<Rightarrow> transport_error + multiaddr \<times> 'i \<Rightarrow> ('y, 'k, 'i) session_event" where
  "listen_result address r = (case r of Inr (addr, incoming) \<Rightarrow> SeListenStart addr incoming | Inl error \<Rightarrow> SeListenError address error)"

definition dial_inner :: "('w, 'k) svc_env \<Rightarrow> multiaddr \<Rightarrow> target_protocol \<Rightarrow> ('w, 'h, 'y, 'k, 'i, 't) service
    \<Rightarrow> ('w, 'h, 'y, 'k, 'i, 't) service \<times> (transport_error + unit)" where
  "dial_inner E address target s =
     (let s1 = s\<lparr>iv_dials := insert_key address target (iv_dials s)\<rparr> in
      case sn_dial E address of
        Inl e \<Rightarrow> (s1, Err e)
      | Inr _ \<Rightarrow> let s2 = emit (SpawnDial address) s1 in (s2\<lparr>iv_state := increase (iv_state s2)\<rparr>, Ok ()))"

text \<open>The task that \<open>dial_inner\<close> spawns: a handshake over the connection, or the error.\<close>

definition dial_result :: "multiaddr \<Rightarrow> transport_error + multiaddr \<times> 'k \<Rightarrow> ('y, 'k, 'i) listener_task" where
  "dial_result address r =
     (case r of
        Inr (addr, socket) \<Rightarrow> LtHandshake Outbound addr None socket
      | Inl error \<Rightarrow> LtReport (SeDialError address error))"

text \<open>\<open>Service::listen\<close> and \<open>Service::dial\<close>, before the loop runs: \<open>res\<close> is what the transport's future gives.\<close>

definition service_listen :: "('w, 'k) svc_env \<Rightarrow> multiaddr \<Rightarrow> transport_error + multiaddr \<times> 'i
    \<Rightarrow> ('w, 'h, 'y, 'k, 'i, 't) service \<Rightarrow> ('w, 'h, 'y, 'k, 'i, 't) service \<times> (transport_error + multiaddr)" where
  "service_listen E address res s =
     (case sn_listen E address of
        Inl e \<Rightarrow> (s, Err e)
      | Inr _ \<Rightarrow>
          (case res of
             Inl e \<Rightarrow> (s, Err e)
           | Inr (addr, incoming) \<Rightarrow>
               let s1 = to_user (OutEvent (VvListenStarted addr)) s in
               (spawn_listener incoming addr (s1\<lparr>iv_listens := List.insert addr (iv_listens s1)\<rparr>), Ok addr)))"

definition service_dial :: "('w, 'k) svc_env \<Rightarrow> multiaddr \<Rightarrow> target_protocol \<Rightarrow> transport_error + multiaddr \<times> 'k
    \<Rightarrow> ('w, 'h, 'y, 'k, 'i, 't) service \<Rightarrow> ('w, 'h, 'y, 'k, 'i, 't) service \<times> (transport_error + unit)" where
  "service_dial E address target res s =
     (case sn_dial E address of
        Inl e \<Rightarrow> (s, Err e)
      | Inr _ \<Rightarrow>
          (case res of
             Inl e \<Rightarrow> (s, Err e)
           | Inr (addr, socket) \<Rightarrow>
               let s1 = emit (SpawnHandshake Outbound addr None socket) s in
               (s1\<lparr>iv_dials := insert_key address target (iv_dials s1), iv_state := increase (iv_state s1)\<rparr>, Ok ())))"

section \<open>Sessions\<close>

fun open_handles :: "usize \<Rightarrow> (usize \<times> 'h service_meta) list \<Rightarrow> ('w, 'h, 'y, 'k, 'i, 't) svc_step" where
  "open_handles i [] s = s"
| "open_handles i ((pid, m) # ms) s =
     open_handles i ms
       (if vm_session m \<and> map_of (iv_sessions s) i \<noteq> None
        then emit (SpawnSessionHandler i pid) (s\<lparr>iv_ss_handles := List.insert (i, pid) (iv_ss_handles s)\<rparr>) else s)"

definition session_handles_open :: "usize \<Rightarrow> ('w, 'h, 'y, 'k, 'i, 't) svc_step" where
  "session_handles_open i s = open_handles i (iv_protos s) s"

definition generate_next_session :: "('w, 'h, 'y, 'k, 'i, 't) service \<Rightarrow> ('w, 'h, 'y, 'k, 'i, 't) service option" where
  "generate_next_session s = map_option (\<lambda>n. s\<lparr>iv_next := n\<rparr>) (next_free (map fst (iv_sessions s)) (iv_next s))"

definition reached_max_connection_limit :: "('w, 'h, 'y, 'k, 'i, 't) service \<Rightarrow> bool" where
  "reached_max_connection_limit s =
     (case checked_add (of_nat (length (iv_sessions s))) (case state_into_inner (iv_state s) of Some n \<Rightarrow> n | None \<Rightarrow> 0) of
        Some total_n \<Rightarrow> vc_max_conn (iv_config s) < total_n
      | None \<Rightarrow> False)"

text \<open>The connection is a duplicate, is of another peer than the address names, or its full address.\<close>

datatype admission = Repeated usize | WrongPeer | Admitted multiaddr

definition admit :: "('w, 'k) svc_env \<Rightarrow> public_key option \<Rightarrow> multiaddr \<Rightarrow> (usize \<times> ses_ctx) list \<Rightarrow> admission option" where
  "admit E remote_pubkey address sessions =
     (case remote_pubkey of
        None \<Rightarrow> Some (Admitted address)
      | Some key \<Rightarrow>
          (case find (\<lambda>(_, c). cx_pubkey c = Some key \<and> cx_address c = address) sessions of
             Some (_, c) \<Rightarrow> Some (Repeated (cx_id c))
           | None \<Rightarrow> do {
               own \<leftarrow> pid_from_public_key (sn_V E) (sn_sha E) key;
               named \<leftarrow> Some (extract_peer_id (sn_V E) (sn_B E) address);
               case named of
                 None \<Rightarrow> None
               | Some None \<Rightarrow> Some (Admitted (push (sn_V E) (sn_B E) (P2P (pid_inner own)) address))
               | Some (Some peer) \<Rightarrow> Some (if own \<noteq> peer then WrongPeer else Admitted address)
             }))"

fun open_streams :: "'h service_meta list \<Rightarrow> ('w, 'h, 'y, 'k, 'i) session_task \<Rightarrow> ('w, 'h, 'y, 'k, 'i) session_task option" where
  "open_streams [] s = Some s"
| "open_streams (m # ms) s = do {
     s1 \<leftarrow> open_proto_stream (meta_name m) s;
     open_streams ms s1
   }"

definition opened_protos :: "target_protocol \<Rightarrow> (usize \<times> 'h service_meta) list \<Rightarrow> 'h service_meta list" where
  "opened_protos target protos =
     (case target of
        TpAll \<Rightarrow> map snd protos
      | TpSingle pid \<Rightarrow> (case map_of protos pid of Some m \<Rightarrow> [m] | None \<Rightarrow> [])
      | TpFilter f \<Rightarrow> map snd (filter (\<lambda>(pid, _). f pid) protos))"

text \<open>The session task as \<open>session_open\<close> builds it; \<open>by_name\<close> keeps the last protocol of a name.\<close>

definition build_session :: "('w, 'k) svc_env \<Rightarrow> 'k \<Rightarrow> ses_ctx \<Rightarrow> ('w, 'h, 'y, 'k, 'i, 't) service
    \<Rightarrow> ('w, 'h, 'y, 'k, 'i) session_task option" where
  "build_session E handle cx s = do {
     ch \<leftarrow> channel (sg_channel (vc_session (iv_config s)));
     rx \<leftarrow> clone_sender 1 ch;
     let by_name = map (\<lambda>(_, m). (meta_name m, vm_inner m)) (iv_protos s);
     let meta = (session_meta_new cx)\<lparr>me_by_name := rev by_name, me_by_id := map (apsnd vm_inner) (iv_protos s),
           me_config := vc_session (iv_config s), me_keep := vc_keep (iv_config s), me_sv_senders := iv_sv_handles s,
           me_ss_senders := map snd (filter (\<lambda>(i, _). i = cx_id cx) (iv_ss_handles s)),
           me_handles := map (\<lambda>(_, pid). (True, unat pid)) (filter (\<lambda>(i, _). i = cx_id cx) (iv_ss_handles s))\<rparr>;
     Some (ses_new (sn_world E handle) rx meta)
   }"

definition session_open :: "('w, 'k) svc_env \<Rightarrow> 'k \<Rightarrow> public_key option \<Rightarrow> multiaddr \<Rightarrow> session_kind \<Rightarrow> multiaddr option
    \<Rightarrow> ('w, 'h, 'y, 'k, 'i, 't) service \<Rightarrow> ('w, 'h, 'y, 'k, 'i, 't) service option" where
  "session_open E handle remote_pubkey address ty listen_addr s0 = do {
     let target = (case map_of (iv_dials s0) address of Some t \<Rightarrow> t | None \<Rightarrow> TpAll);
     let s = s0\<lparr>iv_dials := remove_key address (iv_dials s0)\<rparr>;
     a \<leftarrow> admit E remote_pubkey address (iv_sessions s);
     case a of
       Repeated i \<Rightarrow>
         (let s1 = emit (ShutdownConn handle) s in
          if ty = Outbound then Some (to_user (OutError (VeDialer address (DeRepeatedConnection i))) s1)
          else map_option (\<lambda>l. to_user (OutError (VeListen l (LeRepeatedConnection i))) s1) listen_addr)
     | WrongPeer \<Rightarrow> Some (to_user (OutError (VeDialer address DePeerIdNotMatch)) s)
     | Admitted full \<Rightarrow> do {
         s1 \<leftarrow> generate_next_session s;
         let cx = ses_ctx_new (iv_next s1) full ty remote_pubkey;
         let s2 = session_handles_open (iv_next s1) (s1\<lparr>iv_sessions := insert_key (cx_id cx) cx (iv_sessions s1)\<rparr>);
         ses0 \<leftarrow> build_session E handle cx s2;
         ses \<leftarrow> (if ty = Outbound then open_streams (opened_protos target (iv_protos s2)) ses0 else Some ses0);
         Some (to_user (OutEvent (VvSessionOpen cx)) (emit (SpawnSession ses) s2))
       }
   }"

datatype source = External | Internal

definition session_close :: "usize \<Rightarrow> source \<Rightarrow> ('w, 'h, 'y, 'k, 'i, 't) svc_step" where
  "session_close i src s =
     (if src = External
      then (if map_of (iv_sessions s) i \<noteq> None then emit (ToSession i High (SeSessionClose i)) s else s)
      else
        (let s1 = s\<lparr>iv_ss_handles := filter (\<lambda>(j, _). j \<noteq> i) (iv_ss_handles s)\<rparr> in
         case map_of (iv_sessions s1) i of
           None \<Rightarrow> s1
         | Some cx \<Rightarrow> to_user (OutEvent (VvSessionClose cx)) (s1\<lparr>iv_sessions := remove_key i (iv_sessions s1)\<rparr>)))"

definition protocol_open :: "usize \<Rightarrow> usize \<Rightarrow> ('w, 'h, 'y, 'k, 'i, 't) svc_step" where
  "protocol_open i pid s = (if map_of (iv_sessions s) i \<noteq> None then emit (ToSession i High (SeProtocolOpen pid)) s else s)"

definition protocol_close :: "usize \<Rightarrow> usize \<Rightarrow> ('w, 'h, 'y, 'k, 'i, 't) svc_step" where
  "protocol_close i pid s = (if map_of (iv_sessions s) i \<noteq> None then emit (ToSession i High (SeProtocolClose pid)) s else s)"

section \<open>Messages\<close>

definition send_message :: "usize \<Rightarrow> priority \<Rightarrow> byte list \<Rightarrow> usize \<Rightarrow> ('w, 'h, 'y, 'k, 'i, 't) svc_step" where
  "send_message pid p data i s =
     (case map_of (iv_sessions s) i of
        None \<Rightarrow> s
      | Some cx \<Rightarrow>
          emit (ToSession i p (SeProtocolMessage pid data))
            (s\<lparr>iv_sessions := map (\<lambda>(j, c). (j, if j = i then incr_pending_data_size (of_nat (length data)) c else c)) (iv_sessions s)\<rparr>))"

fun filter_asked :: "(usize list \<Rightarrow> usize \<Rightarrow> bool) \<Rightarrow> usize list \<Rightarrow> usize list \<Rightarrow> usize list" where
  "filter_asked f asked [] = []"
| "filter_asked f asked (i # is') = (if f asked i then i # filter_asked f (asked @ [i]) is' else filter_asked f (asked @ [i]) is')"

text \<open>The sessions a target names, in the order they are served.\<close>

definition targeted :: "target_session \<Rightarrow> (usize \<times> ses_ctx) list \<Rightarrow> usize list" where
  "targeted target sessions =
     (case target of
        TsSingle i \<Rightarrow> [i]
      | TsMulti is' \<Rightarrow> is'
      | TsFilter f \<Rightarrow> filter_asked f [] (map fst sessions)
      | TsAll \<Rightarrow> map fst sessions)"

definition handle_message :: "target_session \<Rightarrow> usize \<Rightarrow> priority \<Rightarrow> byte list \<Rightarrow> ('w, 'h, 'y, 'k, 'i, 't) svc_step" where
  "handle_message target pid p data s =
     (let data' = (case map_of (iv_before_sends s) pid of Some f \<Rightarrow> f data | None \<Rightarrow> data) in
      fold (send_message pid p data') (targeted target (iv_sessions s)) s)"

section \<open>Handlers and shutdown\<close>

fun init_handles :: "(usize \<times> 'h service_meta) list \<Rightarrow> ('w, 'h, 'y, 'k, 'i, 't) svc_step" where
  "init_handles [] s = s"
| "init_handles ((pid, m) # ms) s =
     (let s1 = (if vm_service m
                then emit (SpawnServiceHandler pid) (s\<lparr>iv_sv_handles := List.insert pid (iv_sv_handles s)\<rparr>) else s);
          s2 = (case vm_before_send m of
                  Some f \<Rightarrow> s1\<lparr>iv_before_sends := insert_key pid f (iv_before_sends s1)\<rparr>
                | None \<Rightarrow> s1) in
      init_handles ms s2)"

text \<open>The service handles and the filters are moved out of the configuration.\<close>

definition init_proto_handles :: "('w, 'h, 'y, 'k, 'i, 't) svc_step" where
  "init_proto_handles s =
     (let s1 = init_handles (iv_protos s) s in
      s1\<lparr>iv_protos := map (\<lambda>(pid, m). (pid, m\<lparr>vm_service := False, vm_before_send := None\<rparr>)) (iv_protos s1)\<rparr>)"

definition shutdown_service :: "bool \<Rightarrow> ('w, 'h, 'y, 'k, 'i, 't) svc_step" where
  "shutdown_service quick s =
     (let s1 = s\<lparr>iv_state := pre_shutdown (iv_state s)\<rparr>;
          s2 = fold (\<lambda>a. to_user (OutEvent (VvListenClose a))) (iv_listens s1) (s1\<lparr>iv_listens := []\<rparr>);
          sessions = map fst (iv_sessions s2) in
      if quick then
        fold (\<lambda>i. session_close i Internal) sessions (s2\<lparr>iv_rx_closed := True, iv_sv_handles := [], iv_ss_handles := []\<rparr>)
      else fold (\<lambda>i. session_close i External) sessions s2)"

text \<open>The two loops of \<open>try_update_listens\<close>; the boolean tells whether a handler was gone.\<close>

fun update_service_handles :: "('w, 'k) svc_env \<Rightarrow> multiaddr list \<Rightarrow> usize list \<Rightarrow> ('w, 'h, 'y, 'k, 'i, 't) service \<times> bool
    \<Rightarrow> ('w, 'h, 'y, 'k, 'i, 't) service \<times> bool" where
  "update_service_handles E addrs [] x = x"
| "update_service_handles E addrs (pid # pids) (s, bad) =
     update_service_handles E addrs pids
       (if sn_sv_alive E pid then (emit (ToServiceProto pid (SvUpdate addrs)) s, bad)
        else (to_user (OutError (VeProtocolHandle pid (AbnormallyClosed None))) s, True))"

fun update_session_handles :: "('w, 'k) svc_env \<Rightarrow> multiaddr list \<Rightarrow> (usize \<times> usize) list \<Rightarrow> ('w, 'h, 'y, 'k, 'i, 't) service \<times> bool
    \<Rightarrow> ('w, 'h, 'y, 'k, 'i, 't) service \<times> bool" where
  "update_session_handles E addrs [] x = x"
| "update_session_handles E addrs ((i, pid) # ps) (s, bad) =
     update_session_handles E addrs ps
       (if sn_ss_alive E i pid then (emit (ToSessionProto i pid (SsUpdate addrs)) s, bad)
        else (to_user (OutError (VeProtocolHandle pid (AbnormallyClosed (Some i)))) s, True))"

definition try_update_listens :: "('w, 'k) svc_env \<Rightarrow> ('w, 'h, 'y, 'k, 'i, 't) svc_step" where
  "try_update_listens E s =
     (if length (iv_listens s) = length (iv_ctx_listens s) then s
      else
        (let new_listens = iv_listens s;
             s1 = to_user (OutUpdate new_listens) (s\<lparr>iv_ctx_listens := new_listens\<rparr>);
             x = update_service_handles E new_listens (iv_sv_handles s1) (s1, False);
             y = update_session_handles E new_listens (iv_ss_handles (fst x)) x in
         if snd y then shutdown_service False (fst y) else fst y))"

section \<open>Events and tasks\<close>

definition svc_session_event :: "('w, 'k) svc_env \<Rightarrow> ('y, 'k, 'i) session_event \<Rightarrow> ('w, 'h, 'y, 'k, 'i, 't) service
    \<Rightarrow> ('w, 'h, 'y, 'k, 'i, 't) service option" where
  "svc_session_event E event s =
     (case event of
        SeSessionClose i \<Rightarrow> Some (session_close i Internal s)
      | SeHandshakeSuccess handle public_key address ty listen_address \<Rightarrow>
          (let s1 = (if ty = Outbound then s\<lparr>iv_state := decrease (iv_state s)\<rparr> else s) in
           if \<not> reached_max_connection_limit s1 then session_open E handle public_key address ty listen_address s1 else Some s1)
      | SeHandshakeError address ty error \<Rightarrow>
          Some (if ty = Outbound
                then to_user (OutError (VeDialer address (DeHandshake error)))
                       (s\<lparr>iv_state := decrease (iv_state s), iv_dials := remove_key address (iv_dials s)\<rparr>)
                else s)
      | SeProtocolMessage _ _ \<Rightarrow> None
      | SeProtocolOpen _ \<Rightarrow> None
      | SeProtocolClose _ \<Rightarrow> None
      | SeProtocolSelectError i name \<Rightarrow>
          Some (case map_of (iv_sessions s) i of
                  Some cx \<Rightarrow> to_user (OutError (VeProtocolSelect name cx)) s
                | None \<Rightarrow> s)
      | SeProtocolError i pid error \<Rightarrow> Some (to_user (OutError (VeProtocol i pid error)) s)
      | SeDialError address error \<Rightarrow>
          Some (to_user (OutError (VeDialer address (DeTransport error)))
                  (s\<lparr>iv_state := decrease (iv_state s), iv_dials := remove_key address (iv_dials s)\<rparr>))
      | SeListenError address error \<Rightarrow>
          (let s1 = to_user (OutError (VeListen address (LeTransport error))) s in
           Some (if address \<in> set (iv_listens s1)
                 then to_user (OutEvent (VvListenClose address)) (s1\<lparr>iv_listens := remove1 address (iv_listens s1)\<rparr>)
                 else s1\<lparr>iv_state := decrease (iv_state s1)\<rparr>))
      | SeSessionTimeout i \<Rightarrow>
          Some (case map_of (iv_sessions s) i of
                  Some cx \<Rightarrow> to_user (OutError (VeSessionTimeout cx)) s
                | None \<Rightarrow> s)
      | SeMuxerError i error \<Rightarrow>
          Some (case map_of (iv_sessions s) i of
                  Some cx \<Rightarrow> to_user (OutError (VeMuxer cx error)) s
                | None \<Rightarrow> s)
      | SeListenStart address incoming \<Rightarrow>
          (let s1 = to_user (OutEvent (VvListenStarted address)) s;
               s2 = s1\<lparr>iv_listens := List.insert address (iv_listens s1), iv_state := decrease (iv_state s1)\<rparr> in
           Some (spawn_listener incoming address (try_update_listens E s2)))
      | SeProtocolHandleError error pid \<Rightarrow>
          Some (shutdown_service False (to_user (OutError (VeProtocolHandle pid error)) s))
      | SeChangeState i _ _ \<Rightarrow>
          Some (case map_of (iv_sessions s) i of
                  Some cx \<Rightarrow> to_user (OutError (VeSessionBlocked cx)) s
                | None \<Rightarrow> s)
      | SeStreamStart _ \<Rightarrow> Some s)"

definition handle_service_task :: "('w, 'k) svc_env \<Rightarrow> 't service_task \<Rightarrow> priority \<Rightarrow> ('w, 'h, 'y, 'k, 'i, 't) svc_step" where
  "handle_service_task E task p s =
     (case task of
        TkProtocolMessage target pid data \<Rightarrow> handle_message target pid p data s
      | TkDial address target \<Rightarrow>
          if map_of (iv_dials s) address = None then
            (case dial_inner E address target s of
               (s1, Inl e) \<Rightarrow> to_user (OutError (VeDialer address (DeTransport e))) s1
             | (s1, Inr _) \<Rightarrow> s1)
          else s
      | TkListen address \<Rightarrow>
          if address \<notin> set (iv_listens s) then
            (case listen_inner E address s of
               (s1, Inl e) \<Rightarrow> to_user (OutError (VeListen address (LeTransport e))) s1
             | (s1, Inr _) \<Rightarrow> s1)
          else s
      | TkDisconnect i \<Rightarrow> session_close i External s
      | TkFutureTask t \<Rightarrow> emit (SpawnFuture t) s
      | TkSetProtocolNotify pid interval token \<Rightarrow>
          if pid \<in> set (iv_sv_handles s) then emit (ToServiceProto pid (SvSetNotify interval token)) s else s
      | TkRemoveProtocolNotify pid token \<Rightarrow>
          if pid \<in> set (iv_sv_handles s) then emit (ToServiceProto pid (SvRemoveNotify token)) s else s
      | TkSetProtocolSessionNotify i pid interval token \<Rightarrow>
          if (i, pid) \<in> set (iv_ss_handles s) then emit (ToSessionProto i pid (SsSetNotify interval token)) s else s
      | TkRemoveProtocolSessionNotify i pid token \<Rightarrow>
          if (i, pid) \<in> set (iv_ss_handles s) then emit (ToSessionProto i pid (SsRemoveNotify token)) s else s
      | TkProtocolOpen i target \<Rightarrow>
          (case target of
             TpAll \<Rightarrow> fold (protocol_open i) (map fst (iv_protos s)) s
           | TpSingle pid \<Rightarrow> protocol_open i pid s
           | TpFilter f \<Rightarrow> fold (protocol_open i) (filter f (map fst (iv_protos s))) s)
      | TkProtocolClose i pid \<Rightarrow> protocol_close i pid s
      | TkShutdown quick \<Rightarrow> shutdown_service quick s)"

text \<open>One turn of the loop of \<open>run\<close>: the branch that \<open>select!\<close> takes; \<open>None\<close> when both receivers have ended. The boolean is whether the loop goes on.\<close>

datatype ('y, 'k, 'i, 't) turn = SessionTurn "('y, 'k, 'i) session_event" | TaskTurn priority "'t service_task" | NoTurn

definition service_idle :: "('w, 'h, 'y, 'k, 'i, 't) service \<Rightarrow> bool" where
  "service_idle s \<longleftrightarrow> iv_listens s = [] \<and> is_shutdown (iv_state s) \<and> iv_sessions s = []"

definition service_turn :: "('w, 'k) svc_env \<Rightarrow> ('y, 'k, 'i, 't) turn \<Rightarrow> ('w, 'h, 'y, 'k, 'i, 't) service
    \<Rightarrow> (('w, 'h, 'y, 'k, 'i, 't) service \<times> bool) option" where
  "service_turn E t s =
     (if service_idle s then Some (s\<lparr>iv_shutdown := True, iv_user_closed := True\<rparr>, False)
      else
        (let s1 = try_update_listens E s in
         case t of
           SessionTurn event \<Rightarrow> map_option (\<lambda>s2. (s2, True)) (svc_session_event E event s1)
         | TaskTurn p task \<Rightarrow> Some (handle_service_task E task p s1, True)
         | NoTurn \<Rightarrow> None))"

fun service_run :: "(('w, 'k) svc_env \<times> ('y, 'k, 'i, 't) turn) list \<Rightarrow> ('w, 'h, 'y, 'k, 'i, 't) service
    \<Rightarrow> ('w, 'h, 'y, 'k, 'i, 't) service option" where
  "service_run [] s = Some s"
| "service_run ((E, t) # ts) s = do {
     (s1, go) \<leftarrow> service_turn E t s;
     if go then service_run ts s1 else Some s1
   }"

end
