(* ===== verification/Connector_Compress.thy ===== *)
theory Connector_Compress
  imports Multiaddr
begin

text \<open>
  Compressed messages of the connector (\<open>connector/src/compress.rs\<close>): a flag byte in front of the payload, which is
  compressed when it is long. The raw snappy format of the crate \<open>snap\<close> is a parameter with its contract as a locale; its
  instance writes and reads the literal elements of the documented format.
\<close>

section \<open>Messages\<close>

text \<open>
  \<open>sp_len\<close> is \<open>decompress_len\<close>; \<open>sp_decompress c n\<close> is what a successful \<open>Decoder::decompress\<close> leaves in a
  buffer of \<open>n\<close> bytes.
\<close>

record snap_ops =
  sp_compress :: "byte list \<Rightarrow> byte list option"
  sp_len :: "byte list \<Rightarrow> nat option"
  sp_decompress :: "byte list \<Rightarrow> nat \<Rightarrow> byte list option"

definition COMPRESSION_SIZE_THRESHOLD :: nat where "COMPRESSION_SIZE_THRESHOLD = 1024"
definition UNCOMPRESS_FLAG :: byte where "UNCOMPRESS_FLAG = 0"
definition COMPRESS_FLAG :: byte where "COMPRESS_FLAG = 128"
definition MAX_UNCOMPRESSED_LEN :: nat where "MAX_UNCOMPRESSED_LEN = 2 ^ 23"

text \<open>A \<open>Message\<close> is its bytes.\<close>

definition message_from_raw :: "byte list \<Rightarrow> byte list" where
  "message_from_raw data = UNCOMPRESS_FLAG # data"

definition set_compress_flag :: "byte list \<Rightarrow> byte list" where
  "set_compress_flag inner = inner[0 := COMPRESS_FLAG]"

definition compress_flag :: "byte list \<Rightarrow> bool" where
  "compress_flag inner \<longleftrightarrow> and (inner ! 0) COMPRESS_FLAG \<noteq> 0"

definition message_compress :: "snap_ops \<Rightarrow> byte list \<Rightarrow> byte list" where
  "message_compress S inner =
     (if COMPRESSION_SIZE_THRESHOLD < length inner then
        (case sp_compress S (drop 1 inner) of
           Some res \<Rightarrow> set_compress_flag (take 1 inner @ res)
         | None \<Rightarrow> inner)
      else inner)"

definition message_decompress :: "snap_ops \<Rightarrow> byte list \<Rightarrow> io_error + byte list" where
  "message_decompress S inner =
     (if inner = [] then Err InvalidData
      else if compress_flag inner then
        (case sp_len S (drop 1 inner) of
           None \<Rightarrow> Err InvalidData
         | Some n \<Rightarrow> if MAX_UNCOMPRESSED_LEN < n then Err InvalidData
                     else ok_or InvalidData (sp_decompress S (drop 1 inner) n))
      else Ok (drop 1 inner))"

definition compress :: "snap_ops \<Rightarrow> byte list \<Rightarrow> byte list" where
  "compress S src = message_compress S (message_from_raw src)"

definition decompress :: "snap_ops \<Rightarrow> byte list \<Rightarrow> io_error + byte list" where
  "decompress S src = message_decompress S src"

section \<open>The compressor\<close>

locale snappy =
  fixes S :: snap_ops
  assumes compress_len: "sp_compress S x = Some c \<Longrightarrow> sp_len S c = Some (length x)"
    and compress_inv: "sp_compress S x = Some c \<Longrightarrow> sp_decompress S c (length x) = Some x"
    and decompress_fills: "sp_decompress S c n = Some y \<Longrightarrow> length y = n"
begin

lemma roundtrip:
  "decompress S (compress S x) =
     (if MAX_UNCOMPRESSED_LEN < length x \<and> sp_compress S x \<noteq> None then Err InvalidData else Ok x)"
proof (cases "COMPRESSION_SIZE_THRESHOLD < length (message_from_raw x)")
  case long: True
  have f: "and COMPRESS_FLAG COMPRESS_FLAG \<noteq> 0" "and UNCOMPRESS_FLAG COMPRESS_FLAG = 0"
    by (simp_all add: COMPRESS_FLAG_def UNCOMPRESS_FLAG_def)
  show ?thesis
  proof (cases "sp_compress S x")
    case None
    then show ?thesis using long f
      by (simp add: decompress_def message_decompress_def compress_def message_compress_def message_from_raw_def compress_flag_def)
  next
    case (Some c)
    then show ?thesis using long f compress_len [OF Some] compress_inv [OF Some]
      by (simp add: decompress_def message_decompress_def compress_def message_compress_def message_from_raw_def compress_flag_def
          set_compress_flag_def)
  qed
next
  case short: False
  have "and UNCOMPRESS_FLAG COMPRESS_FLAG = 0" by (simp add: COMPRESS_FLAG_def UNCOMPRESS_FLAG_def)
  then show ?thesis using short
    by (simp add: decompress_def message_decompress_def compress_def message_compress_def message_from_raw_def compress_flag_def
        COMPRESSION_SIZE_THRESHOLD_def MAX_UNCOMPRESSED_LEN_def)
qed

lemma bounded:
  assumes "decompress S m = Ok y"
  shows "length y \<le> max MAX_UNCOMPRESSED_LEN (length m - 1)"
proof (cases "compress_flag m")
  case True
  then obtain n where "sp_decompress S (drop 1 m) n = Some y" "n \<le> MAX_UNCOMPRESSED_LEN"
    using assms by (auto simp: decompress_def message_decompress_def split: if_splits option.splits)
  then show ?thesis using decompress_fills by fastforce
next
  case False
  then show ?thesis using assms by (auto simp: decompress_def message_decompress_def split: if_splits)
qed

end

section \<open>Literal elements\<close>

function literals :: "byte list \<Rightarrow> byte list" where
  "literals x = (if x = [] then [] else of_nat (4 * (min 60 (length x) - 1)) # take 60 x @ literals (drop 60 x))"
  by auto
termination by (relation "measure length") auto

declare literals.simps [simp del]

function read_literals :: "byte list \<Rightarrow> byte list option" where
  "read_literals [] = Some []"
| "read_literals (t # xs) =
     (let n = unat t div 4 + 1 in
      if unat t mod 4 = 0 \<and> n \<le> 60 \<and> n \<le> length xs then map_option (append (take n xs)) (read_literals (drop n xs)) else None)"
  by pat_completeness auto
termination by (relation "measure length") auto

declare read_literals.simps(2) [simp del]

definition literal_snap :: snap_ops where
  "literal_snap =
     \<lparr>sp_compress = (\<lambda>x. Some (leb_enc (length x) @ literals x)),
      sp_len = (\<lambda>c. case leb_dec c of Inr (n, _) \<Rightarrow> Some n | Inl _ \<Rightarrow> None),
      sp_decompress = (\<lambda>c n. case leb_dec c of
          Inr (m, r) \<Rightarrow> (case read_literals r of Some y \<Rightarrow> if m = n \<and> length y = n then Some y else None | None \<Rightarrow> None)
        | Inl _ \<Rightarrow> None)\<rparr>"

lemma read_literal:
  assumes "as \<noteq> []" "length as \<le> 60"
  shows "read_literals (of_nat (4 * (length as - 1)) # as @ r) = map_option (append as) (read_literals r)"
proof -
  have "4 * (length as - 1) < 2 ^ 8" using assms(2) by simp
  then have t: "unat (of_nat (4 * (length as - 1)) :: byte) = 4 * (length as - 1)" by (simp only: unat_of_nat) simp
  have "1 \<le> length as" using assms(1) by (simp add: Suc_le_eq)
  then have "unat (of_nat (4 * (length as - 1)) :: byte) div 4 + 1 = length as" "unat (of_nat (4 * (length as - 1)) :: byte) mod 4 = 0"
    unfolding t by simp_all
  then show ?thesis using assms(2) unfolding read_literals.simps(2) Let_def by (simp only:) simp
qed

lemma read_literals_inv: "read_literals (literals x) = Some x"
proof (induction x rule: literals.induct)
  case (1 x)
  show ?case
  proof (cases "x = []")
    case False
    have "literals x = of_nat (4 * (length (take 60 x) - 1)) # take 60 x @ literals (drop 60 x)"
      using False by (subst literals.simps) (simp add: min.commute)
    then have "read_literals (literals x) = map_option (append (take 60 x)) (read_literals (literals (drop 60 x)))"
      using read_literal [of "take 60 x"] False by (simp only:) simp
    then show ?thesis using 1 False by simp
  qed (simp add: literals.simps)
qed

interpretation literal: snappy literal_snap
  by unfold_locales (auto simp: literal_snap_def leb_dec_enc read_literals_inv split: sum.splits option.splits if_splits)

section \<open>Round trip\<close>

text \<open>
  C27. Decompressing gives back what was compressed, except for compressed messages of more than 8 MiB, which are refused;
  and what a peer sends never expands to more than 8 MiB.
\<close>

theorem compress_roundtrip:
  assumes "snappy S"
  shows "decompress S (compress S x) = (if MAX_UNCOMPRESSED_LEN < length x \<and> sp_compress S x \<noteq> None then Err InvalidData else Ok x)
    \<and> (decompress S m = Ok y \<longrightarrow> length y \<le> max MAX_UNCOMPRESSED_LEN (length m - 1))"
  using snappy.roundtrip [OF assms] snappy.bounded [OF assms] by blast

theorem compress_roundtrip_witness:
  "decompress literal_snap (compress literal_snap (replicate 2000 7)) = Ok (replicate 2000 7)
     \<and> compress_flag (compress literal_snap (replicate 2000 7))"
proof -
  have "compress_flag (compress literal_snap (replicate 2000 7))"
    by (simp add: compress_def message_compress_def message_from_raw_def literal_snap_def set_compress_flag_def compress_flag_def
        COMPRESSION_SIZE_THRESHOLD_def COMPRESS_FLAG_def)
  then show ?thesis using compress_roundtrip [OF literal.snappy_axioms, of "replicate 2000 7"] by (simp add: MAX_UNCOMPRESSED_LEN_def)
qed

end
