(* ===== verification/Connector_State.thy ===== *)
theory Connector_State
  imports Service_Loop Connector_Compress
begin

text \<open>
  The connector (\<open>connector/src\<close>): the protocols of a node (\<open>support_protocols.rs\<close>), the state its handlers share
  (\<open>shared.rs\<close>) and the handlers (\<open>simple_protocol_handler.rs\<close>, \<open>simple_service_handler.rs\<close>). A mailbox is
  shared by whoever holds one of its ends, so mailboxes live in a store and the state keeps their numbers. A panic while the lock is
  held poisons it.
\<close>

section \<open>Protocols\<close>

datatype support_protocol =
    SpPing | SpDiscovery | SpIdentify | SpFeeler | SpDisconnectMessage | SpSync | SpRelay | SpRelayV2 | SpTime | SpAlert

fun protocol_id :: "support_protocol \<Rightarrow> usize" where
  "protocol_id SpPing = 0"
| "protocol_id SpDiscovery = 1"
| "protocol_id SpIdentify = 2"
| "protocol_id SpFeeler = 3"
| "protocol_id SpDisconnectMessage = 4"
| "protocol_id SpSync = 100"
| "protocol_id SpRelay = 101"
| "protocol_id SpTime = 102"
| "protocol_id SpRelayV2 = 103"
| "protocol_id SpAlert = 110"

fun protocol_name :: "support_protocol \<Rightarrow> str" where
  "protocol_name SpPing = lit ''/ckb/ping''"
| "protocol_name SpDiscovery = lit ''/ckb/discovery''"
| "protocol_name SpIdentify = lit ''/ckb/identify''"
| "protocol_name SpFeeler = lit ''/ckb/flr''"
| "protocol_name SpDisconnectMessage = lit ''/ckb/disconnectmsg''"
| "protocol_name SpSync = lit ''/ckb/syn''"
| "protocol_name SpRelay = lit ''/ckb/rel''"
| "protocol_name SpRelayV2 = lit ''/ckb/relay''"
| "protocol_name SpTime = lit ''/ckb/tim''"
| "protocol_name SpAlert = lit ''/ckb/alt''"

fun support_versions :: "support_protocol \<Rightarrow> str list" where
  "support_versions SpPing = [lit ''0.0.1'', lit ''2'']"
| "support_versions SpDiscovery = [lit ''0.0.1'', lit ''2'']"
| "support_versions SpIdentify = [lit ''0.0.1'', lit ''2'']"
| "support_versions SpFeeler = [lit ''0.0.1'', lit ''2'']"
| "support_versions SpDisconnectMessage = [lit ''0.0.1'', lit ''2'']"
| "support_versions SpSync = [lit ''1'', lit ''2'']"
| "support_versions SpRelay = [lit ''1'']"
| "support_versions SpTime = [lit ''1'', lit ''2'']"
| "support_versions SpAlert = [lit ''1'', lit ''2'']"
| "support_versions SpRelayV2 = [lit ''2'']"

fun protocol_max_frame :: "support_protocol \<Rightarrow> nat" where
  "protocol_max_frame SpPing = 1024"
| "protocol_max_frame SpDiscovery = 512 * 1024"
| "protocol_max_frame SpIdentify = 2 * 1024"
| "protocol_max_frame SpFeeler = 1024"
| "protocol_max_frame SpDisconnectMessage = 1024"
| "protocol_max_frame SpSync = 2 * 1024 * 1024"
| "protocol_max_frame SpRelay = 4 * 1024 * 1024"
| "protocol_max_frame SpRelayV2 = 4 * 1024 * 1024"
| "protocol_max_frame SpTime = 1024"
| "protocol_max_frame SpAlert = 128 * 1024"

text \<open>\<open>MetaBuilder::from\<close>; \<open>C\<close> replaces the codec of a stream by the length-delimited codec with a maximal frame length.\<close>

definition meta_from :: "(nat \<Rightarrow> 'h \<Rightarrow> 'h) \<Rightarrow> support_protocol \<Rightarrow> 'h meta_builder" where
  "meta_from C p =
     mb_codec (C (protocol_max_frame p))
       (mb_name (\<lambda>_. protocol_name p) (mb_support_versions (support_versions p) (mb_id (protocol_id p) meta_builder_default)))"

definition build_meta_with_service_handle :: "(nat \<Rightarrow> 'h \<Rightarrow> 'h) \<Rightarrow> bool \<Rightarrow> support_protocol \<Rightarrow> 'h service_meta option" where
  "build_meta_with_service_handle C callback p = mb_build (mb_service_handle callback (meta_from C p))"

text \<open>\<open>SimpleProtocolHandler::build\<close>.\<close>

definition simple_build :: "(nat \<Rightarrow> 'h \<Rightarrow> 'h) \<Rightarrow> snap_ops \<Rightarrow> bool \<Rightarrow> support_protocol \<Rightarrow> 'h service_meta option" where
  "simple_build C S be_compressed p =
     mb_build (mb_service_handle True
       (if be_compressed then mb_before_receive (Some (decompress S)) (mb_before_send (compress S) (meta_from C p)) else meta_from C p))"

section \<open>Shared state\<close>

type_synonym network_info = "ses_ctx \<times> (usize \<times> nat) list"

record shared_state =
  sh_sessions :: "(usize \<times> network_info) list"
  sh_peers :: "(peer_id \<times> usize list) list"
  sh_boxes :: "byte list list list"
  sh_poisoned :: bool

datatype identify_by = BySessionId usize | ByMultiaddr multiaddr | ByPeerId peer_id

definition shared_new :: shared_state where
  "shared_new = \<lparr>sh_sessions = [], sh_peers = [], sh_boxes = [], sh_poisoned = False\<rparr>"

definition add_session :: "(public_key \<Rightarrow> peer_id option) \<Rightarrow> ses_ctx \<Rightarrow> shared_state \<Rightarrow> shared_state option" where
  "add_session pidf cx s = do {
     s1 \<leftarrow> (case cx_pubkey cx of
         None \<Rightarrow> Some s
       | Some key \<Rightarrow> do {
           peer \<leftarrow> pidf key;
           let ids = (case map_of (sh_peers s) peer of Some ids \<Rightarrow> ids | None \<Rightarrow> []);
           Some (s\<lparr>sh_peers := insert_key peer (ids @ [cx_id cx]) (sh_peers s)\<rparr>)
         });
     Some (s1\<lparr>sh_sessions := or_insert (cx_id cx) (cx, []) (sh_sessions s1)\<rparr>)
   }"

definition remove_session :: "(public_key \<Rightarrow> peer_id option) \<Rightarrow> usize \<Rightarrow> shared_state \<Rightarrow> (shared_state \<times> ses_ctx option) option" where
  "remove_session pidf i s =
     (case map_of (sh_sessions s) i of
        None \<Rightarrow> Some (s, None)
      | Some (cx, _) \<Rightarrow> do {
          let s1 = s\<lparr>sh_sessions := remove_key i (sh_sessions s)\<rparr>;
          s2 \<leftarrow> (case cx_pubkey cx of
              None \<Rightarrow> Some s1
            | Some key \<Rightarrow> do {
                peer \<leftarrow> pidf key;
                Some (case map_of (sh_peers s1) peer of
                        None \<Rightarrow> s1
                      | Some ids \<Rightarrow>
                          let ids1 = filter (\<lambda>j. j \<noteq> cx_id cx) ids in
                          s1\<lparr>sh_peers := (if ids1 = [] then remove_key peer (sh_peers s1) else insert_key peer ids1 (sh_peers s1))\<rparr>)
              });
          Some (s2, Some cx)
        })"

definition get_peer_sessions :: "peer_id \<Rightarrow> shared_state \<Rightarrow> ses_ctx list" where
  "get_peer_sessions peer s =
     List.map_filter (\<lambda>i. map_option fst (map_of (sh_sessions s) i)) (case map_of (sh_peers s) peer of Some ids \<Rightarrow> ids | None \<Rightarrow> [])"

definition get_network_info :: "identify_by \<Rightarrow> shared_state \<Rightarrow> network_info option" where
  "get_network_info by' s =
     (case by' of
        ByMultiaddr addr \<Rightarrow> map_option snd (find (\<lambda>(_, cx, _). cx_address cx = addr) (sh_sessions s))
      | BySessionId i \<Rightarrow> map_of (sh_sessions s) i
      | ByPeerId peer \<Rightarrow>
          (case get_peer_sessions peer s of
             [] \<Rightarrow> None
           | cx # _ \<Rightarrow> map_of (sh_sessions s) (cx_id cx)))"

definition get_session :: "identify_by \<Rightarrow> shared_state \<Rightarrow> ses_ctx option" where
  "get_session by' s = map_option fst (get_network_info by' s)"

definition get_peer_session :: "peer_id \<Rightarrow> shared_state \<Rightarrow> ses_ctx option" where
  "get_peer_session peer s = get_session (ByPeerId peer) s"

definition add_protocol :: "ses_ctx \<Rightarrow> usize \<Rightarrow> shared_state \<Rightarrow> shared_state" where
  "add_protocol cx pid s =
     (let m = or_insert (cx_id cx) (cx, []) (sh_sessions s) in
      s\<lparr>sh_sessions := map (\<lambda>(i, c, boxes). (i, c, if i = cx_id cx then insert_key pid (length (sh_boxes s)) boxes else boxes)) m,
        sh_boxes := sh_boxes s @ [[]]\<rparr>)"

definition remove_protocol :: "usize \<Rightarrow> usize \<Rightarrow> shared_state \<Rightarrow> shared_state" where
  "remove_protocol i pid s =
     s\<lparr>sh_sessions := map (\<lambda>(j, c, boxes). (j, c, if j = i then remove_key pid boxes else boxes)) (sh_sessions s)\<rparr>"

text \<open>\<open>get_protocol_sender\<close> and \<open>get_protocol_receiver\<close>: the two ends of the same mailbox.\<close>

definition get_mailbox :: "identify_by \<Rightarrow> usize \<Rightarrow> shared_state \<Rightarrow> nat option" where
  "get_mailbox by' pid s = Option.bind (get_network_info by' s) (\<lambda>(_, boxes). map_of boxes pid)"

definition get_opened_protocol_ids :: "identify_by \<Rightarrow> shared_state \<Rightarrow> usize list option" where
  "get_opened_protocol_ids by' s = map_option (\<lambda>(_, boxes). map fst boxes) (get_network_info by' s)"

definition get_sessions :: "shared_state \<Rightarrow> ses_ctx list" where
  "get_sessions s = map (\<lambda>(_, cx, _). cx) (sh_sessions s)"

definition get_session_ids :: "shared_state \<Rightarrow> usize list" where
  "get_session_ids s = map (\<lambda>(_, cx, _). cx_id cx) (sh_sessions s)"

definition box_send :: "nat \<Rightarrow> byte list \<Rightarrow> shared_state \<Rightarrow> shared_state" where
  "box_send k data s = s\<lparr>sh_boxes := (sh_boxes s)[k := sh_boxes s ! k @ [data]]\<rparr>"

section \<open>Handlers\<close>

text \<open>
  A handler writes under the lock and does nothing when it is poisoned. \<open>Inl\<close> is the state after a panic; a panic under the lock
  poisons it, after which nothing reads what it guards.
\<close>

definition locked :: "(shared_state \<Rightarrow> shared_state option) \<Rightarrow> shared_state \<Rightarrow> shared_state + shared_state" where
  "locked f s = (if sh_poisoned s then Ok s else case f s of Some s1 \<Rightarrow> Ok s1 | None \<Rightarrow> Err (s\<lparr>sh_poisoned := True\<rparr>))"

definition simple_connected :: "ses_ctx \<Rightarrow> usize \<Rightarrow> shared_state \<Rightarrow> shared_state + shared_state" where
  "simple_connected cx pid = locked (\<lambda>s. Some (add_protocol cx pid s))"

definition simple_disconnected :: "ses_ctx \<Rightarrow> usize \<Rightarrow> shared_state \<Rightarrow> shared_state + shared_state" where
  "simple_disconnected cx pid = locked (\<lambda>s. Some (remove_protocol (cx_id cx) pid s))"

definition simple_received :: "ses_ctx \<Rightarrow> usize \<Rightarrow> byte list \<Rightarrow> shared_state \<Rightarrow> shared_state + shared_state" where
  "simple_received cx pid data =
     locked (\<lambda>s. map_option (\<lambda>k. box_send k data s) (get_mailbox (BySessionId (cx_id cx)) pid s))"

text \<open>\<open>SimpleServiceHandler::handle_event\<close>; the events of listeners reach \<open>unimplemented!()\<close>, without the lock.\<close>

definition simple_event :: "(public_key \<Rightarrow> peer_id option) \<Rightarrow> service_event \<Rightarrow> shared_state \<Rightarrow> shared_state + shared_state" where
  "simple_event pidf event s =
     (case event of
        VvSessionOpen cx \<Rightarrow> locked (add_session pidf cx) s
      | VvSessionClose cx \<Rightarrow> locked (\<lambda>s. map_option fst (remove_session pidf (cx_id cx) s)) s
      | VvListenClose _ \<Rightarrow> Err s
      | VvListenStarted _ \<Rightarrow> Err s)"

section \<open>The connector\<close>

text \<open>\<open>Connector::get_session\<close> and \<open>get_opened_protocol_ids\<close>: \<open>unreachable!()\<close> when the lock is poisoned.\<close>

definition connector_get_session :: "identify_by \<Rightarrow> shared_state \<Rightarrow> ses_ctx option option" where
  "connector_get_session by' s = (if sh_poisoned s then None else Some (get_session by' s))"

definition connector_opened :: "identify_by \<Rightarrow> shared_state \<Rightarrow> usize list option option" where
  "connector_opened by' s = (if sh_poisoned s then None else Some (get_opened_protocol_ids by' s))"

text \<open>\<open>Connector::send\<close>: the call of the control, or the error that there is no session.\<close>

definition connector_send :: "identify_by \<Rightarrow> support_protocol \<Rightarrow> byte list \<Rightarrow> shared_state \<Rightarrow> 't control_call option option" where
  "connector_send by' p data s =
     map_option (map_option (\<lambda>cx. CallSendMessageTo (cx_id cx) (protocol_id p) data)) (connector_get_session by' s)"

text \<open>\<open>send_relay_transaction\<close> and \<open>send_relay_transaction_hash\<close>; the built message is a parameter.\<close>

definition send_relay :: "identify_by \<Rightarrow> support_protocol \<Rightarrow> byte list \<Rightarrow> shared_state \<Rightarrow> 't control_call option option" where
  "send_relay by' p message s =
     (if protocol_id p = protocol_id SpRelay \<or> protocol_id p = protocol_id SpRelayV2 then connector_send by' p message s else None)"

text \<open>\<open>Connector::recv\<close>: the mailbox is looked up once; \<open>None\<close> inside when the protocol is not open. Reading takes the first message.\<close>

definition connector_recv :: "identify_by \<Rightarrow> support_protocol \<Rightarrow> shared_state \<Rightarrow> nat option option" where
  "connector_recv by' p s = (if sh_poisoned s then None else Some (get_mailbox by' (protocol_id p) s))"

definition box_take :: "nat \<Rightarrow> shared_state \<Rightarrow> (byte list \<times> shared_state) option" where
  "box_take k s =
     (case sh_boxes s ! k of
        [] \<Rightarrow> None
      | data # rest \<Rightarrow> Some (data, s\<lparr>sh_boxes := (sh_boxes s)[k := rest]\<rparr>))"

text \<open>
  \<open>Connector::connect\<close>, after the dial was sent: the state at each iteration, and whether the five seconds are over then. The result
  says whether the protocols were seen open in time; \<open>None\<close> is a panic, or that the observations end first.
\<close>

definition expected_opened :: "usize list \<Rightarrow> nat" where
  "expected_opened protos = length (filter (\<lambda>i. i \<noteq> protocol_id SpIdentify \<and> i \<noteq> protocol_id SpDisconnectMessage) protos)"

fun connect_loop :: "multiaddr \<Rightarrow> usize list \<Rightarrow> (bool \<times> shared_state) list \<Rightarrow> bool option" where
  "connect_loop addr protos [] = None"
| "connect_loop addr protos ((over, s) # obs) =
     (if over then Some False
      else case connector_opened (ByMultiaddr addr) s of
        None \<Rightarrow> None
      | Some (Some ids) \<Rightarrow> if expected_opened protos \<le> length ids then Some True else connect_loop addr protos obs
      | Some None \<Rightarrow> connect_loop addr protos obs)"

text \<open>\<open>ConnectorBuilder\<close>.\<close>

record ('h, 'q) connector_builder =
  cb_key :: 'q
  cb_listens :: "multiaddr list"
  cb_metas :: "'h service_meta list"
  cb_window :: u32
  cb_send_buffer :: usize
  cb_recv_buffer :: usize

definition connector_builder_new :: "'q \<Rightarrow> ('h, 'q) connector_builder" where
  "connector_builder_new generated =
     \<lparr>cb_key = generated, cb_listens = [], cb_metas = [], cb_window = 256 * 1024,
      cb_send_buffer = 24 * 1024 * 1024, cb_recv_buffer = 24 * 1024 * 1024\<rparr>"

definition cb_key_pair :: "'q \<Rightarrow> ('h, 'q) connector_builder \<Rightarrow> ('h, 'q) connector_builder" where
  "cb_key_pair key b = b\<lparr>cb_key := key\<rparr>"

definition cb_yamux_config :: "u32 \<Rightarrow> ('h, 'q) connector_builder \<Rightarrow> ('h, 'q) connector_builder" where
  "cb_yamux_config window b = b\<lparr>cb_window := window\<rparr>"

definition cb_send_buffer_size :: "usize \<Rightarrow> ('h, 'q) connector_builder \<Rightarrow> ('h, 'q) connector_builder" where
  "cb_send_buffer_size n b = b\<lparr>cb_send_buffer := n\<rparr>"

definition cb_recv_buffer_size :: "usize \<Rightarrow> ('h, 'q) connector_builder \<Rightarrow> ('h, 'q) connector_builder" where
  "cb_recv_buffer_size n b = b\<lparr>cb_recv_buffer := n\<rparr>"

definition cb_protocol_meta :: "'h service_meta \<Rightarrow> ('h, 'q) connector_builder \<Rightarrow> ('h, 'q) connector_builder" where
  "cb_protocol_meta m b = b\<lparr>cb_metas := cb_metas b @ [m]\<rparr>"

definition cb_protocol_metas :: "'h service_meta list \<Rightarrow> ('h, 'q) connector_builder \<Rightarrow> ('h, 'q) connector_builder" where
  "cb_protocol_metas ms b = b\<lparr>cb_metas := cb_metas b @ ms\<rparr>"

definition cb_listening_addresses :: "multiaddr list \<Rightarrow> ('h, 'q) connector_builder \<Rightarrow> ('h, 'q) connector_builder" where
  "cb_listening_addresses as b = b\<lparr>cb_listens := as\<rparr>"

text \<open>\<open>build_p2p_service\<close>: the chain of setters; the socket options set for a single listening address are not kept.\<close>

definition build_p2p_service :: "('h, 'q) connector_builder \<Rightarrow> ('h, 'q) service_builder option" where
  "build_p2p_service b =
     set_all (map InsertProtocol (cb_metas b)
         @ [SetForever True, KeyPair (cb_key b), YamuxConfig (cb_window b), SendBufferSize (cb_send_buffer b), RecvBufferSize (cb_recv_buffer b)])
       service_builder_new"

definition connector_build :: "('h, 'q) connector_builder \<Rightarrow> ('w, 'h, 'y, 'k, 'i, 't) service option" where
  "connector_build b =
     (if distinct (map meta_name (cb_metas b)) \<and> (\<exists>m \<in> set (cb_metas b). pm_id (vm_inner m) = protocol_id SpSync)
      then map_option service_build (build_p2p_service b) else None)"

text \<open>The loop of the service's thread before it runs the service: \<open>unwrap\<close>, and the assertion on the bound address.\<close>

fun listen_all :: "('w, 'k) svc_env \<Rightarrow> (multiaddr \<times> (transport_error + multiaddr \<times> 'i)) list
    \<Rightarrow> ('w, 'h, 'y, 'k, 'i, 't) service \<Rightarrow> ('w, 'h, 'y, 'k, 'i, 't) service option" where
  "listen_all E [] s = Some s"
| "listen_all E ((address, res) # rest) s =
     (case service_listen E address res s of
        (s1, Inr actual) \<Rightarrow> if address = actual then listen_all E rest s1 else None
      | (_, Inl _) \<Rightarrow> None)"

section \<open>Runs of the handlers\<close>

text \<open>
  The calls the service and its protocol handles make, in the order of their locks, and the reads of mailboxes through a receiver
  that was looked up before.
\<close>

datatype handler_input =
    HiEvent service_event
  | HiConnected ses_ctx usize str
  | HiDisconnected ses_ctx usize
  | HiReceived ses_ctx usize "byte list"
  | HiTake nat

definition take_input :: "nat \<Rightarrow> shared_state \<Rightarrow> shared_state \<times> (nat \<times> byte list) list" where
  "take_input k s = (case box_take k s of Some (data, s1) \<Rightarrow> (s1, [(k, data)]) | None \<Rightarrow> (s, []))"

definition left :: "shared_state + shared_state \<Rightarrow> shared_state \<times> (nat \<times> byte list) list" where
  "left r = (case r of Inr s \<Rightarrow> (s, []) | Inl s \<Rightarrow> (s, []))"

fun simple_step :: "(public_key \<Rightarrow> peer_id option) \<Rightarrow> handler_input \<Rightarrow> shared_state \<Rightarrow> shared_state \<times> (nat \<times> byte list) list" where
  "simple_step pidf (HiEvent event) s = left (simple_event pidf event s)"
| "simple_step pidf (HiConnected cx pid version) s = left (simple_connected cx pid s)"
| "simple_step pidf (HiDisconnected cx pid) s = left (simple_disconnected cx pid s)"
| "simple_step pidf (HiReceived cx pid data) s = left (simple_received cx pid data s)"
| "simple_step pidf (HiTake k) s = (if k < length (sh_boxes s) then take_input k s else (s, []))"

text \<open>A panic ends the task it occurs in; the other handlers go on with the state it leaves.\<close>

fun simple_run :: "(public_key \<Rightarrow> peer_id option) \<Rightarrow> handler_input list \<Rightarrow> shared_state \<Rightarrow> shared_state \<times> (nat \<times> byte list) list" where
  "simple_run pidf [] s = (s, [])"
| "simple_run pidf (x # xs) s =
     (let (s1, rs) = simple_step pidf x s; (s2, rs') = simple_run pidf xs s1 in (s2, rs @ rs'))"

end
