(* ===== verification/Service_Laws.thy ===== *)
theory Service_Laws
  imports Service_Loop
begin

text \<open>
  What the service promises: the events the user sees open and close each session once, the number of
  connections is bounded, messages go to the sessions they are meant for, and both ways of shutting down end the loop.
\<close>

section \<open>What the user is told about sessions\<close>

fun ses_note :: "('w, 'h, 'y, 'k, 'i, 't) svc_out \<Rightarrow> (bool \<times> usize \<times> session_kind) list" where
  "ses_note (ToUser (OutEvent (VvSessionOpen cx))) = [(True, cx_id cx, cx_ty cx)]"
| "ses_note (ToUser (OutEvent (VvSessionClose cx))) = [(False, cx_id cx, cx_ty cx)]"
| "ses_note _ = []"

definition user_notes :: "('w, 'h, 'y, 'k, 'i, 't) service \<Rightarrow> (bool \<times> usize \<times> session_kind) list" where
  "user_notes s = concat (map ses_note (iv_out s))"

definition told :: "('w, 'h, 'y, 'k, 'i, 't) service \<Rightarrow> (bool \<times> usize) list" where
  "told s = map (\<lambda>(b, i, _). (b, i)) (user_notes s)"

definition session_ids :: "('w, 'h, 'y, 'k, 'i, 't) service \<Rightarrow> usize list" where
  "session_ids s = map fst (iv_sessions s)"

text \<open>The sessions open after a sequence of notes; \<open>None\<close> when one is opened twice or closed while not open.\<close>

fun open_after_notes :: "usize set \<Rightarrow> (bool \<times> usize) list \<Rightarrow> usize set option" where
  "open_after_notes S [] = Some S"
| "open_after_notes S ((True, i) # ns) = (if i \<in> S then None else open_after_notes (insert i S) ns)"
| "open_after_notes S ((False, i) # ns) = (if i \<in> S then open_after_notes (S - {i}) ns else None)"

lemma open_after_notes_append: "open_after_notes S (ns @ ms) = Option.bind (open_after_notes S ns) (\<lambda>S1. open_after_notes S1 ms)"
  by (induction S ns rule: open_after_notes.induct) auto

text \<open>The table of a user who keeps each opened session, with its kind, until it is closed.\<close>

fun note_table :: "bool \<times> usize \<times> session_kind \<Rightarrow> (usize \<times> session_kind) list \<Rightarrow> (usize \<times> session_kind) list" where
  "note_table (True, i, k) tab = tab @ [(i, k)]"
| "note_table (False, i, k) tab = filter (\<lambda>(j, _). j \<noteq> i) tab"

definition svc_ok :: "('w, 'h, 'y, 'k, 'i, 't) service \<Rightarrow> bool" where
  "svc_ok s \<longleftrightarrow> open_after_notes {} (told s) = Some (set (session_ids s)) \<and> distinct (session_ids s)
     \<and> (\<forall>(i, cx) \<in> set (iv_sessions s). cx_id cx = i)
     \<and> fold note_table (user_notes s) [] = map (\<lambda>(i, cx). (i, cx_ty cx)) (iv_sessions s)"

text \<open>What these facts depend on; most operations leave it as it is.\<close>

definition view :: "('w, 'h, 'y, 'k, 'i, 't) service
    \<Rightarrow> (usize \<times> usize \<times> session_kind) list \<times> (bool \<times> usize \<times> session_kind) list \<times> service_config" where
  "view s = (map (\<lambda>(i, cx). (i, cx_id cx, cx_ty cx)) (iv_sessions s), user_notes s, iv_config s)"

lemma session_ids_view: "session_ids s = map fst (fst (view s))"
  by (simp add: session_ids_def view_def case_prod_beta o_def)

lemma view_ids: "view s1 = view s \<Longrightarrow> session_ids s1 = session_ids s"
  by (simp add: session_ids_view)

lemma view_told: "view s1 = view s \<Longrightarrow> told s1 = told s"
  by (simp add: told_def view_def)

lemma svc_ok_view:
  "svc_ok s \<longleftrightarrow> open_after_notes {} (map (\<lambda>(b, i, _). (b, i)) (fst (snd (view s)))) = Some (set (map fst (fst (view s))))
     \<and> distinct (map fst (fst (view s))) \<and> (\<forall>(i, j, k) \<in> set (fst (view s)). j = i)
     \<and> fold note_table (fst (snd (view s))) [] = map (\<lambda>(i, j, k). (i, k)) (fst (view s))"
proof -
  have n: "fst (snd (view s)) = user_notes s" by (simp add: view_def)
  have i: "(\<forall>(i, cx) \<in> set (iv_sessions s). cx_id cx = i) \<longleftrightarrow> (\<forall>(i, j, k) \<in> set (fst (view s)). j = i)" by (auto simp: view_def)
  have k: "map (\<lambda>(i, cx). (i, cx_ty cx)) (iv_sessions s) = map (\<lambda>(i, j, k). (i, k)) (fst (view s))" by (auto simp: view_def)
  show ?thesis unfolding svc_ok_def session_ids_view told_def n i k by (rule refl)
qed

lemma view_ok: "view s1 = view s \<Longrightarrow> svc_ok s1 = svc_ok s"
  by (simp add: svc_ok_view)

lemma view_emit: "ses_note x = [] \<Longrightarrow> view (emit x s) = view s"
  by (simp add: view_def told_def user_notes_def emit_def)

lemma view_fold: "(\<And>x s. view (f x s) = view s) \<Longrightarrow> view (fold f xs s) = view s"
  by (induction xs arbitrary: s) simp_all

lemma view_updates [simp]:
  "view (s\<lparr>iv_state := st\<rparr>) = view s" "view (s\<lparr>iv_listens := l\<rparr>) = view s" "view (s\<lparr>iv_ctx_listens := l\<rparr>) = view s"
  "view (s\<lparr>iv_dials := d\<rparr>) = view s" "view (s\<lparr>iv_next := n\<rparr>) = view s" "view (s\<lparr>iv_sv_handles := h\<rparr>) = view s"
  "view (s\<lparr>iv_ss_handles := p\<rparr>) = view s" "view (s\<lparr>iv_rx_closed := c\<rparr>) = view s" "view (s\<lparr>iv_shutdown := c\<rparr>) = view s"
  "view (s\<lparr>iv_user_closed := c\<rparr>) = view s"
  by (simp_all add: view_def told_def user_notes_def)

lemma view_send_message: "view (send_message pid p data i s) = view s"
  by (auto simp: send_message_def view_def user_notes_def emit_def incr_pending_data_size_def comp_def split: option.splits)

lemma view_close_external: "view (session_close i External s) = view s"
  by (simp add: session_close_def view_emit)

lemma view_shutdown: "view (shutdown_service False s) = view s"
  by (simp add: shutdown_service_def Let_def view_fold view_close_external view_emit)

lemma view_update_service_handles: "view (fst (update_service_handles E a pids x)) = view (fst x)"
  by (induction E a pids x rule: update_service_handles.induct) (simp_all add: view_emit)

lemma view_update_session_handles: "view (fst (update_session_handles E a ps x)) = view (fst x)"
  by (induction E a ps x rule: update_session_handles.induct) (simp_all add: view_emit)

lemma view_try_update_listens: "view (try_update_listens E s) = view s"
  by (simp add: try_update_listens_def Let_def view_shutdown view_update_session_handles view_update_service_handles view_emit)

lemma view_open_handles: "view (open_handles i ms s) = view s"
  by (induction i ms s rule: open_handles.induct) (simp_all add: view_emit)

lemma state_fold: "(\<And>x s. iv_state (f x s) = iv_state s) \<Longrightarrow> iv_state (fold f xs s) = iv_state s"
  by (induction xs arbitrary: s) simp_all

lemma state_shutdown: "iv_state (shutdown_service quick s) = PreShutdown"
  by (simp add: shutdown_service_def pre_shutdown_def Let_def state_fold emit_def session_close_def split: option.split)

lemma state_update_service_handles: "iv_state (fst (update_service_handles E a pids x)) = iv_state (fst x)"
  by (induction E a pids x rule: update_service_handles.induct) (simp_all add: emit_def)

lemma state_update_session_handles: "iv_state (fst (update_session_handles E a ps x)) = iv_state (fst x)"
  by (induction E a ps x rule: update_session_handles.induct) (simp_all add: emit_def)

lemma try_update_state: "iv_state (try_update_listens E s) \<in> {iv_state s, PreShutdown}"
  by (simp add: try_update_listens_def Let_def state_shutdown state_update_session_handles state_update_service_handles emit_def)

lemmas view_frames = view_emit view_fold view_send_message view_close_external view_shutdown view_try_update_listens view_open_handles

lemma remove_key_absent: "map_of m k = None \<Longrightarrow> remove_key k m = m"
  by (force simp: remove_key_def map_of_eq_None_iff intro!: filter_True)

lemma map_of_ids: "map_of (iv_sessions s) i = None \<longleftrightarrow> i \<notin> set (session_ids s)"
  by (simp add: map_of_eq_None_iff session_ids_def)

lemma close_internal_ids: "session_ids (session_close i Internal s) = filter (\<lambda>j. j \<noteq> i) (session_ids s)"
  by (auto simp: session_close_def Let_def session_ids_def emit_def map_of_eq_None_iff intro!: filter_True [symmetric] split: option.split)

lemma close_internal_config: "iv_config (session_close i Internal s) = iv_config s"
  by (simp add: session_close_def Let_def emit_def split: option.split)

lemma close_internal_notes:
  assumes "svc_ok s"
  obtains k where "user_notes (session_close i Internal s) = user_notes s @ (if i \<in> set (session_ids s) then [(False, i, k)] else [])"
proof (cases "map_of (iv_sessions s) i")
  case None
  then show ?thesis using that map_of_ids [of s i] by (simp add: session_close_def user_notes_def)
next
  case (Some cx)
  then have "(i, cx) \<in> set (iv_sessions s)" by (rule map_of_SomeD)
  then have "cx_id cx = i" "i \<in> set (session_ids s)" using assms by (force simp: svc_ok_def session_ids_def)+
  then show ?thesis using Some that [of "cx_ty cx"] by (simp add: session_close_def user_notes_def emit_def)
qed

lemma close_internal_told:
  assumes "svc_ok s"
  shows "told (session_close i Internal s) = told s @ (if i \<in> set (session_ids s) then [(False, i)] else [])"
proof -
  obtain k where "user_notes (session_close i Internal s) = user_notes s @ (if i \<in> set (session_ids s) then [(False, i, k)] else [])"
    using close_internal_notes [OF assms] by blast
  then show ?thesis by (simp add: told_def)
qed

lemma close_internal_sessions: "iv_sessions (session_close i Internal s) = remove_key i (iv_sessions s)"
proof (cases "map_of (iv_sessions s) i")
  case None
  then show ?thesis by (simp add: session_close_def remove_key_absent)
qed (simp add: session_close_def emit_def)

lemma close_internal_ok:
  assumes "svc_ok s"
  shows "svc_ok (session_close i Internal s)"
proof -
  obtain k where k: "user_notes (session_close i Internal s) = user_notes s @ (if i \<in> set (session_ids s) then [(False, i, k)] else [])"
    using close_internal_notes [OF assms] by blast
  have r: "map (\<lambda>(j, cx). (j, cx_ty cx)) (remove_key i m) = filter (\<lambda>(j, _). j \<noteq> i) (map (\<lambda>(j, cx). (j, cx_ty cx)) m)" for m
    by (induction m) (auto simp: remove_key_def)
  have "i \<notin> set (session_ids s) \<Longrightarrow> remove_key i (iv_sessions s) = iv_sessions s"
    using map_of_ids [of s i] by (simp add: remove_key_absent)
  then have "fold note_table (user_notes (session_close i Internal s)) [] = map (\<lambda>(j, cx). (j, cx_ty cx)) (remove_key i (iv_sessions s))"
    using assms r [of "iv_sessions s"] by (auto simp: k svc_ok_def)
  moreover have "open_after_notes {} (told (session_close i Internal s)) = Some (set (filter (\<lambda>j. j \<noteq> i) (session_ids s)))"
    using assms by (auto simp: close_internal_told [OF assms] open_after_notes_append svc_ok_def)
  ultimately show ?thesis using assms by (auto simp: svc_ok_def close_internal_ids close_internal_sessions set_remove_key)
qed

lemma close_all_ids: "session_ids (fold (\<lambda>i. session_close i Internal) is' s) = filter (\<lambda>j. j \<notin> set is') (session_ids s)"
  by (induction is' arbitrary: s) (auto simp: close_internal_ids conj_commute)

lemma close_sessions_ok: "svc_ok s \<Longrightarrow> svc_ok (fold (\<lambda>i. session_close i Internal) is' s)"
  by (induction is' arbitrary: s) (auto intro: close_internal_ok)

lemma close_all_config: "iv_config (fold (\<lambda>i. session_close i Internal) is' s) = iv_config s"
  by (induction is' arbitrary: s) (auto simp: close_internal_config)

lemma close_all_told:
  assumes "svc_ok s" "distinct is'" "set is' \<subseteq> set (session_ids s)"
  shows "told (fold (\<lambda>i. session_close i Internal) is' s) = told s @ map (Pair False) is'"
  using assms
proof (induction is' arbitrary: s)
  case (Cons i is')
  then show ?case
    using Cons.IH [OF close_internal_ok [OF Cons.prems(1)], of i] by (auto simp: close_internal_told close_internal_ids)
qed simp

text \<open>Opening: a new session gets a number that is not in use.\<close>

lemma open_handles_frame:
  "iv_sessions (open_handles i ms s) = iv_sessions s" "user_notes (open_handles i ms s) = user_notes s" "iv_config (open_handles i ms s) = iv_config s"
  "iv_state (open_handles i ms s) = iv_state s"
  by (induction i ms s rule: open_handles.induct) (simp_all add: emit_def told_def user_notes_def)

lemma session_open_cases:
  assumes "session_open E handle key address ty listen s = Some s1"
  obtains (refused) "view s1 = view s" "iv_state s1 = iv_state s"
  | (opened) n cx where "n \<notin> set (session_ids s)" "cx_id cx = n" "iv_sessions s1 = iv_sessions s @ [(n, cx)]"
      "user_notes s1 = user_notes s @ [(True, n, cx_ty cx)]" "iv_config s1 = iv_config s" "iv_state s1 = iv_state s"
proof -
  define s0 where "s0 = s\<lparr>iv_dials := remove_key address (iv_dials s)\<rparr>"
  obtain a where a: "admit E key address (iv_sessions s0) = Some a"
    using assms by (auto simp: session_open_def s0_def bind_eq_Some_conv Let_def)
  show ?thesis
  proof (cases a)
    case (Repeated i)
    then have "view s1 = view s \<and> iv_state s1 = iv_state s"
      using assms a by (auto simp: session_open_def s0_def view_emit Let_def split: if_splits) (simp_all add: emit_def)
    then show ?thesis using refused by blast
  next
    case WrongPeer
    then have "view s1 = view s \<and> iv_state s1 = iv_state s"
      using assms a by (auto simp: session_open_def s0_def view_emit) (simp add: emit_def)
    then show ?thesis using refused by blast
  next
    case (Admitted full)
    obtain t where t: "generate_next_session s0 = Some t"
      using assms a Admitted by (auto simp: session_open_def s0_def bind_eq_Some_conv Let_def)
    define cx where "cx = ses_ctx_new (iv_next t) full ty key"
    define u where "u = session_handles_open (iv_next t) (t\<lparr>iv_sessions := insert_key (cx_id cx) cx (iv_sessions t)\<rparr>)"
    obtain ses where s1: "s1 = to_user (OutEvent (VvSessionOpen cx)) (emit (SpawnSession ses) u)"
      using assms a Admitted t by (auto simp: session_open_def s0_def [symmetric] cx_def u_def bind_eq_Some_conv Let_def split: if_splits)
    have n: "iv_next t \<notin> set (session_ids s)" "iv_sessions t = iv_sessions s" "user_notes t = user_notes s" "iv_config t = iv_config s" "iv_state t = iv_state s"
      using t next_free_not_used [of "map fst (iv_sessions s)" "iv_next s"]
      by (force simp: generate_next_session_def s0_def session_ids_def told_def user_notes_def)+
    have i: "cx_id cx = iv_next t" by (simp add: cx_def ses_ctx_new_def)
    have "remove_key (iv_next t) (iv_sessions s) = iv_sessions s"
      using n(1) map_of_ids [of s "iv_next t"] by (simp add: remove_key_absent)
    then have "iv_sessions u = iv_sessions s @ [(iv_next t, cx)]" "user_notes u = user_notes s" "iv_config u = iv_config s" "iv_state u = iv_state s"
      using n i by (simp_all add: u_def session_handles_open_def open_handles_frame insert_key_def) (simp add: told_def user_notes_def)
    then show ?thesis using opened [OF n(1) i] s1 i by (simp add: emit_def told_def user_notes_def)
  qed
qed

section \<open>Turns of the loop\<close>

text \<open>
  A task or an event changes what the user has been told only by opening or closing sessions. \<open>closing\<close> relates two
  states between which sessions were only closed.
\<close>

definition closing :: "('w, 'h, 'y, 'k, 'i, 't) service \<Rightarrow> ('w, 'h, 'y, 'k, 'i, 't) service \<Rightarrow> bool" where
  "closing s s1 \<longleftrightarrow> (svc_ok s \<longrightarrow> svc_ok s1) \<and> iv_config s1 = iv_config s \<and> set (session_ids s1) \<subseteq> set (session_ids s)
     \<and> length (session_ids s1) \<le> length (session_ids s)"

lemma closing_view: "view s1 = view s \<Longrightarrow> closing s s1"
  using view_ok [of s1 s] view_ids [of s1 s] by (auto simp: closing_def view_def)

lemma closing_from: "view t = view s \<Longrightarrow> closing t s1 \<Longrightarrow> closing s s1"
  using view_ok [of t s] view_ids [of t s] by (auto simp: closing_def view_def)

lemma closing_internal: "closing s (session_close i Internal s)"
  by (auto simp: closing_def close_internal_ok close_internal_config close_internal_ids)

lemma closing_shutdown: "closing s (shutdown_service quick s)"
proof (cases quick)
  case True
  define t where "t = fold (\<lambda>a. to_user (OutEvent (VvListenClose a))) (iv_listens s)
    (s\<lparr>iv_state := PreShutdown, iv_listens := []\<rparr>)"
  have v: "view (t\<lparr>iv_rx_closed := True, iv_sv_handles := [], iv_ss_handles := []\<rparr>) = view s"
    by (simp add: t_def view_fold view_emit)
  have "closing u (fold (\<lambda>i. session_close i Internal) is' u)" for u :: "('a, 'b, 'c, 'd, 'e, 'f) service" and is'
    by (auto simp: closing_def close_sessions_ok close_all_config close_all_ids)
  then show ?thesis using True closing_from [OF v]
    by (simp add: shutdown_service_def pre_shutdown_def t_def Let_def)
next
  case False
  then show ?thesis using closing_view [OF view_shutdown] by simp
qed

lemma closing_task: "closing s (handle_service_task E task p s)"
proof (cases task)
  case (TkShutdown quick)
  then show ?thesis using closing_shutdown by (simp add: handle_service_task_def)
qed (auto simp: handle_service_task_def handle_message_def Let_def dial_inner_def listen_inner_def protocol_open_def protocol_close_def
    view_frames intro!: closing_view split: sum.splits target_protocol.splits)

lemma closing_event:
  assumes "svc_session_event E event s = Some s1" "\<And>handle key address ty listen. event \<noteq> SeHandshakeSuccess handle key address ty listen"
  shows "closing s s1"
proof (cases event)
  case (SeSessionClose i)
  then show ?thesis using assms closing_internal [of s i] by (simp add: svc_session_event_def)
qed (use assms in \<open>auto simp: svc_session_event_def Let_def spawn_listener_def view_frames intro!: closing_view split: option.splits\<close>)

text \<open>The shape of a turn: sessions are closed, or one is opened under the connection limit.\<close>

fun outbound_success :: "('y, 'k, 'i, 't) turn \<Rightarrow> bool" where
  "outbound_success (SessionTurn (SeHandshakeSuccess _ _ _ Outbound _)) = True"
| "outbound_success _ = False"

definition at_check :: "('y, 'k, 'i, 't) turn \<Rightarrow> service_state \<Rightarrow> service_state" where
  "at_check t st = (if outbound_success t then decrease st else st)"

lemma turn_cases:
  fixes s :: "('w, 'h, 'y, 'k, 'i, 't) service"
  assumes "service_turn E t s = Some (s1, go)"
  obtains (closed) "closing s s1"
  | (opened) n cx and u :: "('w, 'h, 'y, 'k, 'i, 't) service" where "view u = view s" "\<not> reached_max_connection_limit u" "iv_state u \<in> {at_check t (iv_state s), PreShutdown}"
      "n \<notin> set (session_ids s)" "cx_id cx = n" "iv_sessions s1 = iv_sessions u @ [(n, cx)]"
      "user_notes s1 = user_notes s @ [(True, n, cx_ty cx)]" "iv_config s1 = iv_config s"
proof (cases "service_idle s")
  case True
  then have "s1 = s\<lparr>iv_shutdown := True, iv_user_closed := True\<rparr>" using assms by (simp add: service_turn_def)
  then have "view s1 = view s" by simp
  then show ?thesis using closed [OF closing_view] by blast
next
  case False
  define v where "v = try_update_listens E s"
  have v: "view v = view s" by (simp add: v_def view_try_update_listens)
  show ?thesis
  proof (cases t)
    case (SessionTurn event)
    with assms False have ev: "svc_session_event E event v = Some s1" by (auto simp: service_turn_def v_def Let_def)
    show ?thesis
    proof (cases "\<exists>handle key address ty listen. event = SeHandshakeSuccess handle key address ty listen")
      case True
      then obtain handle key address ty listen where e: "event = SeHandshakeSuccess handle key address ty listen" by blast
      define u where "u = (if ty = Outbound then v\<lparr>iv_state := decrease (iv_state v)\<rparr> else v)"
      have u: "view u = view s" "iv_state u \<in> {at_check t (iv_state s), PreShutdown}"
        using v try_update_state [of E s] by (auto simp: u_def e SessionTurn at_check_def v_def intro: session_kind.exhaust [of ty])
      show ?thesis
      proof (cases "reached_max_connection_limit u")
        case True
        then have "view s1 = view s" using ev u by (simp add: svc_session_event_def e u_def Let_def)
        then show ?thesis using closed [OF closing_view] by blast
      next
        case False
        then have "session_open E handle key address ty listen u = Some s1" using ev by (simp add: svc_session_event_def e u_def Let_def)
        then show ?thesis
        proof (cases rule: session_open_cases)
          case refused
          then show ?thesis using u closed [OF closing_view] by simp
        next
          case (opened n cx)
          then show ?thesis using opened(1) that(2) [OF u(1) False u(2)] u(1) view_ids [OF u(1)] by (simp add: view_def)
        qed
      qed
    next
      case False
      then show ?thesis using closed closing_from [OF v] closing_event [OF ev] by blast
    qed
  next
    case (TaskTurn p task)
    then show ?thesis using assms False closed closing_from [OF v closing_task] by (auto simp: service_turn_def v_def Let_def)
  next
    case NoTurn
    then show ?thesis using assms False by (simp add: service_turn_def)
  qed
qed

lemma turn_ok:
  assumes "service_turn E t s = Some (s1, go)" "svc_ok s"
  shows "svc_ok s1"
  using assms(1)
proof (cases rule: turn_cases)
  case closed
  then show ?thesis using assms(2) by (simp add: closing_def)
next
  case (opened n cx u)
  then have u: "svc_ok u" using assms(2) view_ok by blast
  have n: "user_notes u = user_notes s" using opened(1) by (simp add: view_def)
  then have "told s1 = told u @ [(True, n)]" using opened by (simp add: told_def)
  then show ?thesis using opened n view_ids [OF opened(1)] u
    by (auto simp: svc_ok_def session_ids_def open_after_notes_append)
qed

lemma run_invariant:
  assumes "service_run ts s = Some s1" "I s" and step: "\<And>E t s s1 go. service_turn E t s = Some (s1, go) \<Longrightarrow> I s \<Longrightarrow> I s1"
  shows "I s1"
  using assms(1,2)
proof (induction ts s rule: service_run.induct)
  case (2 E t ts s)
  then obtain s2 go where t: "service_turn E t s = Some (s2, go)" by (auto simp: bind_eq_Some_conv)
  show ?case
  proof (cases go)
    case True
    then show ?thesis using "2.IH" [OF t refl True] "2.prems" step [OF t] t by simp
  next
    case False
    then show ?thesis using "2.prems" step [OF t] t by simp
  qed
qed simp

lemma run_ok: "service_run ts s = Some s1 \<Longrightarrow> svc_ok s \<Longrightarrow> svc_ok s1"
  by (erule run_invariant) (auto intro: turn_ok)

lemma build_ok: "svc_ok (service_build b)"
  by (simp add: svc_ok_def service_build_def service_new_def told_def user_notes_def session_ids_def)

text \<open>
  C4. The user sees every session opened once and closed at most once, under a number that is not in use, whatever the
  sessions report and the user asks: the sessions opened and not yet closed are exactly those the service keeps.
\<close>

theorem session_events_bracketed:
  assumes "service_run ts (service_build b) = Some s"
  shows "open_after_notes {} (told s) = Some (set (session_ids s)) \<and> distinct (session_ids s)"
  using run_ok [OF assms build_ok] by (simp add: svc_ok_def)

section \<open>The number of connections\<close>

text \<open>
  The count of pending dials and listens of a service that may stop on its own: it is not zero when an outbound connection
  is counted off, and its sum with the number of sessions fits a machine word.
\<close>

definition sound_turn :: "('y, 'k, 'i, 't) turn \<Rightarrow> ('w, 'h, 'y, 'k, 'i, 't) service \<Rightarrow> bool" where
  "sound_turn t s \<longleftrightarrow>
     (case iv_state s of
        Running n \<Rightarrow> length (iv_sessions s) + unat n < 2 ^ 64 \<and> (n = 0 \<longrightarrow> \<not> outbound_success t)
      | _ \<Rightarrow> True)"

fun sound_run :: "(('w, 'k) svc_env \<times> ('y, 'k, 'i, 't) turn) list \<Rightarrow> ('w, 'h, 'y, 'k, 'i, 't) service \<Rightarrow> bool" where
  "sound_run [] s = True"
| "sound_run ((E, t) # ts) s =
     (sound_turn t s \<and> (case service_turn E t s of Some (s1, True) \<Rightarrow> sound_run ts s1 | _ \<Rightarrow> True))"

lemma task_state: "iv_state s \<in> {Forever, PreShutdown} \<Longrightarrow> iv_state (handle_service_task E task p s) \<in> {Forever, PreShutdown}"
  by (auto simp: handle_service_task_def handle_message_def Let_def dial_inner_def listen_inner_def protocol_open_def protocol_close_def
      state_fold state_shutdown send_message_def session_close_def emit_def split: service_task.split sum.split target_protocol.split option.split)

lemma session_open_state:
  assumes "session_open E handle key address ty listen s = Some s1"
  shows "iv_state s1 = iv_state s"
  using assms by (cases rule: session_open_cases)

lemma event_state:
  assumes "svc_session_event E event s = Some s1" "iv_state s \<in> {Forever, PreShutdown}"
  shows "iv_state s1 \<in> {Forever, PreShutdown}"
proof (cases event)
  case (SeHandshakeSuccess handle key address ty listen)
  have "iv_state s1 = iv_state s \<or> iv_state s1 = decrease (iv_state s)"
    using assms(1) by (auto simp: svc_session_event_def SeHandshakeSuccess Let_def split: if_splits dest: session_open_state)
  then show ?thesis using assms(2) by auto
next
  case (SeListenStart address incoming)
  define u where "u = (to_user (OutEvent (VvListenStarted address)) s)\<lparr>iv_listens := List.insert address (iv_listens s), iv_state := decrease (iv_state s)\<rparr>"
  have "iv_state s1 = iv_state (try_update_listens E u)" "iv_state u = decrease (iv_state s)"
    using assms(1) by (auto simp: svc_session_event_def SeListenStart u_def Let_def spawn_listener_def emit_def)
  then show ?thesis using assms(2) try_update_state [of E u] by auto
qed (use assms in \<open>auto simp: svc_session_event_def session_close_def emit_def Let_def state_shutdown split: option.splits if_splits\<close>)

lemma turn_state:
  assumes "service_turn E t s = Some (s1, go)" "iv_state s \<in> {Forever, PreShutdown}"
  shows "iv_state s1 \<in> {Forever, PreShutdown}"
proof -
  have "iv_state (try_update_listens E s) \<in> {Forever, PreShutdown}" using assms(2) try_update_state [of E s] by auto
  then show ?thesis using assms task_state event_state
    by (auto simp: service_turn_def Let_def split: if_splits turn.splits) blast+
qed

lemma forever_sound: "iv_state s \<in> {Forever, PreShutdown} \<Longrightarrow> sound_run ts s"
proof (induction ts s rule: sound_run.induct)
  case (2 E t ts s)
  then show ?case using turn_state [of E t s] by (auto simp: sound_turn_def split: option.splits bool.splits)
qed simp

lemma sessions_lt: "svc_ok s \<Longrightarrow> length (iv_sessions s) \<le> 2 ^ 64"
proof -
  assume "svc_ok s"
  then have "length (iv_sessions s) = card (set (session_ids s))" by (simp add: svc_ok_def distinct_card) (simp add: session_ids_def)
  also have "\<dots> \<le> card (UNIV :: usize set)" by (intro card_mono) auto
  finally show ?thesis by (simp add: card_word)
qed

lemma under_limit:
  assumes "\<not> reached_max_connection_limit u" "length (iv_sessions u) < 2 ^ 64"
    and "length (iv_sessions u) + unat (case state_into_inner (iv_state u) of Some n \<Rightarrow> n | None \<Rightarrow> 0) < 2 ^ 64"
  shows "length (iv_sessions u) \<le> unat (vc_max_conn (iv_config u))"
proof -
  define n where "n = (case state_into_inner (iv_state u) of Some n \<Rightarrow> n | None \<Rightarrow> 0)"
  have l: "unat (of_nat (length (iv_sessions u)) :: usize) = length (iv_sessions u)"
    using assms(2) by (simp add: unat_of_nat)
  then obtain total_n where t: "checked_add (of_nat (length (iv_sessions u))) n = Some total_n"
    using assms(3) by (cases "checked_add (of_nat (length (iv_sessions u))) n") (auto simp: checked_add_None n_def)
  then have "total_n \<le> vc_max_conn (iv_config u)" using assms(1) by (simp add: reached_max_connection_limit_def n_def)
  then show ?thesis using checked_add_Some [OF t] l by (simp add: word_le_nat_alt)
qed

lemma turn_limit:
  assumes "service_turn E t s = Some (s1, go)" "svc_ok s" "sound_turn t s"
    and "length (iv_sessions s) \<le> unat (vc_max_conn (iv_config s)) + 1"
  shows "length (iv_sessions s1) \<le> unat (vc_max_conn (iv_config s1)) + 1"
  using assms(1)
proof (cases rule: turn_cases)
  case closed
  then show ?thesis using assms(4) by (simp add: closing_def session_ids_def)
next
  case (opened n cx u)
  have l: "length (iv_sessions u) = length (iv_sessions s)" "iv_config u = iv_config s"
    using opened(1) view_ids [OF opened(1)] by (auto simp: view_def session_ids_def dest: map_eq_imp_length_eq)
  show ?thesis
  proof (cases "unat (vc_max_conn (iv_config s)) + 1 < 2 ^ 64")
    case True
    then have a: "length (iv_sessions u) < 2 ^ 64" using assms(4) l by linarith
    have "length (iv_sessions u) + unat (case state_into_inner (iv_state u) of Some n \<Rightarrow> n | None \<Rightarrow> 0) < 2 ^ 64"
    proof (cases "iv_state u")
      case (Running k)
      then have k: "iv_state s = Running k \<and> \<not> outbound_success t \<or> (\<exists>j. iv_state s = Running j \<and> outbound_success t \<and> k = j - 1)"
        using opened(3) by (cases "iv_state s") (auto simp: at_check_def split: if_splits)
      have "length (iv_sessions s) + unat (j - 1) < 2 ^ 64" if "length (iv_sessions s) + unat j < 2 ^ 64" "j \<noteq> 0" for j :: usize
        using that by (simp add: unat_minus_one)
      then show ?thesis using k assms(3) l Running by (auto simp: sound_turn_def)
    qed (use a in simp_all)
    then show ?thesis using under_limit [OF opened(2) a] l opened(6,8) by simp
  next
    case False
    then show ?thesis using sessions_lt [OF turn_ok [OF assms(1,2)]] opened(8) by simp
  qed
qed

lemma run_limit:
  assumes "service_run ts s = Some s1" "svc_ok s" "sound_run ts s" "length (iv_sessions s) \<le> unat (vc_max_conn (iv_config s)) + 1"
  shows "length (iv_sessions s1) \<le> unat (vc_max_conn (iv_config s1)) + 1"
  using assms
proof (induction ts s rule: service_run.induct)
  case (2 E t ts s)
  then obtain s2 go where t: "service_turn E t s = Some (s2, go)" by (auto simp: bind_eq_Some_conv)
  have l: "svc_ok s2" "length (iv_sessions s2) \<le> unat (vc_max_conn (iv_config s2)) + 1"
    using "2.prems" turn_ok [OF t] turn_limit [OF t] by simp_all
  show ?case
  proof (cases go)
    case True
    then have "service_run ts s2 = Some s1" "sound_run ts s2" using "2.prems" t by simp_all
    then show ?thesis using "2.IH" [OF t refl] True l by blast
  next
    case False
    then show ?thesis using "2.prems"(1) t l by simp
  qed
qed simp

lemma turn_config:
  assumes "service_turn E t s = Some (s1, go)"
  shows "iv_config s1 = iv_config s"
  using assms by (cases rule: turn_cases) (auto simp: closing_def)

lemma run_config: "service_run ts s = Some s1 \<Longrightarrow> iv_config s1 = iv_config s"
  by (erule run_invariant [where I = "\<lambda>t. iv_config t = iv_config s"]) (auto dest: turn_config)


section \<open>Shutting down\<close>

lemma listens_fold: "(\<And>x s. iv_listens (f x s) = iv_listens s) \<Longrightarrow> iv_listens (fold f xs s) = iv_listens s"
  by (induction xs arbitrary: s) simp_all

lemma listens_close: "iv_listens (session_close i src s) = iv_listens s"
  by (simp add: session_close_def emit_def Let_def split: option.split)

lemma listens_shutdown: "iv_listens (shutdown_service quick s) = []"
  by (simp add: shutdown_service_def Let_def listens_fold listens_close emit_def)

lemma idle_turn: "service_idle s \<Longrightarrow> service_turn E t s = Some (s\<lparr>iv_shutdown := True, iv_user_closed := True\<rparr>, False)"
  by (simp add: service_turn_def)

lemma quick_ids: "session_ids (shutdown_service True s) = []"
proof -
  define t where "t = fold (\<lambda>a. to_user (OutEvent (VvListenClose a))) (iv_listens s) (s\<lparr>iv_state := PreShutdown, iv_listens := []\<rparr>)"
  have "session_ids (t\<lparr>iv_rx_closed := True, iv_sv_handles := [], iv_ss_handles := []\<rparr>) = map fst (iv_sessions t)"
    by (simp add: session_ids_def)
  then show ?thesis by (simp add: shutdown_service_def pre_shutdown_def t_def Let_def close_all_ids)
qed

lemma quick_told:
  assumes "svc_ok s"
  shows "told (shutdown_service True s) = told s @ map (Pair False) (session_ids s)"
proof -
  define t where "t = (fold (\<lambda>a. to_user (OutEvent (VvListenClose a))) (iv_listens s) (s\<lparr>iv_state := PreShutdown, iv_listens := []\<rparr>))
    \<lparr>iv_rx_closed := True, iv_sv_handles := [], iv_ss_handles := []\<rparr>"
  have v: "view t = view s" by (simp add: t_def view_fold view_emit)
  have s: "shutdown_service True s = fold (\<lambda>i. session_close i Internal) (session_ids t) t"
    by (simp add: shutdown_service_def pre_shutdown_def t_def Let_def session_ids_def)
  have "told (shutdown_service True s) = told t @ map (Pair False) (session_ids t)"
    unfolding s using assms view_ok [OF v] by (intro close_all_told) (simp_all add: svc_ok_def)
  then show ?thesis using view_told [OF v] view_ids [OF v] by simp
qed

text \<open>
  The quick shutdown ends the loop: the turn that handles it closes every session and listener and tells the user, and
  whatever arrives next, the loop stops with the shutdown flag set and the user's channel closed.
\<close>

theorem quick_shutdown_ends:
  assumes "svc_ok s" "\<not> service_idle s"
  shows "\<exists>s1. service_turn E (TaskTurn p (TkShutdown True)) s = Some (s1, True) \<and> told s1 = told s @ map (Pair False) (session_ids s)
    \<and> iv_sessions s1 = [] \<and> iv_listens s1 = []
    \<and> (\<forall>E' t. \<exists>s2. service_turn E' t s1 = Some (s2, False) \<and> iv_shutdown s2 \<and> iv_user_closed s2)"
proof -
  define v where "v = try_update_listens E s"
  define s1 where "s1 = shutdown_service True v"
  have v: "view v = view s" by (simp add: v_def view_try_update_listens)
  have t: "service_turn E (TaskTurn p (TkShutdown True)) s = Some (s1, True)"
    using assms(2) by (simp add: service_turn_def handle_service_task_def v_def s1_def)
  have e: "iv_sessions s1 = []" "iv_listens s1 = []" "iv_state s1 = PreShutdown"
    using quick_ids [of v] by (simp_all add: s1_def session_ids_def listens_shutdown state_shutdown)
  have "told s1 = told s @ map (Pair False) (session_ids s)"
    using quick_told [of v] view_ok [OF v] view_ids [OF v] view_told [OF v] assms(1) by (simp add: s1_def)
  then show ?thesis using t e idle_turn [of s1] by (simp add: service_idle_def)
qed

text \<open>
  The turns of a service that winds down: no connection or listener is completed, and sessions report only what they
  can report. \<open>closed_by\<close>: the session a turn reports as closed.
\<close>

fun winding :: "('y, 'k, 'i, 't) turn \<Rightarrow> bool" where
  "winding (SessionTurn event) =
     (case event of
        SeHandshakeSuccess _ _ _ _ _ \<Rightarrow> False
      | SeListenStart _ _ \<Rightarrow> False
      | SeProtocolMessage _ _ \<Rightarrow> False
      | SeProtocolOpen _ \<Rightarrow> False
      | SeProtocolClose _ \<Rightarrow> False
      | _ \<Rightarrow> True)"
| "winding (TaskTurn _ _) = True"
| "winding NoTurn = False"

fun closed_by :: "('y, 'k, 'i, 't) turn \<Rightarrow> usize set" where
  "closed_by (SessionTurn (SeSessionClose i)) = {i}"
| "closed_by _ = {}"

definition calm :: "('w, 'h, 'y, 'k, 'i, 't) service \<Rightarrow> bool" where
  "calm s \<longleftrightarrow> iv_state s = PreShutdown \<and> iv_listens s = []"

lemma calm_shutdown: "calm (shutdown_service quick s)"
  by (simp add: calm_def state_shutdown listens_shutdown)

lemma calm_try_update:
  assumes "calm s"
  shows "calm (try_update_listens E s)"
proof -
  have a: "iv_listens (fst (update_service_handles E a pids x)) = iv_listens (fst x)" for a pids and x :: "('a, 'b, 'c, 'd, 'e, 'f) service \<times> bool"
    by (induction E a pids x rule: update_service_handles.induct) (simp_all add: emit_def)
  have b: "iv_listens (fst (update_session_handles E a ps x)) = iv_listens (fst x)" for a ps and x :: "('a, 'b, 'c, 'd, 'e, 'f) service \<times> bool"
    by (induction E a ps x rule: update_session_handles.induct) (simp_all add: emit_def)
  show ?thesis using assms
    by (auto simp: try_update_listens_def Let_def calm_def listens_shutdown state_shutdown a b state_update_session_handles
        state_update_service_handles emit_def)
qed

lemma calm_task: "calm s \<Longrightarrow> calm (handle_service_task E task p s)"
  by (auto simp: handle_service_task_def handle_message_def Let_def dial_inner_def listen_inner_def protocol_open_def protocol_close_def
      calm_def state_fold listens_fold state_shutdown listens_shutdown send_message_def session_close_def emit_def
      split: service_task.split sum.split target_protocol.split option.split)

lemma winding_event:
  fixes s :: "('w, 'h, 'y, 'k, 'i, 't) service" and t :: "('y, 'k, 'i, 't) turn"
  assumes "winding t" "calm s" and t: "t = SessionTurn event"
  obtains s1 where "svc_session_event E event s = Some s1" "calm s1" "set (session_ids s1) \<subseteq> set (session_ids s) - closed_by t"
proof -
  obtain s1 where s1: "svc_session_event E event s = Some s1"
    using assms(1) t by (cases event) (auto simp: svc_session_event_def Let_def)
  have "calm s1" using s1 assms
    by (cases event) (auto simp: svc_session_event_def calm_def state_shutdown listens_shutdown session_close_def emit_def Let_def split: option.splits if_splits)
  moreover have "closing s s1" using assms(1) t by (intro closing_event [OF s1]) auto
  then have "set (session_ids s1) \<subseteq> set (session_ids s)" by (simp add: closing_def)
  moreover have "event = SeSessionClose i \<Longrightarrow> i \<notin> set (session_ids s1)" for i
    using s1 by (auto simp: svc_session_event_def close_internal_ids)
  ultimately show ?thesis using that [OF s1] t by (cases event) auto
qed

lemma winding_turn:
  assumes "winding t" "calm s" "\<not> service_idle s"
  obtains s1 where "service_turn E t s = Some (s1, True)" "calm s1" "set (session_ids s1) \<subseteq> set (session_ids s) - closed_by t"
proof (cases t)
  case (SessionTurn event)
  obtain s1 where "svc_session_event E event (try_update_listens E s) = Some s1" "calm s1"
      "set (session_ids s1) \<subseteq> set (session_ids (try_update_listens E s)) - closed_by t"
    using winding_event [of t "try_update_listens E s" event E] assms calm_try_update SessionTurn by blast
  then show ?thesis using that [of s1] assms(3) view_ids [OF view_try_update_listens, of E s]
    by (simp add: service_turn_def SessionTurn)
next
  case (TaskTurn p task)
  define s1 where "s1 = handle_service_task E task p (try_update_listens E s)"
  have "set (session_ids s1) \<subseteq> set (session_ids s)"
    using closing_task [of "try_update_listens E s" E task p] view_ids [OF view_try_update_listens, of E s] by (simp add: s1_def closing_def)
  moreover have "service_turn E t s = Some (s1, True)" "calm s1"
    using assms(2,3) by (simp_all add: service_turn_def TaskTurn s1_def calm_task calm_try_update)
  ultimately show ?thesis using that TaskTurn by simp
qed (use assms in simp)

lemma winding_run:
  assumes "calm s" "\<forall>(E, t) \<in> set ts. winding t" "set (session_ids s) \<subseteq> (\<Union>(E, t) \<in> set ts. closed_by t)"
  shows "\<exists>s1. service_run (ts @ [(E, t)]) s = Some s1 \<and> iv_shutdown s1 \<and> iv_sessions s1 = []"
  using assms
proof (induction ts arbitrary: s)
  case Nil
  then have "service_idle s" by (simp add: service_idle_def calm_def session_ids_def)
  then show ?case using idle_turn [of s E t] by (simp add: service_idle_def)
next
  case (Cons et ts)
  obtain E' t' where et: "et = (E', t')" by (cases et)
  show ?case
  proof (cases "service_idle s")
    case True
    then show ?thesis using idle_turn [of s E' t'] et by (simp add: service_idle_def)
  next
    case False
    obtain s1 where "service_turn E' t' s = Some (s1, True)" "calm s1" "set (session_ids s1) \<subseteq> set (session_ids s) - closed_by t'"
      using winding_turn [of t' s E'] Cons.prems et False by auto
    then show ?thesis using Cons.IH [of s1] Cons.prems et by auto
  qed
qed

lemma close_told_sessions:
  "set (map (\<lambda>i. ToSession i High (SeSessionClose i)) (session_ids s)) \<subseteq> set (iv_out (shutdown_service False s))"
proof -
  define t where "t = fold (\<lambda>a. to_user (OutEvent (VvListenClose a))) (iv_listens s) (s\<lparr>iv_state := PreShutdown, iv_listens := []\<rparr>)"
  have "view t = view s" by (simp add: t_def view_fold view_emit)
  then have i: "session_ids t = session_ids s" by (rule view_ids)
  have "set (map (\<lambda>i. ToSession i High (SeSessionClose i)) is') \<union> set (iv_out u) \<subseteq> set (iv_out (fold (\<lambda>i. session_close i External) is' u))"
    if "set is' \<subseteq> set (session_ids u)" for is' and u :: "('a, 'b, 'c, 'd, 'e, 'f) service"
    using that
  proof (induction is' arbitrary: u)
    case (Cons i is')
    then have m: "map_of (iv_sessions u) i \<noteq> None" by (simp add: map_of_ids)
    have "session_ids (session_close i External u) = session_ids u" by (rule view_ids [OF view_close_external])
    then show ?case using Cons.IH [of "session_close i External u"] Cons.prems m by (auto simp: session_close_def emit_def)
  qed simp
  from this [of "session_ids t" t] show ?thesis
    by (simp add: shutdown_service_def pre_shutdown_def t_def [symmetric] Let_def i) (simp add: i session_ids_def [symmetric])
qed


section \<open>Messages\<close>

definition add_pending :: "nat \<Rightarrow> ses_ctx \<Rightarrow> ses_ctx" where
  "add_pending n cx = incr_pending_data_size (of_nat n) cx"

lemma add_pending_add: "add_pending m (add_pending n cx) = add_pending (n + m) cx"
  by (simp add: add_pending_def incr_pending_data_size_def ac_simps)

lemma add_pending_0 [simp]: "add_pending 0 = id"
  by (rule ext) (simp add: add_pending_def incr_pending_data_size_def)

lemma send_message_sessions:
  "map_of (iv_sessions (send_message pid p data j s)) i = map_option (add_pending (if i = j then length data else 0)) (map_of (iv_sessions s) i)"
proof -
  have "map_of (map (\<lambda>(k, c). (k, if k = j then f c else c)) xs) i = map_option (if i = j then f else id) (map_of xs i)" for f and xs :: "(usize \<times> ses_ctx) list"
    by (induction xs) auto
  then show ?thesis
    by (auto simp: send_message_def emit_def add_pending_def [symmetric] option.map_id split: option.split)
qed

lemma send_messages_sessions:
  "map_of (iv_sessions (fold (send_message pid p data) is' s)) i
     = map_option (add_pending (count_list is' i * length data)) (map_of (iv_sessions s) i)"
  by (induction is' arbitrary: s) (auto simp: send_message_sessions option.map_comp comp_def add_pending_add option.map_id algebra_simps)

lemma send_messages_out:
  "iv_out (fold (send_message pid p data) is' s)
     = iv_out s @ map (\<lambda>i. ToSession i p (SeProtocolMessage pid data)) (filter (\<lambda>i. i \<in> set (session_ids s)) is')"
proof (induction is' arbitrary: s)
  case (Cons i is')
  have "session_ids (send_message pid p data i s) = session_ids s" by (rule view_ids [OF view_send_message])
  moreover have "iv_out (send_message pid p data i s) = iv_out s @ (if i \<in> set (session_ids s) then [ToSession i p (SeProtocolMessage pid data)] else [])"
    using map_of_ids [of s i] by (auto simp: send_message_def emit_def split: option.split)
  ultimately show ?case using Cons.IH [of "send_message pid p data i s"] by simp
qed simp

lemma send_messages_rest: "(fold (send_message pid p data) is' s)\<lparr>iv_sessions := [], iv_out := []\<rparr> = s\<lparr>iv_sessions := [], iv_out := []\<rparr>"
proof (induction is' arbitrary: s)
  case (Cons i is')
  have "(send_message pid p data i s)\<lparr>iv_sessions := [], iv_out := []\<rparr> = s\<lparr>iv_sessions := [], iv_out := []\<rparr>"
    by (simp add: send_message_def emit_def split: option.split)
  then show ?case using Cons.IH [of "send_message pid p data i s"] by simp
qed simp

text \<open>What is sent: the message after the filter of its protocol, to the open sessions among those named.\<close>

definition outgoing :: "('w, 'h, 'y, 'k, 'i, 't) service \<Rightarrow> usize \<Rightarrow> byte list \<Rightarrow> byte list" where
  "outgoing s pid data = (case map_of (iv_before_sends s) pid of Some f \<Rightarrow> f data | None \<Rightarrow> data)"

definition receivers :: "target_session \<Rightarrow> ('w, 'h, 'y, 'k, 'i, 't) service \<Rightarrow> usize list" where
  "receivers target s = filter (\<lambda>i. i \<in> set (session_ids s)) (targeted target (iv_sessions s))"

lemma message_sent:
  "iv_out (handle_message target pid p data s)
     = iv_out s @ map (\<lambda>i. ToSession i p (SeProtocolMessage pid (outgoing s pid data))) (receivers target s)"
  "map_of (iv_sessions (handle_message target pid p data s)) i
     = map_option (add_pending (count_list (receivers target s) i * length (outgoing s pid data))) (map_of (iv_sessions s) i)"
  "(handle_message target pid p data s)\<lparr>iv_sessions := [], iv_out := []\<rparr> = s\<lparr>iv_sessions := [], iv_out := []\<rparr>"
proof -
  have "count_list (filter (\<lambda>j. j \<in> set (session_ids s)) js) i = count_list js i" if "i \<in> set (session_ids s)" for js
    using that by (induction js) auto
  then show "map_of (iv_sessions (handle_message target pid p data s)) i
     = map_option (add_pending (count_list (receivers target s) i * length (outgoing s pid data))) (map_of (iv_sessions s) i)"
    using map_of_ids [of s i] by (cases "map_of (iv_sessions s) i") (auto simp: handle_message_def receivers_def outgoing_def send_messages_sessions)
qed (simp_all add: handle_message_def send_messages_out send_messages_rest receivers_def outgoing_def)

text \<open>The sessions a target means.\<close>

lemma receivers_target:
  "set (receivers target s) = (case target of
     TsAll \<Rightarrow> set (session_ids s)
   | TsSingle i \<Rightarrow> {i} \<inter> set (session_ids s)
   | TsMulti is' \<Rightarrow> set is' \<inter> set (session_ids s)
   | TsFilter f \<Rightarrow> set (filter_asked f [] (session_ids s)))"
proof -
  have "set (filter_asked f asked js) \<subseteq> set js" for f asked js by (induction f asked js rule: filter_asked.induct) auto
  then show ?thesis by (fastforce simp: receivers_def targeted_def session_ids_def split: target_session.split)
qed


section \<open>Session numbers\<close>

text \<open>
  The search for a session number ends while fewer than \<open>2 ^ 64\<close> sessions are open, and finds the first free number
  after the last one given, counting with wrap-around.
\<close>

theorem next_session_found:
  assumes "length (iv_sessions s) < 2 ^ 64"
  shows "\<exists>k. generate_next_session s = Some (s\<lparr>iv_next := iv_next s + 1 + of_nat k\<rparr>)
    \<and> iv_next s + 1 + of_nat k \<notin> set (session_ids s) \<and> (\<forall>j < k. iv_next s + 1 + of_nat j \<in> set (session_ids s))"
proof -
  obtain k where k: "next_free (map fst (iv_sessions s)) (iv_next s) = Some (iv_next s + 1 + of_nat k)"
      "iv_next s + 1 + of_nat k \<notin> set (map fst (iv_sessions s))" "\<forall>j < k. iv_next s + 1 + of_nat j \<in> set (map fst (iv_sessions s))"
    using next_free_first [of "map fst (iv_sessions s)" "iv_next s"] assms by auto
  then show ?thesis by (intro exI [of _ k]) (simp add: generate_next_session_def session_ids_def)
qed

section \<open>What goes wrong\<close>

text \<open>
  A dial that the transport refuses at once is remembered: dialling the same address again does nothing, not even report
  an error.
\<close>

lemma refused_dial_sticks:
  assumes "sn_dial E address = Err e" "map_of (iv_dials s) address = None"
  shows "handle_service_task E' (TkDial address target') p' (handle_service_task E (TkDial address target) p s)
    = handle_service_task E (TkDial address target) p s"
  using assms by (simp add: handle_service_task_def dial_inner_def emit_def insert_key_def remove_key_def map_add_def split: option.split)

text \<open>So does an outbound connection that is dropped because of the connection limit; the user is not told.\<close>

lemma dropped_dial_sticks:
  assumes "reached_max_connection_limit (s\<lparr>iv_state := decrease (iv_state s)\<rparr>)"
  shows "svc_session_event E (SeHandshakeSuccess handle key address Outbound listen) s = Some (s\<lparr>iv_state := decrease (iv_state s)\<rparr>)"
  using assms by (simp add: svc_session_event_def)

text \<open>
  A second listen on an address whose first listen is still being set up fails in the transport, and its error removes the address
  of the first one, which keeps listening.
\<close>

lemma second_listen_error:
  assumes "address \<in> set (iv_listens s)" "svc_session_event E (SeListenError address e) s = Some s1"
  shows "iv_listens s1 = remove1 address (iv_listens s)" "iv_state s1 = iv_state s"
    "iv_out s1 = iv_out s @ [ToUser (OutError (VeListen address (LeTransport e))), ToUser (OutEvent (VvListenClose address))]"
  using assms by (auto simp: svc_session_event_def emit_def)

text \<open>
  The check for repeated connections compares the address of the new connection with addresses that were completed by the peer
  identity: of two connections to one peer under an address without identity, the second is admitted.
\<close>

lemma repeated_not_noticed:
  assumes "admit E (Some key) address [] = Some (Admitted full)" "full \<noteq> address" "cx_address cx = full"
  shows "admit E (Some key) address [(i, cx)] = Some (Admitted full)"
  using assms by (simp add: admit_def)

section \<open>A service with one peer\<close>

definition calm_env :: "(unit, unit) svc_env" where
  "calm_env = \<lparr>sn_V = leb_ops, sn_B = be_ops, sn_sha = (\<lambda>_. replicate 32 0), sn_listen = (\<lambda>_. Ok ()), sn_dial = (\<lambda>_. Ok ()),
     sn_world = (\<lambda>_. ()), sn_sv_alive = (\<lambda>_. True), sn_ss_alive = (\<lambda>_ _. True)\<rparr>"

definition tiny_builder :: "(unit, unit) service_builder" where
  "tiny_builder = service_builder_new\<lparr>bl_forever := True, bl_config := default_service_config\<lparr>vc_max_conn := 0\<rparr>\<rparr>"

definition peer_ctx :: ses_ctx where
  "peer_ctx = ses_ctx_new 1 \<lparr>ma_bytes = []\<rparr> Inbound None"

type_synonym unit_service = "(unit, unit, unit, unit, unit, unit) service"

definition peer_arrives :: "(unit, unit, unit, unit) turn" where
  "peer_arrives = SessionTurn (SeHandshakeSuccess () None \<lparr>ma_bytes = []\<rparr> Inbound (Some \<lparr>ma_bytes = []\<rparr>))"

definition peer_leaves :: "(unit, unit, unit, unit) turn" where
  "peer_leaves = SessionTurn (SeSessionClose 1)"

definition with_peer :: unit_service where
  "with_peer = the (service_run [(calm_env, peer_arrives)] (service_build tiny_builder))"

lemma build_session_returns:
  fixes s :: "('w, 'h, 'y, 'k, 'i, 't) service"
  assumes "sg_channel (vc_session (iv_config s)) = 128"
  obtains ses where "build_session E handle cx s = Some ses"
proof -
  define ch where "ch = (channel 128 :: ('y, 'k, 'i) session_event chan option)"
  have "(128 :: u64) < MAX_BUFFER" by code_simp
  then obtain c where c: "ch = Some c" "ch_num_senders c = 1" "ch_buffer c = 128" by (simp add: ch_def channel_def)
  have "(1 :: u64) \<noteq> MAX_CAPACITY - 128" by code_simp
  then have "clone_sender 1 c \<noteq> None" using c by (simp add: clone_sender_def max_senders_def Let_def)
  then have "build_session E handle cx s \<noteq> None" using c assms by (auto simp: build_session_def ch_def Let_def)
  then show ?thesis using that by blast
qed

lemma arrives:
  "service_run [(calm_env, peer_arrives)] (service_build tiny_builder) = Some with_peer"
  "iv_sessions with_peer = [(1, peer_ctx)]" "told with_peer = [(True, 1)]" "iv_next with_peer = 1" "iv_before_sends with_peer = []"
proof -
  define s0 :: unit_service where "s0 = (service_build tiny_builder)\<lparr>iv_next := 1, iv_sessions := [(1, peer_ctx)]\<rparr>"
  obtain ses where b: "build_session calm_env () peer_ctx s0 = Some ses"
    using build_session_returns [of s0 calm_env "()" peer_ctx]
    by (auto simp: s0_def service_build_def service_new_def tiny_builder_def default_service_config_def default_session_config_def)
  have n: "next_free [] 0 = Some 1" by (simp add: next_free.simps)
  have "service_run [(calm_env, peer_arrives)] (service_build tiny_builder)
      = Some (s0\<lparr>iv_out := [SpawnSession ses, ToUser (OutEvent (VvSessionOpen peer_ctx))]\<rparr>)"
    using b n
    by (simp add: s0_def service_turn_def service_idle_def try_update_listens_def peer_arrives_def svc_session_event_def
        reached_max_connection_limit_def checked_add_def session_open_def admit_def generate_next_session_def session_handles_open_def
        service_build_def service_new_def tiny_builder_def service_builder_new_def default_service_config_def state_new_def remove_key_def insert_key_def
        peer_ctx_def [symmetric] emit_def) (simp add: peer_ctx_def ses_ctx_new_def)
  then show "service_run [(calm_env, peer_arrives)] (service_build tiny_builder) = Some with_peer"
    "iv_sessions with_peer = [(1, peer_ctx)]" "told with_peer = [(True, 1)]" "iv_next with_peer = 1" "iv_before_sends with_peer = []"
    by (simp_all add: with_peer_def s0_def told_def user_notes_def service_build_def service_new_def tiny_builder_def state_new_def)
      (simp add: peer_ctx_def ses_ctx_new_def)
qed

lemma with_peer_facts: "svc_ok with_peer" "\<not> service_idle with_peer" "session_ids with_peer = [1]"
  using run_ok [OF arrives(1) build_ok] arrives(2) by (simp_all add: service_idle_def session_ids_def)

theorem session_events_bracketed_witness: "open_after_notes {} (told with_peer) = Some {1} \<and> distinct (session_ids with_peer)"
  using session_events_bracketed [OF arrives(1)] with_peer_facts(3) by simp


theorem quick_shutdown_ends_witness:
  "\<exists>s1. service_turn calm_env (TaskTurn High (TkShutdown True)) with_peer = Some (s1, True) \<and> told s1 = [(True, 1), (False, 1)]"
  using quick_shutdown_ends [OF with_peer_facts(1,2), of calm_env High] arrives(3) with_peer_facts(3) by auto


theorem next_session_found_witness:
  "\<exists>k. generate_next_session with_peer = Some (with_peer\<lparr>iv_next := 2 + of_nat k\<rparr>) \<and> 2 + of_nat k \<noteq> (1 :: usize)"
  using next_session_found [of with_peer] arrives(2,4) with_peer_facts(3) by auto

end
