(* ===== verification/Connector_Laws.thy ===== *)
theory Connector_Laws
  imports Connector_State Service_Laws
begin

text \<open>
  What the connector's shared state does over runs of its handlers: a mailbox holds what was received for its session and protocol since
  the protocol was opened, and the protocols of a node meet the assertions of the builder.
\<close>

section \<open>Mailboxes\<close>

abbreviation box_of :: "shared_state \<Rightarrow> usize \<Rightarrow> usize \<Rightarrow> nat option" where
  "box_of s i pid \<equiv> get_mailbox (BySessionId i) pid s"

lemma box_of_def: "box_of s i pid = (case map_of (sh_sessions s) i of None \<Rightarrow> None | Some (_, boxes) \<Rightarrow> map_of boxes pid)"
  by (simp add: get_mailbox_def get_network_info_def split: option.split)

lemma map_of_or_insert: "map_of (or_insert k v m) j = (if j = k \<and> map_of m k = None then Some v else map_of m j)"
  by (auto simp: or_insert_def map_add_def split: option.split)

lemma map_of_at:
  "map_of (map (\<lambda>(i, c, b). (i, c, if i = k then f b else b)) m) j
     = (case map_of m j of None \<Rightarrow> None | Some (c, b) \<Rightarrow> Some (c, if j = k then f b else b))"
  by (induction m) auto

lemma add_protocol_box:
  "box_of (add_protocol cx pid s) i q = (if i = cx_id cx \<and> q = pid then Some (length (sh_boxes s)) else box_of s i q)"
  by (auto simp: box_of_def add_protocol_def Let_def map_of_at map_of_or_insert split: option.split)

lemma remove_protocol_box: "box_of (remove_protocol j pid s) i q = (if i = j \<and> q = pid then None else box_of s i q)"
  by (auto simp: box_of_def remove_protocol_def map_of_at split: option.split)

lemma add_session_frame:
  "add_session pidf cx s = Some s1
     \<Longrightarrow> sh_sessions s1 = or_insert (cx_id cx) (cx, []) (sh_sessions s) \<and> sh_boxes s1 = sh_boxes s \<and> sh_poisoned s1 = sh_poisoned s"
  by (auto simp: add_session_def Let_def bind_eq_Some_conv split: option.splits)

lemma add_session_box: "add_session pidf cx s = Some s1 \<Longrightarrow> box_of s1 i q = box_of s i q"
  by (drule add_session_frame) (auto simp: box_of_def map_of_or_insert split: option.splits)

lemma remove_session_frame:
  "remove_session pidf j s = Some (s1, c)
     \<Longrightarrow> sh_sessions s1 = remove_key j (sh_sessions s) \<and> sh_boxes s1 = sh_boxes s \<and> sh_poisoned s1 = sh_poisoned s"
  by (cases "map_of (sh_sessions s) j")
    (auto simp: remove_session_def Let_def remove_key_absent bind_eq_Some_conv split: option.splits)

lemma remove_session_box: "remove_session pidf j s = Some (s1, c) \<Longrightarrow> box_of s1 i q = (if i = j then None else box_of s i q)"
  by (drule remove_session_frame) (auto simp: box_of_def split: option.splits)

text \<open>The messages received for a protocol of a session since it was last opened.\<close>

fun since_open :: "usize \<Rightarrow> usize \<Rightarrow> handler_input list \<Rightarrow> byte list list \<Rightarrow> byte list list" where
  "since_open i pid [] log = log"
| "since_open i pid (HiConnected cx q _ # xs) log = since_open i pid xs (if cx_id cx = i \<and> q = pid then [] else log)"
| "since_open i pid (HiReceived cx q data # xs) log = since_open i pid xs (if cx_id cx = i \<and> q = pid then log @ [data] else log)"
| "since_open i pid (_ # xs) log = since_open i pid xs log"

definition read_from :: "nat \<Rightarrow> (nat \<times> byte list) list \<Rightarrow> byte list list" where
  "read_from k rs = map snd (filter (\<lambda>(j, _). j = k) rs)"

text \<open>Every open protocol has a mailbox of its own, which holds what was received and not yet read.\<close>

definition boxes_ok :: "(usize \<Rightarrow> usize \<Rightarrow> byte list list) \<Rightarrow> (nat \<times> byte list) list \<Rightarrow> shared_state \<Rightarrow> bool" where
  "boxes_ok log rs s \<longleftrightarrow>
     (\<forall>i pid k. box_of s i pid = Some k \<longrightarrow> k < length (sh_boxes s) \<and> read_from k rs @ sh_boxes s ! k = log i pid)
     \<and> (\<forall>i pid j q k. box_of s i pid = Some k \<longrightarrow> box_of s j q = Some k \<longrightarrow> i = j \<and> pid = q)
     \<and> (\<forall>(k, _) \<in> set rs. k < length (sh_boxes s))"

definition log_after :: "handler_input \<Rightarrow> (usize \<Rightarrow> usize \<Rightarrow> byte list list) \<Rightarrow> usize \<Rightarrow> usize \<Rightarrow> byte list list" where
  "log_after x log i pid = since_open i pid [x] (log i pid)"

lemma since_open_Cons: "since_open i pid (x # xs) log = since_open i pid xs (since_open i pid [x] log)"
  by (cases x) simp_all

lemma boxes_okI:
  assumes "\<And>i pid k. box_of s i pid = Some k \<Longrightarrow> k < length (sh_boxes s) \<and> read_from k rs @ sh_boxes s ! k = log i pid"
    "\<And>i pid j q k. box_of s i pid = Some k \<Longrightarrow> box_of s j q = Some k \<Longrightarrow> i = j \<and> pid = q"
    "\<And>k data. (k, data) \<in> set rs \<Longrightarrow> k < length (sh_boxes s)"
  shows "boxes_ok log rs s"
  using assms unfolding boxes_ok_def by blast

lemma boxes_okD:
  assumes "boxes_ok log rs s"
  shows "box_of s i pid = Some k \<Longrightarrow> k < length (sh_boxes s) \<and> read_from k rs @ sh_boxes s ! k = log i pid"
    "box_of s i pid = Some k \<Longrightarrow> box_of s j q = Some k \<Longrightarrow> i = j \<and> pid = q"
    "(k, data) \<in> set rs \<Longrightarrow> k < length (sh_boxes s)"
  using assms unfolding boxes_ok_def by blast+

lemma boxes_ok_fewer:
  assumes "boxes_ok log rs s" "sh_boxes s1 = sh_boxes s" "\<And>i pid k. box_of s1 i pid = Some k \<Longrightarrow> box_of s i pid = Some k"
  shows "boxes_ok log rs s1"
proof (rule boxes_okI)
  note ok = boxes_okD [OF assms(1)]
  fix i pid k assume k: "box_of s1 i pid = Some k"
  show "k < length (sh_boxes s1) \<and> read_from k rs @ sh_boxes s1 ! k = log i pid" using ok(1) [OF assms(3) [OF k]] assms(2) by simp
  show "i = j \<and> pid = q" if "box_of s1 j q = Some k" for j q using ok(2) [OF assms(3) [OF k] assms(3) [OF that]] .
qed (use boxes_okD(3) [OF assms(1)] assms(2) in simp)

lemma boxes_ok_event:
  assumes "boxes_ok log rs s"
  shows "boxes_ok log rs (fst (left (simple_event pidf event s)))"
proof -
  have add: "boxes_ok log rs t" if "add_session pidf cx s = Some t" for cx t
    using boxes_ok_fewer [OF assms(1), of t] add_session_box [OF that] add_session_frame [OF that] by simp
  have remove: "boxes_ok log rs t" if "remove_session pidf j s = Some (t, c)" for j t c
    by (rule boxes_ok_fewer [OF assms(1)]) (use remove_session_frame [OF that] in \<open>auto simp: remove_session_box [OF that] split: if_splits\<close>)
  have poison: "boxes_ok log rs (s\<lparr>sh_poisoned := True\<rparr>)"
    by (rule boxes_ok_fewer [OF assms(1)]) (simp_all add: box_of_def)
  show ?thesis
    using assms add remove poison
    by (auto simp: simple_event_def locked_def left_def split: service_event.split option.split)
qed

lemma boxes_ok_connected:
  assumes "boxes_ok log rs s"
  shows "boxes_ok (log_after (HiConnected cx pid v) log) rs (add_protocol cx pid s)"
proof -
  note ok = boxes_okD [OF assms]
  have b: "sh_boxes (add_protocol cx pid s) = sh_boxes s @ [[]]" by (simp add: add_protocol_def Let_def)
  have r: "read_from (length (sh_boxes s)) rs = []"
    using ok(3) by (auto simp: read_from_def filter_empty_conv)
  have less: "box_of s i q = Some k \<Longrightarrow> k \<noteq> length (sh_boxes s)" for i q k using ok(1) by fastforce
  show ?thesis
  proof (rule boxes_okI)
    fix i q k assume "box_of (add_protocol cx pid s) i q = Some k"
    then show "k < length (sh_boxes (add_protocol cx pid s)) \<and>
        read_from k rs @ sh_boxes (add_protocol cx pid s) ! k = log_after (HiConnected cx pid v) log i q"
      using ok(1) [of i q k] r by (auto simp: b add_protocol_box log_after_def nth_append split: if_splits)
  next
    fix i q j p k assume "box_of (add_protocol cx pid s) i q = Some k" "box_of (add_protocol cx pid s) j p = Some k"
    then show "i = j \<and> q = p" using ok(2) [of i q k j p] less by (auto simp: add_protocol_box split: if_splits)
  qed (use ok(3) in \<open>force simp: b\<close>)
qed

lemma box_send_box: "box_of (box_send k data s) i pid = box_of s i pid"
  by (simp add: box_of_def box_send_def)

lemma boxes_ok_received:
  assumes "boxes_ok log rs s" "box_of s (cx_id cx) pid = Some k"
  shows "boxes_ok (log_after (HiReceived cx pid data) log) rs (box_send k data s)"
proof -
  note ok = boxes_okD [OF assms(1)]
  have b: "sh_boxes (box_send k data s) = (sh_boxes s)[k := sh_boxes s ! k @ [data]]" by (simp add: box_send_def)
  show ?thesis
  proof (rule boxes_okI)
    fix i q l assume a: "box_of (box_send k data s) i q = Some l"
    have "l = k \<longleftrightarrow> i = cx_id cx \<and> q = pid" using ok(2) [of i q k "cx_id cx" pid] assms(2) a by (auto simp: box_send_box)
    then show "l < length (sh_boxes (box_send k data s)) \<and>
        read_from l rs @ sh_boxes (box_send k data s) ! l = log_after (HiReceived cx pid data) log i q"
      using ok(1) [of i q l] a by (auto simp: box_send_box b log_after_def append_assoc [symmetric] simp del: append_assoc)
  qed (use ok(2,3) in \<open>auto simp: box_send_box b\<close>)
qed

lemma boxes_ok_take:
  assumes "boxes_ok log rs s" "k < length (sh_boxes s)" "take_input k s = (s1, rs1)"
  shows "boxes_ok log (rs @ rs1) s1"
proof (cases "sh_boxes s ! k")
  case Nil
  then show ?thesis using assms by (simp add: take_input_def box_take_def)
next
  case (Cons data rest)
  then have s1: "sh_boxes s1 = (sh_boxes s)[k := rest]" "rs1 = [(k, data)]" "sh_sessions s1 = sh_sessions s"
    using assms(3) by (auto simp: take_input_def box_take_def)
  then have b: "box_of s1 i pid = box_of s i pid" for i pid by (simp add: box_of_def)
  note ok = boxes_okD [OF assms(1)]
  show ?thesis
  proof (rule boxes_okI)
    fix i pid l assume "box_of s1 i pid = Some l"
    then show "l < length (sh_boxes s1) \<and> read_from l (rs @ rs1) @ sh_boxes s1 ! l = log i pid"
      using ok(1) [of i pid l] Cons assms(2) by (auto simp: b s1 read_from_def nth_list_update)
  qed (use ok assms(2) in \<open>auto simp: b s1\<close>)
qed

lemma simple_step_ok:
  assumes "boxes_ok log rs s" "simple_step pidf x s = (s1, rs1)" "\<not> sh_poisoned s1"
  shows "boxes_ok (log_after x log) (rs @ rs1) s1"
proof (cases x)
  case (HiEvent event)
  then have "log_after x log = log" by (simp add: log_after_def fun_eq_iff)
  then show ?thesis using boxes_ok_event [OF assms(1), of pidf event] assms(2) HiEvent by (auto simp: left_def split: sum.splits)
next
  case (HiConnected cx pid v)
  then show ?thesis using boxes_ok_connected [OF assms(1), of cx pid v] assms(2,3)
    by (auto simp: simple_connected_def locked_def left_def split: if_splits)
next
  case (HiDisconnected cx pid)
  have "boxes_ok log rs (remove_protocol (cx_id cx) pid s)"
  proof (rule boxes_ok_fewer [OF assms(1)])
    show "sh_boxes (remove_protocol (cx_id cx) pid s) = sh_boxes s" by (simp add: remove_protocol_def)
  qed (simp add: remove_protocol_box split: if_splits)
  moreover have "log_after x log = log" using HiDisconnected by (simp add: log_after_def fun_eq_iff)
  ultimately show ?thesis using assms HiDisconnected by (auto simp: simple_disconnected_def locked_def left_def split: if_splits)
next
  case (HiReceived cx pid data)
  have s: "\<not> sh_poisoned s" using assms(2,3) by (cases "sh_poisoned s") (simp_all add: HiReceived simple_received_def locked_def left_def)
  show ?thesis
  proof (cases "box_of s (cx_id cx) pid")
    case None
    then show ?thesis using assms(2,3) s by (auto simp: HiReceived simple_received_def locked_def left_def)
  next
    case (Some k)
    then have "s1 = box_send k data s" "rs1 = []" using assms(2) s by (simp_all add: HiReceived simple_received_def locked_def left_def)
    then show ?thesis using boxes_ok_received [OF assms(1) Some] HiReceived by simp
  qed
next
  case (HiTake k)
  then have "log_after x log = log" by (simp add: log_after_def fun_eq_iff)
  then show ?thesis using boxes_ok_take [OF assms(1), of k s1 rs1] assms(1,2) HiTake by (cases "k < length (sh_boxes s)") auto
qed

lemma take_input_poisoned: "sh_poisoned (fst (take_input k s)) = sh_poisoned s"
  by (simp add: take_input_def box_take_def split: list.split)

lemma poisoned_stays: "sh_poisoned s \<Longrightarrow> sh_poisoned (fst (simple_step pidf x s))"
  by (cases x) (simp_all add: simple_event_def simple_connected_def simple_disconnected_def simple_received_def locked_def left_def
      take_input_poisoned split: service_event.split)

lemma simple_run_poisoned: "sh_poisoned s \<Longrightarrow> sh_poisoned (fst (simple_run pidf xs s))"
proof (induction xs arbitrary: s)
  case (Cons x xs)
  then show ?case using Cons.IH [OF poisoned_stays [OF Cons.prems, of pidf x]] by (simp add: case_prod_beta Let_def)
qed simp

lemma simple_run_ok:
  assumes "boxes_ok log rs s" "simple_run pidf xs s = (s1, rs1)" "\<not> sh_poisoned s1"
  shows "boxes_ok (\<lambda>i pid. since_open i pid xs (log i pid)) (rs @ rs1) s1"
  using assms
proof (induction xs arbitrary: log rs s rs1)
  case (Cons x xs)
  obtain s2 rs2 rs3 where st: "simple_step pidf x s = (s2, rs2)" "simple_run pidf xs s2 = (s1, rs3)" "rs1 = rs2 @ rs3"
    using Cons.prems(2) by (auto simp: Let_def split: prod.splits)
  have "\<not> sh_poisoned s2" using simple_run_poisoned [of s2 pidf xs] st(2) Cons.prems(3) by auto
  from Cons.IH [OF simple_step_ok [OF Cons.prems(1) st(1) this] st(2) Cons.prems(3)]
  show ?case by (simp add: st(3) log_after_def since_open_Cons [of _ _ x xs])
qed simp


definition box_peer :: ses_ctx where
  "box_peer = ses_ctx_new 1 \<lparr>ma_bytes = []\<rparr> Outbound None"

definition box_trace :: "handler_input list" where
  "box_trace =
     [HiEvent (VvSessionOpen box_peer), HiConnected box_peer 100 (lit ''2''), HiConnected box_peer 2 (lit ''2''), HiReceived box_peer 100 [1],
      HiReceived box_peer 2 [9], HiTake 0, HiReceived box_peer 100 [2]]"


end
