(* ===== verification/Spec2Isabelle.thy ===== *)
theory Spec2Isabelle
  imports Yamux_Session Protocol_Select Ping_Protocol Identify_Protocol Discovery_Protocol Secio_Agreement
    Channel_Threads Unbounded_Channel Connector_Laws
begin

text \<open>
  A verification of the peer-to-peer stack in \<open>src/tentacle\<close>: the connection multiplexer yamux, the
  encryption layer secio, multiaddresses, the network service tentacle, and its ping, identify and
  discovery protocols; and of its client in \<open>src/connector\<close>.

  \<^bold>\<open>The program.\<close> A \<open>Service\<close> owns one task per connection. A connection is a socket, wrapped by the secio
  handshake into an encrypted stream, wrapped by a yamux session into many byte streams. On each of them
  the two sides select a protocol and a version and then exchange length-delimited messages, most of them
  molecule tables. The tasks talk through channels: the priority channel of this repository carries messages
  from the user to the service, from the service to a session and from a session to its substreams; channels of the
  crate \<open>futures\<close> carry events back. Protocol handlers written by the user run in tasks of their own.

  \<^bold>\<open>Theories\<close>, bottom up, with the files under \<open>src/tentacle\<close> (or \<open>src\<close>) they translate. Definitions have the names of the source,
  with a prefix where two types have a method of the same name.

  \<^item> \<open>Prelude\<close>: words, results, polls, state-and-error composition, and three interfaces used throughout:
    \<open>byte_order\<close> (integer accessors of the crate \<open>bytes\<close>), \<open>wire_codec\<close> (self-delimiting formats; decoding a
    concatenation is proved once, for frames and for address segments) and \<open>invariant_system\<close> (invariants of runs, proved once,
    for stream windows, stream closing, ping, identify and discovery). \<open>Std_Text\<close>: UTF-8, decimal and address text
    of the Rust standard library.
  \<^item> \<open>Yamux_Frame\<close> (\<open>yamux/src/frame.rs\<close>, \<open>config.rs\<close>): the codec inverts its encoder, accepts exactly the
    encodings, and does not depend on how the bytes are cut. \<open>Yamux_Stream\<close> (\<open>stream.rs\<close>): the receive window never lets
    the peer overrun the buffer, writes stay within the granted window, reads deliver the data frames in order, one FIN per
    stream. \<open>Yamux_Session\<close> (\<open>session.rs\<close>, \<open>control.rs\<close>): the session invariant, frames reach their streams in order.
  \<^item> \<open>Multiaddr\<close> (\<open>multiaddr/src\<close>), \<open>Net_Address\<close> (\<open>secio/src/peer_id.rs\<close>, \<open>tentacle/src/utils.rs\<close>, \<open>utils/dns.rs\<close>,
    \<open>transports/mod.rs\<close>): segments and addresses, binary and textual, round trips in both directions.
  \<^item> \<open>Molecule\<close>, \<open>Molecule_Build\<close>, \<open>Handshake_Msg\<close>, \<open>Protocol_Select\<close>, \<open>Session_Context\<close>, \<open>Discovery_Msg\<close> and parts of
    \<open>Ping_Protocol\<close> and \<open>Identify_Protocol\<close>: the generated readers and builders (\<open>*_mol.rs\<close>), the messages, and the
    version selection, on which both sides agree. The theorems below collect the messages: no decoder panics, and decoding inverts encoding.
  \<^item> \<open>Ping_Protocol\<close>, \<open>Identify_Protocol\<close>, \<open>Discovery_Protocol\<close> (\<open>protocols/*\<close>): the handlers as steps of a state machine over
    a log of their calls. Every discovery message
    sent passes the checks its receiver makes, identify uses only allowed addresses and at most ten at a time, and two theorems show what the ping and identify timeouts really do.
  \<^item> \<open>Secio_Support\<close>, \<open>Aead_Standard\<close>, \<open>Secio_Crypto\<close>, \<open>Secio_Stream\<close>, \<open>Secio_Handshake\<close>, \<open>Secio_Agreement\<close> (\<open>secio/src\<close>):
    both sides negotiate the same algorithms; the three cipher implementations interoperate and never repeat a nonce;
    what is written is what is read; a completed handshake has authenticated the peer; two honest parties over working sockets
    complete with matching keys.
  \<^item> \<open>Mpsc_Queue\<close>, \<open>Priority_Channel\<close>, \<open>Channel_Threads\<close>, \<open>Unbounded_Channel\<close>, \<open>Send_Buffer\<close> (\<open>tentacle/src/channel\<close>, \<open>buffer.rs\<close>):
    the lock-free queue is linearizable without a use after free; under every interleaving of atomic steps the channel
    delivers in order, stays within its capacity and loses no wake-up; the unbounded channel refines the bounded one.
    \<open>sending_half\<close> is the interface of a sender that buffers rely on.
  \<^item> \<open>Session_Events\<close>, \<open>Proto_Substream\<close>, \<open>Proto_Write_Part\<close>, \<open>Proto_Handles\<close>, \<open>Session_Task\<close> (\<open>context.rs\<close>, \<open>substream.rs\<close>,
    \<open>protocol_handle_stream.rs\<close>, \<open>session.rs\<close> of \<open>tentacle/src\<close>): the tasks of one connection. Frames and messages are
    forwarded once and in order, callbacks are bracketed, the books of a session agree, and its end is reported.
  \<^item> \<open>Service_Events\<close>, \<open>Service_Build\<close>, \<open>Service_Loop\<close>, \<open>Service_Laws\<close> (\<open>builder.rs\<close>, \<open>service.rs\<close> and \<open>service/*\<close> of \<open>tentacle/src\<close>): the
    builders, the control, listeners, background tasks and the loop of the service with every event and task it handles. The user sees each session
    opened and closed once, connections are bounded, messages go where they are meant to go, and both shutdowns end the loop. The last
    two theorems below follow a message and a disconnection through control, service, session and substream.
  \<^item> \<open>Connector_Compress\<close>, \<open>Connector_State\<close>, \<open>Connector_Laws\<close> (\<open>compress.rs\<close>, \<open>support_protocols.rs\<close>, \<open>shared.rs\<close>, the two handlers, \<open>lib.rs\<close>
    and \<open>extension.rs\<close> of \<open>connector/src\<close>): a client of the service that keeps a mailbox per session and protocol. Compression is inverted, and a mailbox
    holds what was received since its protocol was opened, under every order of the handlers.

  \<^bold>\<open>Conventions.\<close> A struct is a record passed through its operations; \<open>Err\<close> and \<open>Ok\<close> are the two sides of a sum; an outer
  \<open>None\<close> is a panic or a call that does not return. A hash map is the list of its bindings in iteration order, a set of flags read by
  concurrent tasks is an argument per read, and a spawned task, a callback or an event is recorded in a list. Integers are words where their width
  matters; arithmetic that is not checked in the source wraps around, as in a release build.

  \<^bold>\<open>Parameters.\<close> Code of other crates is an argument: the accessors of \<open>bytes\<close>, \<open>unsigned-varint\<close>, \<open>bs58\<close>, \<open>molecule\<close>,
  the ciphers, hashes, signatures and key agreement, snappy, framed sockets, channels of \<open>futures\<close>, timers, random choices, and the user's callbacks. What the
  code relies on is a locale, and each locale is interpreted on the documented behaviour: big-endian accessors, LEB128, base 58,
  little-endian molecule numbers, the literal elements of snappy, AES-GCM and ChaCha20-Poly1305 as standardised, pipes for sockets. The interfaces of the repository's
  own components are interpreted on their model.

  \<^bold>\<open>Loops.\<close> Loops over data are structural recursion. A loop whose length depends on the environment takes the list of answers
  the environment gives, and one that could run forever is a \<open>partial_function\<close> whose result is proved to exist where a theorem claims it
  (\<open>stretch_loop\<close>, \<open>next_free\<close>, the socket loops of two honest parties, iteration over valid addresses). No definition uses fuel as a bound on behaviour.

  \<^bold>\<open>Not modelled.\<close> The transports (TCP, WebSocket, TLS, browser, memory), the runtimes, UPnP and socket options perform input and output only;
  the traits have no code; formatting and debug output, default values and entity copies of the
  generated readers do not affect the messages; \<open>secp256k1_compat\<close>, \<open>sha256_compat\<close> and their siblings wrap other crates. Examples,
  tests, benchmarks, fuzz targets and the demonstration node only call the library. Of the connector, the messages are built by the generated code
  of another repository, and the thread that runs the service, its stop signal and the socket options are input and output.
\<close>

section \<open>Messages from the network\<close>



text \<open>
  C18. Messages decode to what was encoded, as long as the encoding fits the 32-bit sizes of the
  format, strings are UTF-8 and addresses are sequences of well-formed segments.
\<close>

theorem messages_roundtrip:
  assumes "message_format P B V"
  shows "(length (propose_encode P p) < 2 ^ 32 \<and> utf8_valid (p_exchange p) \<and> utf8_valid (p_ciphers p) \<and> utf8_valid (p_hashes p)
          \<longrightarrow> propose_decode P (propose_encode P p) = Some (Some p))
    \<and> (length (exchange_encode P e) < 2 ^ 32 \<longrightarrow> exchange_decode P (exchange_encode P e) = Some (Some e))
    \<and> (length (pubkey_encode P k) < 2 ^ 32 \<longrightarrow> pubkey_decode P (pubkey_encode P k) = Some (Some k))
    \<and> ping_decode P (build_ping P x) = Some (Some (Ping x)) \<and> ping_decode P (build_pong P x) = Some (Some (Pong x))
    \<and> (length (identify_encode P i) < 2 ^ 32 \<and> valid_bytes V B (ma_bytes (im_observed_addr i))
          \<and> list_all (\<lambda>a. valid_bytes V B (ma_bytes a)) (im_listen_addrs i)
          \<longrightarrow> identify_decode P V B (identify_encode P i) = Some (Some i))
    \<and> (length (discovery_encode P d) < 2 ^ 32 \<and> msg_valid V B d
          \<longrightarrow> discovery_decode P V B (discovery_encode P d) = Some (Some d))"
proof -
  have P: "mol_numbers P" using assms by (rule message_format.axioms)
  show ?thesis
    using mol_numbers.propose_roundtrip [OF P] mol_numbers.exchange_roundtrip [OF P] mol_numbers.pubkey_roundtrip [OF P]
      mol_numbers.ping_roundtrip [OF P] mol_numbers.pong_roundtrip [OF P] message_format.identify_roundtrip [OF assms]
      message_format.discovery_roundtrip [OF assms] by blast
qed

theorem messages_roundtrip_witness:
  "ping_decode le_ops (build_ping le_ops 7) = Some (Some (Ping 7))
     \<and> exchange_decode le_ops (exchange_encode le_ops \<lparr>e_epubkey = [1], e_signature = [2]\<rparr>)
         = Some (Some \<lparr>e_epubkey = [1], e_signature = [2]\<rparr>)"
proof -
  have "length (exchange_encode le_ops \<lparr>e_epubkey = [1], e_signature = [2]\<rparr>) < 2 ^ 32"
    by (simp add: exchange_encode_def Exchange_build_def handshake_types le.length_table_build)
  then show ?thesis
    using messages_roundtrip [OF msg.message_format_axioms, where x = 7 and e = "\<lparr>e_epubkey = [1], e_signature = [2]\<rparr>"]
    by blast
qed

text \<open>
  The two generator versions accept the same tables: the order in which they check the header
  only affects which error they report.
\<close>

theorem generators_agree:
  assumes "mol_numbers P"
  shows "table_verify P vs sl c = Some (Ok ()) \<longleftrightarrow> table_verify_old P vs sl c = Some (Ok ())"
  using mol_numbers.table_verify_versions [OF assms] .

theorem generators_agree_witness:
  "table_verify le_ops [array_verify 1] (table_build le_ops [[5]]) True = Some (Ok ())
     \<longleftrightarrow> table_verify_old le_ops [array_verify 1] (table_build le_ops [[5]]) True = Some (Ok ())"
  using generators_agree [OF le.mol_numbers_axioms] .

section \<open>From the user to a substream and back\<close>

text \<open>
  C9. A message of the user takes its way: the call of the control becomes a task, the task an event for the one session it names,
  and the event, handled by that session, the last message that the substream of the protocol has to send, in the priority
  of the call; on the way it passes the filter of the protocol once and is added to the pending count of the session.
\<close>

theorem message_end_to_end:
  assumes "control_task request = (p, task)" "task = TkProtocolMessage (TsSingle i) pid data" "map_of (iv_sessions s) i = Some cx"
    and "handle_session_event E c (SeProtocolMessage pid (outgoing s pid data)) p k = Some k'"
    and "map_of (sk_protos k) pid = Some j" "map_of (sk_substreams k) j = Some e" "\<not> sender_is_closed (pb_sender (fst e)) (snd e)"
  shows "iv_out (handle_service_task Es task p s) = iv_out s @ [ToSession i p (SeProtocolMessage pid (outgoing s pid data))]
    \<and> map_of (iv_sessions (handle_service_task Es task p s)) i = Some (add_pending (length (outgoing s pid data)) cx)
    \<and> p = (if request = CallQuickSendMessageTo i pid data \<or> (\<exists>t. request = CallQuickFilterBroadcast t pid data) then High else Normal)
    \<and> (\<exists>e1. map_of (sk_substreams k') j = Some e1 \<and> stream_queue p e1 = stream_queue p e @ [PeMessage (outgoing s pid data)])"
proof -
  have "i \<in> set (session_ids s)" using assms(3) map_of_ids [of s i] by auto
  then have r: "receivers (TsSingle i) s = [i]" by (simp add: receivers_def targeted_def)
  have "p = (if request = CallQuickSendMessageTo i pid data \<or> (\<exists>t. request = CallQuickFilterBroadcast t pid data) then High else Normal)"
    using assms(1,2) by (cases request) auto
  moreover have "\<exists>e1. map_of (sk_substreams k') j = Some e1 \<and> stream_queue p e1 = stream_queue p e @ [PeMessage (outgoing s pid data)]"
    using message_routing [OF assms(4)] assms(5-7) by auto
  ultimately show ?thesis using assms(2,3) r message_sent [of "TsSingle i" pid p data s]
    by (simp add: handle_service_task_def)
qed

text \<open>
  C10. Disconnecting completes: the service tells the session, the session that handles the event reports its end in the
  same poll, behind everything it still had to report, and the service that receives the report forgets the session and tells
  the user, once.
\<close>

theorem disconnect_completes:
  assumes "svc_ok s" "map_of (iv_sessions s) i = Some cx"
    and "cx_id (sk_ctx k) = i" "sk_state k = NormalState" "handle_session_event E c (SeSessionClose i) High k = Some k1"
    and "ses_finish E c is_pending k1 = Some (k2, r)"
  shows "iv_out (handle_service_task Es (TkDisconnect i) p s) = iv_out s @ [ToSession i High (SeSessionClose i)]
    \<and> (\<exists>ts es. sk_spawned k2 = sk_spawned k @ ts \<and> CloseTask (es @ [SeSessionClose i]) \<in> set ts) \<and> sk_substreams k2 = []
    \<and> (\<exists>s1. svc_session_event Es (SeSessionClose i) (handle_service_task Es (TkDisconnect i) p s) = Some s1
         \<and> session_ids s1 = filter (\<lambda>j. j \<noteq> i) (session_ids s) \<and> told s1 = told s @ [(False, i)]
         \<and> svc_session_event Es (SeSessionClose i) s1 = Some s1)"
proof -
  define s0 where "s0 = handle_service_task Es (TkDisconnect i) p s"
  define s1 where "s1 = session_close i Internal s0"
  have i: "i \<in> set (session_ids s)" using assms(2) map_of_ids [of s i] by auto
  have s0: "s0 = emit (ToSession i High (SeSessionClose i)) s" using assms(2) by (simp add: s0_def handle_service_task_def session_close_def)
  then have v: "view s0 = view s" by (simp add: view_emit)
  have "told s1 = told s @ [(False, i)]" "session_ids s1 = filter (\<lambda>j. j \<noteq> i) (session_ids s)"
    using close_internal_told [of s0 i] assms(1) i view_ok [OF v] view_ids [OF v] view_told [OF v] by (simp_all add: s1_def close_internal_ids)
  moreover have "session_close i Internal s1 = s1"
    using close_internal_ids [of i s0] map_of_ids [of s1 i] by (simp add: s1_def session_close_def Let_def emit_def split: option.splits)
  ultimately show ?thesis
    using local_close_reported [OF assms(5,4,6)] assms(3) s0 unfolding s0_def [symmetric]
    by (auto simp: reported_def svc_session_event_def s1_def emit_def)
qed

section \<open>One peer, one protocol\<close>

theorem message_end_to_end_witness:
  "\<exists>k1 e1. handle_session_event world_env 0 (SeProtocolMessage 1 [9]) Normal sample_ses_open = Some k1
     \<and> iv_out (handle_service_task calm_env (TkProtocolMessage (TsSingle 1) 1 [9]) Normal with_peer)
         = iv_out with_peer @ [ToSession 1 Normal (SeProtocolMessage 1 [9])]
     \<and> map_of (sk_substreams k1) 0 = Some e1 \<and> stream_queue Normal e1 = [PeMessage [9]]"
proof -
  let ?e = "(pb_new (Some 0), the (channel 8)) :: unit sub_entry"
  obtain k1 where k1: "handle_session_event world_env 0 (SeProtocolMessage 1 [9]) Normal sample_ses_open = Some k1"
    using sample_message by (auto split: option.splits)
  have o: "outgoing with_peer 1 [9] = [9]" using arrives(5) by (simp add: outgoing_def)
  have e: "\<not> sender_is_closed (pb_sender (fst ?e)) (snd ?e)" "stream_queue Normal ?e = []" by code_simp+
  have m: "map_of (sk_protos sample_ses_open) 1 = Some 0" "map_of (sk_substreams sample_ses_open) 0 = Some ?e"
    by (simp_all add: sample_ses_open_def)
  have "map_of (iv_sessions with_peer) 1 = Some peer_ctx" using arrives(2) by simp
  with message_end_to_end [where request = "CallSendMessageTo 1 1 [9]" and task = "TkProtocolMessage (TsSingle 1) 1 [9]" and p = Normal and i = 1
      and pid = 1 and data = "[9]" and s = with_peer and cx = peer_ctx and E = world_env and c = 0 and k = sample_ses_open and k' = k1
      and j = 0 and e = ?e and Es = calm_env] k1 m e
  show ?thesis unfolding o by simp
qed

lemma sample_disconnects:
  "case handle_session_event world_env 0 (SeSessionClose 1) High (sample_ses_open\<lparr>sk_ctx := peer_ctx\<rparr>) of
     None \<Rightarrow> False
   | Some k1 \<Rightarrow> (case ses_finish world_env 0 False k1 of None \<Rightarrow> False | Some _ \<Rightarrow> True)"
  by code_simp

theorem disconnect_completes_witness:
  "\<exists>s1. svc_session_event calm_env (SeSessionClose 1) (handle_service_task calm_env (TkDisconnect 1) High with_peer) = Some s1
     \<and> session_ids s1 = [] \<and> told s1 = [(True, 1), (False, 1)]"
proof -
  let ?k = "sample_ses_open\<lparr>sk_ctx := peer_ctx\<rparr>"
  obtain k1 k2 r where k: "handle_session_event world_env 0 (SeSessionClose 1) High ?k = Some k1" "ses_finish world_env 0 False k1 = Some (k2, r)"
    using sample_disconnects by (auto split: option.splits)
  have "cx_id (sk_ctx ?k) = 1" "sk_state ?k = NormalState"
    by (simp_all add: peer_ctx_def ses_ctx_new_def sample_ses_open_def sample_ses_def ses_new_def)
  from disconnect_completes [OF with_peer_facts(1) _ this k, of peer_ctx calm_env High] arrives(2,3) with_peer_facts(3)
  show ?thesis by auto
qed

end
